(* ===== verification/Prelude.thy ===== *)
theory Prelude
  imports Main "HOL-Library.AList"
begin

text \<open>
  Shared vocabulary of the development.

  \<^item> Python exceptions are values of \<open>py_exn\<close>; an operation that may raise returns
    \<open>'a res\<close>, with \<open>Inl\<close> for the exception. The interpolated parts of an error message
    are not modelled, only its constant text.
  \<^item> A Python \<open>dict\<close> is an association list in insertion order with distinct keys:
    \<open>d[k] = v\<close> is \<open>AList.update k v d\<close> (in place, or appended), \<open>d.pop(k, None)\<close> is
    \<open>AList.delete k d\<close>, \<open>d.get(k)\<close> is \<open>map_of d k\<close>.
  \<^item> The named collections \<open>inv_intros\<close> and \<open>frame_simps\<close> gather, per component, the
    facts that carry the invariant and frame proofs.
  \<^item> The locale \<open>invariant_system\<close> turns "every step keeps the invariant" into "every
    reachable state satisfies it"; each step relation of the development interprets it.
\<close>

section \<open>Exceptions and results\<close>

datatype py_exn =
    ValueError string
  | TypeError string
  | RuntimeError string
  | KeyError string
  | OverflowError string
  | TfError
  | StructError
  | IntegrityError string
  | MessageTooLarge nat nat
  | IncompleteRead nat nat
  | StaleLayerGraphError string
  | ReplayModeConflictError string
  | TransactionRejectedError string string int

type_synonym 'a res = "py_exn + 'a"

definition ok :: "'a res \<Rightarrow> bool" where
  "ok r \<longleftrightarrow> (case r of Inl _ \<Rightarrow> False | Inr _ \<Rightarrow> True)"

lemma ok_simps [simp]: "ok (Inr x)" "\<not> ok (Inl e)"
  by (simp_all add: ok_def)

lemma ok_iff: "ok r \<longleftrightarrow> (\<exists>x. r = Inr x)"
  by (cases r) auto

text \<open>Running a fallible step over a list, stopping at the first exception.\<close>

fun fold_res :: "('a \<Rightarrow> 's \<Rightarrow> 's res) \<Rightarrow> 'a list \<Rightarrow> 's \<Rightarrow> 's res" where
  "fold_res f [] s = Inr s"
| "fold_res f (x # xs) s = (case f x s of Inl e \<Rightarrow> Inl e | Inr s' \<Rightarrow> fold_res f xs s')"

fun map_res :: "('a \<Rightarrow> 'b res) \<Rightarrow> 'a list \<Rightarrow> 'b list res" where
  "map_res f [] = Inr []"
| "map_res f (x # xs) =
     (case f x of Inl e \<Rightarrow> Inl e
      | Inr y \<Rightarrow> (case map_res f xs of Inl e \<Rightarrow> Inl e | Inr ys \<Rightarrow> Inr (y # ys)))"

lemma fold_res_append:
  "fold_res f (xs @ ys) s = (case fold_res f xs s of Inl e \<Rightarrow> Inl e | Inr s' \<Rightarrow> fold_res f ys s')"
  by (induction xs arbitrary: s) (auto split: sum.split)

lemma fold_res_invariant:
  assumes "fold_res f xs s = Inr t" and "P s"
    and "\<And>x s s'. x \<in> set xs \<Longrightarrow> P s \<Longrightarrow> f x s = Inr s' \<Longrightarrow> P s'"
  shows "P t"
  using assms
proof (induction xs arbitrary: s)
  case (Cons x xs)
  then obtain s' where "f x s = Inr s'" "fold_res f xs s' = Inr t"
    by (auto split: sum.splits)
  with Cons show ?case by (metis list.set_intros)
qed simp

lemma map_res_length: "map_res f xs = Inr ys \<Longrightarrow> length ys = length xs"
  by (induction xs arbitrary: ys) (auto split: sum.splits)

lemma map_res_Inr: "map_res f xs = Inr ys \<Longrightarrow> list_all2 (\<lambda>x y. f x = Inr y) xs ys"
  by (induction xs arbitrary: ys) (auto split: sum.splits)

section \<open>Python dictionaries\<close>

abbreviation dict_keys :: "('k \<times> 'v) list \<Rightarrow> 'k list" where
  "dict_keys d \<equiv> map fst d"

abbreviation dict_values :: "('k \<times> 'v) list \<Rightarrow> 'v list" where
  "dict_values d \<equiv> map snd d"

definition wf_dict :: "('k \<times> 'v) list \<Rightarrow> bool" where
  "wf_dict d \<longleftrightarrow> distinct (dict_keys d)"

definition dict_get :: "('k \<times> 'v) list \<Rightarrow> 'k \<Rightarrow> 'v \<Rightarrow> 'v" where
  "dict_get d k v = (case map_of d k of None \<Rightarrow> v | Some x \<Rightarrow> x)"

text \<open>\<open>dict.update\<close>: the entries of the second dictionary are stored in order.\<close>

definition dict_update :: "('k \<times> 'v) list \<Rightarrow> ('k \<times> 'v) list \<Rightarrow> ('k \<times> 'v) list" where
  "dict_update d e = fold (\<lambda>(k, v) acc. AList.update k v acc) e d"

named_theorems frame_simps "frame facts of the operations"
named_theorems inv_intros "invariant preservation facts"

lemma map_of_update [simp]: "map_of (AList.update k v d) = (map_of d)(k \<mapsto> v)"
  by (simp add: update_conv')

lemma map_of_dict_delete [simp]: "map_of (AList.delete k d) = (map_of d)(k := None)"
  by (simp add: delete_conv')

lemma wf_dict_Nil [simp]: "wf_dict []"
  by (simp add: wf_dict_def)

lemma wf_dict_update [simp, intro]: "wf_dict d \<Longrightarrow> wf_dict (AList.update k v d)"
  by (simp add: wf_dict_def distinct_update)

lemma wf_dict_delete [simp, intro]: "wf_dict d \<Longrightarrow> wf_dict (AList.delete k d)"
  by (simp add: wf_dict_def distinct_delete)

lemma wf_dict_filter [simp, intro]: "wf_dict d \<Longrightarrow> wf_dict (filter P d)"
  by (simp add: wf_dict_def distinct_map_filter)

lemma wf_dict_snoc [simp]:
  "wf_dict (d @ [(k, v)]) \<longleftrightarrow> wf_dict d \<and> map_of d k = None"
  by (auto simp: wf_dict_def map_of_eq_None_iff)

lemma wf_dict_map_of: "wf_dict d \<Longrightarrow> (k, v) \<in> set d \<Longrightarrow> map_of d k = Some v"
  by (simp add: wf_dict_def)

lemma map_of_filter_key:
  "map_of (filter (\<lambda>(k, v). P k) d) k = (if P k then map_of d k else None)"
  by (induction d) auto

lemma map_of_filter_val:
  "wf_dict d \<Longrightarrow> map_of (filter (\<lambda>(k, v). P k v) d) k =
     (case map_of d k of None \<Rightarrow> None | Some v \<Rightarrow> if P k v then Some v else None)"
proof (induction d)
  case (Cons kv d)
  obtain k' v' where kv: "kv = (k', v')" by (cases kv)
  from Cons.prems have wf: "wf_dict d" and notin: "map_of d k' = None"
    by (auto simp: wf_dict_def kv map_of_eq_None_iff)
  from Cons.IH [OF wf] notin show ?case by (auto simp: kv split: option.splits)
qed simp

lemma dict_keys_set: "set (dict_keys d) = dom (map_of d)"
  by (simp add: dom_map_of_conv_image_fst)

lemma map_of_dict_update: "map_of (dict_update d e) = map_of d ++ map_of (rev e)"
proof -
  have "map_of (fold (\<lambda>(k, v) acc. AList.update k v acc) e d) = map_of d ++ map_of (rev e)"
    by (induction e arbitrary: d) auto
  then show ?thesis by (simp add: dict_update_def)
qed

lemma wf_dict_dict_update [simp, intro]: "wf_dict d \<Longrightarrow> wf_dict (dict_update d e)"
proof -
  have "wf_dict d \<Longrightarrow> wf_dict (fold (\<lambda>(k, v) acc. AList.update k v acc) e d)"
    by (induction e arbitrary: d) auto
  then show "wf_dict d \<Longrightarrow> wf_dict (dict_update d e)" by (simp add: dict_update_def)
qed

section \<open>Running maxima\<close>

lemma fold_max_ge: "(m :: 'a :: linorder) \<le> fold max xs m"
proof (induction xs arbitrary: m)
  case (Cons a xs)
  have "max a m \<le> fold max xs (max a m)" by (rule Cons.IH)
  then show ?case by simp
qed simp

lemma fold_max_member: "x \<in> set xs \<Longrightarrow> (x :: 'a :: linorder) \<le> fold max xs m"
proof (induction xs arbitrary: m)
  case (Cons a xs)
  show ?case
  proof (cases "x = a")
    case True
    have "max a m \<le> fold max xs (max a m)" by (rule fold_max_ge)
    with True show ?thesis by simp
  next
    case False
    with Cons show ?thesis by simp
  qed
qed simp

section \<open>Decimal text of an integer\<close>

fun nat_digits :: "nat \<Rightarrow> string" where
  "nat_digits n = (if n < 10 then [char_of (48 + n)] else nat_digits (n div 10) @ [char_of (48 + n mod 10)])"

declare nat_digits.simps [simp del]

definition int_str :: "int \<Rightarrow> string" where
  "int_str i = (if i < 0 then CHR ''-'' # nat_digits (nat (- i)) else nat_digits (nat i))"

section \<open>Reachable states\<close>

text \<open>
  The interface of a step system: a step relation and a predicate every step keeps.
\<close>

locale invariant_system =
  fixes step :: "'s \<Rightarrow> 's \<Rightarrow> bool"
    and invar :: "'s \<Rightarrow> bool"
  assumes step_invar: "step s t \<Longrightarrow> invar s \<Longrightarrow> invar t"
begin

lemma reach_invar: "step\<^sup>*\<^sup>* s t \<Longrightarrow> invar s \<Longrightarrow> invar t"
  by (induction rule: rtranclp_induct) (auto intro: step_invar)

end

text \<open>A step system with a measure of progress no step decreases.\<close>

locale monotone_system = invariant_system step invar
  for step :: "'s \<Rightarrow> 's \<Rightarrow> bool" and invar :: "'s \<Rightarrow> bool" +
  fixes rank :: "'s \<Rightarrow> int"
  assumes step_rank: "step s t \<Longrightarrow> invar s \<Longrightarrow> rank s \<le> rank t"
begin

lemma reach_rank: "step\<^sup>*\<^sup>* s t \<Longrightarrow> invar s \<Longrightarrow> rank s \<le> rank t"
proof (induction rule: rtranclp_induct)
  case (step t u)
  then have "invar t" by (blast intro: reach_invar)
  with step show ?case by (meson order_trans step_rank)
qed simp

end

end
