(* ===== verification/Producer_Session.thy ===== *)
theory Producer_Session
  imports Prelude
begin

text \<open>
  The producer's ordered outbox and session automaton that \<open>EventSender\<close> owns
  (\<open>native/client_core/include/openusdconnect/client/producer_session.h\<close> and
  \<open>detail/ordered_outbox_storage.h\<close>). Every method holds the session's mutex, so each is one
  atomic operation here. Transaction ids are unsigned 64-bit counters that start at 1; a session
  would have to submit \<open>2^64\<close> transactions to wrap one, and they are integers here. Event
  counts and sizes are naturals.
\<close>

record 'p entry =
  e_id :: int
  e_payload :: 'p
  e_events :: nat
  e_layer :: string

record 'p outbox =
  ob_queue :: "'p entry list"
  ob_capacity :: nat
  ob_next_unsent :: nat
  ob_pending_events :: nat
  ob_next_id :: int
  ob_submitted :: nat
  ob_last_ack :: int
  ob_acked_txns :: nat
  ob_acked_events :: nat
  ob_since_drain :: nat

section \<open>The outbox\<close>

definition new_outbox :: "nat \<Rightarrow> 'p outbox" where
  "new_outbox capacity = \<lparr>ob_queue = [], ob_capacity = capacity, ob_next_unsent = 0,
     ob_pending_events = 0, ob_next_id = 1, ob_submitted = 0, ob_last_ack = 0, ob_acked_txns = 0,
     ob_acked_events = 0, ob_since_drain = 0\<rparr>"

definition ob_can_append :: "'p outbox \<Rightarrow> bool" where
  "ob_can_append ob \<longleftrightarrow> length (ob_queue ob) < ob_capacity ob"

definition ob_append :: "int \<Rightarrow> 'p \<Rightarrow> nat \<Rightarrow> string \<Rightarrow> 'p outbox \<Rightarrow> 'p outbox" where
  "ob_append i payload n layer ob =
     ob\<lparr>ob_pending_events := ob_pending_events ob + n,
        ob_queue := ob_queue ob @ [\<lparr>e_id = i, e_payload = payload, e_events = n, e_layer = layer\<rparr>],
        ob_next_id := ob_next_id ob + 1, ob_submitted := ob_submitted ob + 1\<rparr>"

definition ob_contains :: "int \<Rightarrow> 'p outbox \<Rightarrow> bool" where
  "ob_contains i ob \<longleftrightarrow> list_ex (\<lambda>e. e_id e = i) (ob_queue ob)"

fun replace_first :: "int \<Rightarrow> 'p entry \<Rightarrow> 'p entry list \<Rightarrow> 'p entry list" where
  "replace_first i new [] = []"
| "replace_first i new (e # es) = (if e_id e = i then new # es else e # replace_first i new es)"

definition found_events :: "int \<Rightarrow> 'p entry list \<Rightarrow> nat" where
  "found_events i es = (case find (\<lambda>e. e_id e = i) es of None \<Rightarrow> 0 | Some e \<Rightarrow> e_events e)"

definition ob_replace :: "int \<Rightarrow> 'p \<Rightarrow> nat \<Rightarrow> string \<Rightarrow> 'p outbox \<Rightarrow> 'p outbox" where
  "ob_replace i payload n layer ob =
     ob\<lparr>ob_pending_events := ob_pending_events ob - found_events i (ob_queue ob) + n,
        ob_queue := replace_first i \<lparr>e_id = i, e_payload = payload, e_events = n, e_layer = layer\<rparr> (ob_queue ob)\<rparr>"

text \<open>The pop loop: the number and the events of the entries it removes, and what is left.\<close>

fun pop_through :: "int \<Rightarrow> 'p entry list \<Rightarrow> nat \<times> nat \<times> 'p entry list" where
  "pop_through i [] = (0, 0, [])"
| "pop_through i (e # es) =
     (if e_id e \<le> i then let (txns, events, rest) = pop_through i es in (txns + 1, events + e_events e, rest)
      else (0, 0, e # es))"

definition ob_acknowledge :: "int \<Rightarrow> 'p outbox \<Rightarrow> 'p outbox" where
  "ob_acknowledge i ob =
     (let (txns, events, rest) = pop_through i (ob_queue ob)
      in ob\<lparr>ob_queue := rest, ob_pending_events := ob_pending_events ob - events,
            ob_next_unsent := (if txns < ob_next_unsent ob then ob_next_unsent ob - txns else 0),
            ob_next_id := max (ob_next_id ob) (i + 1), ob_last_ack := max (ob_last_ack ob) i,
            ob_acked_txns := ob_acked_txns ob + txns, ob_acked_events := ob_acked_events ob + events,
            ob_since_drain := ob_since_drain ob + events\<rparr>)"

definition ob_reset :: "'p outbox \<Rightarrow> 'p outbox" where
  "ob_reset ob = ob\<lparr>ob_queue := [], ob_next_unsent := 0, ob_pending_events := 0, ob_next_id := 1,
     ob_last_ack := 0\<rparr>"

definition ob_claim :: "'p outbox \<Rightarrow> 'p entry option \<times> 'p outbox" where
  "ob_claim ob =
     (if ob_next_unsent ob = length (ob_queue ob) then (None, ob)
      else (Some (ob_queue ob ! ob_next_unsent ob), ob\<lparr>ob_next_unsent := ob_next_unsent ob + 1\<rparr>))"

definition ob_mark_unsent :: "'p outbox \<Rightarrow> 'p outbox" where
  "ob_mark_unsent ob = ob\<lparr>ob_next_unsent := 0\<rparr>"

definition ob_drain :: "'p outbox \<Rightarrow> nat \<times> 'p outbox" where
  "ob_drain ob = (ob_since_drain ob, ob\<lparr>ob_since_drain := 0\<rparr>)"

section \<open>The session automaton\<close>

datatype producer_phase = Disconnected | AwaitingHello | Ready | RecoveryRequired

datatype producer_result = Accepted | StaleGeneration | InvalidPhase | ResultRecoveryRequired
  | HighwaterAhead | HighwaterRegressed | OutboxFull | SequenceMismatch | NoPendingTransaction
  | TransactionMissing | RecoveryNotRecoverable | InvalidArgument

datatype recovery_disposition = NoDisposition | RecoverableConflict | InvalidOperation | SessionFatal

record 'p session =
  ss_outbox :: "'p outbox"
  ss_phase :: producer_phase
  ss_disposition :: recovery_disposition
  ss_generation :: int
  ss_rejected :: int

definition new_session :: "nat \<Rightarrow> 'p session" where
  "new_session capacity = \<lparr>ss_outbox = new_outbox capacity, ss_phase = Disconnected,
     ss_disposition = NoDisposition, ss_generation = 0, ss_rejected = 0\<rparr>"

definition require_phase :: "int \<Rightarrow> producer_phase \<Rightarrow> 'p session \<Rightarrow> producer_result" where
  "require_phase generation required s =
     (if generation \<noteq> ss_generation s then StaleGeneration
      else if ss_phase s = RecoveryRequired then ResultRecoveryRequired
      else if ss_phase s = required then Accepted else InvalidPhase)"

definition validate_highwater :: "int \<Rightarrow> 'p session \<Rightarrow> producer_result" where
  "validate_highwater i s =
     (if i > ob_next_id (ss_outbox s) - 1 then HighwaterAhead
      else if i < ob_last_ack (ss_outbox s) then HighwaterRegressed else Accepted)"

definition enter_recovery :: "int \<Rightarrow> recovery_disposition \<Rightarrow> 'p session \<Rightarrow> 'p session" where
  "enter_recovery i disposition s = s\<lparr>ss_outbox := ob_mark_unsent (ss_outbox s), ss_rejected := i,
     ss_disposition := disposition, ss_phase := RecoveryRequired\<rparr>"

definition begin_connection :: "'p session \<Rightarrow> int option \<times> 'p session" where
  "begin_connection s =
     (if ss_phase s = RecoveryRequired then (None, s)
      else (Some (ss_generation s + 1), s\<lparr>ss_generation := ss_generation s + 1,
        ss_outbox := ob_mark_unsent (ss_outbox s), ss_phase := AwaitingHello\<rparr>))"

text \<open>\<open>AcceptHello\<close> and \<open>AcknowledgeThrough\<close> share the highwater step.\<close>

definition take_highwater :: "int \<Rightarrow> 'p session \<Rightarrow> producer_result \<times> 'p session" where
  "take_highwater i s =
     (let r = validate_highwater i s
      in if r \<noteq> Accepted then (r, enter_recovery 0 SessionFatal s)
         else (Accepted, s\<lparr>ss_outbox := ob_acknowledge i (ss_outbox s)\<rparr>))"

definition accept_hello :: "int \<Rightarrow> int \<Rightarrow> 'p session \<Rightarrow> producer_result \<times> 'p session" where
  "accept_hello generation committed_through s =
     (let active = require_phase generation AwaitingHello s
      in if active \<noteq> Accepted then (active, s)
         else case take_highwater committed_through s of
           (Accepted, s1) \<Rightarrow> (Accepted, s1\<lparr>ss_phase := Ready\<rparr>) | (r, s1) \<Rightarrow> (r, s1))"

definition session_disconnect :: "int \<Rightarrow> 'p session \<Rightarrow> producer_result \<times> 'p session" where
  "session_disconnect generation s =
     (if generation \<noteq> ss_generation s then (StaleGeneration, s)
      else (Accepted, s\<lparr>ss_outbox := ob_mark_unsent (ss_outbox s),
        ss_phase := (if ss_phase s \<noteq> RecoveryRequired then Disconnected else RecoveryRequired)\<rparr>))"

definition session_append ::
  "int \<Rightarrow> int \<Rightarrow> 'p \<Rightarrow> nat \<Rightarrow> string \<Rightarrow> 'p session \<Rightarrow> producer_result \<times> 'p session" where
  "session_append generation i payload n layer s =
     (if n = 0 then (InvalidArgument, s)
      else let active = require_phase generation Ready s
      in if active \<noteq> Accepted then (active, s)
         else if \<not> ob_can_append (ss_outbox s) then (OutboxFull, s)
         else if i \<noteq> ob_next_id (ss_outbox s) then (SequenceMismatch, s)
         else (Accepted, s\<lparr>ss_outbox := ob_append i payload n layer (ss_outbox s)\<rparr>))"

definition claim_next_unsent :: "int \<Rightarrow> 'p session \<Rightarrow> producer_result \<times> 'p entry option \<times> 'p session" where
  "claim_next_unsent generation s =
     (let active = require_phase generation Ready s
      in if active \<noteq> Accepted then (active, None, s)
         else case ob_claim (ss_outbox s) of
           (None, ob) \<Rightarrow> (NoPendingTransaction, None, s\<lparr>ss_outbox := ob\<rparr>)
         | (Some e, ob) \<Rightarrow> (Accepted, Some e, s\<lparr>ss_outbox := ob\<rparr>))"

definition acknowledge_through :: "int \<Rightarrow> int \<Rightarrow> 'p session \<Rightarrow> producer_result \<times> 'p session" where
  "acknowledge_through generation i s =
     (let active = require_phase generation Ready s
      in if active \<noteq> Accepted then (active, s) else take_highwater i s)"

definition session_reject :: "int \<Rightarrow> int \<Rightarrow> recovery_disposition \<Rightarrow> 'p session \<Rightarrow> producer_result \<times> 'p session" where
  "session_reject generation i disposition s =
     (let active = require_phase generation Ready s
      in if active \<noteq> Accepted then (active, s)
         else if \<not> ob_contains i (ss_outbox s) then (TransactionMissing, enter_recovery i SessionFatal s)
         else (Accepted, enter_recovery i disposition s))"

definition repair_rejected :: "'p \<Rightarrow> nat \<Rightarrow> string \<Rightarrow> 'p session \<Rightarrow> producer_result \<times> 'p session" where
  "repair_rejected payload n layer s =
     (if n = 0 then (InvalidArgument, s)
      else if ss_phase s \<noteq> RecoveryRequired then (InvalidPhase, s)
      else if ss_disposition s \<noteq> RecoverableConflict then (RecoveryNotRecoverable, s)
      else (Accepted, s\<lparr>ss_outbox := ob_replace (ss_rejected s) payload n layer (ss_outbox s),
        ss_rejected := 0, ss_disposition := NoDisposition, ss_phase := Disconnected\<rparr>))"

definition reset_session :: "'p session \<Rightarrow> 'p session" where
  "reset_session s = s\<lparr>ss_generation := ss_generation s + 1, ss_outbox := ob_reset (ss_outbox s),
     ss_rejected := 0, ss_disposition := NoDisposition, ss_phase := Disconnected\<rparr>"

definition session_can_append :: "'p session \<Rightarrow> bool" where
  "session_can_append s \<longleftrightarrow> ss_phase s = Ready \<and> ob_can_append (ss_outbox s)"

section \<open>Invariant\<close>

text \<open>
  The queue holds the submitted transactions that are not acknowledged, in id order without
  gaps, within the capacity, and the cursor and the event counter agree with it.
\<close>

definition ob_inv :: "'p outbox \<Rightarrow> bool" where
  "ob_inv ob \<longleftrightarrow> map e_id (ob_queue ob) = [ob_last_ack ob + 1 .. ob_next_id ob - 1] \<and>
     0 \<le> ob_last_ack ob \<and> ob_last_ack ob < ob_next_id ob \<and>
     ob_pending_events ob = sum_list (map e_events (ob_queue ob)) \<and>
     ob_next_unsent ob \<le> length (ob_queue ob) \<and> length (ob_queue ob) \<le> ob_capacity ob \<and>
     (\<forall>e \<in> set (ob_queue ob). 0 < e_events e)"

definition ss_inv :: "'p session \<Rightarrow> bool" where
  "ss_inv s \<longleftrightarrow> ob_inv (ss_outbox s) \<and>
     (ss_phase s = RecoveryRequired \<and> ss_disposition s = RecoverableConflict \<longrightarrow>
        ob_contains (ss_rejected s) (ss_outbox s))"

lemma pop_through_spec:
  "pop_through i q = (length (takeWhile (\<lambda>e. e_id e \<le> i) q),
     sum_list (map e_events (takeWhile (\<lambda>e. e_id e \<le> i) q)), dropWhile (\<lambda>e. e_id e \<le> i) q)"
  by (induction q) auto

lemma takeWhile_upto: "takeWhile (\<lambda>x. x \<le> i) [a..b] = [a..min b i]" for a b i :: int
proof (induction a b rule: upto.induct)
  case (1 a b)
  show ?case
  proof (cases "a \<le> b \<and> a \<le> i")
    case True
    with 1 show ?thesis by (simp add: upto_rec1)
  next
    case False
    then show ?thesis by (cases "a \<le> b") (auto simp: upto_rec1 [of a b])
  qed
qed

text \<open>Acknowledging removes as many entries as the mark moves.\<close>

lemma ob_acknowledge_queue:
  assumes "ob_inv ob" "ob_last_ack ob \<le> i" "i < ob_next_id ob"
  defines "k \<equiv> nat (i - ob_last_ack ob)"
  shows "pop_through i (ob_queue ob) = (k, sum_list (map e_events (take k (ob_queue ob))), drop k (ob_queue ob))"
    "k \<le> length (ob_queue ob)"
proof -
  have ids: "map e_id (ob_queue ob) = [ob_last_ack ob + 1 .. ob_next_id ob - 1]" using assms(1) by (simp add: ob_inv_def)
  define t where "t = takeWhile (\<lambda>e. e_id e \<le> i) (ob_queue ob)"
  have "map e_id t = takeWhile (\<lambda>x. x \<le> i) (map e_id (ob_queue ob))"
    by (simp add: t_def takeWhile_map o_def)
  then have "length t = length [ob_last_ack ob + 1 .. min (ob_next_id ob - 1) i]"
    by (metis length_map ids takeWhile_upto)
  also have "min (ob_next_id ob - 1) i = i" using assms(3) by simp
  then have "length [ob_last_ack ob + 1 .. min (ob_next_id ob - 1) i] = k" by (simp add: k_def)
  finally have len: "length t = k" .
  have "t = take (length t) (ob_queue ob)" unfolding t_def by (rule takeWhile_eq_take)
  then have "t = take k (ob_queue ob)" by (simp add: len)
  moreover have "dropWhile (\<lambda>e. e_id e \<le> i) (ob_queue ob) = drop k (ob_queue ob)"
    using dropWhile_eq_drop [of "\<lambda>e. e_id e \<le> i" "ob_queue ob", folded t_def] by (simp add: len)
  ultimately show "pop_through i (ob_queue ob) =
      (k, sum_list (map e_events (take k (ob_queue ob))), drop k (ob_queue ob))"
    using len by (simp add: pop_through_spec flip: t_def)
  show "k \<le> length (ob_queue ob)" using len by (metis t_def length_takeWhile_le)
qed

lemma drop_upto: "drop k [a..b] = [a + int k..b]" for a b :: int
proof (induction k arbitrary: a)
  case (Suc k)
  have "tl [a..b] = [a + 1..b]" by (cases "a \<le> b") (simp_all add: upto_rec1)
  with Suc.IH [of "a + 1"] show ?case by (simp add: drop_Suc add.assoc)
qed simp

lemma sum_list_take_drop: "sum_list (map f xs) = sum_list (map f (take k xs)) + sum_list (map f (drop k xs))"
  by (metis append_take_drop_id map_append sum_list_append)

lemma ob_inv_acknowledge:
  assumes "ob_inv ob" "ob_last_ack ob \<le> i" "i < ob_next_id ob"
  shows "ob_inv (ob_acknowledge i ob)"
proof -
  define k where "k = nat (i - ob_last_ack ob)"
  note pop = ob_acknowledge_queue [OF assms, folded k_def]
  have ids: "map e_id (drop k (ob_queue ob)) = [i + 1 .. ob_next_id ob - 1]"
    using assms drop_map [of k e_id "ob_queue ob"] by (simp add: ob_inv_def drop_upto k_def add.commute)
  have "max (ob_next_id ob) (i + 1) = ob_next_id ob" "max (ob_last_ack ob) i = i" using assms(2,3) by auto
  with assms ids pop sum_list_take_drop [of e_events "ob_queue ob" k] show ?thesis
    by (auto simp: ob_inv_def ob_acknowledge_def dest: in_set_dropD)
qed

lemma ob_inv_simple [inv_intros]:
  "ob_inv ob \<Longrightarrow> ob_inv (ob_mark_unsent ob)" "ob_inv ob \<Longrightarrow> ob_inv (ob_reset ob)"
  "ob_inv (new_outbox n)" "ob_inv ob \<Longrightarrow> ob_inv (snd (ob_drain ob))" "ob_inv ob \<Longrightarrow> ob_inv (snd (ob_claim ob))"
  by (auto simp: ob_inv_def ob_mark_unsent_def ob_reset_def new_outbox_def ob_drain_def ob_claim_def)

lemma ob_inv_append [inv_intros]:
  assumes "ob_inv ob" "ob_can_append ob" "0 < n"
  shows "ob_inv (ob_append (ob_next_id ob) payload n layer ob)"
  using assms by (auto simp: ob_inv_def ob_append_def ob_can_append_def upto_rec2)

lemma replace_first_spec:
  "distinct (map e_id q) \<Longrightarrow> e_id new = i \<Longrightarrow> i \<in> e_id ` set q \<Longrightarrow>
     map e_id (replace_first i new q) = map e_id q \<and> length (replace_first i new q) = length q \<and>
     found_events i q \<le> sum_list (map e_events q) \<and>
     sum_list (map e_events (replace_first i new q)) = sum_list (map e_events q) - found_events i q + e_events new \<and>
     set (replace_first i new q) \<subseteq> insert new (set q)"
proof (induction q)
  case (Cons e q)
  then show ?case by (cases "e_id e = i") (auto simp: found_events_def)
qed simp

lemma ob_inv_replace [inv_intros]:
  assumes "ob_inv ob" "ob_contains i ob" "0 < n"
  shows "ob_inv (ob_replace i payload n layer ob)"
proof -
  define new where "new = \<lparr>e_id = i, e_payload = payload, e_events = n, e_layer = layer\<rparr>"
  have "distinct (map e_id (ob_queue ob))" using assms(1) by (simp add: ob_inv_def)
  moreover have "i \<in> e_id ` set (ob_queue ob)" using assms(2) by (auto simp: ob_contains_def list_ex_iff)
  ultimately have "map e_id (replace_first i new (ob_queue ob)) = map e_id (ob_queue ob) \<and>
      length (replace_first i new (ob_queue ob)) = length (ob_queue ob) \<and>
      sum_list (map e_events (replace_first i new (ob_queue ob))) =
        sum_list (map e_events (ob_queue ob)) - found_events i (ob_queue ob) + n \<and>
      set (replace_first i new (ob_queue ob)) \<subseteq> insert new (set (ob_queue ob))"
    using replace_first_spec [of "ob_queue ob" new i] by (simp add: new_def)
  with assms show ?thesis unfolding ob_inv_def ob_replace_def new_def [symmetric]
    by (auto simp: new_def)
qed

section \<open>Every session operation keeps the invariant\<close>

lemma highwater_bounds:
  "validate_highwater i s = Accepted \<longleftrightarrow> ob_last_ack (ss_outbox s) \<le> i \<and> i < ob_next_id (ss_outbox s)"
  by (auto simp: validate_highwater_def)

lemma contains_mark [simp]: "ob_contains i (ob_mark_unsent ob) = ob_contains i ob"
  by (simp add: ob_contains_def ob_mark_unsent_def)

lemma ss_inv_enter_recovery:
  "ss_inv s \<Longrightarrow> d = RecoverableConflict \<Longrightarrow> ob_contains i (ss_outbox s) \<Longrightarrow> ss_inv (enter_recovery i d s)"
  "ss_inv s \<Longrightarrow> d \<noteq> RecoverableConflict \<Longrightarrow> ss_inv (enter_recovery i d s)"
  by (auto simp: ss_inv_def enter_recovery_def ob_inv_simple)

lemma ss_inv_take_highwater:
  assumes "ss_inv s" "ss_phase s \<noteq> RecoveryRequired"
  shows "ss_inv (snd (take_highwater i s))"
proof (cases "validate_highwater i s = Accepted")
  case True
  with assms highwater_bounds [of i s] ob_inv_acknowledge [of "ss_outbox s" i] show ?thesis
    by (auto simp: take_highwater_def ss_inv_def)
next
  case False
  with assms ss_inv_enter_recovery(2) [of s SessionFatal 0] show ?thesis by (simp add: take_highwater_def)
qed

lemma require_phase_Accepted:
  "require_phase g ph s = Accepted \<longleftrightarrow> g = ss_generation s \<and> ss_phase s = ph \<and> ph \<noteq> RecoveryRequired"
  by (auto simp: require_phase_def)

lemma ss_inv_operations:
  assumes "ss_inv s"
  shows "ss_inv (snd (begin_connection s))" "ss_inv (snd (accept_hello g c s))"
    "ss_inv (snd (session_disconnect g s))" "ss_inv (snd (session_append g i p n l s))"
    "ss_inv (snd (snd (claim_next_unsent g s)))" "ss_inv (snd (acknowledge_through g i s))"
    "ss_inv (snd (session_reject g i d s))" "ss_inv (snd (repair_rejected p n l s))"
    "ss_inv (reset_session s)"
proof -
  have ob: "ob_inv (ss_outbox s)" using assms by (simp add: ss_inv_def)
  show "ss_inv (snd (begin_connection s))" "ss_inv (snd (session_disconnect g s))" "ss_inv (reset_session s)"
    using assms by (auto simp: begin_connection_def session_disconnect_def reset_session_def ss_inv_def ob_inv_simple)
  show "ss_inv (snd (session_append g i p n l s))"
    using assms ob_inv_append [of "ss_outbox s" n p l]
    by (auto simp: session_append_def Let_def ss_inv_def require_phase_Accepted)
  show "ss_inv (snd (snd (claim_next_unsent g s)))"
    using assms ob_inv_simple(5) [OF ob]
    by (auto simp: claim_next_unsent_def Let_def ss_inv_def require_phase_Accepted split: prod.split option.split)
  have hw: "ss_inv (snd (take_highwater j s))" if "ss_phase s \<noteq> RecoveryRequired" for j
    by (rule ss_inv_take_highwater [OF assms that])
  show "ss_inv (snd (acknowledge_through g i s))"
    using assms hw by (auto simp: acknowledge_through_def Let_def require_phase_Accepted)
  have "ss_inv (snd (case take_highwater c s of (Accepted, s1) \<Rightarrow> (Accepted, s1\<lparr>ss_phase := Ready\<rparr>) | (r, s1) \<Rightarrow> (r, s1)))"
    if "ss_phase s \<noteq> RecoveryRequired"
    using hw [OF that, of c] by (cases "take_highwater c s") (auto simp: ss_inv_def split: producer_result.split)
  then show "ss_inv (snd (accept_hello g c s))"
    using assms by (auto simp: accept_hello_def Let_def require_phase_Accepted)
  show "ss_inv (snd (session_reject g i d s))"
    using assms ss_inv_enter_recovery [OF assms]
    by (cases "d = RecoverableConflict") (auto simp: session_reject_def Let_def)
  show "ss_inv (snd (repair_rejected p n l s))"
    using assms ob_inv_replace [OF ob, of "ss_rejected s" n p l]
    by (auto simp: repair_rejected_def ss_inv_def)
qed

end
