(* ===== verification/Framing.thy ===== *)
theory Framing
  imports Prelude "HOL-Library.Word"
begin

text \<open>
  Length-prefixed framing (\<open>openusdconnect/framing.py\<close>): a frame is a four-byte
  big-endian payload length followed by the payload. Bytes are \<open>8 word\<close>.

  A socket is the list of segments its peer will deliver before closing; one
  \<open>recv_into\<close> returns at most one segment, so every way TCP can cut the stream is a list
  of non-empty segments. A buffered \<open>rfile\<close> is a byte stream. What a sender does to its
  socket is the list of its \<open>sendall\<close> calls.
\<close>

type_synonym byte = "8 word"
type_synonym bytes = "byte list"
type_synonym socket = "bytes list"

definition HEADER_SIZE :: nat where "HEADER_SIZE = 4"
definition MAX_MESSAGE_SIZE :: nat where "MAX_MESSAGE_SIZE = 16 * 1024 * 1024"
definition COALESCE_LIMIT :: nat where "COALESCE_LIMIT = 64 * 1024"

text \<open>\<open>struct.Struct(">I")\<close>: packing a value that does not fit raises \<open>struct.error\<close>.\<close>

definition be32 :: "nat \<Rightarrow> bytes" where
  "be32 n = [of_nat (n div 16777216), of_nat (n div 65536 mod 256),
             of_nat (n div 256 mod 256), of_nat (n mod 256)]"

definition header_pack :: "nat \<Rightarrow> bytes res" where
  "header_pack n = (if n < 2 ^ 32 then Inr (be32 n) else Inl StructError)"

definition header_unpack :: "bytes \<Rightarrow> nat" where
  "header_unpack h = fold (\<lambda>b acc. acc * 256 + unat b) h 0"

definition send_framed :: "bytes \<Rightarrow> bytes list res" where
  "send_framed payload =
     (case header_pack (length payload) of Inl e \<Rightarrow> Inl e
      | Inr header \<Rightarrow>
          Inr (if length payload \<le> COALESCE_LIMIT then [header @ payload]
               else [header, payload]))"

fun recv_into :: "nat \<Rightarrow> socket \<Rightarrow> bytes \<times> socket" where
  "recv_into n [] = ([], [])"
| "recv_into n (seg # rest) =
     (if length seg \<le> n then (seg, rest) else (take n seg, drop n seg # rest))"

function recv_exact_loop :: "nat \<Rightarrow> bytes \<Rightarrow> socket \<Rightarrow> bytes res \<times> socket" where
  "recv_exact_loop n buf sock =
     (if length buf < n then
        (let (got, sock') = recv_into (n - length buf) sock in
         if got = [] then (Inl (IncompleteRead n (length buf)), sock')
         else recv_exact_loop n (buf @ got) sock')
      else (Inr buf, sock))"
  by pat_completeness auto
termination
proof (relation "measure (\<lambda>(n, buf, sock). n - length buf)")
  show "wf (measure (\<lambda>(n, buf, sock). n - length buf))" by simp
next
  fix n buf sock x xa y
  assume "length (buf :: bytes) < n" "x = recv_into (n - length buf) sock"
    "(xa, y) = x" "xa \<noteq> []"
  then show "((n, buf @ xa, y), n, buf, sock) \<in> measure (\<lambda>(n, buf, sock). n - length buf)"
    by (cases xa) auto
qed

declare recv_exact_loop.simps [simp del]

definition recv_exact :: "socket \<Rightarrow> nat \<Rightarrow> bytes res \<times> socket" where
  "recv_exact sock n = recv_exact_loop n [] sock"

definition recv_framed :: "socket \<Rightarrow> nat \<Rightarrow> bytes res \<times> socket" where
  "recv_framed sock max_size =
     (case recv_exact sock HEADER_SIZE of (Inl e, sock') \<Rightarrow> (Inl e, sock')
      | (Inr header, sock') \<Rightarrow>
          (let len = header_unpack header in
           if len > max_size then (Inl (MessageTooLarge len max_size), sock')
           else recv_exact sock' len))"

definition send_framed_wfile :: "bytes \<Rightarrow> bytes \<Rightarrow> bytes res" where
  "send_framed_wfile wfile payload =
     (case header_pack (length payload) of Inl e \<Rightarrow> Inl e
      | Inr header \<Rightarrow> Inr (wfile @ header @ payload))"

text \<open>\<open>rfile.read(n)\<close> returns fewer than \<open>n\<close> bytes only at the end of the stream.\<close>

definition rfile_read :: "bytes \<Rightarrow> nat \<Rightarrow> bytes \<times> bytes" where
  "rfile_read rfile n = (take n rfile, drop n rfile)"

definition recv_framed_rfile :: "bytes \<Rightarrow> nat \<Rightarrow> bytes res \<times> bytes" where
  "recv_framed_rfile rfile max_size =
     (let (header, rfile1) = rfile_read rfile HEADER_SIZE in
      if length header < HEADER_SIZE
      then (Inl (IncompleteRead HEADER_SIZE (length header)), rfile1)
      else let len = header_unpack header in
        if len > max_size then (Inl (MessageTooLarge len max_size), rfile1)
        else let (data, rfile2) = rfile_read rfile1 len in
          if length data < len then (Inl (IncompleteRead len (length data)), rfile2)
          else (Inr data, rfile2))"

text \<open>
  \<open>frame_batch\<close> fills one preallocated buffer: \<open>splice\<close> is the slice assignment
  \<open>buf[off:off+len(xs)] = xs\<close> of equal length.
\<close>

definition splice :: "nat \<Rightarrow> 'a list \<Rightarrow> 'a list \<Rightarrow> 'a list" where
  "splice off xs buf = take off buf @ xs @ drop (off + length xs) buf"

fun frame_batch_loop :: "bytes list \<Rightarrow> bytes \<Rightarrow> nat \<Rightarrow> bytes res" where
  "frame_batch_loop [] buf offset = Inr buf"
| "frame_batch_loop (p # ps) buf offset =
     (case header_pack (length p) of Inl e \<Rightarrow> Inl e
      | Inr header \<Rightarrow>
          (let buf1 = splice offset header buf;
               offset1 = offset + HEADER_SIZE;
               buf2 = splice offset1 p buf1
           in frame_batch_loop ps buf2 (offset1 + length p)))"

definition frame_batch :: "bytes list \<Rightarrow> bytes res" where
  "frame_batch payloads =
     (let total = sum_list (map (\<lambda>p. length p + HEADER_SIZE) payloads)
      in frame_batch_loop payloads (replicate total 0) 0)"

section \<open>Reference: one frame, a stream of frames\<close>

definition frame :: "bytes \<Rightarrow> bytes" where
  "frame p = be32 (length p) @ p"

fun recv_n :: "nat \<Rightarrow> nat \<Rightarrow> socket \<Rightarrow> bytes list res" where
  "recv_n 0 max_size sock = Inr []"
| "recv_n (Suc k) max_size sock =
     (case recv_framed sock max_size of (Inl e, _) \<Rightarrow> Inl e
      | (Inr p, sock') \<Rightarrow>
          (case recv_n k max_size sock' of Inl e \<Rightarrow> Inl e | Inr ps \<Rightarrow> Inr (p # ps)))"

definition segmented :: "socket \<Rightarrow> bool" where
  "segmented sock \<longleftrightarrow> [] \<notin> set sock"

lemma length_be32 [simp]: "length (be32 n) = 4"
  by (simp add: be32_def)

lemma header_unpack_be32: "n < 2 ^ 32 \<Longrightarrow> header_unpack (be32 n) = n"
proof -
  assume "n < 2 ^ 32"
  then have hi: "n div 16777216 < 256" by simp
  have unat8: "unat (of_nat k :: byte) = k" if "k < 256" for k
    using that by (simp add: unat_of_nat take_bit_nat_eq_self)
  have "header_unpack (be32 n) =
      ((n div 16777216 * 256 + n div 65536 mod 256) * 256 + n div 256 mod 256) * 256 + n mod 256"
    using hi by (simp add: header_unpack_def be32_def unat8)
  also have "\<dots> = n"
  proof -
    have "n div 16777216 = n div 65536 div 256" "n div 65536 = n div 256 div 256"
      by (simp_all add: div_mult2_eq [symmetric])
    then show ?thesis by presburger
  qed
  finally show ?thesis .
qed

section \<open>Reading exactly\<close>

lemma recv_into_spec:
  assumes "segmented sock" "0 < n" "recv_into n sock = (got, sock')"
  shows "got @ concat sock' = concat sock \<and> segmented sock' \<and> length got \<le> n
    \<and> (got = [] \<longleftrightarrow> concat sock = [])"
  using assms by (cases sock) (auto simp: segmented_def split: if_splits)

lemma recv_exact_loop_ok:
  assumes "segmented sock" "n \<le> length (buf @ concat sock)" "length buf \<le> n"
  shows "\<exists>sock'. recv_exact_loop n buf sock = (Inr (take n (buf @ concat sock)), sock')
    \<and> concat sock' = drop n (buf @ concat sock) \<and> segmented sock'"
  using assms
proof (induction n buf sock rule: recv_exact_loop.induct)
  case (1 n buf sock)
  show ?case
  proof (cases "length buf < n")
    case True
    obtain got sock' where got: "recv_into (n - length buf) sock = (got, sock')"
      by fastforce
    have "concat sock \<noteq> []" using True "1.prems"(2) by (metis append_Nil2 linorder_not_le)
    with recv_into_spec [OF "1.prems"(1) _ got] True
    have spec: "got @ concat sock' = concat sock" "segmented sock'"
      "length got \<le> n - length buf" "got \<noteq> []"
      by (auto simp del: concat_eq_Nil_conv)
    then have "\<exists>t. recv_exact_loop n (buf @ got) sock'
        = (Inr (take n ((buf @ got) @ concat sock')), t)
      \<and> concat t = drop n ((buf @ got) @ concat sock') \<and> segmented t"
      using "1.prems" True got by (intro "1.IH") auto
    with spec True got show ?thesis
      by (simp add: recv_exact_loop.simps [of n buf sock] flip: spec(1))
  next
    case False
    with "1.prems" show ?thesis by (simp add: recv_exact_loop.simps [of n buf sock])
  qed
qed

lemma recv_exact_loop_short:
  assumes "segmented sock" "length (buf @ concat sock) < n"
  shows "\<exists>sock'. recv_exact_loop n buf sock
    = (Inl (IncompleteRead n (length (buf @ concat sock))), sock')"
  using assms
proof (induction n buf sock rule: recv_exact_loop.induct)
  case (1 n buf sock)
  then have lt: "length buf < n" by simp
  obtain got sock' where got: "recv_into (n - length buf) sock = (got, sock')"
    by fastforce
  with recv_into_spec [OF "1.prems"(1) _ got] lt
  have spec: "got @ concat sock' = concat sock" "segmented sock'"
    "got = [] \<longleftrightarrow> concat sock = []"
    by (auto simp del: concat_eq_Nil_conv)
  show ?case
  proof (cases "got = []")
    case True
    then have "concat sock = []" using spec(3) by simp
    with True lt got show ?thesis
      by (simp add: recv_exact_loop.simps [of n buf sock] del: concat_eq_Nil_conv)
  next
    case False
    have len: "length (buf @ concat sock) = length ((buf @ got) @ concat sock')"
      by (simp flip: spec(1))
    have "\<exists>t. recv_exact_loop n (buf @ got) sock'
        = (Inl (IncompleteRead n (length ((buf @ got) @ concat sock'))), t)"
    proof (rule "1.IH")
      show "length ((buf @ got) @ concat sock') < n" using "1.prems"(2) len by simp
    qed (use lt got False spec in auto)
    then obtain t where "recv_exact_loop n (buf @ got) sock'
        = (Inl (IncompleteRead n (length (buf @ concat sock))), t)"
      using len by auto
    with False lt got show ?thesis
      by (simp add: recv_exact_loop.simps [of n buf sock])
  qed
qed

lemma recv_exact_ok:
  assumes "segmented sock" "concat sock = xs @ ys"
  shows "\<exists>sock'. recv_exact sock (length xs) = (Inr xs, sock')
    \<and> concat sock' = ys \<and> segmented sock'"
  using recv_exact_loop_ok [of sock "length xs" "[]"] assms by (simp add: recv_exact_def)

lemma recv_framed_frame:
  assumes "segmented sock" "concat sock = frame p @ rest"
    and "length p \<le> max_size" "length p < 2 ^ 32"
  shows "\<exists>sock'. recv_framed sock max_size = (Inr p, sock')
    \<and> concat sock' = rest \<and> segmented sock'"
proof -
  from assms(2) have "concat sock = be32 (length p) @ (p @ rest)"
    by (simp add: frame_def)
  from recv_exact_ok [OF assms(1) this] obtain s1 where
    s1: "recv_exact sock 4 = (Inr (be32 (length p)), s1)"
      "concat s1 = p @ rest" "segmented s1"
    by auto
  from recv_exact_ok [OF s1(3,2)] obtain s2 where
    "recv_exact s1 (length p) = (Inr p, s2)" "concat s2 = rest" "segmented s2"
    by auto
  with s1 assms(3,4) show ?thesis
    by (simp add: recv_framed_def HEADER_SIZE_def header_unpack_be32)
qed

lemma recv_n_frames:
  assumes "segmented sock" "concat sock = concat (map frame ps) @ rest"
    and "\<forall>p \<in> set ps. length p \<le> max_size \<and> length p < 2 ^ 32"
  shows "recv_n (length ps) max_size sock = Inr ps"
  using assms
proof (induction ps arbitrary: sock)
  case (Cons p ps)
  from Cons.prems have "concat sock = frame p @ (concat (map frame ps) @ rest)" by simp
  from recv_framed_frame [OF Cons.prems(1) this, of max_size] Cons.prems(3) obtain s where
    s: "recv_framed sock max_size = (Inr p, s)" "concat s = concat (map frame ps) @ rest"
      "segmented s"
    by auto
  from Cons.IH [OF s(3,2)] Cons.prems(3) s(1) show ?case by simp
qed simp

section \<open>The batch writer\<close>

lemma splice_at_length:
  "length xs \<le> length zs \<Longrightarrow> splice (length ys) xs (ys @ zs) = ys @ xs @ drop (length xs) zs"
  by (simp add: splice_def)

lemma frame_batch_loop_eq:
  assumes "\<forall>p \<in> set ps. length p < 2 ^ 32"
    and "length zs = sum_list (map (\<lambda>p. length p + HEADER_SIZE) ps)"
  shows "frame_batch_loop ps (ys @ zs) (length ys) = Inr (ys @ concat (map frame ps))"
  using assms
proof (induction ps arbitrary: ys zs)
  case (Cons p ps)
  define h where "h = be32 (length p)"
  have lens: "length h = 4" "4 + length p \<le> length zs"
    using Cons.prems(2) by (auto simp: h_def HEADER_SIZE_def)
  have s1: "splice (length ys) h (ys @ zs) = (ys @ h) @ drop 4 zs"
    using lens splice_at_length [of h zs ys] by simp
  have s2: "splice (length ys + 4) p ((ys @ h) @ drop 4 zs)
      = ((ys @ h) @ p) @ drop (4 + length p) zs"
    using lens splice_at_length [of p "drop 4 zs" "ys @ h"] by (simp add: add.commute)
  have "frame_batch_loop ps (((ys @ h) @ p) @ drop (4 + length p) zs) (length ((ys @ h) @ p))
      = Inr (((ys @ h) @ p) @ concat (map frame ps))"
    by (rule Cons.IH) (use Cons.prems lens in \<open>auto simp: HEADER_SIZE_def\<close>)
  with Cons.prems(1) s1 s2 lens show ?case
    by (simp add: header_pack_def HEADER_SIZE_def Let_def frame_def [of p] add.assoc flip: h_def)
qed simp

lemma frame_batch_eq:
  "\<forall>p \<in> set ps. length p < 2 ^ 32 \<Longrightarrow> frame_batch ps = Inr (concat (map frame ps))"
  using frame_batch_loop_eq [of ps "replicate (sum_list (map (\<lambda>p. length p + HEADER_SIZE) ps)) 0" "[]"]
  by (simp add: frame_batch_def Let_def)

end
