(* ===== verification/Event_Store.thy ===== *)
theory Event_Store
  imports Framing "HOL-Library.List_Lexorder" "HOL-Library.Char_ord"
begin

text \<open>
  The event log (\<open>openusdconnect/event_store.py\<close>): the interface \<open>EventStore\<close> as the
  locale \<open>event_store\<close>, its SQLite implementation as operations on \<open>store\<close>, and the
  interpretation of the one by the other.

  A table is the list of its rows in insertion order; primary keys and uniqueness are
  checked by the inserts. SQLite itself is not under \<open>src/\<close>: whether the database engine
  accepts a write transaction is the argument \<open>db_ok\<close> of every writing operation, so every
  theorem holds for an engine that fails at any of them. Strings are UTF-8 byte strings,
  compared bytewise as SQLite's BINARY collation does.
\<close>

record event_row =
  row_seq :: int
  row_bin :: bytes
  row_client_id :: "string option"
  row_kind :: "string option"
  row_prim :: "string option"

record producer_progress =
  pp_client_id :: string
  pp_session_id :: string
  pp_committed_through :: int

record layer_identity =
  li_identifier :: string
  li_layer_key :: string

record store =
  events :: "event_row list"
  producer_sessions :: "((string \<times> string) \<times> int) list"
  shared_layer_identities :: "(string \<times> string) list"

definition empty_store :: store where
  "empty_store = \<lparr>events = [], producer_sessions = [], shared_layer_identities = []\<rparr>"

section \<open>Statements\<close>

definition insert_event :: "event_row \<Rightarrow> store \<Rightarrow> store res" where
  "insert_event r st =
     (if row_seq r \<in> set (map row_seq (events st))
      then Inl (IntegrityError ''UNIQUE constraint failed: events.seq'')
      else Inr (st\<lparr>events := events st @ [r]\<rparr>))"

definition upsert_progress :: "producer_progress \<Rightarrow> store \<Rightarrow> store res" where
  "upsert_progress p st =
     (let key = (pp_client_id p, pp_session_id p);
          value = (case map_of (producer_sessions st) key of
                     None \<Rightarrow> pp_committed_through p
                   | Some c \<Rightarrow> max c (pp_committed_through p))
      in Inr (st\<lparr>producer_sessions := AList.update key value (producer_sessions st)\<rparr>))"

text \<open>
  The trigger refuses to remap an identifier; \<open>layer_key\<close> is \<open>UNIQUE\<close>.
\<close>

definition upsert_identity :: "layer_identity \<Rightarrow> store \<Rightarrow> store res" where
  "upsert_identity l st =
     (case map_of (shared_layer_identities st) (li_identifier l) of
        Some key \<Rightarrow>
          if key \<noteq> li_layer_key l
          then Inl (IntegrityError ''shared layer identity cannot be remapped'')
          else Inr st
      | None \<Rightarrow>
          if li_layer_key l \<in> set (dict_values (shared_layer_identities st))
          then Inl (IntegrityError ''UNIQUE constraint failed: layer_key'')
          else Inr (st\<lparr>shared_layer_identities :=
                 AList.update (li_identifier l) (li_layer_key l) (shared_layer_identities st)\<rparr>))"

section \<open>Operations\<close>

definition store_append :: "bool \<Rightarrow> event_row \<Rightarrow> store \<Rightarrow> unit res \<times> store" where
  "store_append db_ok r st =
     (if \<not> db_ok then (Inl (IntegrityError ''database error''), st)
      else case insert_event r st of Inl e \<Rightarrow> (Inl e, st) | Inr st' \<Rightarrow> (Inr (), st'))"

definition batch_statements ::
  "event_row list \<Rightarrow> producer_progress list \<Rightarrow> layer_identity list \<Rightarrow> store \<Rightarrow> store res" where
  "batch_statements records progress identities st =
     (case fold_res insert_event records st of Inl e \<Rightarrow> Inl e
      | Inr st1 \<Rightarrow>
          (case fold_res upsert_progress progress st1 of Inl e \<Rightarrow> Inl e
           | Inr st2 \<Rightarrow> fold_res upsert_identity identities st2))"

definition append_batch ::
  "bool \<Rightarrow> event_row list \<Rightarrow> producer_progress list \<Rightarrow> layer_identity list \<Rightarrow> store
     \<Rightarrow> unit res \<times> store" where
  "append_batch db_ok records progress identities st =
     (if records = [] \<and> progress = [] \<and> identities = [] then (Inr (), st)
      else if \<not> db_ok then (Inl (IntegrityError ''database error''), st)
      else case batch_statements records progress identities st of
             Inl e \<Rightarrow> (Inl e, st)
           | Inr st' \<Rightarrow> (Inr (), st'))"

definition get_layer_identities :: "store \<Rightarrow> layer_identity list" where
  "get_layer_identities st =
     map (\<lambda>(i, k). \<lparr>li_identifier = i, li_layer_key = k\<rparr>)
       (sort_key fst (shared_layer_identities st))"

definition get_producer_progress :: "string \<Rightarrow> string \<Rightarrow> store \<Rightarrow> int" where
  "get_producer_progress client_id session_id st =
     (case map_of (producer_sessions st) (client_id, session_id) of
        None \<Rightarrow> 0 | Some c \<Rightarrow> c)"

definition get_max_seq :: "store \<Rightarrow> int" where
  "get_max_seq st =
     (case map row_seq (events st) of [] \<Rightarrow> 0 | s # ss \<Rightarrow> fold max ss s)"

definition get_count :: "store \<Rightarrow> nat" where
  "get_count st = length (events st)"

definition get_all_asc :: "store \<Rightarrow> (int \<times> bytes) list" where
  "get_all_asc st = map (\<lambda>r. (row_seq r, row_bin r)) (sort_key row_seq (events st))"

definition get_from_seq_bin :: "int \<Rightarrow> int option \<Rightarrow> store \<Rightarrow> bytes list" where
  "get_from_seq_bin seq_start seq_end st =
     map row_bin (sort_key row_seq
       (filter (\<lambda>r. seq_start \<le> row_seq r \<and>
                  (case seq_end of None \<Rightarrow> True | Some e \<Rightarrow> row_seq r \<le> e)) (events st)))"

definition get_from_seq_asc :: "int \<Rightarrow> store \<Rightarrow> (int \<times> bytes) list" where
  "get_from_seq_asc seq_start st =
     map (\<lambda>r. (row_seq r, row_bin r))
       (sort_key row_seq (filter (\<lambda>r. seq_start \<le> row_seq r) (events st)))"

text \<open>
  SQLite's \<open>LIKE\<close>: \<open>%\<close> matches any run, \<open>_\<close> any one character, ASCII letters compare
  without case. The needle is not escaped by \<open>query\<close>.
\<close>

definition lower :: "char \<Rightarrow> char" where
  "lower c = (if CHR ''A'' \<le> c \<and> c \<le> CHR ''Z'' then char_of (of_char c + 32 :: nat) else c)"

fun sql_like :: "string \<Rightarrow> string \<Rightarrow> bool" where
  "sql_like [] text = (text = [])"
| "sql_like (p # ps) text =
     (if p = CHR ''%'' then
        sql_like ps text \<or> (case text of [] \<Rightarrow> False | _ # ts \<Rightarrow> sql_like (p # ps) ts)
      else case text of [] \<Rightarrow> False
           | t # ts \<Rightarrow> (p = CHR ''_'' \<or> lower p = lower t) \<and> sql_like ps ts)"

definition query_matches :: "string \<Rightarrow> string \<Rightarrow> event_row \<Rightarrow> bool" where
  "query_matches kind prim_contains r \<longleftrightarrow>
     (kind = [] \<or> row_kind r = Some kind) \<and>
     (prim_contains = [] \<or>
        (case row_prim r of None \<Rightarrow> False
         | Some p \<Rightarrow> sql_like (CHR ''%'' # prim_contains @ ''%'') p))"

definition query :: "int \<Rightarrow> int \<Rightarrow> string \<Rightarrow> string \<Rightarrow> store \<Rightarrow> bytes list \<times> nat" where
  "query offset limit kind prim_contains st =
     (let matching = filter (query_matches kind prim_contains) (events st);
          page = drop (nat offset) (rev (sort_key row_seq matching));
          page = (if limit < 0 then page else take (nat limit) page)
      in (map row_bin page, length matching))"

text \<open>The exclusive upper bound is the prefix followed by U+FFFF (bytes EF BF BF).\<close>

definition prefix_upper :: "string \<Rightarrow> string" where
  "prefix_upper prefix = prefix @ map char_of [239 :: nat, 191, 191]"

definition get_by_prim_prefix :: "string \<Rightarrow> string list \<Rightarrow> store \<Rightarrow> bytes list" where
  "get_by_prim_prefix prefix kinds st =
     (if kinds = [] then []
      else map row_bin (sort_key row_seq
        (filter (\<lambda>r. (case row_prim r of None \<Rightarrow> False
                      | Some p \<Rightarrow> prefix \<le> p \<and> p < prefix_upper prefix) \<and>
                     (case row_kind r of None \<Rightarrow> False | Some k \<Rightarrow> k \<in> set kinds))
          (events st))))"

definition clear_and_rewrite :: "bool \<Rightarrow> event_row list \<Rightarrow> bool \<Rightarrow> store \<Rightarrow> unit res \<times> store" where
  "clear_and_rewrite db_ok records clear_producers st =
     (if \<not> db_ok then (Inl (IntegrityError ''database error''), st)
      else let st1 = st\<lparr>events := []\<rparr>;
               st2 = (if clear_producers then st1\<lparr>producer_sessions := []\<rparr> else st1)
        in case fold_res insert_event records st2 of
             Inl e \<Rightarrow> (Inl e, st)
           | Inr st' \<Rightarrow> (Inr (), st'))"

section \<open>Well-formed stores\<close>

definition store_inv :: "store \<Rightarrow> bool" where
  "store_inv st \<longleftrightarrow> distinct (map row_seq (events st)) \<and> wf_dict (producer_sessions st) \<and>
     wf_dict (shared_layer_identities st) \<and>
     distinct (dict_values (shared_layer_identities st))"

lemma store_inv_empty [simp]: "store_inv empty_store"
  by (simp add: store_inv_def empty_store_def)

lemma inserts_eq:
  "fold_res insert_event rs st = Inr st' \<longleftrightarrow>
     distinct (map row_seq rs) \<and> set (map row_seq rs) \<inter> set (map row_seq (events st)) = {} \<and>
     st' = st\<lparr>events := events st @ rs\<rparr>"
  by (induction rs arbitrary: st) (auto simp: insert_event_def)

lemma upserts_progress_total: "\<exists>st'. fold_res upsert_progress ps st = Inr st'"
  by (induction ps arbitrary: st) (auto simp: upsert_progress_def Let_def)

lemma upserts_progress_frame:
  "fold_res upsert_progress ps st = Inr st' \<Longrightarrow> events st' = events st \<and>
     shared_layer_identities st' = shared_layer_identities st"
  by (induction ps arbitrary: st) (auto simp: upsert_progress_def Let_def)

lemma upserts_progress_inv:
  "fold_res upsert_progress ps st = Inr st' \<Longrightarrow> store_inv st \<Longrightarrow> store_inv st'"
  by (induction ps arbitrary: st) (auto simp: upsert_progress_def Let_def store_inv_def)

lemma upsert_identity_frame:
  "upsert_identity l st = Inr st' \<Longrightarrow> events st' = events st \<and>
     producer_sessions st' = producer_sessions st"
  by (auto simp: upsert_identity_def split: option.splits if_splits)

lemma upserts_identity_frame:
  "fold_res upsert_identity ls st = Inr st' \<Longrightarrow> events st' = events st \<and>
     producer_sessions st' = producer_sessions st"
  by (induction ls arbitrary: st) (auto split: sum.splits dest!: upsert_identity_frame)

lemma AList_update_new: "map_of d k = None \<Longrightarrow> AList.update k v d = d @ [(k, v)]"
  by (induction d) (auto split: if_splits)

lemma upsert_identity_inv:
  "upsert_identity l st = Inr st' \<Longrightarrow> store_inv st \<Longrightarrow> store_inv st'"
  by (auto simp: upsert_identity_def store_inv_def AList_update_new split: option.splits if_splits)

lemma upserts_identity_inv:
  "fold_res upsert_identity ls st = Inr st' \<Longrightarrow> store_inv st \<Longrightarrow> store_inv st'"
  by (erule fold_res_invariant) (auto intro: upsert_identity_inv)

lemma upsert_identity_keeps:
  "upsert_identity l st = Inr st' \<Longrightarrow>
     map_of (shared_layer_identities st) \<subseteq>\<^sub>m map_of (shared_layer_identities st') \<and>
     map_of (shared_layer_identities st') (li_identifier l) = Some (li_layer_key l)"
  by (auto simp: upsert_identity_def map_le_def split: option.splits if_splits)

lemma upserts_identity_keeps:
  "fold_res upsert_identity ls st = Inr st' \<Longrightarrow>
     map_of (shared_layer_identities st) \<subseteq>\<^sub>m map_of (shared_layer_identities st')"
proof (induction ls arbitrary: st)
  case (Cons l ls)
  then obtain s1 where "upsert_identity l st = Inr s1" "fold_res upsert_identity ls s1 = Inr st'"
    by (auto split: sum.splits)
  with Cons.IH upsert_identity_keeps show ?case by (meson map_le_trans)
qed simp

text \<open>The stored progress of a session after a run of upserts.\<close>

lemma upsert_progress_get:
  "upsert_progress p st = Inr st' \<Longrightarrow> get_producer_progress c s st' =
     (if (c, s) = (pp_client_id p, pp_session_id p) then
        (if map_of (producer_sessions st) (c, s) = None then pp_committed_through p
         else max (get_producer_progress c s st) (pp_committed_through p))
      else get_producer_progress c s st)"
  by (auto simp: upsert_progress_def get_producer_progress_def Let_def split: option.splits)

section \<open>Queries\<close>

lemma get_max_seq_Max:
  "events st \<noteq> [] \<Longrightarrow> get_max_seq st = Max (set (map row_seq (events st)))"
proof -
  assume "events st \<noteq> []"
  then obtain s ss where "map row_seq (events st) = s # ss"
    by (cases "map row_seq (events st)") auto
  then show ?thesis unfolding get_max_seq_def by (simp only: list.case Max.set_eq_fold)
qed

lemma get_max_seq_Nil: "events st = [] \<Longrightarrow> get_max_seq st = 0"
  by (simp add: get_max_seq_def)

lemma get_max_seq_ge: "r \<in> set (events st) \<Longrightarrow> row_seq r \<le> get_max_seq st"
  by (subst get_max_seq_Max) (auto simp: Max_ge)

lemma get_max_seq_le:
  "events st \<noteq> [] \<Longrightarrow> (get_max_seq st \<le> n) = (\<forall>r \<in> set (events st). row_seq r \<le> n)"
  by (simp add: get_max_seq_Max)

lemma sort_key_append_ge:
  assumes "\<And>x y. x \<in> set xs \<Longrightarrow> y \<in> set ys \<Longrightarrow> f x \<le> f y" and "sorted (map f ys)"
  shows "sort_key f (xs @ ys) = sort_key f xs @ ys"
  using assms
proof (induction xs)
  case Nil
  then show ?case by (simp add: sort_key_id_if_sorted)
next
  case (Cons x xs)
  have "insort_key f x (zs @ ys) = insort_key f x zs @ ys" for zs
    using Cons.prems by (induction zs) (cases ys, auto)
  with Cons show ?case by simp
qed

text \<open>The bytewise range scan is the prefix test on ASCII paths.\<close>

lemma list_less_append_iff:
  fixes us :: "('a :: linorder) list"
  shows "us \<le> us @ vs"
  by (induction us) auto

lemma range_scan_prefix:
  assumes "\<forall>c \<in> set p. of_char c < (128 :: nat)" "\<forall>c \<in> set prefix. of_char c < (128 :: nat)"
  shows "prefix \<le> p \<and> p < prefix_upper prefix \<longleftrightarrow> (\<exists>rest. p = prefix @ rest)"
  using assms
proof (induction prefix arbitrary: p)
  case Nil
  have "p < map char_of [239 :: nat, 191, 191]"
    using Nil.prems(1) by (cases p) (auto simp: less_char_def)
  then show ?case by (simp add: prefix_upper_def)
next
  case (Cons c prefix)
  show ?case
  proof (cases p)
    case Nil
    then show ?thesis by simp
  next
    case (Cons d p')
    with Cons.IH [of p'] Cons.prems show ?thesis
      by (auto simp: prefix_upper_def)
  qed
qed


section \<open>The store's contract\<close>

text \<open>
  What the clients of \<open>EventStore\<close> rely on: a failed batch changes nothing, a successful one
  appends exactly its rows and raises the progress of each named session to at least the
  given mark; queries read the ascending log.
\<close>

definition row_pair :: "event_row \<Rightarrow> int \<times> bytes" where
  "row_pair r = (row_seq r, row_bin r)"

definition marks :: "string \<Rightarrow> string \<Rightarrow> producer_progress list \<Rightarrow> int list" where
  "marks c s ps = map pp_committed_through
     (filter (\<lambda>p. pp_client_id p = c \<and> pp_session_id p = s) ps)"

definition fresh_rows :: "int \<Rightarrow> event_row list \<Rightarrow> bool" where
  "fresh_rows head rs \<longleftrightarrow> sorted_wrt (<) (map row_seq rs) \<and> (\<forall>r \<in> set rs. head < row_seq r)"

locale event_store =
  fixes append :: "bool \<Rightarrow> event_row list \<Rightarrow> producer_progress list \<Rightarrow> layer_identity list
      \<Rightarrow> 's \<Rightarrow> unit res \<times> 's"
    and rewrite :: "bool \<Rightarrow> event_row list \<Rightarrow> bool \<Rightarrow> 's \<Rightarrow> unit res \<times> 's"
    and progress_of :: "string \<Rightarrow> string \<Rightarrow> 's \<Rightarrow> int"
    and max_seq :: "'s \<Rightarrow> int"
    and all_asc :: "'s \<Rightarrow> (int \<times> bytes) list"
    and suffix_asc :: "int \<Rightarrow> 's \<Rightarrow> (int \<times> bytes) list"
    and invar :: "'s \<Rightarrow> bool"
  assumes append_error: "append db rs ps ls s = (Inl e, s') \<Longrightarrow> s' = s"
    and append_invar: "append db rs ps ls s = (r, s') \<Longrightarrow> invar s \<Longrightarrow> invar s'"
    and append_rows: "append db rs ps ls s = (Inr (), s') \<Longrightarrow> invar s \<Longrightarrow>
      fresh_rows (max_seq s) rs \<Longrightarrow> all_asc s' = all_asc s @ map row_pair rs"
    and append_progress: "append db rs ps ls s = (Inr (), s') \<Longrightarrow>
      \<forall>p \<in> set ps. 0 \<le> pp_committed_through p \<Longrightarrow>
      progress_of c t s' = fold max (marks c t ps) (progress_of c t s)"
    and rewrite_error: "rewrite db rs clear s = (Inl e, s') \<Longrightarrow> s' = s"
    and rewrite_invar: "rewrite db rs clear s = (r, s') \<Longrightarrow> invar s \<Longrightarrow> invar s'"
    and rewrite_rows: "rewrite db rs clear s = (Inr (), s') \<Longrightarrow> fresh_rows 0 rs \<Longrightarrow>
      all_asc s' = map row_pair rs"
    and rewrite_progress: "rewrite db rs False s = (Inr (), s') \<Longrightarrow>
      progress_of c t s' = progress_of c t s"
    and suffix_filter: "suffix_asc n s = filter (\<lambda>p. n \<le> fst p) (all_asc s)"
    and max_seq_last: "max_seq s = (if all_asc s = [] then 0 else fst (last (all_asc s)))"
    and asc_sorted: "invar s \<Longrightarrow> sorted_wrt (<) (map fst (all_asc s))"
begin

lemma below_head:
  assumes "invar s" "p \<in> set (all_asc s)"
  shows "fst p \<le> max_seq s"
proof -
  from assms(2) obtain ps q where split: "all_asc s = ps @ [q]"
    by (metis list.set(1) empty_iff rev_exhaust)
  with assms asc_sorted [OF assms(1)] show ?thesis
    by (auto simp: max_seq_last sorted_wrt_append)
qed

lemma head_after_append:
  assumes "append db rs ps ls s = (Inr (), s')" "invar s" "fresh_rows (max_seq s) rs"
  shows "max_seq s' = (if rs = [] then max_seq s else row_seq (last rs))"
  using append_rows [OF assms] by (auto simp: max_seq_last row_pair_def last_map)

text \<open>Replay from just past the old head returns exactly the new rows.\<close>

lemma suffix_after_append:
  assumes "append db rs ps ls s = (Inr (), s')" "invar s" "fresh_rows (max_seq s) rs"
  shows "suffix_asc (max_seq s + 1) s' = map row_pair rs"
proof -
  have old: "filter (\<lambda>p. max_seq s + 1 \<le> fst p) (all_asc s) = []"
    using below_head [OF assms(2)] by (force simp: filter_empty_conv)
  have new: "filter (\<lambda>p. max_seq s + 1 \<le> fst p) (map row_pair rs) = map row_pair rs"
    using assms(3) by (auto simp: fresh_rows_def row_pair_def filter_id_conv)
  show ?thesis by (simp only: suffix_filter append_rows [OF assms] filter_append old new append_Nil)
qed

lemma progress_monotone:
  assumes "append db rs ps ls s = (r, s')" "\<forall>p \<in> set ps. 0 \<le> pp_committed_through p"
  shows "progress_of c t s \<le> progress_of c t s'"
proof (cases r)
  case (Inl e)
  with assms show ?thesis using append_error by fastforce
next
  case (Inr u)
  with append_progress [of db rs ps ls s s' c t] assms show ?thesis by (simp add: fold_max_ge)
qed

end

subsection \<open>SQLite provides it\<close>

lemma batch_statements_events:
  "batch_statements rs ps ls st = Inr st' \<Longrightarrow> events st' = events st @ rs \<and>
     distinct (map row_seq rs) \<and> set (map row_seq rs) \<inter> set (map row_seq (events st)) = {}"
  by (auto simp: batch_statements_def inserts_eq dest!: upserts_progress_frame upserts_identity_frame
      split: sum.splits)

lemma batch_statements_inv:
  assumes "batch_statements rs ps ls st = Inr st'" "store_inv st"
  shows "store_inv st'"
proof -
  from assms(1) obtain s1 s2 where s: "fold_res insert_event rs st = Inr s1"
    "fold_res upsert_progress ps s1 = Inr s2" "fold_res upsert_identity ls s2 = Inr st'"
    by (auto simp: batch_statements_def split: sum.splits)
  from s(1) assms(2) have "store_inv s1"
    by (auto simp: inserts_eq store_inv_def)
  with s upserts_progress_inv upserts_identity_inv show ?thesis by blast
qed

lemma upserts_progress_get:
  assumes "fold_res upsert_progress ps st = Inr st'" "\<forall>p \<in> set ps. 0 \<le> pp_committed_through p"
  shows "get_producer_progress c s st' = fold max (marks c s ps) (get_producer_progress c s st)"
  using assms
proof (induction ps arbitrary: st)
  case Nil
  then show ?case by (simp add: marks_def)
next
  case (Cons p ps)
  then obtain s1 where s1: "upsert_progress p st = Inr s1" "fold_res upsert_progress ps s1 = Inr st'"
    by (auto split: sum.splits)
  have "get_producer_progress c s s1 =
      (if pp_client_id p = c \<and> pp_session_id p = s
       then max (pp_committed_through p) (get_producer_progress c s st)
       else get_producer_progress c s st)"
    using upsert_progress_get [OF s1(1), of c s] Cons.prems(2)
    by (auto simp: get_producer_progress_def max.commute)
  with Cons.IH [OF s1(2)] Cons.prems(2) show ?case by (simp add: marks_def)
qed

lemma batch_statements_progress:
  assumes "batch_statements rs ps ls st = Inr st'" "\<forall>p \<in> set ps. 0 \<le> pp_committed_through p"
  shows "get_producer_progress c s st' = fold max (marks c s ps) (get_producer_progress c s st)"
proof -
  from assms(1) obtain s1 s2 where s: "fold_res insert_event rs st = Inr s1"
    "fold_res upsert_progress ps s1 = Inr s2" "fold_res upsert_identity ls s2 = Inr st'"
    by (auto simp: batch_statements_def split: sum.splits)
  have "get_producer_progress c s s1 = get_producer_progress c s st"
    using s(1) by (auto simp: inserts_eq get_producer_progress_def)
  moreover have "get_producer_progress c s st' = get_producer_progress c s s2"
    using upserts_identity_frame [OF s(3)] by (simp add: get_producer_progress_def)
  ultimately show ?thesis using upserts_progress_get [OF s(2) assms(2), of c s] by simp
qed

lemma append_batch_Inr:
  "append_batch db rs ps ls st = (Inr (), st') \<Longrightarrow>
     batch_statements rs ps ls st = Inr st' \<and> (db \<or> rs = [] \<and> ps = [] \<and> ls = [] \<and> st' = st)"
  by (auto simp: append_batch_def batch_statements_def split: if_splits sum.splits)

lemma append_batch_Inl: "append_batch db rs ps ls st = (Inl e, st') \<Longrightarrow> st' = st"
  by (auto simp: append_batch_def split: if_splits sum.splits)

lemma get_all_asc_eq: "get_all_asc st = map row_pair (sort_key row_seq (events st))"
  by (simp add: get_all_asc_def row_pair_def fun_eq_iff)

lemma sort_key_fresh:
  assumes "fresh_rows (get_max_seq st) rs"
  shows "sort_key row_seq (events st @ rs) = sort_key row_seq (events st) @ rs"
proof (rule sort_key_append_ge)
  show "row_seq x \<le> row_seq y" if "x \<in> set (events st)" "y \<in> set rs" for x y
    using that get_max_seq_ge [of x st] assms by (force simp: fresh_rows_def)
  show "sorted (map row_seq rs)"
    using assms by (auto simp: fresh_rows_def strict_sorted_iff)
qed

lemma get_max_seq_last:
  "get_max_seq st = (if get_all_asc st = [] then 0 else fst (last (get_all_asc st)))"
proof (cases "events st = []")
  case False
  define xs where "xs = sort_key row_seq (events st)"
  have xs: "xs \<noteq> []" "set xs = set (events st)" "sorted (map row_seq xs)"
    using False by (auto simp: xs_def) (metis set_empty set_sort)
  have "Max (set (map row_seq xs)) = row_seq (last xs)"
  proof (rule Max_eqI)
    show "y \<le> row_seq (last xs)" if "y \<in> set (map row_seq xs)" for y
    proof -
      obtain ys z where "xs = ys @ [z]" using xs(1) by (metis rev_exhaust)
      with that xs(3) show ?thesis by (auto simp: sorted_wrt_append)
    qed
  qed (use xs in auto)
  with False xs show ?thesis
    by (simp add: get_max_seq_Max get_all_asc_eq row_pair_def last_map flip: xs_def)
qed (simp add: get_max_seq_Nil get_all_asc_eq)

lemma clear_and_rewrite_cases:
  "clear_and_rewrite db rs clear st = (r, st') \<Longrightarrow>
     (\<exists>e. r = Inl e \<and> st' = st) \<or>
     (r = Inr () \<and> distinct (map row_seq rs) \<and>
      st' = st\<lparr>events := rs, producer_sessions := (if clear then [] else producer_sessions st)\<rparr>)"
  by (auto simp: clear_and_rewrite_def Let_def inserts_eq split: if_splits sum.splits)

interpretation sqlite: event_store append_batch clear_and_rewrite get_producer_progress get_max_seq
  get_all_asc get_from_seq_asc store_inv
proof (unfold_locales, goal_cases)
  case (1 db rs ps ls s e s')
  then show ?case by (rule append_batch_Inl)
next
  case (2 db rs ps ls s r s')
  then show ?case
    by (cases r) (auto dest!: append_batch_Inl append_batch_Inr intro: batch_statements_inv)
next
  case (3 db rs ps ls s s')
  then have "events s' = events s @ rs"
    by (auto dest!: append_batch_Inr batch_statements_events)
  with 3(3) show ?case by (simp add: get_all_asc_eq sort_key_fresh)
next
  case (4 db rs ps ls s s' c t)
  then show ?case by (auto dest!: append_batch_Inr intro: batch_statements_progress)
next
  case (5 db rs clear s e s')
  then show ?case by (auto dest!: clear_and_rewrite_cases)
next
  case (6 db rs clear s r s')
  from clear_and_rewrite_cases [OF 6(1)] 6(2) show ?case by (auto simp: store_inv_def)
next
  case (7 db rs clear s s')
  from clear_and_rewrite_cases [OF 7(1)] 7(2) show ?case
    by (auto simp: get_all_asc_eq fresh_rows_def strict_sorted_iff sort_key_id_if_sorted)
next
  case (8 db rs s s' c t)
  from clear_and_rewrite_cases [OF 8] show ?case by (auto simp: get_producer_progress_def)
next
  case (9 n s)
  show ?case
    by (simp add: get_from_seq_asc_def get_all_asc_def filter_map filter_sort o_def)
next
  case (10 s)
  show ?case by (rule get_max_seq_last)
next
  case (11 s)
  then have "distinct (map row_seq (sort_key row_seq (events s)))"
    by (auto simp: store_inv_def distinct_map)
  then show ?case
    by (auto simp: get_all_asc_eq row_pair_def o_def strict_sorted_iff)
qed

section \<open>Histories of writes\<close>

text \<open>The writing operations of the store as a step relation; a step may fail.\<close>

inductive store_step :: "store \<Rightarrow> store \<Rightarrow> bool" where
  append_step: "store_step st (snd (store_append db r st))"
| append_batch_step: "store_step st (snd (append_batch db rs ps ls st))"
| rewrite_step: "store_step st (snd (clear_and_rewrite db rs clear st))"

lemma store_append_batch:
  "snd (store_append db r st) = snd (append_batch db [r] [] [] st)"
  by (auto simp: store_append_def append_batch_def batch_statements_def split: sum.splits)

lemma append_batch_identities:
  "map_of (shared_layer_identities st) \<subseteq>\<^sub>m
   map_of (shared_layer_identities (snd (append_batch db rs ps ls st)))"
proof (cases "append_batch db rs ps ls st")
  case (Pair r st')
  show ?thesis
  proof (cases r)
    case (Inr u)
    with Pair append_batch_Inr have "batch_statements rs ps ls st = Inr st'" by fastforce
    then obtain s1 s2 where s: "fold_res insert_event rs st = Inr s1"
      "fold_res upsert_progress ps s1 = Inr s2" "fold_res upsert_identity ls s2 = Inr st'"
      by (auto simp: batch_statements_def split: sum.splits)
    have "shared_layer_identities s2 = shared_layer_identities st"
      using s(1) upserts_progress_frame [OF s(2)] by (auto simp: inserts_eq)
    with upserts_identity_keeps [OF s(3)] Pair show ?thesis by simp
  qed (use Pair append_batch_Inl in fastforce)
qed

lemma rewrite_identities:
  "shared_layer_identities (snd (clear_and_rewrite db rs clear st)) = shared_layer_identities st"
  using clear_and_rewrite_cases [of db rs clear st] by (cases "clear_and_rewrite db rs clear st") auto

lemma store_step_identities:
  "store_step s t \<Longrightarrow>
     map_of (shared_layer_identities s) \<subseteq>\<^sub>m map_of (shared_layer_identities t)"
  by (induction rule: store_step.induct)
    (simp_all only: store_append_batch append_batch_identities rewrite_identities map_le_refl)

interpretation store_sys: invariant_system store_step store_inv
proof (unfold_locales, goal_cases)
  case (1 s t)
  have batch: "store_inv (snd (append_batch db rs ps ls s))" for db rs ps ls
    using 1(2) sqlite.append_invar [of db rs ps ls s "fst (append_batch db rs ps ls s)"] by simp
  have rewrite: "store_inv (snd (clear_and_rewrite db rs clear s))" for db rs clear
    using 1(2) sqlite.rewrite_invar [of db rs clear s "fst (clear_and_rewrite db rs clear s)"] by simp
  from 1(1) show ?case by cases (simp_all only: store_append_batch batch rewrite)
qed

lemma store_reach_identities:
  "store_step\<^sup>*\<^sup>* s t \<Longrightarrow>
     map_of (shared_layer_identities s) \<subseteq>\<^sub>m map_of (shared_layer_identities t)"
  by (induction rule: rtranclp_induct) (auto intro: map_le_trans store_step_identities)

section \<open>Properties\<close>

text \<open>C12. A batch append is atomic and has exactly its effect: on any failure the store is
  unchanged; on success a well-formed store stays well-formed, the ascending log gains exactly
  the rows of the batch at its end, a replay from just past the old head returns exactly those
  rows, and the committed mark of every producer session is the maximum of the old mark and
  the marks the batch carries for it.\<close>

theorem append_batch_effect:
  assumes "append_batch db rs ps ls st = (r, st')" "store_inv st"
    and "fresh_rows (get_max_seq st) rs" "\<forall>p \<in> set ps. 0 \<le> pp_committed_through p"
  shows "case r of
      Inl e \<Rightarrow> st' = st
    | Inr _ \<Rightarrow> store_inv st' \<and> get_all_asc st' = get_all_asc st @ map row_pair rs \<and>
        get_from_seq_asc (get_max_seq st + 1) st' = map row_pair rs \<and>
        (\<forall>c s. get_producer_progress c s st' =
           fold max (marks c s ps) (get_producer_progress c s st))"
proof (cases r)
  case (Inl e)
  with assms(1) show ?thesis using sqlite.append_error by auto
next
  case (Inr u)
  with assms(1) have step: "append_batch db rs ps ls st = (Inr (), st')" by simp
  show ?thesis
    using sqlite.append_invar [OF step assms(2)] sqlite.append_rows [OF step assms(2,3)]
      sqlite.suffix_after_append [OF step assms(2,3)] sqlite.append_progress [OF step assms(4)] Inr
    by simp
qed

theorem append_batch_effect_witness:
  "get_from_seq_asc 1 (snd (append_batch True
      [\<lparr>row_seq = 1, row_bin = [7], row_client_id = None, row_kind = None, row_prim = None\<rparr>]
      [\<lparr>pp_client_id = ''c'', pp_session_id = ''s'', pp_committed_through = 4\<rparr>] [] empty_store))
   = [(1, [7])]"
  using append_batch_effect [of True
      "[\<lparr>row_seq = 1, row_bin = [7], row_client_id = None, row_kind = None, row_prim = None\<rparr>]"
      "[\<lparr>pp_client_id = ''c'', pp_session_id = ''s'', pp_committed_through = 4\<rparr>]" "[]" empty_store
      "Inr ()"]
  by (simp add: append_batch_def batch_statements_def insert_event_def upsert_progress_def
      empty_store_def fresh_rows_def get_max_seq_def row_pair_def store_inv_def)

text \<open>C13. A shared-layer identity, once stored, is never remapped or lost: along every
  sequence of appends, batch appends and history rewrites, failing or not, the stored
  identifier-to-key mapping only grows, and it stays one-to-one.\<close>

theorem identities_immutable:
  assumes "store_step\<^sup>*\<^sup>* s t" "store_inv s"
  shows "map_of (shared_layer_identities s) \<subseteq>\<^sub>m map_of (shared_layer_identities t) \<and>
    inj_on (map_of (shared_layer_identities t)) (dom (map_of (shared_layer_identities t)))"
proof
  show "map_of (shared_layer_identities s) \<subseteq>\<^sub>m map_of (shared_layer_identities t)"
    using assms(1) by (rule store_reach_identities)
  have "store_inv t" using assms by (rule store_sys.reach_invar)
  then have inv: "distinct (map snd (shared_layer_identities t))" by (simp add: store_inv_def)
  have "i = j" if "map_of (shared_layer_identities t) i = Some k"
    "map_of (shared_layer_identities t) j = Some k" for i j k
    using that inv by (fastforce simp: distinct_map inj_on_def dest!: map_of_SomeD)
  then show "inj_on (map_of (shared_layer_identities t)) (dom (map_of (shared_layer_identities t)))"
    by (auto simp: inj_on_def)
qed

theorem identities_immutable_witness:
  "let st = \<lparr>events = [], producer_sessions = [], shared_layer_identities = [(''a'', ''k'')]\<rparr>;
       t = snd (append_batch True [] [] [\<lparr>li_identifier = ''b'', li_layer_key = ''l''\<rparr>] st)
   in map_of (shared_layer_identities t) ''a'' = Some ''k'' \<and>
      map_of (shared_layer_identities t) ''b'' = Some ''l''"
proof -
  define st where
    "st = \<lparr>events = [], producer_sessions = [], shared_layer_identities = [(''a'', ''k'')]\<rparr>"
  define t where
    "t = snd (append_batch True [] [] [\<lparr>li_identifier = ''b'', li_layer_key = ''l''\<rparr>] st)"
  have "store_step\<^sup>*\<^sup>* st t" unfolding t_def by (intro r_into_rtranclp append_batch_step)
  from identities_immutable [OF this]
  have "map_of (shared_layer_identities st) \<subseteq>\<^sub>m map_of (shared_layer_identities t)"
    by (simp add: st_def store_inv_def wf_dict_def)
  then have "map_of (shared_layer_identities t) ''a'' = Some ''k''"
    by (auto simp: map_le_def st_def)
  then show ?thesis
    by (simp add: t_def st_def append_batch_def batch_statements_def upsert_identity_def)
qed

text \<open>The subtree query is exact on ASCII prim paths: the range scan between the prefix
  and the prefix followed by U+FFFF returns the rows whose prim path starts with the prefix
  and whose kind is asked for, and no others, in sequence order.\<close>

lemma prim_prefix_query:
  assumes "\<forall>r \<in> set (events st). \<forall>p. row_prim r = Some p \<longrightarrow> (\<forall>c \<in> set p. of_char c < (128 :: nat))"
    and "\<forall>c \<in> set prefix. of_char c < (128 :: nat)"
  shows "get_by_prim_prefix prefix kinds st =
    map row_bin (sort_key row_seq (filter (\<lambda>r. \<exists>rest k. row_prim r = Some (prefix @ rest) \<and>
      row_kind r = Some k \<and> k \<in> set kinds) (events st)))"
proof -
  have "((case row_prim r of None \<Rightarrow> False | Some p \<Rightarrow> prefix \<le> p \<and> p < prefix_upper prefix) \<and>
      (case row_kind r of None \<Rightarrow> False | Some k \<Rightarrow> k \<in> set kinds)) =
    (\<exists>rest k. row_prim r = Some (prefix @ rest) \<and> row_kind r = Some k \<and> k \<in> set kinds)"
    if "r \<in> set (events st)" for r
    using assms that range_scan_prefix [of _ prefix] by (auto split: option.splits)
  then show ?thesis
    by (auto simp: get_by_prim_prefix_def cong: filter_cong)
qed

end
