(* ===== verification/Protocol.thy ===== *)
theory Protocol
  imports Prelude Complex_Main
begin

text \<open>
  Protocol constants and the event-kind table
  (\<open>openusdconnect/protocol_constants.py\<close>), and the dictionaries events are carried in.

  An event is a Python dictionary with string keys: an association list of \<open>pyval\<close>s. A finite
  float is its \<open>real\<close> value, a NaN or an infinity is \<open>PNonFinite\<close>. A numpy array is its shape and
  the kind of its dtype, all that is read of one here; a numpy scalar is the Python number.
\<close>

datatype pyval =
    PNone
  | PBool bool
  | PInt int
  | PReal real
  | PStr string
  | PNonFinite
  | PList "pyval list"
  | PTuple "pyval list"
  | PArray "nat list" char
  | PDict "(string \<times> pyval) list"

type_synonym event = "(string \<times> pyval) list"

section \<open>Constants\<close>

definition PROTOCOL_VERSION :: int where "PROTOCOL_VERSION = 13"

datatype layer_mode = MANAGED | SHARED_STAGE

abbreviation "K_ENSURE_PRIM \<equiv> ''ensure_prim''"
abbreviation "K_ENSURE_XFORM_OPS \<equiv> ''ensure_xform_ops''"
abbreviation "K_SET_XFORM_TRS \<equiv> ''set_xform_trs''"
abbreviation "K_DELETE_PRIM \<equiv> ''delete_prim''"
abbreviation "K_DEACTIVATE_PRIM \<equiv> ''deactivate_prim''"
abbreviation "K_RENAME_PRIM \<equiv> ''rename_prim''"
abbreviation "K_SET_VISIBILITY \<equiv> ''set_visibility''"
abbreviation "K_SET_GPRIM_ATTRS \<equiv> ''set_gprim_attrs''"
abbreviation "K_SET_REFERENCE \<equiv> ''set_reference''"
abbreviation "K_SET_PAYLOAD \<equiv> ''set_payload''"
abbreviation "K_LOAD_PAYLOAD \<equiv> ''load_payload''"
abbreviation "K_UNLOAD_PAYLOAD \<equiv> ''unload_payload''"
abbreviation "K_SET_VARIANT_SELECTIONS \<equiv> ''set_variant_selections''"
abbreviation "K_SET_MATERIAL_BINDING \<equiv> ''set_material_binding''"
abbreviation "K_SET_CONNECTABLE_INPUT \<equiv> ''set_connectable_input''"
abbreviation "K_SET_CONNECTABLE_CONNECTION \<equiv> ''set_connectable_connection''"
abbreviation "K_SET_STAGE_METADATA \<equiv> ''set_stage_metadata''"
abbreviation "K_SET_INSTANCEABLE \<equiv> ''set_instanceable''"
abbreviation "K_SET_POINT_INSTANCER \<equiv> ''set_point_instancer''"
abbreviation "K_SET_SDF_SPEC_FIELDS \<equiv> ''set_sdf_spec_fields''"
abbreviation "K_REPLACE_SDF_LAYER_CONTENT \<equiv> ''replace_sdf_layer_content''"
abbreviation "K_SET_SUBLAYERS \<equiv> ''set_sublayers''"
abbreviation "K_ERASE_TIME_SAMPLES \<equiv> ''erase_time_samples''"

definition SDF_SPEC_KINDS :: "string list" where
  "SDF_SPEC_KINDS = [''layer'', ''prim'', ''attribute'', ''relationship'', ''variant_set'', ''variant'', ''property'']"

definition SDF_LAYER_TOPOLOGY_FIELDS :: "string list" where
  "SDF_LAYER_TOPOLOGY_FIELDS = [''subLayers'', ''subLayerOffsets'']"

definition ARC_LIST_POSITIONS :: "string list" where
  "ARC_LIST_POSITIONS = [''explicit'', ''added'', ''prepended'', ''appended'', ''deleted'', ''ordered'']"

definition POINT_INSTANCER_FIELDS :: "string list" where
  "POINT_INSTANCER_FIELDS = [''prototypes'', ''proto_indices'', ''positions'', ''orientations'', ''scales'',
     ''velocities'', ''accelerations'', ''angular_velocities'', ''ids'', ''invisible_ids'', ''inactive_ids'']"

definition STAGE_METADATA_KEYS :: "string list" where
  "STAGE_METADATA_KEYS =
     [''timeCodesPerSecond'', ''framesPerSecond'', ''startTimeCode'', ''endTimeCode'',
      ''metersPerUnit'', ''upAxis'']"

definition TRS_FIELDS :: "string list" where
  "TRS_FIELDS = [''t'', ''r'', ''s'']"

section \<open>The event-kind table\<close>

datatype event_target = COLLABORATION_LAYER | SESSION_LAYER | STAGE_STATE

datatype native_projection_mode = PROJECT | DIRECT | FIELD_ROUTED

record event_kind_info =
  native_projection :: native_projection_mode
  modes :: "layer_mode list"
  create :: bool
  structural :: bool
  stage_sync :: bool
  arc :: bool
  imports_ :: bool
  target :: event_target

definition kind_info :: "native_projection_mode \<Rightarrow> event_kind_info" where
  "kind_info p = \<lparr>native_projection = p, modes = [MANAGED], create = False, structural = False,
     stage_sync = False, arc = False, imports_ = False, target = COLLABORATION_LAYER\<rparr>"

definition EVENT_KIND_INFO :: "(string \<times> event_kind_info) list" where
  "EVENT_KIND_INFO =
    [(K_ERASE_TIME_SAMPLES, (kind_info FIELD_ROUTED)\<lparr>modes := [MANAGED, SHARED_STAGE],
        structural := True, stage_sync := True\<rparr>),
     (K_ENSURE_PRIM, (kind_info PROJECT)\<lparr>create := True, structural := True\<rparr>),
     (K_ENSURE_XFORM_OPS, (kind_info PROJECT)\<lparr>structural := True\<rparr>),
     (K_SET_XFORM_TRS, kind_info PROJECT),
     (K_DELETE_PRIM, kind_info PROJECT),
     (K_DEACTIVATE_PRIM, kind_info PROJECT),
     (K_RENAME_PRIM, kind_info PROJECT),
     (K_SET_VISIBILITY, kind_info PROJECT),
     (K_SET_GPRIM_ATTRS, kind_info PROJECT),
     (K_SET_REFERENCE, (kind_info PROJECT)\<lparr>structural := True, stage_sync := True, arc := True,
        imports_ := True\<rparr>),
     (K_SET_PAYLOAD, (kind_info PROJECT)\<lparr>structural := True, stage_sync := True, arc := True\<rparr>),
     (K_LOAD_PAYLOAD, (kind_info DIRECT)\<lparr>structural := True, stage_sync := True,
        imports_ := True, target := STAGE_STATE\<rparr>),
     (K_UNLOAD_PAYLOAD, (kind_info DIRECT)\<lparr>structural := True, stage_sync := True,
        target := STAGE_STATE\<rparr>),
     (K_SET_VARIANT_SELECTIONS, (kind_info PROJECT)\<lparr>structural := True, stage_sync := True,
        arc := True\<rparr>),
     (K_SET_MATERIAL_BINDING, (kind_info PROJECT)\<lparr>structural := True, stage_sync := True\<rparr>),
     (K_SET_CONNECTABLE_INPUT, (kind_info PROJECT)\<lparr>structural := True, stage_sync := True\<rparr>),
     (K_SET_CONNECTABLE_CONNECTION, (kind_info PROJECT)\<lparr>structural := True,
        stage_sync := True\<rparr>),
     (K_SET_STAGE_METADATA, (kind_info DIRECT)\<lparr>create := True, structural := True,
        stage_sync := True, target := SESSION_LAYER\<rparr>),
     (K_SET_INSTANCEABLE, (kind_info PROJECT)\<lparr>structural := True, stage_sync := True\<rparr>),
     (K_SET_POINT_INSTANCER, kind_info PROJECT),
     (K_SET_SDF_SPEC_FIELDS, (kind_info FIELD_ROUTED)\<lparr>modes := [MANAGED, SHARED_STAGE],
        structural := True, stage_sync := True\<rparr>),
     (K_REPLACE_SDF_LAYER_CONTENT, (kind_info DIRECT)\<lparr>modes := [SHARED_STAGE],
        structural := True, stage_sync := True\<rparr>),
     (K_SET_SUBLAYERS, (kind_info DIRECT)\<lparr>modes := [SHARED_STAGE], structural := True,
        stage_sync := True\<rparr>)]"

definition kinds_where :: "(event_kind_info \<Rightarrow> bool) \<Rightarrow> string list" where
  "kinds_where P = [k. (k, i) \<leftarrow> EVENT_KIND_INFO, P i]"

definition EVENT_KEYS :: "string list" where
  "EVENT_KEYS = map fst EVENT_KIND_INFO"
definition STRUCTURAL_EVENT_KINDS :: "string list" where
  "STRUCTURAL_EVENT_KINDS = kinds_where structural"
definition CREATE_KINDS :: "string list" where
  "CREATE_KINDS = kinds_where create"
definition STAGE_SYNC_KINDS :: "string list" where
  "STAGE_SYNC_KINDS = kinds_where stage_sync"
definition NATIVE_PROJECTED_KINDS :: "string list" where
  "NATIVE_PROJECTED_KINDS = kinds_where (\<lambda>i. native_projection i = PROJECT)"
definition NATIVE_DIRECT_KINDS :: "string list" where
  "NATIVE_DIRECT_KINDS = kinds_where (\<lambda>i. native_projection i = DIRECT)"
definition NATIVE_FIELD_ROUTED_KINDS :: "string list" where
  "NATIVE_FIELD_ROUTED_KINDS = kinds_where (\<lambda>i. native_projection i = FIELD_ROUTED)"
definition COLLABORATION_LAYER_KINDS :: "string list" where
  "COLLABORATION_LAYER_KINDS = kinds_where (\<lambda>i. target i = COLLABORATION_LAYER)"
definition SESSION_LAYER_KINDS :: "string list" where
  "SESSION_LAYER_KINDS = kinds_where (\<lambda>i. target i = SESSION_LAYER)"
definition STAGE_RUNTIME_KINDS :: "string list" where
  "STAGE_RUNTIME_KINDS = kinds_where (\<lambda>i. target i = STAGE_STATE)"
definition NON_COLLABORATION_KINDS :: "string list" where
  "NON_COLLABORATION_KINDS = SESSION_LAYER_KINDS @ STAGE_RUNTIME_KINDS"
definition MANAGED_KINDS :: "string list" where
  "MANAGED_KINDS = kinds_where (\<lambda>i. MANAGED \<in> set (modes i))"
definition SHARED_STAGE_EVENT_KINDS :: "string list" where
  "SHARED_STAGE_EVENT_KINDS = kinds_where (\<lambda>i. SHARED_STAGE \<in> set (modes i))"
definition SHARED_STAGE_ONLY_KINDS :: "string list" where
  "SHARED_STAGE_ONLY_KINDS = filter (\<lambda>k. k \<notin> set MANAGED_KINDS) SHARED_STAGE_EVENT_KINDS"

definition event_apply_tier :: "string \<Rightarrow> nat" where
  "event_apply_tier kind =
     (if kind \<in> set CREATE_KINDS then 0
      else if kind \<in> set STRUCTURAL_EVENT_KINDS then 1 else 2)"

section \<open>Reading events\<close>

text \<open>
  Admission and the decoder guarantee a string under \<open>"k"\<close>; \<open>ev_kind\<close> is \<open>event["k"]\<close>,
  \<open>ev_prim\<close> is \<open>event.get("prim", "")\<close>, \<open>ev_time\<close> is \<open>event.get("time")\<close>.
\<close>

definition ev_str :: "string \<Rightarrow> event \<Rightarrow> string" where
  "ev_str key ev = (case map_of ev key of Some (PStr s) \<Rightarrow> s | _ \<Rightarrow> [])"

definition ev_kind :: "event \<Rightarrow> string" where
  "ev_kind ev = ev_str ''k'' ev"

definition ev_prim :: "event \<Rightarrow> string" where
  "ev_prim ev = ev_str ''prim'' ev"

definition ev_time :: "event \<Rightarrow> pyval" where
  "ev_time ev = (case map_of ev ''time'' of None \<Rightarrow> PNone | Some t \<Rightarrow> t)"

definition ev_strings :: "string \<Rightarrow> event \<Rightarrow> string list" where
  "ev_strings key ev =
     (case map_of ev key of
        Some (PList xs) \<Rightarrow> [s. PStr s \<leftarrow> xs]
      | _ \<Rightarrow> [])"

definition ev_dict :: "string \<Rightarrow> event \<Rightarrow> (string \<times> pyval) list" where
  "ev_dict key ev = (case map_of ev key of Some (PDict d) \<Rightarrow> d | _ \<Rightarrow> [])"

definition truthy :: "pyval option \<Rightarrow> bool" where
  "truthy v = (case v of None \<Rightarrow> False | Some PNone \<Rightarrow> False | Some (PBool b) \<Rightarrow> b
     | Some (PInt n) \<Rightarrow> n \<noteq> 0 | Some (PReal x) \<Rightarrow> x \<noteq> 0 | Some (PStr s) \<Rightarrow> s \<noteq> []
     | Some PNonFinite \<Rightarrow> True | Some (PList xs) \<Rightarrow> xs \<noteq> [] | Some (PTuple xs) \<Rightarrow> xs \<noteq> []
     | Some (PArray shape kind) \<Rightarrow> shape \<noteq> [] \<and> hd shape \<noteq> 0 | Some (PDict d) \<Rightarrow> d \<noteq> [])"

section \<open>Facts about the table\<close>

lemmas kind_table_defs = EVENT_KIND_INFO_def kind_info_def kinds_where_def EVENT_KEYS_def
  STRUCTURAL_EVENT_KINDS_def CREATE_KINDS_def STAGE_SYNC_KINDS_def NATIVE_PROJECTED_KINDS_def
  NATIVE_DIRECT_KINDS_def NATIVE_FIELD_ROUTED_KINDS_def COLLABORATION_LAYER_KINDS_def
  SESSION_LAYER_KINDS_def STAGE_RUNTIME_KINDS_def NON_COLLABORATION_KINDS_def MANAGED_KINDS_def
  SHARED_STAGE_EVENT_KINDS_def SHARED_STAGE_ONLY_KINDS_def

lemma non_collaboration_kinds:
  "NON_COLLABORATION_KINDS = [K_SET_STAGE_METADATA, K_LOAD_PAYLOAD, K_UNLOAD_PAYLOAD]"
  by (simp add: kind_table_defs)

lemma create_kinds: "CREATE_KINDS = [K_ENSURE_PRIM, K_SET_STAGE_METADATA]"
  by (simp add: kind_table_defs)

lemma kinds_where_set: "set (kinds_where P) = fst ` {p \<in> set EVENT_KIND_INFO. P (snd p)}"
  by (auto simp: kinds_where_def image_iff)

lemma event_kinds_distinct: "distinct EVENT_KEYS"
  by (simp add: kind_table_defs)

lemma kinds_where_disjoint:
  assumes "\<And>i. \<not> (P i \<and> Q i)"
  shows "set (kinds_where P) \<inter> set (kinds_where Q) = {}"
proof -
  have "inj_on fst (set EVENT_KIND_INFO)"
    using event_kinds_distinct by (simp add: EVENT_KEYS_def distinct_map)
  with assms show ?thesis by (auto simp: kinds_where_set inj_on_def)
qed

lemma kinds_where_cover:
  assumes "\<And>i. P i \<or> Q i"
  shows "set (kinds_where P) \<union> set (kinds_where Q) = set EVENT_KEYS"
  using assms by (auto simp: kinds_where_set EVENT_KEYS_def image_iff)

text \<open>The derived kind sets are what the module asserts and its users rely on: every kind
  is valid in some mode; a kind is projected, direct or field-routed and exactly one of them;
  collaboration and non-collaboration kinds split the table, the latter being exactly the
  metadata and payload-load events; and every create kind is also structural, so that tiers
  order creation before structural edits before values.\<close>

theorem kind_table_consistent:
  "set MANAGED_KINDS \<union> set SHARED_STAGE_EVENT_KINDS = set EVENT_KEYS \<and>
   distinct (NATIVE_PROJECTED_KINDS @ NATIVE_DIRECT_KINDS @ NATIVE_FIELD_ROUTED_KINDS) \<and>
   set (NATIVE_PROJECTED_KINDS @ NATIVE_DIRECT_KINDS @ NATIVE_FIELD_ROUTED_KINDS) = set EVENT_KEYS \<and>
   set NON_COLLABORATION_KINDS = {K_SET_STAGE_METADATA, K_LOAD_PAYLOAD, K_UNLOAD_PAYLOAD} \<and>
   set COLLABORATION_LAYER_KINDS = set EVENT_KEYS - set NON_COLLABORATION_KINDS \<and>
   (\<forall>k. event_apply_tier k = 0 \<longrightarrow> k \<in> set STRUCTURAL_EVENT_KINDS)"
proof (intro conjI)
  show "set COLLABORATION_LAYER_KINDS = set EVENT_KEYS - set NON_COLLABORATION_KINDS"
    by (simp add: kind_table_defs insert_commute insert_Diff_if)
  show "\<forall>k. event_apply_tier k = 0 \<longrightarrow> k \<in> set STRUCTURAL_EVENT_KINDS"
    by (auto simp: event_apply_tier_def kind_table_defs split: if_splits)
qed (simp_all add: kind_table_defs insert_commute)

theorem kind_table_consistent_witness:
  "event_apply_tier K_ENSURE_PRIM = 0 \<and> K_ENSURE_PRIM \<in> set STRUCTURAL_EVENT_KINDS"
proof -
  have tier: "event_apply_tier K_ENSURE_PRIM = 0" by (simp add: event_apply_tier_def create_kinds)
  with kind_table_consistent show ?thesis by blast
qed

end
