(* ===== verification/Wire_Metrics.thy ===== *)
theory Wire_Metrics
  imports Prelude "HOL-Library.List_Lexorder" "HOL-Library.Char_ord" "HOL-Library.Multiset"
begin

text \<open>
  Traffic counters (\<open>openusdconnect/server/metrics.py\<close>): per event kind and per transport
  channel, a count and a number of bytes. Every operation runs under the object's lock, so
  the operations are atomic functions of the state.
\<close>

record wire_metrics =
  m_counts :: "(string \<times> nat) list"
  m_bytes :: "(string \<times> nat) list"
  m_transport_counts :: "(string \<times> nat) list"
  m_transport_bytes :: "(string \<times> nat) list"

definition empty_metrics :: wire_metrics where
  "empty_metrics = \<lparr>m_counts = [], m_bytes = [], m_transport_counts = [], m_transport_bytes = []\<rparr>"

definition metrics_record :: "string \<Rightarrow> nat \<Rightarrow> wire_metrics \<Rightarrow> wire_metrics" where
  "metrics_record kind nbytes m =
     m\<lparr>m_counts := AList.update kind (dict_get (m_counts m) kind 0 + 1) (m_counts m),
       m_bytes := AList.update kind (dict_get (m_bytes m) kind 0 + nbytes) (m_bytes m)\<rparr>"

definition record_transport :: "string \<Rightarrow> nat \<Rightarrow> nat \<Rightarrow> wire_metrics \<Rightarrow> wire_metrics" where
  "record_transport channel nbytes n m =
     m\<lparr>m_transport_counts :=
         AList.update channel (dict_get (m_transport_counts m) channel 0 + n) (m_transport_counts m),
       m_transport_bytes :=
         AList.update channel (dict_get (m_transport_bytes m) channel 0 + nbytes) (m_transport_bytes m)\<rparr>"

record metrics_snapshot =
  kinds :: "(string \<times> nat \<times> nat) list"
  total_count :: nat
  total_bytes :: nat
  transport :: "(string \<times> nat \<times> nat) list"
  transport_total_count :: nat
  transport_total_bytes :: nat

text \<open>
  The dictionary comprehension over the sorted keys; the keys of the two tables agree, so the
  second lookup never raises.
\<close>

definition report :: "(string \<times> nat) list \<Rightarrow> (string \<times> nat) list \<Rightarrow> (string \<times> nat \<times> nat) list" where
  "report counts sizes = map (\<lambda>(k, c). (k, c, dict_get sizes k 0)) (sort_key fst counts)"

definition metrics_snapshot_of :: "wire_metrics \<Rightarrow> metrics_snapshot" where
  "metrics_snapshot_of m =
     (let ks = report (m_counts m) (m_bytes m);
          ts = report (m_transport_counts m) (m_transport_bytes m)
      in \<lparr>kinds = ks, total_count = sum_list (map (\<lambda>(k, c, b). c) ks),
          total_bytes = sum_list (map (\<lambda>(k, c, b). b) ks), transport = ts,
          transport_total_count = sum_list (map (\<lambda>(k, c, b). c) ts),
          transport_total_bytes = sum_list (map (\<lambda>(k, c, b). b) ts)\<rparr>)"

definition metrics_inv :: "wire_metrics \<Rightarrow> bool" where
  "metrics_inv m \<longleftrightarrow> wf_dict (m_counts m) \<and> map fst (m_bytes m) = map fst (m_counts m) \<and>
     wf_dict (m_transport_counts m) \<and> map fst (m_transport_bytes m) = map fst (m_transport_counts m)"

lemma keys_update_same:
  "map fst d = map fst e \<Longrightarrow> map fst (AList.update k v d) = map fst (AList.update k w e)"
  by (simp add: update_keys)

lemma metrics_inv_record [inv_intros]: "metrics_inv m \<Longrightarrow> metrics_inv (metrics_record k n m)"
  by (auto simp: metrics_inv_def metrics_record_def intro: keys_update_same)

lemma metrics_inv_transport [inv_intros]: "metrics_inv m \<Longrightarrow> metrics_inv (record_transport c n k m)"
  by (auto simp: metrics_inv_def record_transport_def intro: keys_update_same)

text \<open>Adding to one entry of a counter dictionary adds to its total.\<close>

lemma sum_list_update:
  "wf_dict d \<Longrightarrow>
     sum_list (map snd (AList.update k (dict_get d k 0 + n) d)) = sum_list (map snd d) + (n :: nat)"
proof (induction d)
  case (Cons kv d)
  obtain k' v' where kv: "kv = (k', v')" by (cases kv)
  have wf: "wf_dict d" using Cons.prems by (simp add: wf_dict_def)
  from Cons.IH [OF wf] show ?case by (auto simp: kv dict_get_def)
qed (simp add: dict_get_def)

lemma sum_list_sort_key:
  "sum_list (map f (sort_key g xs)) = (sum_list (map f xs) :: nat)"
  by (metis mset_map mset_sort sum_mset_sum_list)

lemma report_counts: "sum_list (map (\<lambda>(k, c, b). c) (report cs bs)) = sum_list (map snd cs)"
  by (simp add: report_def case_prod_beta o_def sum_list_sort_key)

lemma report_bytes:
  assumes "wf_dict cs" "map fst bs = map fst cs"
  shows "sum_list (map (\<lambda>(k, c, b). b) (report cs bs)) = sum_list (map snd bs)"
proof -
  have wf: "wf_dict bs" using assms by (simp add: wf_dict_def)
  have "sum_list (map (\<lambda>(k, c, b). b) (report cs bs)) =
      sum_list (map (\<lambda>k. dict_get bs k 0) (map fst cs))"
    by (simp add: report_def case_prod_beta o_def sum_list_sort_key)
  also have "map (\<lambda>k. dict_get bs k 0) (map fst cs) = map snd bs"
    unfolding assms(2) [symmetric] using wf by (auto simp: dict_get_def wf_dict_map_of)
  finally show ?thesis .
qed

lemma snapshot_totals:
  assumes "metrics_inv m"
  shows "total_count (metrics_snapshot_of m) = sum_list (map snd (m_counts m))"
    "total_bytes (metrics_snapshot_of m) = sum_list (map snd (m_bytes m))"
  using assms by (simp_all add: metrics_snapshot_of_def Let_def report_counts report_bytes metrics_inv_def)

text \<open>A run of recordings, from the empty counters.\<close>

definition record_all :: "(string \<times> nat) list \<Rightarrow> wire_metrics \<Rightarrow> wire_metrics" where
  "record_all ns m = fold (\<lambda>(k, n). metrics_record k n) ns m"

lemma record_all_totals:
  "metrics_inv m \<Longrightarrow> metrics_inv (record_all ns m) \<and>
     sum_list (map snd (m_counts (record_all ns m))) = sum_list (map snd (m_counts m)) + length ns \<and>
     sum_list (map snd (m_bytes (record_all ns m))) =
       sum_list (map snd (m_bytes m)) + sum_list (map snd ns)"
proof (induction ns arbitrary: m)
  case (Cons kn ns)
  obtain k n where kn: "kn = (k, n)" by (cases kn)
  have wf: "wf_dict (m_counts m)" "wf_dict (m_bytes m)"
    using Cons.prems by (auto simp: metrics_inv_def wf_dict_def)
  have "sum_list (map snd (m_counts (metrics_record k n m))) = sum_list (map snd (m_counts m)) + 1"
    "sum_list (map snd (m_bytes (metrics_record k n m))) = sum_list (map snd (m_bytes m)) + n"
    using sum_list_update [OF wf(1), of k 1] sum_list_update [OF wf(2), of k n]
    by (simp_all add: metrics_record_def)
  with Cons.IH [OF metrics_inv_record [OF Cons.prems], of k n]
  show ?case by (simp add: record_all_def kn)
qed (simp add: record_all_def)

text \<open>The reported totals are exact: after any run of recordings from the empty counters,
  the snapshot's total count is the number of recordings and its total bytes their sum.\<close>

theorem metrics_totals_exact:
  "total_count (metrics_snapshot_of (record_all ns empty_metrics)) = length ns \<and>
   total_bytes (metrics_snapshot_of (record_all ns empty_metrics)) = sum_list (map snd ns)"
proof -
  have "metrics_inv empty_metrics" by (simp add: metrics_inv_def empty_metrics_def)
  from record_all_totals [OF this, of ns] show ?thesis
    by (simp add: snapshot_totals) (simp add: empty_metrics_def)
qed

end
