(* ===== verification/Journal.thy ===== *)
theory Journal
  imports Event_Store Protocol Wire_Metrics
begin

text \<open>
  The event journal (\<open>openusdconnect/server/journal.py\<close>): sequence numbers, the durable
  history, the producer progress cache and the queue of the realtime persistence thread.

  The lock-protected methods are atomic functions of \<open>journal\<close>. The message encoder is the
  argument \<open>encode\<close> (FlatBuffers), which may raise; \<open>db\<close> says which writes the database
  engine accepts. \<open>persist_next\<close> is one round of the persistence thread, \<open>drain\<close> lets it
  run until the queue is empty.
\<close>

record event_record =
  rec_seq :: int
  rec_event :: event
  rec_client :: "string option"
  rec_client_id :: "string option"
  rec_origin :: "string option"
  rec_layer_key :: "string option"

type_synonym encoder = "event_record \<Rightarrow> bytes res"

definition present :: "string option \<Rightarrow> string option" where
  "present v = (case v of Some s \<Rightarrow> if s = [] then None else Some s | None \<Rightarrow> None)"

definition encode_event_record ::
  "encoder \<Rightarrow> int \<Rightarrow> event \<Rightarrow> string option \<Rightarrow> string option \<Rightarrow> string option \<Rightarrow> string option
     \<Rightarrow> (event_record \<times> bytes) res" where
  "encode_event_record encode sequence ev client client_id origin layer_key =
     (let record = \<lparr>rec_seq = sequence, rec_event = ev, rec_client = client,
            rec_client_id = client_id, rec_origin = present origin,
            rec_layer_key = present layer_key\<rparr>
      in case encode record of Inl e \<Rightarrow> Inl e | Inr bin \<Rightarrow> Inr (record, bin))"

record encoded_events =
  ee_records :: "(event_record \<times> bytes) list"
  ee_store_rows :: "event_row list"

definition no_events :: encoded_events where
  "no_events = \<lparr>ee_records = [], ee_store_rows = []\<rparr>"

definition store_row :: "event_record \<Rightarrow> bytes \<Rightarrow> event_row" where
  "store_row r bin = \<lparr>row_seq = rec_seq r, row_bin = bin, row_client_id = rec_client_id r,
     row_kind = Some (ev_kind (rec_event r)),
     row_prim = (case map_of (rec_event r) ''prim'' of Some (PStr p) \<Rightarrow> Some p | _ \<Rightarrow> None)\<rparr>"

definition encoded_append :: "event_record \<Rightarrow> bytes \<Rightarrow> encoded_events \<Rightarrow> encoded_events" where
  "encoded_append r bin e =
     e\<lparr>ee_records := ee_records e @ [(r, bin)], ee_store_rows := ee_store_rows e @ [store_row r bin]\<rparr>"

section \<open>State\<close>

record journal =
  jstore :: store
  next_seq :: int
  event_count :: int
  seq_at_last_compact :: int
  snapshot_epoch :: int
  replay_epoch :: int
  progress_cache :: "((string \<times> string) \<times> int) list"
  jmetrics :: "wire_metrics option"
  jqueue :: "event_row list option list"
  realtime :: bool
  running :: bool

definition journal_init :: "store \<Rightarrow> bool \<Rightarrow> wire_metrics option \<Rightarrow> journal" where
  "journal_init st rt metrics =
     \<lparr>jstore = st, next_seq = get_max_seq st + 1, event_count = int (get_count st),
      seq_at_last_compact = 1, snapshot_epoch = 0, replay_epoch = 0, progress_cache = [],
      jmetrics = metrics, jqueue = [], realtime = rt, running = False\<rparr>"

definition journal_start :: "journal \<Rightarrow> journal" where
  "journal_start j = j\<lparr>running := realtime j\<rparr>"

section \<open>Operations\<close>

definition assign_seq :: "journal \<Rightarrow> int \<times> journal" where
  "assign_seq j = (next_seq j, j\<lparr>next_seq := next_seq j + 1\<rparr>)"

text \<open>The context manager around a commit body: an exception restores the reservations.\<close>

definition reserve_sequences :: "(journal \<Rightarrow> 'a res \<times> journal) \<Rightarrow> journal \<Rightarrow> 'a res \<times> journal" where
  "reserve_sequences body j =
     (case body j of (Inl e, j') \<Rightarrow> (Inl e, j'\<lparr>next_seq := next_seq j\<rparr>) | (Inr x, j') \<Rightarrow> (Inr x, j'))"

definition snapshot_token :: "journal \<Rightarrow> int \<times> int" where
  "snapshot_token j = (snapshot_epoch j, max 0 (next_seq j - 1))"

definition bump_snapshot_epoch :: "journal \<Rightarrow> int \<times> journal" where
  "bump_snapshot_epoch j = (snapshot_epoch j + 1, j\<lparr>snapshot_epoch := snapshot_epoch j + 1\<rparr>)"

definition needs_compaction :: "journal \<Rightarrow> bool" where
  "needs_compaction j \<longleftrightarrow> next_seq j > seq_at_last_compact j"

definition replay_token :: "journal \<Rightarrow> int \<times> int" where
  "replay_token j = (replay_epoch j, max 0 (next_seq j - 1))"

record transaction_checkpoint =
  ck_epoch :: int
  ck_head_seq :: int

definition durable_checkpoint :: "journal \<Rightarrow> transaction_checkpoint" where
  "durable_checkpoint j = \<lparr>ck_epoch = replay_epoch j, ck_head_seq = get_max_seq (jstore j)\<rparr>"

definition reset_history :: "int \<Rightarrow> journal \<Rightarrow> journal" where
  "reset_history record_count j =
     j\<lparr>event_count := record_count, next_seq := record_count + 1,
       seq_at_last_compact := record_count + 1,
       snapshot_epoch := snapshot_epoch j + 1, replay_epoch := replay_epoch j + 1\<rparr>"

definition committed_through :: "string \<Rightarrow> string \<Rightarrow> journal \<Rightarrow> int \<times> journal" where
  "committed_through client_id session_id j =
     (case map_of (progress_cache j) (client_id, session_id) of
        Some cached \<Rightarrow> (cached, j)
      | None \<Rightarrow>
          let cached = get_producer_progress client_id session_id (jstore j)
          in (cached, j\<lparr>progress_cache :=
                AList.update (client_id, session_id) cached (progress_cache j)\<rparr>))"

definition remember_progress :: "((string \<times> string) \<times> int) list \<Rightarrow> journal \<Rightarrow> journal" where
  "remember_progress updates j = j\<lparr>progress_cache := dict_update (progress_cache j) updates\<rparr>"

definition assign_and_encode_event ::
  "encoder \<Rightarrow> event \<Rightarrow> string option \<Rightarrow> string option \<Rightarrow> string option \<Rightarrow> string option \<Rightarrow> journal
     \<Rightarrow> (event_record \<times> bytes) res \<times> journal" where
  "assign_and_encode_event encode ev client_id origin client_addr layer_key j =
     (let (sequence, j) = assign_seq j
      in case encode_event_record encode sequence ev client_addr client_id origin layer_key of
           Inl e \<Rightarrow> (Inl e, j)
         | Inr (record, bin) \<Rightarrow>
             (Inr (record, bin),
              j\<lparr>jmetrics := map_option (metrics_record (ev_kind ev) (length bin)) (jmetrics j)\<rparr>))"

fun encode_loop ::
  "encoder \<Rightarrow> (string \<times> event) list \<Rightarrow> string option \<Rightarrow> string option \<Rightarrow> string option
     \<Rightarrow> encoded_events \<Rightarrow> journal \<Rightarrow> encoded_events res \<times> journal" where
  "encode_loop encode [] client_id origin client_addr acc j = (Inr acc, j)"
| "encode_loop encode ((layer_key, ev) # rest) client_id origin client_addr acc j =
     (case assign_and_encode_event encode ev client_id origin client_addr (Some layer_key) j of
        (Inl e, j') \<Rightarrow> (Inl e, j')
      | (Inr (record, bin), j') \<Rightarrow>
          encode_loop encode rest client_id origin client_addr (encoded_append record bin acc) j')"

definition assign_and_encode_events ::
  "encoder \<Rightarrow> (string \<times> event) list \<Rightarrow> string option \<Rightarrow> string option \<Rightarrow> string option
     \<Rightarrow> journal \<Rightarrow> encoded_events res \<times> journal" where
  "assign_and_encode_events encode routed client_id origin client_addr j =
     encode_loop encode routed client_id origin client_addr no_events j"

definition append_record :: "bool \<Rightarrow> encoder \<Rightarrow> event_record \<Rightarrow> journal \<Rightarrow> bytes res \<times> journal" where
  "append_record db encode r j =
     (case encode r of
        Inl e \<Rightarrow> (Inl e, j)
      | Inr bin \<Rightarrow>
          (case store_append db ((store_row r bin)\<lparr>row_client_id := None\<rparr>) (jstore j) of
             (Inl e, st) \<Rightarrow> (Inl e, j\<lparr>jstore := st\<rparr>)
           | (Inr _, st) \<Rightarrow> (Inr bin, j\<lparr>jstore := st, event_count := event_count j + 1\<rparr>)))"

text \<open>
  \<open>EventJournal.append_batch\<close>. A queued write is admitted, not persisted.
\<close>

definition can_queue ::
  "bool \<Rightarrow> producer_progress list \<Rightarrow> layer_identity list \<Rightarrow> journal \<Rightarrow> bool" where
  "can_queue synchronous progress identities j \<longleftrightarrow>
     realtime j \<and> \<not> (synchronous \<or> progress \<noteq> [] \<or> identities \<noteq> [])"

definition journal_append_batch ::
  "bool \<Rightarrow> event_row list \<Rightarrow> producer_progress list \<Rightarrow> layer_identity list \<Rightarrow> bool \<Rightarrow> journal
     \<Rightarrow> unit res \<times> journal" where
  "journal_append_batch db rows progress identities synchronous j =
     (if can_queue synchronous progress identities j
      then (Inr (), j\<lparr>jqueue := jqueue j @ [Some rows]\<rparr>)
      else case append_batch db rows progress identities (jstore j) of
             (Inl e, st) \<Rightarrow> (Inl e, j\<lparr>jstore := st\<rparr>)
           | (Inr _, st) \<Rightarrow>
               (Inr (), j\<lparr>jstore := st, event_count := event_count j + int (length rows)\<rparr>))"

text \<open>One round of \<open>_persist_loop\<close>: an exception is logged and the rows are dropped.\<close>

definition persist_next :: "bool \<Rightarrow> journal \<Rightarrow> journal" where
  "persist_next db j =
     (if \<not> running j then j
      else case jqueue j of
        [] \<Rightarrow> j
      | None # rest \<Rightarrow> j\<lparr>jqueue := rest, running := False\<rparr>
      | Some rows # rest \<Rightarrow>
          (case append_batch db rows [] [] (jstore j) of
             (Inl e, st) \<Rightarrow> j\<lparr>jqueue := rest, jstore := st\<rparr>
           | (Inr _, st) \<Rightarrow> j\<lparr>jqueue := rest, jstore := st,
               event_count := event_count j + int (length rows)\<rparr>))"

fun drain :: "bool list \<Rightarrow> journal \<Rightarrow> journal" where
  "drain [] j = j"
| "drain (db # dbs) j = (if jqueue j = [] then j else drain dbs (persist_next db j))"

definition journal_shutdown :: "bool list \<Rightarrow> journal \<Rightarrow> journal" where
  "journal_shutdown dbs j = (if running j then drain dbs (j\<lparr>jqueue := jqueue j @ [None]\<rparr>) else j)"

text \<open>
  The durable replacement of the history the maintenance operations share: the rewrite of the
  log, then the publication of the new epoch.
\<close>

definition rewrite_history :: "bool \<Rightarrow> event_row list \<Rightarrow> journal \<Rightarrow> unit res \<times> journal" where
  "rewrite_history db records j =
     (case clear_and_rewrite db records False (jstore j) of
        (Inl e, st) \<Rightarrow> (Inl e, j\<lparr>jstore := st\<rparr>)
      | (Inr _, st) \<Rightarrow> (Inr (), reset_history (int (length records)) (j\<lparr>jstore := st\<rparr>)))"

section \<open>Invariants\<close>

definition queued_rows :: "journal \<Rightarrow> event_row list" where
  "queued_rows j = concat [rows. Some rows \<leftarrow> jqueue j]"

lemma queued_rows_Cons:
  "jqueue j = Some rows # rest \<Longrightarrow> queued_rows j = rows @ queued_rows (j\<lparr>jqueue := rest\<rparr>)"
  "jqueue j = None # rest \<Longrightarrow> queued_rows j = queued_rows (j\<lparr>jqueue := rest\<rparr>)"
  by (simp_all add: queued_rows_def)

definition log_inv :: "journal \<Rightarrow> bool" where
  "log_inv j \<longleftrightarrow> store_inv (jstore j) \<and>
     distinct (map row_seq (events (jstore j) @ queued_rows j)) \<and>
     (\<forall>r \<in> set (events (jstore j) @ queued_rows j). 1 \<le> row_seq r \<and> row_seq r < next_seq j) \<and>
     event_count j = int (length (events (jstore j))) \<and> 1 \<le> next_seq j \<and>
     (running j \<longrightarrow> realtime j)"

definition cache_ok :: "journal \<Rightarrow> bool" where
  "cache_ok j \<longleftrightarrow> wf_dict (progress_cache j) \<and>
     (\<forall>c s v. map_of (progress_cache j) (c, s) = Some v \<longrightarrow>
        get_producer_progress c s (jstore j) = v)"

lemma log_inv_init:
  assumes "store_inv st" "\<forall>r \<in> set (events st). 1 \<le> row_seq r"
  shows "log_inv (journal_init st rt m)" "cache_ok (journal_init st rt m)"
proof -
  have bounds: "1 \<le> row_seq r \<and> row_seq r < get_max_seq st + 1" if "r \<in> set (events st)" for r
    using that assms(2) get_max_seq_ge [OF that] by force
  have "0 \<le> get_max_seq st"
  proof (cases "events st")
    case (Cons r rs)
    with bounds [of r] show ?thesis by simp
  qed (simp add: get_max_seq_Nil)
  with bounds show "log_inv (journal_init st rt m)"
    using assms(1) by (simp add: log_inv_def journal_init_def queued_rows_def store_inv_def get_count_def)
qed (simp add: cache_ok_def journal_init_def)

lemma committed_through_value:
  "cache_ok j \<Longrightarrow> fst (committed_through c s j) = get_producer_progress c s (jstore j)"
  by (auto simp: committed_through_def cache_ok_def Let_def split: option.splits)

lemma committed_through_frame [frame_simps]:
  "snd (committed_through c s j) = j\<lparr>progress_cache := progress_cache (snd (committed_through c s j))\<rparr>"
  by (auto simp: committed_through_def Let_def split: option.splits)

lemma committed_through_cache_ok [inv_intros]:
  "cache_ok j \<Longrightarrow> cache_ok (snd (committed_through c s j))"
  by (auto simp: committed_through_def cache_ok_def Let_def split: option.splits)

lemma queued_rows_frame [simp]:
  "queued_rows (j\<lparr>next_seq := n\<rparr>) = queued_rows j" "queued_rows (j\<lparr>jstore := st\<rparr>) = queued_rows j"
  "queued_rows (j\<lparr>progress_cache := c\<rparr>) = queued_rows j"
  "queued_rows (j\<lparr>jmetrics := m\<rparr>) = queued_rows j"
  "queued_rows (j\<lparr>event_count := k\<rparr>) = queued_rows j"
  "queued_rows (j\<lparr>running := b\<rparr>) = queued_rows j"
  by (simp_all add: queued_rows_def)

lemma log_inv_cache [simp]: "log_inv (j\<lparr>progress_cache := c\<rparr>) = log_inv j"
  by (simp add: log_inv_def)

lemma log_inv_metrics [simp]: "log_inv (j\<lparr>jmetrics := m\<rparr>) = log_inv j"
  by (simp add: log_inv_def)

lemma log_inv_next_seq: "log_inv j \<Longrightarrow> next_seq j \<le> n \<Longrightarrow> log_inv (j\<lparr>next_seq := n\<rparr>)"
  by (auto simp: log_inv_def elim!: order_less_le_trans)

lemma cache_ok_frame [simp]:
  "cache_ok (j\<lparr>next_seq := n\<rparr>) = cache_ok j" "cache_ok (j\<lparr>jmetrics := m\<rparr>) = cache_ok j"
  "cache_ok (j\<lparr>event_count := k\<rparr>) = cache_ok j" "cache_ok (j\<lparr>jqueue := q\<rparr>) = cache_ok j"
  by (simp_all add: cache_ok_def)

lemma head_below_next: "log_inv j \<Longrightarrow> get_max_seq (jstore j) < next_seq j"
  by (cases "events (jstore j) = []")
    (auto simp: log_inv_def get_max_seq_Nil get_max_seq_Max)

subsection \<open>Sequencing and encoding\<close>

lemma encode_event_record_fields:
  "encode_event_record encode n ev client cid origin lk = Inr (r, bin) \<Longrightarrow>
     encode r = Inr bin \<and> rec_seq r = n \<and> rec_event r = ev \<and> rec_client r = client \<and>
     rec_client_id r = cid \<and> rec_origin r = present origin \<and> rec_layer_key r = present lk"
  by (auto simp: encode_event_record_def Let_def split: sum.splits)

lemma assign_and_encode_event_frame:
  "assign_and_encode_event encode ev cid origin addr lk j = (res, j') \<Longrightarrow>
     j' = j\<lparr>next_seq := next_seq j + 1, jmetrics := jmetrics j'\<rparr>"
  by (auto simp: assign_and_encode_event_def assign_seq_def split: sum.splits prod.splits)

lemma assign_and_encode_event_ok:
  "assign_and_encode_event encode ev cid origin addr lk j = (Inr (r, bin), j') \<Longrightarrow>
     encode_event_record encode (next_seq j) ev addr cid origin lk = Inr (r, bin)"
  by (auto simp: assign_and_encode_event_def assign_seq_def split: sum.splits prod.splits)

text \<open>What a successful encoding run returns, and that it touches only the counters.\<close>

definition encoded_run ::
  "encoder \<Rightarrow> int \<Rightarrow> (string \<times> event) list \<Rightarrow> string option \<Rightarrow> (event_record \<times> bytes) list \<Rightarrow> bool"
where
  "encoded_run encode n routed cid recs \<longleftrightarrow>
     map (rec_seq \<circ> fst) recs = [n .. n + int (length routed) - 1] \<and>
     map (rec_event \<circ> fst) recs = map snd routed \<and>
     map (rec_layer_key \<circ> fst) recs = map (present \<circ> Some \<circ> fst) routed \<and>
     (\<forall>(r, bin) \<in> set recs. encode r = Inr bin \<and> rec_client_id r = cid)"

lemma encoded_run_Nil [simp]: "encoded_run encode n [] cid []"
  by (simp add: encoded_run_def)

lemma encoded_run_Cons:
  assumes "encode_event_record encode n ev addr cid origin (Some lk) = Inr (r, bin)"
    "encoded_run encode (n + 1) routed cid recs"
  shows "encoded_run encode n ((lk, ev) # routed) cid ((r, bin) # recs)"
proof -
  have "[n .. n + int (length ((lk, ev) # routed)) - 1] =
      n # [n + 1 .. (n + 1) + int (length routed) - 1]"
    by (simp add: upto_rec1 [of n] algebra_simps)
  with assms show ?thesis
    by (auto simp: encoded_run_def dest!: encode_event_record_fields)
qed

lemma encode_loop_frame:
  "encode_loop encode routed cid origin addr acc j = (res, j') \<Longrightarrow>
     next_seq j \<le> next_seq j' \<and> j' = j\<lparr>next_seq := next_seq j', jmetrics := jmetrics j'\<rparr>"
proof (induction routed arbitrary: acc j)
  case (Cons p routed)
  obtain lk ev where p: "p = (lk, ev)" by (cases p)
  obtain res1 j1 where first: "assign_and_encode_event encode ev cid origin addr (Some lk) j = (res1, j1)"
    by fastforce
  have frame: "j1 = j\<lparr>next_seq := next_seq j + 1, jmetrics := jmetrics j1\<rparr>"
    using first by (rule assign_and_encode_event_frame)
  show ?case
  proof (cases res1)
    case (Inl e)
    with Cons.prems p first frame show ?thesis by (cases j1, cases j) auto
  next
    case (Inr rb)
    obtain r bin where "rb = (r, bin)" by (cases rb)
    with Cons.prems Inr p first have
      "encode_loop encode routed cid origin addr (encoded_append r bin acc) j1 = (res, j')" by simp
    from Cons.IH [OF this] frame show ?thesis by (cases j', cases j1, cases j) auto
  qed
qed auto

lemma encode_loop_ok:
  "encode_loop encode routed cid origin addr acc j = (Inr e, j') \<Longrightarrow>
     next_seq j' = next_seq j + int (length routed) \<and>
     (\<exists>recs. encoded_run encode (next_seq j) routed cid recs \<and>
        ee_records e = ee_records acc @ recs \<and>
        ee_store_rows e = ee_store_rows acc @ map (\<lambda>(r, bin). store_row r bin) recs)"
proof (induction routed arbitrary: acc j)
  case (Cons p routed)
  obtain lk ev where p: "p = (lk, ev)" by (cases p)
  from Cons.prems obtain r bin j1 where
    first: "assign_and_encode_event encode ev cid origin addr (Some lk) j = (Inr (r, bin), j1)" and
    rest: "encode_loop encode routed cid origin addr (encoded_append r bin acc) j1 = (Inr e, j')"
    by (auto simp: p split: prod.splits sum.splits)
  have n1: "next_seq j1 = next_seq j + 1"
    using assign_and_encode_event_frame [OF first] by (cases j1, cases j) auto
  from Cons.IH [OF rest] obtain recs where
    "next_seq j' = next_seq j1 + int (length routed)" "encoded_run encode (next_seq j1) routed cid recs"
    "ee_records e = ee_records acc @ (r, bin) # recs"
    "ee_store_rows e = ee_store_rows acc @ map (\<lambda>(r, bin). store_row r bin) ((r, bin) # recs)"
    by (auto simp: encoded_append_def)
  with assign_and_encode_event_ok [OF first] show ?case
    unfolding p n1 by (auto intro!: exI [of _ "(r, bin) # recs"] encoded_run_Cons)
qed (auto simp: no_events_def)

lemma encoded_run_rows:
  "encoded_run encode n routed cid recs \<Longrightarrow>
     map row_seq (map (\<lambda>(r, bin). store_row r bin) recs) = [n .. n + int (length routed) - 1]"
  by (auto simp: encoded_run_def store_row_def o_def case_prod_beta)

subsection \<open>Writing\<close>

lemma append_batch_events:
  "append_batch db rows ps ls st = (Inr u, st') \<Longrightarrow> events st' = events st @ rows"
  by (auto dest!: append_batch_Inr batch_statements_events)

lemma append_batch_store_inv:
  "append_batch db rows ps ls st = (r, st') \<Longrightarrow> store_inv st \<Longrightarrow> store_inv st'"
  by (rule sqlite.append_invar)

lemma journal_append_batch_error:
  "journal_append_batch db rows ps ls sync j = (Inl e, j') \<Longrightarrow> j' = j"
  by (auto simp: journal_append_batch_def dest: append_batch_Inl split: if_splits sum.splits prod.splits)

lemma journal_append_batch_queued:
  "can_queue sync ps ls j \<Longrightarrow>
     journal_append_batch db rows ps ls sync j = (Inr (), j\<lparr>jqueue := jqueue j @ [Some rows]\<rparr>)"
  by (simp add: journal_append_batch_def)

lemma journal_append_batch_durable:
  assumes "journal_append_batch db rows ps ls sync j = (Inr (), j')" "\<not> can_queue sync ps ls j"
  obtains st where "append_batch db rows ps ls (jstore j) = (Inr (), st)"
    "j' = j\<lparr>jstore := st, event_count := event_count j + int (length rows)\<rparr>"
  using assms by (auto simp: journal_append_batch_def split: sum.splits prod.splits)

lemma queued_rows_snoc [simp]:
  "queued_rows (j\<lparr>jqueue := q @ [Some rows]\<rparr>) = queued_rows (j\<lparr>jqueue := q\<rparr>) @ rows"
  by (simp add: queued_rows_def)

lemma upto_fresh:
  assumes "map row_seq rows = [n .. m - 1]"
  shows "distinct (map row_seq rows)" "r \<in> set rows \<Longrightarrow> n \<le> row_seq r \<and> row_seq r < m"
proof -
  show "distinct (map row_seq rows)" unfolding assms by simp
  assume "r \<in> set rows"
  then have "row_seq r \<in> set [n .. m - 1]" by (metis assms image_eqI list.set_map)
  then show "n \<le> row_seq r \<and> row_seq r < m" by simp
qed

text \<open>
  The rows of a commit carry the numbers reserved for it: \<open>n\<close> up to the new \<open>next_seq\<close>.
\<close>

lemma journal_append_log_inv:
  assumes "log_inv (j\<lparr>next_seq := n\<rparr>)" "map row_seq rows = [n .. next_seq j - 1]" "n \<le> next_seq j"
    and "journal_append_batch db rows ps ls sync j = (Inr (), j')"
  shows "log_inv j'"
proof -
  note rows = upto_fresh [OF assms(2)]
  have base: "log_inv j" using log_inv_next_seq [OF assms(1), of "next_seq j"] assms(3) by simp
  have old: "row_seq r < n" if "r \<in> set (events (jstore j) @ queued_rows j)" for r
    using assms(1) that by (auto simp: log_inv_def)
  have "1 \<le> n" using assms(1) by (simp add: log_inv_def)
  then have new: "1 \<le> row_seq r" if "r \<in> set rows" for r
    using rows(2) [OF that] by simp
  have disj: "set (map row_seq (events (jstore j) @ queued_rows j)) \<inter> set (map row_seq rows) = {}"
    using old rows(2) by fastforce
  show ?thesis
  proof (cases "can_queue sync ps ls j")
    case True
    with assms(4) have j': "j' = j\<lparr>jqueue := jqueue j @ [Some rows]\<rparr>"
      by (simp add: journal_append_batch_queued)
    show ?thesis
      using base rows new disj unfolding j' log_inv_def by (auto simp: image_Un)
  next
    case False
    from assms(4) this obtain st where st: "append_batch db rows ps ls (jstore j) = (Inr (), st)"
      and j': "j' = j\<lparr>jstore := st, event_count := event_count j + int (length rows)\<rparr>"
      by (rule journal_append_batch_durable)
    have "store_inv st" using append_batch_store_inv [OF st] base by (simp add: log_inv_def)
    then show ?thesis
      using base rows new disj append_batch_events [OF st] unfolding j' log_inv_def by auto
  qed
qed

lemma remember_progress_cache_ok:
  assumes "cache_ok j" "journal_append_batch db rows ps ls sync j = (Inr (), j')"
    and "\<forall>p \<in> set ps. 0 \<le> pp_committed_through p"
    and new: "\<And>c s v. map_of (rev u) (c, s) = Some v \<Longrightarrow>
      fold max (marks c s ps) (get_producer_progress c s (jstore j)) = v"
    and keep: "\<And>c s. map_of (rev u) (c, s) = None \<Longrightarrow> marks c s ps = []"
  shows "cache_ok (remember_progress u j')"
proof -
  have progress: "get_producer_progress c s (jstore j') =
      fold max (marks c s ps) (get_producer_progress c s (jstore j))" for c s
  proof (cases "can_queue sync ps ls j")
    case True
    with assms(2) show ?thesis
      by (auto simp: journal_append_batch_queued can_queue_def marks_def)
  next
    case False
    from assms(2) this obtain st where "append_batch db rows ps ls (jstore j) = (Inr (), st)"
      "jstore j' = st" by (rule journal_append_batch_durable) simp
    with sqlite.append_progress assms(3) show ?thesis by blast
  qed
  have cache: "progress_cache j' = progress_cache j"
    using assms(2) by (auto simp: journal_append_batch_def split: if_splits sum.splits prod.splits)
  have "get_producer_progress c s (jstore j') = v"
    if "(map_of (progress_cache j) ++ map_of (rev u)) (c, s) = Some v" for c s v
  proof (cases "map_of (rev u) (c, s)")
    case None
    with that keep [OF None] assms(1) progress show ?thesis
      by (simp add: map_add_def cache_ok_def)
  next
    case (Some w)
    with that new [OF Some] progress show ?thesis by simp
  qed
  with assms(1) cache show ?thesis
    by (simp add: cache_ok_def remember_progress_def map_of_dict_update)
qed

lemma cache_ok_append_no_progress:
  assumes "cache_ok j" "journal_append_batch db rows [] ls sync j = (Inr (), j')"
  shows "cache_ok j'"
  using remember_progress_cache_ok [OF assms, of "[]"]
  by (simp add: marks_def remember_progress_def dict_update_def)

subsection \<open>The persistence thread\<close>

lemma persist_next_cases [case_names idle stop dropped stored]:
  obtains (idle) "persist_next db j = j" "running j \<longrightarrow> jqueue j = []"
  | (stop) rest where "jqueue j = None # rest"
      "persist_next db j = j\<lparr>jqueue := rest, running := False\<rparr>"
  | (dropped) rows rest where "jqueue j = Some rows # rest" "persist_next db j = j\<lparr>jqueue := rest\<rparr>"
  | (stored) rows rest st where "jqueue j = Some rows # rest"
      "append_batch db rows [] [] (jstore j) = (Inr (), st)"
      "persist_next db j = j\<lparr>jqueue := rest, jstore := st,
         event_count := event_count j + int (length rows)\<rparr>"
proof (cases "running j \<and> jqueue j \<noteq> []")
  case False
  then have "persist_next db j = j" by (auto simp: persist_next_def)
  with False idle show thesis by blast
next
  case True
  then obtain item rest where q: "running j" "jqueue j = item # rest"
    by (cases "jqueue j") auto
  show thesis
  proof (cases item)
    case None
    with q stop [of rest] show thesis by (simp add: persist_next_def)
  next
    case (Some rows)
    obtain r st where st: "append_batch db rows [] [] (jstore j) = (r, st)" by fastforce
    show thesis
    proof (cases r)
      case (Inl e)
      with st append_batch_Inl have "st = jstore j" by blast
      with Some q st Inl dropped [of rows rest] show thesis by (simp add: persist_next_def)
    next
      case (Inr u)
      with Some q st stored [of rows rest st] show thesis by (simp add: persist_next_def)
    qed
  qed
qed

lemma persist_next_log_inv [inv_intros]:
  assumes "log_inv j"
  shows "log_inv (persist_next db j)"
proof (cases rule: persist_next_cases [of db j])
  case idle
  with assms show ?thesis by simp
next
  case (stop rest)
  with assms show ?thesis by (simp add: log_inv_def queued_rows_def)
next
  case (dropped rows rest)
  with assms show ?thesis
    by (simp add: log_inv_def queued_rows_Cons(1) [OF dropped(1)] image_Un Int_Un_distrib
        ball_Un)
next
  case (stored rows rest st)
  have "store_inv st"
    using append_batch_store_inv [OF stored(2)] assms by (simp add: log_inv_def)
  with assms append_batch_events [OF stored(2)] show ?thesis
    unfolding stored(3) log_inv_def by (simp add: queued_rows_Cons(1) [OF stored(1)] image_Un Int_Un_distrib Int_Un_distrib2 Int_commute
        ball_Un)
qed

lemma persist_next_cache_ok [inv_intros]: "cache_ok j \<Longrightarrow> cache_ok (persist_next db j)"
proof (cases rule: persist_next_cases [of db j])
  case (stored rows rest st)
  assume "cache_ok j"
  with sqlite.append_progress [OF stored(2)] show ?thesis
    unfolding stored(3) by (simp add: cache_ok_def marks_def)
qed (auto simp: cache_ok_def)

lemma drain_inv [inv_intros]:
  "log_inv j \<Longrightarrow> log_inv (drain dbs j)" "cache_ok j \<Longrightarrow> cache_ok (drain dbs j)"
  by (induction dbs j rule: drain.induct) (auto intro: inv_intros)

text \<open>On a well-formed journal the engine is the only reason a queued batch can fail.\<close>

lemma persist_next_accepted:
  assumes "log_inv j" "running j" "jqueue j = Some rows # rest"
  shows "\<exists>st. append_batch True rows [] [] (jstore j) = (Inr (), st)"
proof -
  have "distinct (map row_seq rows)"
    "set (map row_seq rows) \<inter> set (map row_seq (events (jstore j))) = {}"
    using assms(1) by (auto simp: log_inv_def queued_rows_def assms(3))
  then have "fold_res insert_event rows (jstore j) =
      Inr ((jstore j)\<lparr>events := events (jstore j) @ rows\<rparr>)"
    by (simp add: inserts_eq)
  then show ?thesis by (simp add: append_batch_def batch_statements_def)
qed

lemma drain_all:
  assumes "log_inv j" "running j" "jqueue j = map Some batches"
  shows "jqueue (drain (replicate (length batches) True) j) = [] \<and>
    events (jstore (drain (replicate (length batches) True) j)) = events (jstore j) @ concat batches"
  using assms
proof (induction batches arbitrary: j)
  case (Cons rows batches)
  then obtain st where st: "append_batch True rows [] [] (jstore j) = (Inr (), st)"
    using persist_next_accepted [of j rows "map Some batches"] by auto
  define j1 where "j1 = persist_next True j"
  have j1: "j1 = j\<lparr>jqueue := map Some batches, jstore := st,
      event_count := event_count j + int (length rows)\<rparr>"
    using Cons.prems st by (simp add: j1_def persist_next_def)
  have "log_inv j1" unfolding j1_def using Cons.prems(1) by (rule persist_next_log_inv)
  from Cons.IH [OF this] Cons.prems append_batch_events [OF st] show ?case
    by (simp add: j1 flip: j1_def)
qed simp

subsection \<open>History replacement\<close>

lemma rewrite_history_cases:
  assumes "rewrite_history db rows j = (r, j')"
  obtains (failed) e where "r = Inl e" "j' = j"
  | (rewritten) "r = Inr ()" "distinct (map row_seq rows)"
      "j' = reset_history (int (length rows)) (j\<lparr>jstore := (jstore j)\<lparr>events := rows\<rparr>\<rparr>)"
proof -
  obtain r1 st where step: "clear_and_rewrite db rows False (jstore j) = (r1, st)" by fastforce
  from clear_and_rewrite_cases [OF this] assms step failed rewritten show thesis
    by (auto simp: rewrite_history_def)
qed

lemma rewrite_history_inv:
  assumes "log_inv j" "cache_ok j" "jqueue j = []" "map row_seq rows = [1 .. int (length rows)]"
    and "rewrite_history db rows j = (r, j')"
  shows "log_inv j' \<and> cache_ok j'"
  using assms(5)
proof (cases rule: rewrite_history_cases)
  case (failed e)
  with assms show ?thesis by simp
next
  case rewritten
  have rows: "map row_seq rows = [1 .. int (length rows) + 1 - 1]" using assms(4) by simp
  have "log_inv j'"
    using assms(1,3) upto_fresh [OF rows] unfolding rewritten(3)
    by (auto simp: log_inv_def reset_history_def queued_rows_def store_inv_def)
  moreover have "cache_ok j'"
    using assms(2) unfolding rewritten(3)
    by (simp add: cache_ok_def reset_history_def get_producer_progress_def)
  ultimately show ?thesis by simp
qed

section \<open>Properties\<close>

text \<open>A successful encoding run numbers its events consecutively from the next sequence
  number, in input order, one record and one row each, and changes nothing of the journal but
  the next sequence number and the metrics; a failing run inside a reservation leaves the next
  sequence number where it was.\<close>

theorem encode_events_sequences:
  assumes "reserve_sequences (assign_and_encode_events encode routed cid origin addr) j = (r, j')"
  shows "j' = j\<lparr>next_seq := next_seq j', jmetrics := jmetrics j'\<rparr> \<and>
    (case r of
       Inl e \<Rightarrow> next_seq j' = next_seq j
     | Inr e \<Rightarrow> next_seq j' = next_seq j + int (length routed) \<and>
         map (rec_event \<circ> fst) (ee_records e) = map snd routed \<and>
         map (rec_seq \<circ> fst) (ee_records e) = [next_seq j .. next_seq j + int (length routed) - 1] \<and>
         map row_pair (ee_store_rows e) = map (\<lambda>(r, bin). (rec_seq r, bin)) (ee_records e))"
proof -
  obtain r1 j1 where run: "encode_loop encode routed cid origin addr no_events j = (r1, j1)"
    by fastforce
  have frame: "j1 = j\<lparr>next_seq := next_seq j1, jmetrics := jmetrics j1\<rparr>"
    using encode_loop_frame [OF run] by blast
  show ?thesis
  proof (cases r1)
    case (Inl e)
    with assms run have "r = Inl e" "j' = j1\<lparr>next_seq := next_seq j\<rparr>"
      by (simp_all add: reserve_sequences_def assign_and_encode_events_def)
    with frame show ?thesis by (cases j1, cases j) simp
  next
    case (Inr e)
    with assms run have res: "r = Inr e" "j' = j1"
      by (simp_all add: reserve_sequences_def assign_and_encode_events_def)
    from encode_loop_ok [OF run [unfolded Inr]] show ?thesis
      using frame unfolding res
      by (auto simp: no_events_def encoded_run_def row_pair_def store_row_def)
  qed
qed

theorem encode_events_sequences_witness:
  "let j = journal_init empty_store False None;
       ev = [(''k'', PStr K_SET_VISIBILITY), (''prim'', PStr ''/a'')]
   in next_seq (snd (reserve_sequences
        (assign_and_encode_events (\<lambda>r. Inr [1]) [(''default'', ev), (''default'', ev)] None None None) j)) = 3"
  using encode_events_sequences
    [of "\<lambda>r. Inr [1]" "[(''default'', [(''k'', PStr K_SET_VISIBILITY), (''prim'', PStr ''/a'')]),
        (''default'', [(''k'', PStr K_SET_VISIBILITY), (''prim'', PStr ''/a'')])]" None None None
        "journal_init empty_store False None"]
  by (force simp: reserve_sequences_def assign_and_encode_events_def assign_and_encode_event_def
      assign_seq_def encode_event_record_def journal_init_def get_max_seq_def empty_store_def Let_def)



text \<open>Draining the realtime queue is complete: on a well-formed journal whose engine accepts
  writes, as many rounds of the persistence thread as there are queued batches empty the queue
  and append every queued row to the store, in admission order; the event count is then the
  number of stored rows.\<close>

theorem drain_persists_queue:
  assumes "log_inv j" "running j" "jqueue j = map Some batches"
  shows "let j' = drain (replicate (length batches) True) j in
    jqueue j' = [] \<and> events (jstore j') = events (jstore j) @ concat batches \<and>
    event_count j' = int (length (events (jstore j'))) \<and> log_inv j'"
proof -
  have inv: "log_inv (drain (replicate (length batches) True) j)" by (rule drain_inv(1) [OF assms(1)])
  then have "event_count (drain (replicate (length batches) True) j) =
      int (length (events (jstore (drain (replicate (length batches) True) j))))"
    unfolding log_inv_def by blast
  with inv drain_all [OF assms] show ?thesis by (simp only: Let_def)
qed

theorem drain_persists_queue_witness:
  "let row = \<lparr>row_seq = 1, row_bin = [7], row_client_id = None, row_kind = None, row_prim = None\<rparr>;
       j = (journal_start (journal_init empty_store True None))\<lparr>next_seq := 2, jqueue := [Some [row]]\<rparr>
   in events (jstore (drain [True] j)) = [row]"
  using drain_persists_queue
    [of "(journal_start (journal_init empty_store True None))
        \<lparr>next_seq := 2, jqueue := [Some [\<lparr>row_seq = 1, row_bin = [7], row_client_id = None,
           row_kind = None, row_prim = None\<rparr>]]\<rparr>"
      "[[\<lparr>row_seq = 1, row_bin = [7], row_client_id = None, row_kind = None, row_prim = None\<rparr>]]"]
  by (simp add: log_inv_def queued_rows_def journal_init_def journal_start_def empty_store_def
      get_count_def store_inv_def Let_def del: drain.simps)



end
