(* ===== verification/Txn_Barrier.thy ===== *)
theory Txn_Barrier
  imports Prelude
begin

text \<open>
  The read-write barrier (\<open>openusdconnect/server/_txn_barrier.py\<close>) that separates admitted
  transactions from history maintenance. Each method body runs under the condition's lock, so
  it is an atomic function; \<open>None\<close> means that the caller waits on the condition. Acquiring
  exclusively has two atomic sections: claiming the flag, then waiting for the readers to leave.

  The step relation adds which threads are inside, to state what the barrier guarantees.
\<close>

record barrier =
  readers :: int
  exclusive :: bool

definition new_barrier :: barrier where
  "new_barrier = \<lparr>readers = 0, exclusive = False\<rparr>"

definition acquire_shared :: "barrier \<Rightarrow> barrier option" where
  "acquire_shared b = (if exclusive b then None else Some (b\<lparr>readers := readers b + 1\<rparr>))"

definition release_shared :: "barrier \<Rightarrow> barrier" where
  "release_shared b = b\<lparr>readers := readers b - 1\<rparr>"

definition claim_exclusive :: "barrier \<Rightarrow> barrier option" where
  "claim_exclusive b = (if exclusive b then None else Some (b\<lparr>exclusive := True\<rparr>))"

definition enter_exclusive :: "barrier \<Rightarrow> barrier option" where
  "enter_exclusive b = (if readers b > 0 then None else Some b)"

definition release_exclusive :: "barrier \<Rightarrow> barrier" where
  "release_exclusive b = b\<lparr>exclusive := False\<rparr>"

section \<open>Threads\<close>

record threads =
  bar :: barrier
  sharers :: "nat list"
  claimant :: "nat option"
  maintainer :: "nat option"

definition start_threads :: threads where
  "start_threads = \<lparr>bar = new_barrier, sharers = [], claimant = None, maintainer = None\<rparr>"

inductive barrier_step :: "threads \<Rightarrow> threads \<Rightarrow> bool" where
  acquire: "acquire_shared (bar s) = Some b \<Longrightarrow>
    barrier_step s (s\<lparr>bar := b, sharers := t # sharers s\<rparr>)"
| release: "t \<in> set (sharers s) \<Longrightarrow>
    barrier_step s (s\<lparr>bar := release_shared (bar s), sharers := remove1 t (sharers s)\<rparr>)"
| claim: "claim_exclusive (bar s) = Some b \<Longrightarrow>
    barrier_step s (s\<lparr>bar := b, claimant := Some t\<rparr>)"
| enter: "claimant s = Some t \<Longrightarrow> enter_exclusive (bar s) = Some b \<Longrightarrow>
    barrier_step s (s\<lparr>bar := b, claimant := None, maintainer := Some t\<rparr>)"
| leave: "maintainer s = Some t \<Longrightarrow>
    barrier_step s (s\<lparr>bar := release_exclusive (bar s), maintainer := None\<rparr>)"

definition barrier_inv :: "threads \<Rightarrow> bool" where
  "barrier_inv s \<longleftrightarrow> readers (bar s) = int (length (sharers s)) \<and>
     (exclusive (bar s) \<longleftrightarrow> claimant s \<noteq> None \<or> maintainer s \<noteq> None) \<and>
     (claimant s = None \<or> maintainer s = None) \<and> (maintainer s \<noteq> None \<longrightarrow> sharers s = [])"

lemmas barrier_defs = acquire_shared_def release_shared_def claim_exclusive_def
  enter_exclusive_def release_exclusive_def

inductive_cases barrier_stepE: "barrier_step s t"

interpretation barrier_sys: invariant_system barrier_step barrier_inv
proof (unfold_locales, goal_cases)
  case (1 s t)
  then show ?case
  proof (induction rule: barrier_step.induct)
    case (release t s)
    have "int (length (remove1 t (sharers s))) = int (length (sharers s)) - 1"
      using length_pos_if_in_set [OF release(1)] release(1) by (simp add: length_remove1 of_nat_diff Suc_leI)
    with release show ?case by (auto simp: barrier_inv_def barrier_defs)
  qed (auto simp: barrier_inv_def barrier_defs split: if_splits)
qed

lemma barrier_inv_start [simp]: "barrier_inv start_threads"
  by (simp add: barrier_inv_def start_threads_def new_barrier_def)

lemma reachable_inv: "barrier_step\<^sup>*\<^sup>* start_threads s \<Longrightarrow> barrier_inv s"
  using barrier_sys.reach_invar barrier_inv_start by blast

text \<open>C17. Maintenance excludes transactions: in every reachable state of the barrier, while a
  maintenance thread is inside no transaction holds the barrier and none can enter; from the
  moment maintenance has claimed the barrier no new transaction is admitted, and it is either
  free to enter or waits only for holders, each of which can leave and so brings it closer.\<close>

theorem barrier_mutual_exclusion:
  assumes "barrier_step\<^sup>*\<^sup>* start_threads s"
  shows "(maintainer s \<noteq> None \<longrightarrow> sharers s = [] \<and> acquire_shared (bar s) = None) \<and>
    (claimant s \<noteq> None \<longrightarrow> acquire_shared (bar s) = None \<and> claim_exclusive (bar s) = None \<and>
       (enter_exclusive (bar s) \<noteq> None \<or>
        (sharers s \<noteq> [] \<and> readers (release_shared (bar s)) < readers (bar s))))"
  using reachable_inv [OF assms] by (auto simp: barrier_inv_def barrier_defs)

theorem barrier_mutual_exclusion_witness:
  "acquire_shared (the (claim_exclusive new_barrier)) = None"
proof -
  define s where "s = start_threads\<lparr>bar := the (claim_exclusive new_barrier), claimant := Some 7\<rparr>"
  have "barrier_step\<^sup>*\<^sup>* start_threads s"
    using claim [of start_threads "the (claim_exclusive new_barrier)" 7]
    by (intro r_into_rtranclp) (simp add: s_def start_threads_def claim_exclusive_def new_barrier_def)
  from barrier_mutual_exclusion [OF this]
  show ?thesis by (simp add: s_def)
qed

end
