(* ===== verification/Transactions.thy ===== *)
theory Transactions
  imports Journal Txn_Barrier
begin

text \<open>
  Transaction admission, batching and completion
  (\<open>openusdconnect/server/transactions.py\<close>). The commit callbacks are arguments: \<open>commit\<close>
  commits one request, \<open>commit_group\<close> a batch, \<open>checkpoint\<close> captures the durable head; each
  may raise. They act on a server state \<open>'s\<close>.

  The queue's \<open>None\<close> is the stop marker. How many items the worker sees before its deadline
  is up to timing, so it is the argument \<open>seen\<close> of \<open>gather\<close>; the theorems hold for all of them.
\<close>

record transaction_request =
  tr_events :: "event list"
  tr_client_id :: string
  tr_origin :: "string option"
  tr_client_addr :: "string option"
  tr_layer :: "string option"
  tr_layer_key :: string
  tr_session_id :: string
  tr_txn_id :: int

definition payload_load_paths :: "transaction_request \<Rightarrow> string list" where
  "payload_load_paths r = map ev_prim (filter (\<lambda>ev. ev_kind ev = K_LOAD_PAYLOAD) (tr_events r))"

definition progress :: "transaction_request \<Rightarrow> producer_progress" where
  "progress r = \<lparr>pp_client_id = tr_client_id r, pp_session_id = tr_session_id r,
     pp_committed_through = tr_txn_id r\<rparr>"

datatype txn_status = Committed | Duplicate

record transaction_commit =
  tc_status :: txn_status
  tc_txn_id :: int
  tc_records :: "(event_record \<times> bytes) list"
  tc_checkpoint :: "transaction_checkpoint option"

type_synonym outcome = "transaction_commit res"

type_synonym 's commit_fn = "transaction_request \<Rightarrow> 's \<Rightarrow> outcome \<times> 's"
type_synonym 's group_fn = "transaction_request list \<Rightarrow> 's \<Rightarrow> outcome list res \<times> 's"

record 's coordinator =
  co_state :: 's
  co_barrier :: barrier
  co_stopping :: bool
  co_threaded :: bool
  co_queue :: "transaction_request option list"
  co_done :: "(transaction_request \<times> outcome) list"

section \<open>Completion\<close>

definition completed_outcome :: "transaction_checkpoint option \<Rightarrow> outcome \<Rightarrow> outcome" where
  "completed_outcome ck out =
     (case out of
        Inl e \<Rightarrow> Inl e
      | Inr c \<Rightarrow> Inr (if tc_status c = Committed \<and> ck \<noteq> None then c\<lparr>tc_checkpoint := ck\<rparr> else c))"

definition is_committed :: "outcome \<Rightarrow> bool" where
  "is_committed out = (case out of Inl _ \<Rightarrow> False | Inr c \<Rightarrow> tc_status c = Committed)"

definition release_all :: "nat \<Rightarrow> barrier \<Rightarrow> barrier" where
  "release_all n b = (release_shared ^^ n) b"

definition complete ::
  "('s \<Rightarrow> transaction_checkpoint res) \<Rightarrow> transaction_request list \<Rightarrow> outcome list
     \<Rightarrow> 's coordinator \<Rightarrow> 's coordinator" where
  "complete checkpoint requests outcomes co =
     (let ck = (if list_ex is_committed outcomes
                then (case checkpoint (co_state co) of Inl _ \<Rightarrow> None | Inr c \<Rightarrow> Some c) else None)
      in co\<lparr>co_done := co_done co @ zip requests (map (completed_outcome ck) outcomes),
            co_barrier := release_all (length requests) (co_barrier co)\<rparr>)"

section \<open>Execution\<close>

fun commit_each :: "'s commit_fn \<Rightarrow> transaction_request list \<Rightarrow> 's \<Rightarrow> outcome list \<times> 's" where
  "commit_each commit [] s = ([], s)"
| "commit_each commit (r # rs) s =
     (let (out, s1) = commit r s; (outs, s2) = commit_each commit rs s1 in (out # outs, s2))"

definition execute ::
  "'s commit_fn \<Rightarrow> 's group_fn \<Rightarrow> ('s \<Rightarrow> transaction_checkpoint res)
     \<Rightarrow> transaction_request list \<Rightarrow> 's coordinator \<Rightarrow> 's coordinator" where
  "execute commit commit_group checkpoint requests co =
     (let (group, s1) = commit_group requests (co_state co);
          (outcomes, s2) =
            (case group of
               Inr outs \<Rightarrow> if length outs = length requests then (outs, s1)
                          else commit_each commit requests s1
             | Inl e \<Rightarrow> commit_each commit requests s1)
      in complete checkpoint requests outcomes (co\<lparr>co_state := s2\<rparr>))"

section \<open>Admission\<close>

text \<open>\<open>submit\<close>: \<open>None\<close> when the caller waits for the barrier.\<close>

definition submit ::
  "'s commit_fn \<Rightarrow> ('s \<Rightarrow> transaction_checkpoint res) \<Rightarrow> transaction_request \<Rightarrow> 's coordinator
     \<Rightarrow> (unit res \<times> 's coordinator) option" where
  "submit commit checkpoint request co =
     (if co_stopping co
      then Some (Inl (RuntimeError ''transaction coordinator is shutting down''), co)
      else case acquire_shared (co_barrier co) of
        None \<Rightarrow> None
      | Some b \<Rightarrow>
          let co = co\<lparr>co_barrier := b\<rparr>
          in if co_threaded co
             then Some (Inr (), co\<lparr>co_queue := co_queue co @ [Some request]\<rparr>)
             else let (out, s) = commit request (co_state co)
                  in Some (Inr (), complete checkpoint [request] [out] (co\<lparr>co_state := s\<rparr>)))"

definition shutdown :: "'s coordinator \<Rightarrow> 's coordinator" where
  "shutdown co =
     (if co_stopping co then co
      else let co = co\<lparr>co_stopping := True\<rparr>
           in if co_threaded co then co\<lparr>co_queue := co_queue co @ [None]\<rparr> else co)"

section \<open>The worker\<close>

fun gather ::
  "nat \<Rightarrow> nat \<Rightarrow> transaction_request list \<Rightarrow> transaction_request option list
     \<Rightarrow> transaction_request list \<times> transaction_request option list \<times> bool" where
  "gather limit seen acc q =
     (if length acc \<ge> limit \<or> payload_load_paths (last acc) \<noteq> [] then (acc, q, False)
      else case seen of
        0 \<Rightarrow> (acc, q, False)
      | Suc seen' \<Rightarrow>
          (case q of
             [] \<Rightarrow> (acc, q, False)
           | None # q' \<Rightarrow> (acc, q', True)
           | Some r # q' \<Rightarrow> gather limit seen' (acc @ [r]) q'))"

declare gather.simps [simp del]

text \<open>One round of \<open>_run\<close>; the flag says whether the worker stops.\<close>

definition run_round ::
  "'s commit_fn \<Rightarrow> 's group_fn \<Rightarrow> ('s \<Rightarrow> transaction_checkpoint res) \<Rightarrow> nat \<Rightarrow> nat
     \<Rightarrow> 's coordinator \<Rightarrow> bool \<times> 's coordinator" where
  "run_round commit commit_group checkpoint limit seen co =
     (case co_queue co of
        [] \<Rightarrow> (False, co)
      | None # q \<Rightarrow> (True, co\<lparr>co_queue := q\<rparr>)
      | Some r # q \<Rightarrow>
          (let (batch, q', stop) = gather limit seen [r] q
           in (stop, execute commit commit_group checkpoint batch (co\<lparr>co_queue := q'\<rparr>))))"

text \<open>The loop, one entry of the schedule per round.\<close>

fun run ::
  "'s commit_fn \<Rightarrow> 's group_fn \<Rightarrow> ('s \<Rightarrow> transaction_checkpoint res) \<Rightarrow> nat \<Rightarrow> nat list
     \<Rightarrow> 's coordinator \<Rightarrow> 's coordinator" where
  "run commit commit_group checkpoint limit [] co = co"
| "run commit commit_group checkpoint limit (seen # schedule) co =
     (case run_round commit commit_group checkpoint limit seen co of
        (True, co') \<Rightarrow> co'
      | (False, co') \<Rightarrow> run commit commit_group checkpoint limit schedule co')"

section \<open>Facts\<close>

lemma commit_each_length: "length (fst (commit_each commit rs s)) = length rs"
  by (induction rs arbitrary: s) (auto simp: case_prod_beta Let_def)

definition queued :: "transaction_request option list \<Rightarrow> transaction_request list" where
  "queued q = [r. Some r \<leftarrow> q]"

lemma queued_simps [simp]:
  "queued [] = []" "queued (None # q) = queued q" "queued (Some r # q) = r # queued q"
  "queued (q @ q') = queued q @ queued q'"
  by (simp_all add: queued_def)

lemma gather_queued: "gather limit seen acc q = (batch, q', stop) \<Longrightarrow> batch @ queued q' = acc @ queued q"
proof (induction limit seen acc q rule: gather.induct)
  case (1 limit seen acc q)
  from "1.prems" show ?case
    by (subst (asm) gather.simps)
      (auto split: if_splits nat.splits list.splits option.splits dest!: "1.IH" [rotated -1])
qed

text \<open>What the batches look like: bounded, and a payload load only in the last place.\<close>

definition batch_ok :: "nat \<Rightarrow> transaction_request list \<Rightarrow> bool" where
  "batch_ok limit batch \<longleftrightarrow> batch \<noteq> [] \<and> length batch \<le> max 1 limit \<and>
     (\<forall>r \<in> set (butlast batch). payload_load_paths r = [])"

lemma gather_batch_ok:
  "gather limit seen acc q = (batch, q', stop) \<Longrightarrow> batch_ok limit acc \<Longrightarrow> batch_ok limit batch"
proof (induction limit seen acc q rule: gather.induct)
  case (1 limit seen acc q)
  have step: "batch_ok limit (acc @ [r])"
    if "\<not> (length acc \<ge> limit \<or> payload_load_paths (last acc) \<noteq> [])" for r
    using that "1.prems"(2) by (cases acc rule: rev_cases) (auto simp: batch_ok_def butlast_append)
  from "1.prems" show ?case
    by (subst (asm) gather.simps)
      (auto split: if_splits nat.splits list.splits option.splits intro: "1.IH" step)
qed

lemma execute_done:
  assumes "execute commit commit_group checkpoint rs co = co'"
  shows "map fst (co_done co') = map fst (co_done co) @ rs"
    "co_barrier co' = release_all (length rs) (co_barrier co)"
    "co_queue co' = co_queue co" "co_stopping co' = co_stopping co" "co_threaded co' = co_threaded co"
proof -
  obtain outs s where out: "length outs = length rs"
    "co' = complete checkpoint rs outs (co\<lparr>co_state := s\<rparr>)"
    using assms commit_each_length [of commit rs]
    by (auto simp: execute_def split: prod.splits sum.splits if_splits) (metis fst_conv)+
  then show "map fst (co_done co') = map fst (co_done co) @ rs"
    "co_barrier co' = release_all (length rs) (co_barrier co)"
    "co_queue co' = co_queue co" "co_stopping co' = co_stopping co" "co_threaded co' = co_threaded co"
    by (auto simp: complete_def Let_def)
qed

lemma release_all_readers: "readers (release_all n b) = readers b - int n"
  by (induction n) (auto simp: release_all_def release_shared_def)

lemma release_all_exclusive: "exclusive (release_all n b) = exclusive b"
  by (induction n) (auto simp: release_all_def release_shared_def)

section \<open>Reachable coordinators\<close>

inductive co_step ::
  "'s commit_fn \<Rightarrow> 's group_fn \<Rightarrow> ('s \<Rightarrow> transaction_checkpoint res) \<Rightarrow> nat
     \<Rightarrow> 's coordinator \<Rightarrow> 's coordinator \<Rightarrow> bool"
  for commit commit_group checkpoint limit where
  submit_step: "submit commit checkpoint r co = Some (res, co') \<Longrightarrow>
    co_step commit commit_group checkpoint limit co co'"
| shutdown_step: "co_step commit commit_group checkpoint limit co (shutdown co)"
| round_step: "co_step commit commit_group checkpoint limit co
    (snd (run_round commit commit_group checkpoint limit seen co))"

text \<open>
  The stop marker is only ever last, and the coordinator's share of the barrier is exactly the
  requests still queued; \<open>k\<close> counts the holders outside the coordinator.
\<close>

definition queue_shape :: "'s coordinator \<Rightarrow> bool" where
  "queue_shape co \<longleftrightarrow> (\<exists>rs. co_queue co = map Some rs \<or> co_stopping co \<and> co_queue co = map Some rs @ [None])"

definition co_inv :: "int \<Rightarrow> 's coordinator \<Rightarrow> bool" where
  "co_inv k co \<longleftrightarrow> co_threaded co \<and> queue_shape co \<and>
     readers (co_barrier co) = k + int (length (queued (co_queue co)))"

lemma queued_map_Some [simp]: "queued (map Some rs) = rs"
  by (induction rs) auto

lemma gather_shape:
  "gather limit seen acc q = (batch, q', stop) \<Longrightarrow> q = map Some rs @ tl_none \<Longrightarrow>
     tl_none \<in> {[], [None]} \<Longrightarrow> stop \<and> q' = [] \<or> (\<exists>rs'. q' = map Some rs' @ tl_none)"
proof (induction limit seen acc q arbitrary: rs rule: gather.induct)
  case (1 limit seen acc q)
  show ?case
  proof (cases "length acc \<ge> limit \<or> payload_load_paths (last acc) \<noteq> [] \<or> seen = 0 \<or> q = []")
    case True
    then have "gather limit seen acc q = (acc, q, False)"
      by (subst gather.simps) (auto split: nat.split list.split)
    with "1.prems" show ?thesis by auto
  next
    case False
    then obtain seen' item rest where s: "seen = Suc seen'" "q = item # rest"
      by (cases seen; cases q) auto
    show ?thesis
    proof (cases rs)
      case Nil
      then have "item = None" "rest = []" using "1.prems" s by auto
      with False "1.prems"(1) s show ?thesis by (subst (asm) gather.simps) auto
    next
      case (Cons r rs')
      then have item: "item = Some r" "rest = map Some rs' @ tl_none" using "1.prems" s by auto
      with False "1.prems"(1) s have "gather limit seen' (acc @ [r]) rest = (batch, q', stop)"
        by (subst (asm) gather.simps) auto
      from "1.IH" [OF _ s(1) s(2) item(1) this item(2)] False "1.prems"(3) show ?thesis by auto
    qed
  qed
qed

lemma run_round_cases [case_names idle stopped batch]:
  obtains (idle) "co_queue co = []" "run_round commit cg ck limit seen co = (False, co)"
  | (stopped) q where "co_queue co = None # q"
      "run_round commit cg ck limit seen co = (True, co\<lparr>co_queue := q\<rparr>)"
  | (batch) r q batch q' stop where "co_queue co = Some r # q"
      "gather limit seen [r] q = (batch, q', stop)"
      "run_round commit cg ck limit seen co = (stop, execute commit cg ck batch (co\<lparr>co_queue := q'\<rparr>))"
proof (cases "co_queue co")
  case Nil
  with idle show thesis by (simp add: run_round_def)
next
  case (Cons item q)
  show thesis
  proof (cases item)
    case None
    with Cons stopped show thesis by (simp add: run_round_def)
  next
    case (Some r)
    obtain b q' stop where "gather limit seen [r] q = (b, q', stop)" by (metis prod_cases3)
    with Cons Some batch show thesis by (simp add: run_round_def)
  qed
qed

lemma queue_shape_cases:
  assumes "queue_shape co"
  obtains rs t where "co_queue co = map Some rs @ t" "t \<in> {[], [None]}" "t = [None] \<longrightarrow> co_stopping co"
proof -
  from assms obtain rs where
    "co_queue co = map Some rs @ [] \<or> co_stopping co \<and> co_queue co = map Some rs @ [None]"
    by (auto simp: queue_shape_def)
  with that show thesis by blast
qed

lemma run_round_inv:
  assumes "co_inv k co"
  shows "co_inv k (snd (run_round commit cg ck limit seen co))"
proof (cases rule: run_round_cases [of co commit cg ck limit seen])
  case idle
  with assms show ?thesis by simp
next
  case (stopped q)
  with assms show ?thesis
    by (auto simp: co_inv_def queue_shape_def map_eq_Cons_conv append_eq_Cons_conv Cons_eq_append_conv)
next
  case (batch r q b q' stop)
  obtain rs t where q: "co_queue co = map Some rs @ t" and t: "t \<in> {[], [None]}"
    "t = [None] \<longrightarrow> co_stopping co"
    using assms queue_shape_cases [of co] unfolding co_inv_def by blast
  with batch(1) obtain rs' where rest: "q = map Some rs' @ t" by (cases rs) auto
  note ex = execute_done [OF refl, of commit cg ck b "co\<lparr>co_queue := q'\<rparr>"]
  have count: "length b + length (queued q') = length (queued (co_queue co))"
    using arg_cong [OF gather_queued [OF batch(2)], of length] by (simp add: batch(1))
  have "stop \<and> q' = [] \<or> (\<exists>rs'. q' = map Some rs' @ t)" by (rule gather_shape [OF batch(2) rest t(1)])
  then have "queue_shape (execute commit cg ck b (co\<lparr>co_queue := q'\<rparr>))"
    using t by (auto simp: queue_shape_def ex)
  then show ?thesis
    using assms count by (simp add: co_inv_def batch(3) ex release_all_readers)
qed

lemma submit_inv:
  assumes "submit commit ck r co = Some (res, co')" "co_inv k co"
  shows "co_inv k co'"
proof (cases "co_stopping co")
  case True
  with assms show ?thesis by (simp add: submit_def)
next
  case False
  with assms obtain b where b: "acquire_shared (co_barrier co) = Some b"
    "co' = co\<lparr>co_barrier := b, co_queue := co_queue co @ [Some r]\<rparr>"
    by (auto simp: submit_def co_inv_def Let_def split: option.splits)
  obtain rs where "co_queue co = map Some rs"
    using assms(2) False by (auto simp: co_inv_def queue_shape_def)
  then have "queue_shape co'" by (auto simp: queue_shape_def b intro!: exI [of _ "rs @ [r]"])
  with assms(2) b show ?thesis
    by (auto simp: co_inv_def acquire_shared_def split: if_splits)
qed

lemma shutdown_inv: "co_inv k co \<Longrightarrow> co_inv k (shutdown co)"
  by (auto simp: co_inv_def shutdown_def Let_def queue_shape_def)

interpretation co_sys: invariant_system "co_step commit cg ck limit" "co_inv k"
  for commit cg ck limit k
  by unfold_locales (auto elim!: co_step.cases intro: submit_inv shutdown_inv run_round_inv)

lemma gather_stop:
  "gather limit seen acc (map Some rs @ [None]) = (batch, q', True) \<Longrightarrow> q' = []"
proof (induction limit seen acc "map Some rs @ [None] :: transaction_request option list"
    arbitrary: rs rule: gather.induct)
  case (1 limit seen acc)
  from "1.prems" show ?case
  proof (cases rs)
    case (Cons r rs')
    with "1.prems" obtain seen' where "seen = Suc seen'"
      "gather limit seen' (acc @ [r]) (map Some rs' @ [None]) = (batch, q', True)"
      "\<not> (length acc \<ge> limit \<or> payload_load_paths (last acc) \<noteq> [])"
      by (subst (asm) gather.simps) (auto split: if_splits nat.splits)
    with "1.hyps" Cons show ?thesis by simp
  qed (auto simp: gather.simps split: if_splits nat.splits)
qed

text \<open>The worker with enough rounds.\<close>

lemma run_completes:
  assumes "co_queue co = map Some rs @ [None]" "length schedule > length rs"
  shows "map fst (co_done (run commit cg ck limit schedule co)) = map fst (co_done co) @ rs \<and>
    co_queue (run commit cg ck limit schedule co) = [] \<and>
    readers (co_barrier (run commit cg ck limit schedule co)) = readers (co_barrier co) - int (length rs)"
  using assms
proof (induction schedule arbitrary: co rs)
  case (Cons seen schedule)
  show ?case
  proof (cases rule: run_round_cases [of co commit cg ck limit seen])
    case idle
    with Cons.prems show ?thesis by simp
  next
    case (stopped q)
    with Cons.prems show ?thesis by (cases rs) auto
  next
    case (batch r q b q' stop)
    then obtain rs1 where rs: "rs = r # rs1" "q = map Some rs1 @ [None]"
      using Cons.prems by (cases rs) auto
    note ex = execute_done [OF refl, of commit cg ck b "co\<lparr>co_queue := q'\<rparr>"]
    have q: "b @ queued q' = rs" using gather_queued [OF batch(2)] rs by simp
    consider (finished) "stop" "q' = []" | (more) rs' where "\<not> stop" "q' = map Some rs' @ [None]"
      | (tail) rs' where "stop" "q' = map Some rs' @ [None]"
      using gather_shape [OF batch(2) rs(2)] by auto
    then show ?thesis
    proof cases
      case finished
      with q ex batch(3) show ?thesis by (simp add: release_all_readers)
    next
      case (more rs')
      have ok: "batch_ok limit b" by (rule gather_batch_ok [OF batch(2)]) (simp add: batch_ok_def)
      have len: "length schedule > length rs'"
        using Cons.prems(2) q more ok by (auto simp: batch_ok_def simp flip: length_greater_0_conv)
      from Cons.IH [OF _ len, of "execute commit cg ck b (co\<lparr>co_queue := q'\<rparr>)"] more q ex batch(3)
      show ?thesis by (auto simp: release_all_readers)
    next
      case (tail rs')
      with gather_stop [of limit seen "[r]" rs1 b q'] batch(2) rs show ?thesis by simp
    qed
  qed
qed simp

section \<open>Properties\<close>

text \<open>C16. No admitted request is lost, reordered, answered twice or left holding the
  maintenance barrier: from any coordinator reachable by submissions, worker rounds of any
  timing and shutdowns, shutting down and letting the worker run as many rounds as there are
  queued items empties the queue, completes the queued requests in submission order, each once,
  and returns the barrier to the holders outside the coordinator.\<close>

theorem shutdown_completes_requests:
  assumes "(co_step commit cg ck limit)\<^sup>*\<^sup>* co0 co" "co_inv k co0" "co_queue co = map Some rs"
    and "length schedule > length rs" "\<not> co_stopping co"
  shows "let co' = run commit cg ck limit schedule (shutdown co) in
    map fst (co_done co') = map fst (co_done co) @ rs \<and> co_queue co' = [] \<and>
    readers (co_barrier co') = k"
proof -
  have inv: "co_inv k co" using co_sys.reach_invar assms(1,2) by blast
  then have sh: "shutdown co = co\<lparr>co_stopping := True, co_queue := map Some rs @ [None]\<rparr>"
    using assms(3,5) by (simp add: shutdown_def co_inv_def)
  from run_completes [of "shutdown co" rs schedule commit cg ck limit] assms(4) inv
  show ?thesis by (simp add: sh co_inv_def assms(3) Let_def)
qed

theorem shutdown_completes_requests_witness:
  "let r = \<lparr>tr_events = [], tr_client_id = ''c'', tr_origin = None, tr_client_addr = None,
        tr_layer = None, tr_layer_key = [], tr_session_id = ''s'', tr_txn_id = 1\<rparr>;
      co = \<lparr>co_state = (), co_barrier = \<lparr>readers = 1, exclusive = False\<rparr>, co_stopping = False,
        co_threaded = True, co_queue = [Some r], co_done = []\<rparr>;
      commit = (\<lambda>r s. (Inl StructError, s))
   in map fst (co_done (run commit (\<lambda>rs s. (Inl StructError, s)) (\<lambda>_. Inl StructError) 2 [0, 0] (shutdown co))) = [r]"
proof -
  define r where "r = \<lparr>tr_events = [], tr_client_id = ''c'', tr_origin = None, tr_client_addr = None,
        tr_layer = None, tr_layer_key = [], tr_session_id = ''s'', tr_txn_id = 1\<rparr>"
  define co where "co = \<lparr>co_state = (), co_barrier = \<lparr>readers = 1, exclusive = False\<rparr>,
        co_stopping = False, co_threaded = True, co_queue = [Some r], co_done = []\<rparr>"
  have "co_inv 0 co" by (auto simp: co_inv_def co_def queue_shape_def intro: exI [of _ "[r]"])
  from shutdown_completes_requests [OF rtranclp.rtrancl_refl this, of "[r]" "[0, 0]"]
  show ?thesis unfolding Let_def r_def [symmetric] co_def [symmetric]
    by (simp add: co_def Let_def del: run.simps)
qed

text \<open>Batches keep publication order: a worker round answers a prefix of the queue, in
  order, of at least one and at most the batch size; a request that loads a payload is the
  last of its batch, so its child replay is sequenced before the next transaction.\<close>

theorem batches_end_at_payload_loads:
  assumes "gather limit seen [r] q = (batch, q', stop)"
  shows "batch @ queued q' = r # queued q \<and> batch \<noteq> [] \<and> length batch \<le> max 1 limit \<and>
    (\<forall>r \<in> set (butlast batch). payload_load_paths r = [])"
proof -
  have "batch_ok limit batch" by (rule gather_batch_ok [OF assms]) (simp add: batch_ok_def)
  with gather_queued [OF assms] show ?thesis by (simp add: batch_ok_def)
qed

theorem batches_end_at_payload_loads_witness:
  "let r = (\<lambda>k. \<lparr>tr_events = [[(''k'', PStr k), (''prim'', PStr ''/a'')]], tr_client_id = ''c'',
        tr_origin = None, tr_client_addr = None, tr_layer = None, tr_layer_key = [],
        tr_session_id = ''s'', tr_txn_id = 1\<rparr>)
   in payload_load_paths (r K_SET_VISIBILITY) = [] \<and>
      fst (gather 5 5 [r K_SET_VISIBILITY] [Some (r K_LOAD_PAYLOAD), Some (r K_SET_VISIBILITY)]) =
        [r K_SET_VISIBILITY, r K_LOAD_PAYLOAD]"
proof -
  define r where "r = (\<lambda>k. \<lparr>tr_events = [[(''k'', PStr k), (''prim'', PStr ''/a'')]], tr_client_id = ''c'',
        tr_origin = None, tr_client_addr = None, tr_layer = None, tr_layer_key = [],
        tr_session_id = ''s'', tr_txn_id = (1 :: int)\<rparr>)"
  have loads: "payload_load_paths (r K_SET_VISIBILITY) = []" "payload_load_paths (r K_LOAD_PAYLOAD) = [''/a'']"
    by (simp_all add: r_def payload_load_paths_def ev_kind_def ev_str_def ev_prim_def)
  have run: "gather 5 5 [r K_SET_VISIBILITY] [Some (r K_LOAD_PAYLOAD), Some (r K_SET_VISIBILITY)] =
      ([r K_SET_VISIBILITY, r K_LOAD_PAYLOAD], [Some (r K_SET_VISIBILITY)], False)"
    by (simp add: gather.simps loads eval_nat_numeral)
  from batches_end_at_payload_loads [OF run] loads run show ?thesis
    unfolding Let_def r_def [symmetric] by simp
qed

end
