(* ===== verification/Scene_Tracking.thy ===== *)
theory Scene_Tracking
  imports Protocol "HOL-Library.List_Lexorder" "HOL-Library.Char_ord" "HOL-Library.Sublist"
begin

text \<open>
  The incremental prim index of the server scene (\<open>SceneState\<close> in
  \<open>openusdconnect/server/scene.py\<close>): tracked prim paths with their type, the paths with
  authored \<open>instanceable\<close>, and the sorted path index used to find a subtree by bisection.
  The index may be stale after deletions; it is rebuilt lazily after insertions.

  \<open>track_spec\<close> is the abstract meaning of an event on finite maps and sets of paths, and
  \<open>track_prim_event\<close> is shown to refine it.
\<close>

record tracking =
  prim_paths :: "(string \<times> string) list"
  instanceable_paths :: "string list"
  namespace_paths :: "string list option"

definition empty_tracking :: tracking where
  "empty_tracking = \<lparr>prim_paths = [], instanceable_paths = [], namespace_paths = None\<rparr>"

text \<open>\<open>bisect_left\<close> on a sorted sequence is the number of elements below the key.\<close>

definition bisect_left :: "string list \<Rightarrow> string \<Rightarrow> nat" where
  "bisect_left paths key = length (takeWhile (\<lambda>p. p < key) paths)"

definition namespace_index :: "tracking \<Rightarrow> string list" where
  "namespace_index s =
     (case namespace_paths s of
        Some paths \<Rightarrow> paths
      | None \<Rightarrow> sort (remdups (dict_keys (prim_paths s) @ instanceable_paths s)))"

definition tracked_subtree :: "string \<Rightarrow> tracking \<Rightarrow> string list \<times> tracking" where
  "tracked_subtree prim s =
     (let paths = namespace_index s; pre = prim @ ''/''
      in (prim # takeWhile (prefix pre) (drop (bisect_left paths pre) paths),
          s\<lparr>namespace_paths := Some paths\<rparr>))"

text \<open>\<open>prim.rsplit('/', 1)[0]\<close>.\<close>

definition rsplit_head :: "string \<Rightarrow> string" where
  "rsplit_head p =
     (if CHR ''/'' \<in> set p then rev (tl (dropWhile (\<lambda>c. c \<noteq> CHR ''/'') (rev p))) else p)"

definition move_path :: "string option \<Rightarrow> string \<Rightarrow> string \<Rightarrow> tracking \<Rightarrow> tracking" where
  "move_path new_root prim path s =
     (let type_name = map_of (prim_paths s) path;
          was_instanceable = path \<in> set (instanceable_paths s);
          pp = AList.delete path (prim_paths s);
          ip = removeAll path (instanceable_paths s)
      in case new_root of
           None \<Rightarrow> s\<lparr>prim_paths := pp, instanceable_paths := ip\<rparr>
         | Some nroot \<Rightarrow>
             let moved = nroot @ drop (length prim) path
             in s\<lparr>prim_paths := (case type_name of None \<Rightarrow> pp | Some t \<Rightarrow> AList.update moved t pp),
                  instanceable_paths := (if was_instanceable then List.insert moved ip else ip)\<rparr>)"

definition remove_or_rename :: "string option \<Rightarrow> string \<Rightarrow> tracking \<Rightarrow> tracking" where
  "remove_or_rename new_root prim s =
     (let (subtree, s) = tracked_subtree prim s;
          s = fold (move_path new_root prim) subtree s
      in case new_root of
           None \<Rightarrow> s
         | Some nroot \<Rightarrow>
             s\<lparr>prim_paths := (if map_of (prim_paths s) nroot = None
                               then AList.update nroot ''Xform'' (prim_paths s) else prim_paths s),
               namespace_paths := None\<rparr>)"

definition new_root_of :: "event \<Rightarrow> string option" where
  "new_root_of ev =
     (if ev_kind ev = K_RENAME_PRIM
      then Some (rsplit_head (ev_prim ev) @ CHR ''/'' # ev_str ''new_name'' ev) else None)"

definition instanceable_flag :: "event \<Rightarrow> bool" where
  "instanceable_flag ev = (case map_of ev ''instanceable'' of None \<Rightarrow> True | v \<Rightarrow> truthy v)"

definition track_prim_event :: "event \<Rightarrow> tracking \<Rightarrow> tracking" where
  "track_prim_event ev s =
     (let k = ev_kind ev; prim = ev_prim ev
      in if k = K_ENSURE_PRIM then
           s\<lparr>prim_paths := AList.update prim (ev_str ''typeName'' ev) (prim_paths s),
             namespace_paths := None\<rparr>
         else if k = K_DELETE_PRIM \<or> k = K_RENAME_PRIM then remove_or_rename (new_root_of ev) prim s
         else if k = K_SET_INSTANCEABLE then
           (if instanceable_flag ev
            then s\<lparr>instanceable_paths := List.insert prim (instanceable_paths s), namespace_paths := None\<rparr>
            else s\<lparr>instanceable_paths := removeAll prim (instanceable_paths s)\<rparr>)
         else s)"

text \<open>The tracking part of \<open>update_prim_tracking\<close>: \<open>dirty\<close> is \<open>_prim_count_dirty\<close>.\<close>

definition PRIM_COUNT_CHANGE_KINDS :: "string list" where
  "PRIM_COUNT_CHANGE_KINDS =
     STRUCTURAL_EVENT_KINDS @ [K_DELETE_PRIM, K_DEACTIVATE_PRIM, K_RENAME_PRIM]"

fun update_prim_tracking :: "event list \<Rightarrow> tracking \<times> bool \<Rightarrow> tracking \<times> bool" where
  "update_prim_tracking [] sd = sd"
| "update_prim_tracking (ev # evs) (s, dirty) =
     update_prim_tracking evs
       ((if ev_kind ev \<in> {K_ENSURE_PRIM, K_DELETE_PRIM, K_RENAME_PRIM, K_SET_INSTANCEABLE}
         then track_prim_event ev s else s),
        dirty \<or> ev_kind ev \<in> set PRIM_COUNT_CHANGE_KINDS)"

definition rebuild_tracking :: "event list \<Rightarrow> tracking \<times> bool" where
  "rebuild_tracking evs = (fold track_prim_event evs empty_tracking, True)"

definition get_tracked_prim_count :: "tracking \<Rightarrow> nat" where
  "get_tracked_prim_count s = length (prim_paths s)"

definition get_instance_count :: "tracking \<Rightarrow> nat" where
  "get_instance_count s = length (instanceable_paths s)"

section \<open>Abstract meaning\<close>

definition in_subtree :: "string \<Rightarrow> string \<Rightarrow> bool" where
  "in_subtree prim p \<longleftrightarrow> p = prim \<or> prefix (prim @ ''/'') p"

type_synonym tracked = "(string \<Rightarrow> string option) \<times> (string \<Rightarrow> bool)"

definition abs_tracking :: "tracking \<Rightarrow> tracked" where
  "abs_tracking s = (map_of (prim_paths s), (\<lambda>p. p \<in> set (instanceable_paths s)))"

definition source_path :: "string \<Rightarrow> string \<Rightarrow> string \<Rightarrow> string" where
  "source_path prim nroot q = prim @ drop (length nroot) q"

definition track_spec :: "event \<Rightarrow> tracked \<Rightarrow> tracked" where
  "track_spec ev = (\<lambda>(types, inst).
     let prim = ev_prim ev; k = ev_kind ev
     in if k = K_ENSURE_PRIM then (types(prim \<mapsto> ev_str ''typeName'' ev), inst)
        else if k = K_DELETE_PRIM then
          ((\<lambda>q. if in_subtree prim q then None else types q), (\<lambda>q. inst q \<and> \<not> in_subtree prim q))
        else if k = K_RENAME_PRIM then
          (let nroot = rsplit_head prim @ CHR ''/'' # ev_str ''new_name'' ev;
               moved = (\<lambda>q. if in_subtree nroot q then types (source_path prim nroot q) else None);
               kept = (\<lambda>q. if in_subtree prim q then None else types q);
               types' = kept ++ moved
           in (if types' nroot = None then types'(nroot \<mapsto> ''Xform'') else types',
               (\<lambda>q. in_subtree nroot q \<and> inst (source_path prim nroot q) \<or>
                    inst q \<and> \<not> in_subtree prim q)))
        else if k = K_SET_INSTANCEABLE then (types, inst(prim := instanceable_flag ev))
        else (types, inst))"

definition track_inv :: "tracking \<Rightarrow> bool" where
  "track_inv s \<longleftrightarrow> wf_dict (prim_paths s) \<and> distinct (instanceable_paths s) \<and>
     (case namespace_paths s of None \<Rightarrow> True
      | Some paths \<Rightarrow> sorted paths \<and> set (dict_keys (prim_paths s)) \<subseteq> set paths \<and>
          set (instanceable_paths s) \<subseteq> set paths)"

section \<open>The bisected subtree\<close>

lemma prefix_ge: "prefix xs ys \<Longrightarrow> xs \<le> (ys :: string)"
proof -
  have "xs \<le> xs @ zs" for zs by (induction xs) auto
  then show "prefix xs ys \<Longrightarrow> xs \<le> ys" by (auto simp: prefix_def)
qed

lemma prefix_convex:
  "xs \<le> p \<Longrightarrow> p \<le> q \<Longrightarrow> prefix xs q \<Longrightarrow> prefix xs (p :: string)"
proof (induction xs arbitrary: p q)
  case (Cons x xs)
  then show ?case by (cases p; cases q) (auto simp: less_le)
qed simp

lemma takeWhile_prefix_sorted:
  assumes "sorted paths" "\<forall>p \<in> set paths. pre \<le> p"
  shows "takeWhile (prefix pre) paths = filter (prefix pre) (paths :: string list)"
  using assms
proof (induction paths)
  case (Cons p paths)
  show ?case
  proof (cases "prefix pre p")
    case True
    with Cons show ?thesis by simp
  next
    case False
    have "filter (prefix pre) paths = []"
      using Cons.prems False prefix_convex [of pre p] by (auto simp: filter_empty_conv)
    with False show ?thesis by simp
  qed
qed simp

lemma subtree_scan:
  assumes "sorted paths"
  shows "takeWhile (prefix pre) (drop (bisect_left paths pre) paths) = filter (prefix pre) paths"
proof -
  have split: "paths = takeWhile (\<lambda>p. p < pre) paths @ dropWhile (\<lambda>p. p < pre) paths" by simp
  have drop: "drop (bisect_left paths pre) paths = dropWhile (\<lambda>p. p < pre) paths"
    by (simp add: bisect_left_def dropWhile_eq_drop)
  have ge: "\<forall>p \<in> set (dropWhile (\<lambda>p. p < pre) paths). pre \<le> p"
    using assms
  proof (induction paths)
    case (Cons p paths)
    then show ?case by (auto simp: not_less intro: order_trans)
  qed simp
  have none: "filter (prefix pre) (takeWhile (\<lambda>p. p < pre) paths) = []"
    by (auto simp: filter_empty_conv dest!: set_takeWhileD prefix_ge)
  have "sorted (dropWhile (\<lambda>p. p < pre) paths)" using assms by (rule sorted_dropWhile)
  from takeWhile_prefix_sorted [OF this ge] have
    "takeWhile (prefix pre) (drop (bisect_left paths pre) paths) =
     filter (prefix pre) (dropWhile (\<lambda>p. p < pre) paths)" by (simp add: drop)
  also have "\<dots> = filter (prefix pre) paths"
    by (metis append_Nil filter_append none split)
  finally show ?thesis .
qed

lemma namespace_index_ok:
  assumes "track_inv s"
  shows "sorted (namespace_index s)"
    "set (dict_keys (prim_paths s)) \<union> set (instanceable_paths s) \<subseteq> set (namespace_index s)"
  using assms by (auto simp: track_inv_def namespace_index_def split: option.splits)

lemma tracked_subtree_set:
  assumes "track_inv s"
  shows "set (fst (tracked_subtree prim s)) = {p. in_subtree prim p \<and> (p = prim \<or> p \<in> set (namespace_index s))}"
    "snd (tracked_subtree prim s) = s\<lparr>namespace_paths := Some (namespace_index s)\<rparr>"
  using subtree_scan [OF namespace_index_ok(1) [OF assms], of "prim @ ''/''"]
  by (auto simp: tracked_subtree_def in_subtree_def Let_def)

section \<open>Moving a subtree\<close>

text \<open>
  One step of the loop as a function on finite maps, and the whole loop: a path below the new
  nroot gets the entry of the path it was moved from, the old paths lose theirs.
\<close>

definition mv :: "(string \<Rightarrow> string) \<Rightarrow> string \<Rightarrow> (string \<Rightarrow> 'a option) \<Rightarrow> string \<Rightarrow> 'a option" where
  "mv f x m = (case m x of None \<Rightarrow> m(x := None) | Some v \<Rightarrow> (m(x := None))(f x \<mapsto> v))"

definition inst_map :: "tracking \<Rightarrow> string \<Rightarrow> unit option" where
  "inst_map s p = (if p \<in> set (instanceable_paths s) then Some () else None)"

lemma move_path_mv:
  "map_of (prim_paths (move_path (Some r) prim x s)) =
     mv (\<lambda>p. r @ drop (length prim) p) x (map_of (prim_paths s))"
  "inst_map (move_path (Some r) prim x s) = mv (\<lambda>p. r @ drop (length prim) p) x (inst_map s)"
  by (auto simp: move_path_def mv_def Let_def inst_map_def fun_eq_iff split: option.splits)

lemma move_path_delete:
  "map_of (prim_paths (move_path None prim x s)) = (map_of (prim_paths s))(x := None)"
  "instanceable_paths (move_path None prim x s) = removeAll x (instanceable_paths s)"
  by (auto simp: move_path_def Let_def)

lemma move_path_frame [simp]: "namespace_paths (move_path r prim x s) = namespace_paths s"
  by (auto simp: move_path_def Let_def split: option.splits)

lemma move_path_wf:
  "wf_dict (prim_paths s) \<Longrightarrow> wf_dict (prim_paths (move_path r prim x s))"
  "distinct (instanceable_paths s) \<Longrightarrow> distinct (instanceable_paths (move_path r prim x s))"
  by (auto simp: move_path_def Let_def distinct_removeAll split: option.splits)

lemma fold_move_wf:
  "wf_dict (prim_paths s) \<Longrightarrow> wf_dict (prim_paths (fold (move_path r prim) ps s))"
  "distinct (instanceable_paths s) \<Longrightarrow> distinct (instanceable_paths (fold (move_path r prim) ps s))"
  by (induction ps arbitrary: s) (auto simp: move_path_wf)

lemma fold_move_frame [simp]:
  "namespace_paths (fold (move_path r prim) ps s) = namespace_paths s"
  by (induction ps arbitrary: s) auto

lemma fold_move_delete:
  "map_of (prim_paths (fold (move_path None prim) ps s)) q =
     (if q \<in> set ps then None else map_of (prim_paths s) q)"
  "set (instanceable_paths (fold (move_path None prim) ps s)) = set (instanceable_paths s) - set ps"
  by (induction ps arbitrary: s) (auto simp: move_path_delete)

lemma fold_move_mv:
  "map_of (prim_paths (fold (move_path (Some r) prim) ps s)) =
     fold (mv (\<lambda>p. r @ drop (length prim) p)) ps (map_of (prim_paths s))"
  "inst_map (fold (move_path (Some r) prim) ps s) =
     fold (mv (\<lambda>p. r @ drop (length prim) p)) ps (inst_map s)"
  by (induction ps arbitrary: s) (simp_all add: move_path_mv)

lemma subtree_move:
  "in_subtree prim p \<Longrightarrow> in_subtree r (r @ drop (length prim) p)"
  "in_subtree prim p \<Longrightarrow> source_path prim r (r @ drop (length prim) p) = p"
  "in_subtree r q \<Longrightarrow> in_subtree prim (source_path prim r q)"
  "in_subtree r q \<Longrightarrow> r @ drop (length prim) (source_path prim r q) = q"
  by (auto simp: in_subtree_def source_path_def prefix_def)

definition apart :: "string \<Rightarrow> string \<Rightarrow> bool" where
  "apart prim r \<longleftrightarrow> r = prim \<or> (\<forall>q. \<not> (in_subtree prim q \<and> in_subtree r q))"

lemma fold_mv:
  assumes "apart prim r" "\<forall>x \<in> set ps. in_subtree prim x"
  shows "fold (mv (\<lambda>p. r @ drop (length prim) p)) ps m q =
    (if in_subtree r q \<and> source_path prim r q \<in> set ps \<and> m (source_path prim r q) \<noteq> None
     then m (source_path prim r q) else if q \<in> set ps then None else m q)"
  using assms(2)
proof (induction ps arbitrary: q rule: rev_induct)
  case (snoc x ps)
  define f where "f = (\<lambda>p. r @ drop (length prim) p)"
  define t where "t = fold (mv f) ps m"
  have x: "in_subtree prim x" using snoc.prems by simp
  have IH: "t q = (if in_subtree r q \<and> source_path prim r q \<in> set ps \<and> m (source_path prim r q) \<noteq> None
     then m (source_path prim r q) else if q \<in> set ps then None else m q)" for q
    using snoc by (simp add: t_def f_def)
  have fx: "in_subtree r (f x)" "source_path prim r (f x) = x"
    using subtree_move(1,2) [OF x] by (simp_all add: f_def)
  have src: "f (source_path prim r q) = q" if "in_subtree r q" for q
    using subtree_move(4) [OF that] by (simp add: f_def)
  have goal: "mv f x t q = (if in_subtree r q \<and> source_path prim r q \<in> set (ps @ [x]) \<and>
      m (source_path prim r q) \<noteq> None then m (source_path prim r q)
      else if q \<in> set (ps @ [x]) then None else m q)"
  proof (cases "r = prim")
    case True
    then have same: "source_path prim r q = q" if "in_subtree prim q" for q
      using that by (auto simp: source_path_def in_subtree_def prefix_def)
    with True fx have "f x = x" using x by (metis subtree_move(1))
    then show ?thesis using IH same x True snoc.prems by (auto simp: mv_def split: option.splits)
  next
    case False
    then have disj: "\<not> (in_subtree prim q \<and> in_subtree r q)" for q using assms(1) by (simp add: apart_def)
    then have "t x = (if x \<in> set ps then None else m x)" using IH [of x] x by auto
    with IH fx src disj x snoc.prems show ?thesis
      by (auto simp: mv_def split: option.splits)
  qed
  then show ?case by (simp add: t_def f_def)
qed simp

text \<open>A sibling of a path with a directory part is apart from it.\<close>

lemma rsplit_head_split:
  assumes "CHR ''/'' \<in> set p"
  obtains base where "p = rsplit_head p @ ''/'' @ base" "CHR ''/'' \<notin> set base"
proof -
  define base where "base = rev (takeWhile (\<lambda>c. c \<noteq> CHR ''/'') (rev p))"
  obtain c rest where rest: "dropWhile (\<lambda>c. c \<noteq> CHR ''/'') (rev p) = c # rest"
    using assms by (cases "dropWhile (\<lambda>c. c \<noteq> CHR ''/'') (rev p)") (auto simp: dropWhile_eq_Nil_conv)
  then have c: "c = CHR ''/''" by (auto simp: dropWhile_eq_Cons_conv)
  have "rev p = rev base @ c # rest"
    unfolding base_def rest [symmetric] by (simp only: rev_rev_ident takeWhile_dropWhile_id)
  then have "rev (rev p) = rev (rev base @ c # rest)" by (rule arg_cong)
  then have "p = rev rest @ [c] @ base" by simp
  moreover have "rsplit_head p = rev rest" using assms rest by (simp add: rsplit_head_def)
  moreover have "CHR ''/'' \<notin> set base" by (auto simp: base_def dest: set_takeWhileD)
  ultimately show thesis using that [of base] c by simp
qed

lemma takeWhile_name:
  assumes "CHR ''/'' \<notin> set a" "CHR ''/'' \<notin> set b" "in_subtree a q" "in_subtree b q"
  shows "a = b"
proof -
  have "takeWhile (\<lambda>c. c \<noteq> CHR ''/'') q = n"
    if "CHR ''/'' \<notin> set n" "in_subtree n q" for n
    using that by (auto simp: in_subtree_def prefix_def takeWhile_append takeWhile_eq_all_conv)
  with assms show ?thesis by blast
qed

lemma in_subtree_append: "in_subtree (d @ a) (d @ q) = in_subtree a q"
  by (auto simp: in_subtree_def prefix_def)

lemma names_apart:
  assumes "CHR ''/'' \<notin> set base" "CHR ''/'' \<notin> set name"
  shows "apart (d @ base) (d @ name)"
proof -
  have "name = base" if "in_subtree (d @ base) q" "in_subtree (d @ name) q" for q
  proof -
    from that obtain q' where q: "q = d @ q'" by (auto simp: in_subtree_def prefix_def)
    from takeWhile_name [OF assms(2,1), of q'] that show ?thesis
      by (simp add: q in_subtree_append)
  qed
  then show ?thesis unfolding apart_def by blast
qed

lemma siblings_apart:
  assumes "CHR ''/'' \<in> set prim" "CHR ''/'' \<notin> set name"
  shows "apart prim (rsplit_head prim @ CHR ''/'' # name)"
proof -
  obtain base where prim: "prim = rsplit_head prim @ ''/'' @ base" and base: "CHR ''/'' \<notin> set base"
    using rsplit_head_split [OF assms(1)] by blast
  have "apart (rsplit_head prim @ ''/'' @ base) (rsplit_head prim @ ''/'' @ name)"
    using names_apart [OF base assms(2), of "rsplit_head prim @ ''/''"] by simp
  then show ?thesis using prim by (metis append_Cons append_Nil)
qed

definition valid_track :: "event \<Rightarrow> bool" where
  "valid_track ev \<longleftrightarrow> (ev_kind ev = K_RENAME_PRIM \<longrightarrow>
     CHR ''/'' \<in> set (ev_prim ev) \<and> CHR ''/'' \<notin> set (ev_str ''new_name'' ev))"

section \<open>Refinement\<close>

lemma remove_or_rename_delete:
  assumes "track_inv s"
  shows "abs_tracking (remove_or_rename None prim s) =
    ((\<lambda>q. if in_subtree prim q then None else map_of (prim_paths s) q),
     (\<lambda>q. q \<in> set (instanceable_paths s) \<and> \<not> in_subtree prim q))"
proof -
  obtain ps s1 where sub: "tracked_subtree prim s = (ps, s1)" by fastforce
  note set_ps = tracked_subtree_set(1) [OF assms, of prim, unfolded sub fst_conv]
  note s1 = tracked_subtree_set(2) [OF assms, of prim, unfolded sub snd_conv]
  note cover = namespace_index_ok(2) [OF assms]
  have "map_of (prim_paths s) q = None" if "q \<notin> set (namespace_index s)" for q
    using that cover by (auto simp: map_of_eq_None_iff)
  then show ?thesis
    using cover by (auto simp: remove_or_rename_def sub abs_tracking_def fold_move_delete set_ps s1 fun_eq_iff)
qed

lemma remove_or_rename_move:
  assumes "track_inv s" "apart prim r"
  defines "types \<equiv> map_of (prim_paths s)"
  defines "types' \<equiv> (\<lambda>q. if in_subtree prim q then None else types q) ++
    (\<lambda>q. if in_subtree r q then types (source_path prim r q) else None)"
  shows "abs_tracking (remove_or_rename (Some r) prim s) =
    (if types' r = None then types'(r \<mapsto> ''Xform'') else types',
     (\<lambda>q. in_subtree r q \<and> source_path prim r q \<in> set (instanceable_paths s) \<or>
        q \<in> set (instanceable_paths s) \<and> \<not> in_subtree prim q))"
proof -
  obtain ps s1 where sub: "tracked_subtree prim s = (ps, s1)" by fastforce
  note set_ps = tracked_subtree_set(1) [OF assms(1), of prim, unfolded sub fst_conv]
  note s1 = tracked_subtree_set(2) [OF assms(1), of prim, unfolded sub snd_conv]
  note cover = namespace_index_ok(2) [OF assms(1)]
  define f where "f = (\<lambda>p. r @ drop (length prim) p)"
  have below: "\<forall>x \<in> set ps. in_subtree prim x" by (auto simp: set_ps)
  have moved: "fold (mv f) ps m = (\<lambda>q. if in_subtree prim q then None else m q) ++
      (\<lambda>q. if in_subtree r q then m (source_path prim r q) else None)"
    if dom: "dom m \<subseteq> set (namespace_index s)" for m :: "string \<Rightarrow> 'b option"
  proof
    fix q
    have key: "m p = None" if "in_subtree prim p" "p \<notin> set ps" for p
      using that dom by (auto simp: set_ps)
    have inner: "q \<in> set ps \<Longrightarrow> in_subtree prim q" using below by blast
    show "fold (mv f) ps m q = ((\<lambda>q. if in_subtree prim q then None else m q) ++
      (\<lambda>q. if in_subtree r q then m (source_path prim r q) else None)) q"
      using fold_mv [OF assms(2) below, of m q] key [of q] key [of "source_path prim r q"] inner
        subtree_move(3) [of r q prim]
      by (cases "m (source_path prim r q)") (auto simp: f_def map_add_def)
  qed
  have types: "map_of (prim_paths (fold (move_path (Some r) prim) ps s1)) = types'"
    using moved [of types] cover
    by (simp add: fold_move_mv s1 types_def types'_def f_def dom_map_of_conv_image_fst)
  have inst: "inst_map (fold (move_path (Some r) prim) ps s1) =
      (\<lambda>q. if in_subtree prim q then None else inst_map s q) ++
      (\<lambda>q. if in_subtree r q then inst_map s (source_path prim r q) else None)"
  proof -
    have "dom (inst_map s) \<subseteq> set (namespace_index s)"
      using cover by (auto simp: inst_map_def split: if_splits)
    moreover have "inst_map s1 = inst_map s" by (simp add: s1 inst_map_def fun_eq_iff)
    ultimately show ?thesis using moved [of "inst_map s"] by (simp only: fold_move_mv f_def)
  qed
  have inst': "q \<in> set (instanceable_paths (fold (move_path (Some r) prim) ps s1)) \<longleftrightarrow>
      in_subtree r q \<and> source_path prim r q \<in> set (instanceable_paths s) \<or>
      q \<in> set (instanceable_paths s) \<and> \<not> in_subtree prim q" for q
    using fun_cong [OF inst, of q]
    by (auto simp: inst_map_def map_add_def split: if_splits option.splits)
  show ?thesis
    by (simp add: remove_or_rename_def sub abs_tracking_def types inst' Let_def)
qed

lemma remove_or_rename_inv:
  assumes "track_inv s"
  shows "track_inv (remove_or_rename r prim s)"
proof -
  obtain ps s1 where sub: "tracked_subtree prim s = (ps, s1)" by fastforce
  note s1 = tracked_subtree_set(2) [OF assms, of prim, unfolded sub snd_conv]
  have wf: "wf_dict (prim_paths (fold (move_path r prim) ps s1))"
    "distinct (instanceable_paths (fold (move_path r prim) ps s1))"
    using assms by (auto simp: s1 track_inv_def intro!: fold_move_wf)
  show ?thesis
  proof (cases r)
    case None
    have "set (dict_keys (prim_paths (fold (move_path None prim) ps s1))) \<subseteq> set (dict_keys (prim_paths s))"
      unfolding dict_keys_set by (auto simp: fold_move_delete s1 split: if_splits)
    moreover have "set (instanceable_paths (fold (move_path None prim) ps s1)) \<subseteq> set (instanceable_paths s)"
      by (auto simp: fold_move_delete s1)
    moreover have "namespace_paths (fold (move_path None prim) ps s1) = Some (namespace_index s)"
      by (simp add: s1)
    ultimately show ?thesis
      using wf namespace_index_ok [OF assms] None by (simp add: remove_or_rename_def sub track_inv_def Let_def) blast
  next
    case (Some q)
    with wf show ?thesis by (simp add: remove_or_rename_def sub track_inv_def Let_def)
  qed
qed

lemma track_prim_event_inv [inv_intros]: "track_inv s \<Longrightarrow> track_inv (track_prim_event ev s)"
  by (auto simp: track_prim_event_def Let_def intro: remove_or_rename_inv)
    (auto simp: track_inv_def distinct_removeAll split: option.splits)

lemma track_prim_event_refines:
  assumes "track_inv s" "valid_track ev"
  shows "abs_tracking (track_prim_event ev s) = track_spec ev (abs_tracking s)"
proof -
  consider (ensure) "ev_kind ev = K_ENSURE_PRIM" | (delete) "ev_kind ev = K_DELETE_PRIM"
    | (rename) "ev_kind ev = K_RENAME_PRIM" | (inst) "ev_kind ev = K_SET_INSTANCEABLE"
    | (other) "ev_kind ev \<notin> {K_ENSURE_PRIM, K_DELETE_PRIM, K_RENAME_PRIM, K_SET_INSTANCEABLE}"
    by blast
  then show ?thesis
  proof cases
    case delete
    then show ?thesis
      using remove_or_rename_delete [OF assms(1)]
      by (simp add: track_prim_event_def track_spec_def new_root_of_def abs_tracking_def Let_def)
  next
    case rename
    with assms(2) have "apart (ev_prim ev) (rsplit_head (ev_prim ev) @ CHR ''/'' # ev_str ''new_name'' ev)"
      by (intro siblings_apart) (simp_all add: valid_track_def)
    from remove_or_rename_move [OF assms(1) this] rename show ?thesis
      by (simp add: track_prim_event_def track_spec_def new_root_of_def abs_tracking_def Let_def)
  qed (auto simp: track_prim_event_def track_spec_def abs_tracking_def Let_def fun_eq_iff)
qed

lemma track_fold_inv: "track_inv s \<Longrightarrow> track_inv (fold track_prim_event evs s)"
  by (induction evs arbitrary: s) (auto intro: inv_intros)

text \<open>C20. The incremental prim index refines its meaning: replaying any sequence of admitted
  events through the index with its lazily rebuilt, possibly stale bisection table gives
  exactly the prims and instanceable flags of the abstract specification, where a deletion
  removes a subtree, and a rename moves one and makes sure its new root is tracked.\<close>

theorem tracking_refines_spec:
  assumes "\<forall>ev \<in> set evs. valid_track ev"
  shows "abs_tracking (fst (rebuild_tracking evs)) = fold track_spec evs (\<lambda>_. None, \<lambda>_. False)"
proof -
  have "abs_tracking (fold track_prim_event evs s) = fold track_spec evs (abs_tracking s)"
    if "track_inv s" for s
    using that assms
  proof (induction evs arbitrary: s)
    case (Cons ev evs)
    then show ?case by (simp add: track_prim_event_refines track_prim_event_inv)
  qed simp
  moreover have "track_inv empty_tracking" by (simp add: track_inv_def empty_tracking_def)
  ultimately show ?thesis
    by (simp add: rebuild_tracking_def) (simp add: abs_tracking_def empty_tracking_def)
qed

theorem tracking_refines_spec_witness:
  "let evs = [[(''k'', PStr K_ENSURE_PRIM), (''prim'', PStr ''/a''), (''typeName'', PStr ''Cube'')],
              [(''k'', PStr K_RENAME_PRIM), (''prim'', PStr ''/a''), (''new_name'', PStr ''b'')]]
   in fst (abs_tracking (fst (rebuild_tracking evs))) ''/b'' = Some ''Cube''"
  unfolding Let_def
  by (subst tracking_refines_spec)
    (simp_all add: valid_track_def ev_kind_def ev_prim_def ev_str_def track_spec_def rsplit_head_def
      in_subtree_def source_path_def map_add_def prefix_def Let_def)

end
