(* ===== verification/Atomic_Apply.thy ===== *)
theory Atomic_Apply
  imports Protocol Scene_Tracking "HOL-Library.Sublist"
begin

text \<open>
  Rollback of layer edits (\<open>_AtomicApply\<close>, \<open>_ScopedAtomicApply\<close>, \<open>atomic_apply_layer\<close> and
  \<open>atomic_apply_prim_paths\<close> in \<open>openusdconnect/event_apply.py\<close>).

  The authored content of a layer maps a prim path, the list of its name components, to the
  prim's own spec. The Sdf calls are the fields of \<open>sdf_api\<close>; \<open>sdf_laws\<close> states what their
  documentation promises and the rollback relies on.
\<close>

type_synonym path = "string list"
type_synonym 'spec content = "path \<Rightarrow> 'spec option"

record 'spec sdf_api =
  copy_spec :: "'spec content \<Rightarrow> path \<Rightarrow> 'spec content \<Rightarrow> 'spec content"
  create_prim :: "path \<Rightarrow> 'spec content \<Rightarrow> 'spec content"
  remove_prim :: "path \<Rightarrow> 'spec content \<Rightarrow> 'spec content"

definition parent_exists :: "'spec content \<Rightarrow> path \<Rightarrow> bool" where
  "parent_exists c p \<longleftrightarrow> length p \<le> 1 \<or> c (butlast p) \<noteq> None"

definition sdf_laws :: "'spec sdf_api \<Rightarrow> bool" where
  "sdf_laws sdf \<longleftrightarrow>
     (\<forall>src p dst. src p \<noteq> None \<longrightarrow> parent_exists dst p \<longrightarrow>
        copy_spec sdf src p dst = (\<lambda>q. if prefix p q then src q else dst q)) \<and>
     (\<forall>p c q. (c q \<noteq> None \<longrightarrow> create_prim sdf p c q = c q) \<and>
        (\<not> prefix q p \<longrightarrow> create_prim sdf p c q = c q) \<and>
        (prefix q p \<longrightarrow> q \<noteq> [] \<longrightarrow> create_prim sdf p c q \<noteq> None)) \<and>
     (\<forall>p c. remove_prim sdf p c = (\<lambda>q. if prefix p q then None else c q))"

section \<open>Scoped snapshots\<close>

text \<open>\<open>Sdf.Path(p)\<close> of a validated absolute prim path.\<close>

fun split_slash :: "string \<Rightarrow> string \<Rightarrow> string list" where
  "split_slash acc [] = [acc]"
| "split_slash acc (c # cs) =
     (if c = CHR ''/'' then acc # split_slash [] cs else split_slash (acc @ [c]) cs)"

definition to_path :: "string \<Rightarrow> path" where
  "to_path s = filter (\<lambda>n. n \<noteq> []) (split_slash [] s)"

function created_root :: "'spec content \<Rightarrow> path \<Rightarrow> path" where
  "created_root c p = (if parent_exists c p then p else created_root c (butlast p))"
  by pat_completeness auto
termination
  by (relation "measure (\<lambda>(c, p). length p)") (auto simp: parent_exists_def)

declare created_root.simps [simp del]

definition covered :: "path list \<Rightarrow> path list \<Rightarrow> path \<Rightarrow> bool" where
  "covered saved created p \<longleftrightarrow> (\<exists>q \<in> set (saved @ created). prefix q p)"

fun scoped_enter :: "'spec content \<Rightarrow> path list \<Rightarrow> path list \<Rightarrow> path list \<Rightarrow> path list \<times> path list" where
  "scoped_enter c [] saved created = (saved, created)"
| "scoped_enter c (p # ps) saved created =
     (if covered saved created p then scoped_enter c ps saved created
      else if c p \<noteq> None then scoped_enter c ps (saved @ [p]) created
      else scoped_enter c ps saved (created @ [created_root c p]))"

definition make_backup :: "'spec sdf_api \<Rightarrow> 'spec content \<Rightarrow> path list \<Rightarrow> 'spec content" where
  "make_backup sdf c saved =
     fold (\<lambda>p backup. copy_spec sdf c p
        (if length p \<le> 1 then backup else create_prim sdf (butlast p) backup)) saved (\<lambda>_. None)"

fun remove_roots :: "'spec sdf_api \<Rightarrow> path list \<Rightarrow> 'spec content \<Rightarrow> 'spec content" where
  "remove_roots sdf [] c = c"
| "remove_roots sdf (r # rs) c = remove_roots sdf rs (if c r \<noteq> None then remove_prim sdf r c else c)"

definition scoped_exit ::
  "'spec sdf_api \<Rightarrow> 'spec content \<Rightarrow> path list \<Rightarrow> path list \<Rightarrow> 'spec content \<Rightarrow> 'spec content" where
  "scoped_exit sdf backup saved created c =
     fold (\<lambda>p c. copy_spec sdf backup p c) saved (remove_roots sdf created c)"

text \<open>
  \<open>atomic_apply_layer\<close>: the layer's content after the block raised, from the content at entry
  and the content the block left. \<open>None\<close>, or a scope holding the root, snapshots the layer.
\<close>

definition rollback_layer ::
  "'spec sdf_api \<Rightarrow> path list option \<Rightarrow> 'spec content \<Rightarrow> 'spec content \<Rightarrow> 'spec content" where
  "rollback_layer sdf scope before after =
     (case scope of
        None \<Rightarrow> before
      | Some paths \<Rightarrow>
          if [] \<in> set paths then before
          else let (saved, created) = scoped_enter before paths [] []
               in scoped_exit sdf (make_backup sdf before saved) saved created after)"

section \<open>Which prims a batch can write\<close>

definition rename_target :: "event \<Rightarrow> path" where
  "rename_target ev = butlast (to_path (ev_prim ev)) @ [ev_str ''new_name'' ev]"

definition connection_sources :: "event \<Rightarrow> string list" where
  "connection_sources ev =
     [src. (attr, PDict conn) \<leftarrow> ev_dict ''connections'' ev, src \<leftarrow> [ev_str ''source_prim'' conn], src \<noteq> []]"

text \<open>
  \<open>spec_owner\<close> is what Sdf answers for the prim that owns a spec path: the owner of its first
  variant selection, or its prim path; \<open>None\<close> for an empty or root path.
\<close>

definition event_prim_paths :: "(string \<Rightarrow> path option) \<Rightarrow> event \<Rightarrow> path list option" where
  "event_prim_paths spec_owner ev =
     (let kind = ev_kind ev
      in if kind \<in> {K_SET_STAGE_METADATA, K_REPLACE_SDF_LAYER_CONTENT, K_SET_SUBLAYERS} then None
         else if kind \<in> {K_SET_SDF_SPEC_FIELDS, K_ERASE_TIME_SAMPLES} then
           (if ev_str ''spec_kind'' ev = ''layer'' then None
            else map_option (\<lambda>p. [p]) (spec_owner (ev_str ''spec_path'' ev)))
         else if ev_prim ev = [] \<or> ev_prim ev = ''/'' then None
         else if kind = K_RENAME_PRIM then
           (if ev_str ''new_name'' ev = [] then None
            else Some [to_path (ev_prim ev), rename_target ev])
         else if kind = K_SET_CONNECTABLE_CONNECTION then
           Some (to_path (ev_prim ev) # map to_path (connection_sources ev))
         else Some [to_path (ev_prim ev)])"

fun atomic_apply_prim_paths :: "(string \<Rightarrow> path option) \<Rightarrow> event list \<Rightarrow> path list option" where
  "atomic_apply_prim_paths spec_owner [] = Some []"
| "atomic_apply_prim_paths spec_owner (ev # evs) =
     (case event_prim_paths spec_owner ev of
        None \<Rightarrow> None
      | Some ps \<Rightarrow> map_option ((@) ps) (atomic_apply_prim_paths spec_owner evs))"

text \<open>\<open>_managed_rollback_paths\<close> of \<open>openusdconnect/server/commit.py\<close>; a Python set, so the
  order of the list is not significant.\<close>

definition managed_rollback_paths :: "event list \<Rightarrow> path list" where
  "managed_rollback_paths evs =
     remdups (map (\<lambda>ev. to_path (ev_prim ev))
        (filter (\<lambda>ev. ev_kind ev \<notin> set NON_COLLABORATION_KINDS \<and> ev_prim ev \<noteq> []) evs) @
      map rename_target (filter (\<lambda>ev. ev_kind ev = K_RENAME_PRIM) evs))"

section \<open>Correctness of the scoped rollback\<close>

text \<open>A layer's specs are closed under parents; the pseudo-root carries none of them.\<close>

definition wf_content :: "'spec content \<Rightarrow> bool" where
  "wf_content c \<longleftrightarrow> c [] = None \<and> (\<forall>p q. c q \<noteq> None \<longrightarrow> prefix p q \<longrightarrow> p \<noteq> [] \<longrightarrow> c p \<noteq> None)"

text \<open>
  The block wrote only inside the scope: below one of the paths, or by creating missing
  ancestors of one.
\<close>

definition confined :: "path list \<Rightarrow> 'spec content \<Rightarrow> 'spec content \<Rightarrow> bool" where
  "confined paths before after \<longleftrightarrow>
     (\<forall>q. after q \<noteq> before q \<longrightarrow> (\<exists>p \<in> set paths. prefix p q \<or> prefix q p \<and> before q = None))"

text \<open>No path comes after one of its descendants.\<close>

definition ancestors_first :: "path list \<Rightarrow> bool" where
  "ancestors_first paths \<longleftrightarrow> sorted_wrt (\<lambda>p q. \<not> strict_prefix q p) paths"

lemma created_root_spec:
  "p \<noteq> [] \<Longrightarrow> prefix (created_root c p) p \<and> created_root c p \<noteq> [] \<and> parent_exists c (created_root c p)"
proof (induction c p rule: created_root.induct)
  case (1 c p)
  show ?case
  proof (cases "parent_exists c p")
    case True
    with "1.prems" show ?thesis by (simp add: created_root.simps)
  next
    case False
    then have "butlast p \<noteq> []" by (cases p rule: rev_cases) (auto simp: parent_exists_def)
    from "1.IH" [OF False this] False show ?thesis
      by (simp add: created_root.simps [of c p])
        (meson prefix_order.trans prefixeq_butlast)
  qed
qed

lemma created_root_absent: "c p = None \<Longrightarrow> p \<noteq> [] \<Longrightarrow> c (created_root c p) = None"
proof (induction c p rule: created_root.induct)
  case (1 c p)
  show ?case
  proof (cases "parent_exists c p")
    case False
    then have "butlast p \<noteq> []" "c (butlast p) = None"
      by (cases p rule: rev_cases; auto simp: parent_exists_def)+
    with "1.IH" [OF False] False show ?thesis by (simp add: created_root.simps [of c p])
  qed (use "1.prems" in \<open>simp add: created_root.simps\<close>)
qed

lemma sdf_law:
  assumes "sdf_laws sdf"
  shows "src p \<noteq> None \<Longrightarrow> parent_exists dst p \<Longrightarrow>
      copy_spec sdf src p dst = (\<lambda>q. if prefix p q then src q else dst q)"
    "\<not> prefix q p \<Longrightarrow> create_prim sdf p c q = c q"
    "p \<noteq> [] \<Longrightarrow> create_prim sdf p c p \<noteq> None"
    "remove_prim sdf p c = (\<lambda>q. if prefix p q then None else c q)"
  using assms by (simp_all add: sdf_laws_def)

lemma wf_content_below: "wf_content c \<Longrightarrow> c r = None \<Longrightarrow> r \<noteq> [] \<Longrightarrow> prefix r q \<Longrightarrow> c q = None"
  unfolding wf_content_def by blast

definition antichain :: "path list \<Rightarrow> bool" where
  "antichain ps \<longleftrightarrow> sorted_wrt (\<lambda>p q. \<not> prefix p q \<and> \<not> prefix q p) ps"

lemma antichain_snoc:
  "antichain (ps @ [p]) \<longleftrightarrow> antichain ps \<and> (\<forall>q \<in> set ps. \<not> prefix q p \<and> \<not> prefix p q)"
  by (auto simp: antichain_def sorted_wrt_append)

lemma antichain_prefix:
  "antichain ps \<Longrightarrow> p \<in> set ps \<Longrightarrow> q \<in> set ps \<Longrightarrow> prefix p q \<Longrightarrow> p = q"
  unfolding antichain_def by (induction ps) auto

lemma antichain_butlast:
  assumes "antichain ps" "s \<in> set ps" "s \<noteq> []"
  shows "\<not> (\<exists>t \<in> set ps. prefix t (butlast s))"
proof
  assume "\<exists>t \<in> set ps. prefix t (butlast s)"
  then obtain t where t: "t \<in> set ps" "prefix t (butlast s)" by blast
  then have "prefix t s" by (meson prefix_order.trans prefixeq_butlast)
  with assms t have "t = s" by (blast intro: antichain_prefix)
  with t(2) assms(3) show False by (cases s rule: rev_cases) (auto dest: prefix_length_le)
qed

text \<open>What entering the scope records.\<close>

definition scope_ok :: "'spec content \<Rightarrow> path list \<Rightarrow> path list \<Rightarrow> path list \<Rightarrow> bool" where
  "scope_ok c paths saved created \<longleftrightarrow> antichain saved \<and>
     (\<forall>s \<in> set saved. c s \<noteq> None \<and> s \<noteq> []) \<and>
     (\<forall>r \<in> set created. c r = None \<and> r \<noteq> [] \<and> parent_exists c r) \<and>
     (\<forall>p \<in> set paths. covered saved created p) \<and> set saved \<subseteq> set paths"

lemma covered_mono:
  "covered saved created p \<Longrightarrow> set saved \<subseteq> set saved' \<Longrightarrow> set created \<subseteq> set created' \<Longrightarrow>
     covered saved' created' p"
  by (auto simp: covered_def)

lemma scoped_enter_ok:
  assumes "scoped_enter c ps saved created = (saved', created')" "scope_ok c done_ps saved created"
    "ancestors_first (done_ps @ ps)" "[] \<notin> set ps"
  shows "scope_ok c (done_ps @ ps) saved' created'"
  using assms
proof (induction ps arbitrary: saved created done_ps)
  case (Cons p ps)
  have step: "scope_ok c ((done_ps @ [p]) @ ps) saved' created'"
    if "scoped_enter c ps s r = (saved', created')" "scope_ok c (done_ps @ [p]) s r" for s r
    using Cons.IH [OF that] Cons.prems(3,4) by simp
  have mono: "covered s r q" if "q \<in> set done_ps" "set saved \<subseteq> set s" "set created \<subseteq> set r" for q s r
    using Cons.prems(2) that covered_mono by (auto simp: scope_ok_def)
  consider (covered) "covered saved created p" | (exists) "\<not> covered saved created p" "c p \<noteq> None"
    | (absent) "\<not> covered saved created p" "c p = None" by blast
  then show ?case
  proof cases
    case covered
    with Cons.prems have "scope_ok c (done_ps @ [p]) saved created" by (auto simp: scope_ok_def)
    with step [of saved created] covered Cons.prems(1) show ?thesis by simp
  next
    case exists
    have "\<not> prefix p q" if "q \<in> set saved" for q
    proof
      assume pre: "prefix p q"
      have "q \<noteq> p" using that exists(1) by (auto simp: covered_def)
      with pre have "strict_prefix p q" by (auto simp: strict_prefix_def)
      moreover have "q \<in> set done_ps" using that Cons.prems(2) by (auto simp: scope_ok_def)
      ultimately show False
        using Cons.prems(3) by (auto simp: ancestors_first_def sorted_wrt_append)
    qed
    then have "antichain (saved @ [p])"
      using Cons.prems(2) exists(1) by (auto simp: scope_ok_def antichain_snoc covered_def)
    then have "scope_ok c (done_ps @ [p]) (saved @ [p]) created"
      using Cons.prems(2,4) exists mono [of _ "saved @ [p]" created]
      by (auto simp: scope_ok_def covered_def)
    with step [of "saved @ [p]" created] exists Cons.prems(1) show ?thesis by simp
  next
    case absent
    have "p \<noteq> []" using Cons.prems(4) by auto
    note root = created_root_spec [OF this, of c] created_root_absent [of c p, OF absent(2) this]
    have "scope_ok c (done_ps @ [p]) saved (created @ [created_root c p])"
      using Cons.prems(2) root mono [of _ saved "created @ [created_root c p]"]
      by (auto simp: scope_ok_def covered_def)
    with step [of saved "created @ [created_root c p]"] absent Cons.prems(1) show ?thesis by simp
  qed
qed simp

lemma prefix_butlast_strict: "p \<noteq> [] \<Longrightarrow> prefix q (butlast p) \<Longrightarrow> strict_prefix q p"
  by (metis append_butlast_last_id not_Cons_self2 append_self_conv prefix_order.dual_order.strict_trans1
      prefixI strict_prefixI)

lemma strict_prefix_butlast: "strict_prefix q p \<Longrightarrow> prefix q (butlast p)"
  by (metis append_butlast_last_id prefix_bot.extremum_strict prefix_snoc strict_prefix_def)

lemma wf_content_parent:
  "wf_content c \<Longrightarrow> c p \<noteq> None \<Longrightarrow> parent_exists c p"
  unfolding parent_exists_def wf_content_def
  by (metis Suc_le_eq One_nat_def butlast.simps(1) length_0_conv length_butlast less_one linorder_not_le
      prefixeq_butlast diff_is_0_eq)

lemma prefix_comparable: "prefix a q \<Longrightarrow> prefix b q \<Longrightarrow> prefix a b \<or> prefix b a"
  by (rule prefix_same_cases)

lemma make_backup_agrees:
  assumes "sdf_laws sdf" "antichain saved" "\<forall>s \<in> set saved. c s \<noteq> None \<and> s \<noteq> []"
    "s \<in> set saved" "prefix s q"
  shows "make_backup sdf c saved q = c q"
  using assms(2-5)
proof (induction saved arbitrary: s q rule: rev_induct)
  case (snoc p saved)
  define b where "b = make_backup sdf c saved"
  define b' where "b' = (if length p \<le> 1 then b else create_prim sdf (butlast p) b)"
  have p: "c p \<noteq> None" "p \<noteq> []" using snoc.prems(2) by auto
  have anti: "antichain saved" "\<forall>s \<in> set saved. \<not> prefix s p \<and> \<not> prefix p s"
    using snoc.prems(1) by (simp_all add: antichain_snoc)
  have par: "parent_exists b' p"
  proof (cases "length p \<le> 1")
    case False
    then have "butlast p \<noteq> []" by (cases p rule: rev_cases) auto
    with False sdf_law(3) [OF assms(1)] show ?thesis by (simp add: b'_def parent_exists_def)
  qed (simp add: parent_exists_def)
  have copy: "make_backup sdf c (saved @ [p]) = (\<lambda>q. if prefix p q then c q else b' q)"
  proof -
    have "make_backup sdf c (saved @ [p]) = copy_spec sdf c p b'"
      by (simp add: make_backup_def b'_def b_def)
    with sdf_law(1) [OF assms(1), of c p b'] p par show ?thesis by simp
  qed
  show ?case
  proof (cases "prefix p q")
    case True
    with copy show ?thesis by simp
  next
    case False
    then have s: "s \<in> set saved" using snoc.prems(3,4) by auto
    have "b q = c q" using snoc.IH [OF anti(1) _ s snoc.prems(4)] snoc.prems(2) by (simp add: b_def)
    moreover have "\<not> prefix q (butlast p)"
    proof
      assume "prefix q (butlast p)"
      then have "prefix q p" by (meson prefix_order.trans prefixeq_butlast)
      with snoc.prems(4) have "prefix s p" by (rule prefix_order.trans)
      with anti(2) s show False by blast
    qed
    then have "b' q = b q" using sdf_law(2) [OF assms(1)] by (simp add: b'_def)
    ultimately show ?thesis using copy False by simp
  qed
qed simp

lemma remove_created:
  assumes "sdf_laws sdf" "wf_content c" "[] \<notin> set created"
  shows "wf_content (remove_roots sdf created c) \<and>
    remove_roots sdf created c = (\<lambda>q. if \<exists>r \<in> set created. prefix r q then None else c q)"
  using assms
proof (induction created arbitrary: c)
  case (Cons r created)
  define c' where "c' = (if c r \<noteq> None then remove_prim sdf r c else c)"
  have r: "r \<noteq> []" using Cons.prems(3) by auto
  have c': "c' = (\<lambda>q. if prefix r q then None else c q)"
    using wf_content_below [OF Cons.prems(2) _ r] by (auto simp: c'_def sdf_law(4) [OF assms(1)])
  have wf: "wf_content c'"
    using Cons.prems(2) unfolding wf_content_def c' by (meson prefix_order.trans)
  have rest: "[] \<notin> set created" using Cons.prems(3) by simp
  note IH = Cons.IH [OF assms(1) wf rest]
  have eq: "remove_roots sdf (r # created) c = remove_roots sdf created c'" by (simp add: c'_def)
  have "remove_roots sdf created c' = (\<lambda>q. if \<exists>r \<in> set (r # created). prefix r q then None else c q)"
    by (subst conjunct2 [OF IH]) (auto simp: c' fun_eq_iff)
  with conjunct1 [OF IH] show ?case unfolding eq by blast
qed simp

lemma restore_saved:
  assumes "sdf_laws sdf" "antichain saved" "\<forall>s \<in> set saved. backup s \<noteq> None \<and> parent_exists c s"
  shows "fold (\<lambda>p c. copy_spec sdf backup p c) saved c =
    (\<lambda>q. if \<exists>s \<in> set saved. prefix s q then backup q else c q)"
  using assms(2,3)
proof (induction saved rule: rev_induct)
  case (snoc p saved)
  define c' where "c' = fold (\<lambda>p c. copy_spec sdf backup p c) saved c"
  have c': "c' = (\<lambda>q. if \<exists>s \<in> set saved. prefix s q then backup q else c q)"
    using snoc by (simp add: c'_def antichain_snoc)
  have "\<not> (\<exists>s \<in> set saved. prefix s (butlast p))"
    using snoc.prems(1) by (meson antichain_snoc prefix_order.trans prefixeq_butlast)
  then have "parent_exists c' p" using snoc.prems(2) by (simp add: parent_exists_def c')
  then have "copy_spec sdf backup p c' = (\<lambda>q. if prefix p q then backup q else c' q)"
    using sdf_law(1) [OF assms(1), of backup p c'] snoc.prems(2) by simp
  then show ?case by (auto simp: c' simp flip: c'_def)
qed simp

text \<open>Outside the recorded scope a confined block changed nothing.\<close>

lemma outside_unchanged:
  assumes "wf_content before" "wf_content after" "confined paths before after"
    and scope: "scope_ok before paths saved created"
    and out: "\<not> (\<exists>s \<in> set saved. prefix s q)" "\<not> (\<exists>r \<in> set created. prefix r q)"
  shows "after q = before q"
proof (rule ccontr)
  assume diff: "after q \<noteq> before q"
  with assms(3) obtain p where p: "p \<in> set paths" "prefix p q \<or> prefix q p \<and> before q = None"
    by (auto simp: confined_def)
  obtain z where z: "z \<in> set (saved @ created)" "prefix z p"
    using scope p(1) unfolding scope_ok_def covered_def by blast
  have notz: "\<not> prefix z q" using z(1) out by auto
  then have pq: "prefix q p" "before q = None" using p(2) z(2) by (meson prefix_order.trans)+
  then have "strict_prefix q z" using notz prefix_comparable z(2) by (metis strict_prefixI)
  moreover have "q \<noteq> []" using diff assms(1,2) by (auto simp: wf_content_def)
  moreover have "before (butlast z) \<noteq> None \<or> length z \<le> 1 \<or> before z \<noteq> None"
    using z(1) scope by (auto simp: scope_ok_def parent_exists_def)
  ultimately show False
    using pq(2) assms(1) strict_prefix_butlast [of q z] unfolding wf_content_def
    by (metis One_nat_def butlast_conv_take diff_is_0_eq' strict_prefix_def take0 prefix_bot.extremum_unique)
qed

lemma scoped_rollback_content:
  assumes "sdf_laws sdf" "wf_content before" "wf_content after" "ancestors_first paths"
    "confined paths before after" "[] \<notin> set paths"
  shows "rollback_layer sdf (Some paths) before after = before"
proof -
  obtain saved created where enter: "scoped_enter before paths [] [] = (saved, created)" by fastforce
  have "scope_ok before ([] @ paths) saved created"
    by (rule scoped_enter_ok [OF enter]) (use assms in \<open>auto simp: scope_ok_def antichain_def\<close>)
  then have ok: "scope_ok before paths saved created" by simp
  then have anti: "antichain saved" and saved: "\<forall>s \<in> set saved. before s \<noteq> None \<and> s \<noteq> []"
    and created: "\<forall>r \<in> set created. before r = None \<and> r \<noteq> []"
    by (auto simp: scope_ok_def)
  define backup where "backup = make_backup sdf before saved"
  have backup: "backup q = before q" if "s \<in> set saved" "prefix s q" for s q
    unfolding backup_def by (rule make_backup_agrees [OF assms(1) anti saved that])
  define c1 where "c1 = remove_roots sdf created after"
  have c1: "c1 = (\<lambda>q. if \<exists>r \<in> set created. prefix r q then None else after q)"
    using remove_created [OF assms(1,3), of created] created by (auto simp: c1_def)
  have gone: "before q = None" if "r \<in> set created" "prefix r q" for r q
    using wf_content_below [OF assms(2)] created that by blast
  note same = outside_unchanged [OF assms(2,3,5) ok]
  have parents: "parent_exists c1 s" if s: "s \<in> set saved" for s
  proof -
    have "parent_exists before s" using wf_content_parent [OF assms(2)] saved s by blast
    moreover have "c1 (butlast s) = before (butlast s)" if some: "before (butlast s) \<noteq> None"
    proof -
      have "\<not> (\<exists>r \<in> set created. prefix r (butlast s))" using gone some by metis
      moreover have "\<not> (\<exists>t \<in> set saved. prefix t (butlast s))"
        by (rule antichain_butlast [OF anti s]) (use saved s in blast)
      ultimately show ?thesis using same by (simp add: c1)
    qed
    ultimately show ?thesis by (auto simp: parent_exists_def)
  qed
  have "scoped_exit sdf backup saved created after =
      (\<lambda>q. if \<exists>s \<in> set saved. prefix s q then backup q else c1 q)"
    unfolding scoped_exit_def c1_def [symmetric]
    by (rule restore_saved [OF assms(1) anti]) (use parents backup saved in auto)
  also have "\<dots> = before"
    using backup same gone by (auto simp: c1 fun_eq_iff)
  finally show ?thesis using enter assms(6) by (simp add: rollback_layer_def backup_def)
qed

text \<open>An Sdf that obeys the laws, on specs without fields.\<close>

definition plain_sdf :: "unit sdf_api" where
  "plain_sdf = \<lparr>copy_spec = (\<lambda>src p dst q. if prefix p q then src q else dst q),
     create_prim = (\<lambda>p c q. if prefix q p \<and> q \<noteq> [] then Some () else c q),
     remove_prim = (\<lambda>p c q. if prefix p q then None else c q)\<rparr>"

lemma plain_sdf_laws: "sdf_laws plain_sdf"
  by (auto simp: sdf_laws_def plain_sdf_def)

section \<open>Properties\<close>




end
