(* ===== verification/Layer_Stack.thy ===== *)
theory Layer_Stack
  imports Prelude Complex_Main
begin

text \<open>
  The server's collaboration layer stack (\<open>openusdconnect/server/layer_stack.py\<close>) and the
  helper that installs its layers on the session layer
  (\<open>openusdconnect/_managed_sublayers.py\<close>).

  A USD layer is its identifier. Of the stage the code uses the session layer's sublayer list,
  each entry with its (offset, scale), and the set of muted layers. A created anonymous layer's
  identifier is the argument \<open>ident\<close> of \<open>ensure_layer\<close>, fresh by Sdf's contract.
\<close>

type_synonym layer_offset = "real \<times> real"

definition no_offset :: layer_offset where "no_offset = (0, 1)"

record usd_stage =
  session_sublayers :: "(string \<times> layer_offset) list"
  muted_layers :: "string list"

record layer_stack =
  default_key :: string
  ls_layers :: "(string \<times> string) list"
  keys_by_identifier :: "(string \<times> string) list"
  ls_labels :: "(string \<times> string) list"
  ls_order :: "string list"
  ls_generation :: string
  ls_revision :: int

type_synonym stack = "layer_stack \<times> usd_stage"

section \<open>Session sublayers\<close>

definition replace_managed_sublayers ::
  "string list \<Rightarrow> string list \<Rightarrow> (string \<times> layer_offset) list \<Rightarrow> (string \<times> layer_offset) list" where
  "replace_managed_sublayers managed_paths managed_identifiers session =
     (let preserved = filter (\<lambda>(path, off). path \<notin> set managed_identifiers) session;
          new_paths = managed_paths @ map fst preserved
      in if new_paths = map fst session \<and>
            list_all (\<lambda>(path, off). off = no_offset) (take (length managed_paths) session)
         then session
         else map (\<lambda>path. (path, no_offset)) managed_paths @ preserved)"

definition identifier_of :: "layer_stack \<Rightarrow> string \<Rightarrow> string" where
  "identifier_of ls key = the (map_of (ls_layers ls) key)"

definition update_session_sublayers :: "string list \<Rightarrow> stack \<Rightarrow> stack" where
  "update_session_sublayers detach = (\<lambda>(ls, st).
     (ls, st\<lparr>session_sublayers := replace_managed_sublayers (map (identifier_of ls) (ls_order ls))
        (dict_keys (keys_by_identifier ls) @ detach) (session_sublayers st)\<rparr>))"

section \<open>Operations\<close>

definition stack_init :: "string \<Rightarrow> string \<Rightarrow> string \<Rightarrow> string \<Rightarrow> usd_stage \<Rightarrow> stack res" where
  "stack_init default_layer key label generation st =
     (if key = [] then Inl (ValueError ''default layer key must be non-empty'')
      else Inr (update_session_sublayers []
        (\<lparr>default_key = key, ls_layers = [(key, default_layer)],
          keys_by_identifier = [(default_layer, key)], ls_labels = [(key, label)], ls_order = [key],
          ls_generation = generation, ls_revision = 1\<rparr>, st)))"

definition has_layer :: "string \<Rightarrow> layer_stack \<Rightarrow> bool" where
  "has_layer key ls \<longleftrightarrow> key \<in> set (dict_keys (ls_layers ls))"

definition ordered_layers :: "layer_stack \<Rightarrow> string list" where
  "ordered_layers ls = map (identifier_of ls) (ls_order ls)"

definition label_for :: "string \<Rightarrow> layer_stack \<Rightarrow> string res" where
  "label_for key ls =
     (case map_of (ls_labels ls) key of
        None \<Rightarrow> Inl (KeyError ''unknown collaboration layer'') | Some l \<Rightarrow> Inr l)"

definition layer_for :: "string \<Rightarrow> layer_stack \<Rightarrow> string res" where
  "layer_for key ls =
     (case map_of (ls_layers ls) key of
        None \<Rightarrow> Inl (KeyError ''unknown collaboration layer'') | Some l \<Rightarrow> Inr l)"

definition key_for_layer :: "string \<Rightarrow> layer_stack \<Rightarrow> string option" where
  "key_for_layer layer ls = map_of (keys_by_identifier ls) layer"

definition ensure_layer ::
  "string \<Rightarrow> string \<Rightarrow> string option \<Rightarrow> stack \<Rightarrow> (string \<times> bool) res \<times> stack" where
  "ensure_layer ident key label = (\<lambda>(ls, st).
     if key = [] then (Inl (ValueError ''collaboration layer key must be non-empty''), ls, st)
     else case map_of (ls_layers ls) key of
       Some existing \<Rightarrow> (Inr (existing, False), ls, st)
     | None \<Rightarrow>
         let display_label = (case label of Some l \<Rightarrow> if l = [] then key else l | None \<Rightarrow> key);
             ls' = ls\<lparr>ls_layers := AList.update key ident (ls_layers ls),
               keys_by_identifier := AList.update ident key (keys_by_identifier ls),
               ls_labels := AList.update key display_label (ls_labels ls),
               ls_order := butlast (ls_order ls) @ [key, default_key ls],
               ls_revision := ls_revision ls + 1\<rparr>
         in (Inr (ident, True), update_session_sublayers [] (ls', st)))"

definition set_order :: "string list \<Rightarrow> stack \<Rightarrow> bool res \<times> stack" where
  "set_order order = (\<lambda>(ls, st).
     if \<not> distinct order then
       (Inl (ValueError ''collaboration layer order contains duplicates''), ls, st)
     else if set order \<noteq> set (dict_keys (ls_layers ls)) then
       (Inl (ValueError ''collaboration layer order must contain every managed key''), ls, st)
     else if order = [] \<or> last order \<noteq> default_key ls then
       (Inl (ValueError ''default collaboration layer must remain weakest''), ls, st)
     else if order = ls_order ls then (Inr False, ls, st)
     else (Inr True, update_session_sublayers []
             (ls\<lparr>ls_order := order, ls_revision := ls_revision ls + 1\<rparr>, st)))"

definition set_muted :: "string \<Rightarrow> bool \<Rightarrow> stack \<Rightarrow> bool res \<times> stack" where
  "set_muted key muted = (\<lambda>(ls, st).
     case layer_for key ls of
       Inl e \<Rightarrow> (Inl e, ls, st)
     | Inr layer \<Rightarrow>
         if (layer \<in> set (muted_layers st)) = muted then (Inr False, ls, st)
         else (Inr True, ls\<lparr>ls_revision := ls_revision ls + 1\<rparr>,
               st\<lparr>muted_layers := (if muted then List.insert layer (muted_layers st)
                                   else removeAll layer (muted_layers st))\<rparr>))"

definition remove_layer :: "string \<Rightarrow> stack \<Rightarrow> string res \<times> stack" where
  "remove_layer key = (\<lambda>(ls, st).
     if key = default_key ls then
       (Inl (ValueError ''cannot remove the default collaboration layer''), ls, st)
     else case layer_for key ls of
       Inl e \<Rightarrow> (Inl e, ls, st)
     | Inr layer \<Rightarrow>
         let st' = st\<lparr>muted_layers := removeAll layer (muted_layers st)\<rparr>;
             ls' = ls\<lparr>ls_layers := AList.delete key (ls_layers ls),
               keys_by_identifier := AList.delete layer (keys_by_identifier ls),
               ls_labels := AList.delete key (ls_labels ls),
               ls_order := filter (\<lambda>k. k \<noteq> key) (ls_order ls),
               ls_revision := ls_revision ls + 1\<rparr>
         in (Inr layer, update_session_sublayers [layer] (ls', st')))"

record layer_entry =
  le_key :: string
  le_label :: string
  le_muted :: bool

definition stack_state :: "stack \<Rightarrow> string \<times> int \<times> layer_entry list" where
  "stack_state = (\<lambda>(ls, st).
     (ls_generation ls, ls_revision ls,
      map (\<lambda>key. \<lparr>le_key = key, le_label = dict_get (ls_labels ls) key [],
         le_muted = (identifier_of ls key \<in> set (muted_layers st))\<rparr>) (ls_order ls)))"

section \<open>Invariant\<close>

definition table_inv :: "layer_stack \<Rightarrow> bool" where
  "table_inv ls \<longleftrightarrow>
     distinct (ls_order ls) \<and> set (ls_order ls) = set (dict_keys (ls_layers ls)) \<and>
     ls_order ls \<noteq> [] \<and> last (ls_order ls) = default_key ls \<and>
     wf_dict (ls_layers ls) \<and> wf_dict (keys_by_identifier ls) \<and>
     set (dict_keys (ls_labels ls)) = set (dict_keys (ls_layers ls)) \<and>
     (\<forall>k i. map_of (ls_layers ls) k = Some i \<longleftrightarrow> map_of (keys_by_identifier ls) i = Some k)"

definition session_inv :: "stack \<Rightarrow> bool" where
  "session_inv = (\<lambda>(ls, st).
     \<exists>rest. session_sublayers st = map (\<lambda>k. (identifier_of ls k, no_offset)) (ls_order ls) @ rest \<and>
        (\<forall>(path, off) \<in> set rest. map_of (keys_by_identifier ls) path = None))"

definition stack_inv :: "stack \<Rightarrow> bool" where
  "stack_inv s \<longleftrightarrow> table_inv (fst s) \<and> session_inv s \<and> 1 \<le> ls_revision (fst s)"

text \<open>The sublayers the stack does not manage.\<close>

definition unmanaged :: "stack \<Rightarrow> (string \<times> layer_offset) list" where
  "unmanaged = (\<lambda>(ls, st). drop (length (ls_order ls)) (session_sublayers st))"

lemma filter_same_length: "length (filter P xs) = length xs \<Longrightarrow> filter P xs = xs"
  by (metis filter_True length_filter_less less_irrefl)

lemma no_offsets_map:
  "list_all (\<lambda>(path, off). off = no_offset) xs \<Longrightarrow> xs = map (\<lambda>path. (path, no_offset)) (map fst xs)"
  by (induction xs) auto

lemma replace_managed_eq:
  assumes "set managed \<subseteq> set idents"
  shows "replace_managed_sublayers managed idents session =
    map (\<lambda>path. (path, no_offset)) managed @ filter (\<lambda>(path, off). path \<notin> set idents) session"
proof -
  define P where "P = (\<lambda>(path, off :: layer_offset). path \<notin> set idents)"
  have "session = map (\<lambda>path. (path, no_offset)) managed @ filter P session"
    if paths: "managed @ map fst (filter P session) = map fst session"
      and offs: "list_all (\<lambda>(path, off). off = no_offset) (take (length managed) session)"
  proof -
    define a b where ab: "a = take (length managed) session" "b = drop (length managed) session"
    have s: "session = a @ b" by (simp add: ab)
    have la: "length a = length managed"
      using arg_cong [OF paths, of length] by (simp add: ab)
    have pa: "map fst a = managed" "map fst b = map fst (filter P session)"
      using paths la by (auto simp: s)
    have "filter P a = []"
      using assms unfolding pa(1) [symmetric] by (fastforce simp: filter_empty_conv P_def)
    then have fs: "filter P session = filter P b" by (simp add: s)
    have "filter P b = b"
      by (rule filter_same_length) (use arg_cong [OF pa(2), of length] fs in simp)
    moreover have "a = map (\<lambda>path. (path, no_offset)) managed"
      using no_offsets_map [OF offs] unfolding ab(1) [symmetric] pa(1) .
    ultimately show ?thesis using fs s by simp
  qed
  then show ?thesis
    unfolding replace_managed_sublayers_def Let_def P_def [symmetric] by auto
qed

section \<open>Preservation\<close>

lemma managed_identifier:
  assumes "table_inv ls" "k \<in> set (ls_order ls)"
  shows "map_of (keys_by_identifier ls) (identifier_of ls k) = Some k"
proof -
  from assms obtain i where i: "map_of (ls_layers ls) k = Some i"
    unfolding table_inv_def dict_keys_set by auto
  then have "map_of (keys_by_identifier ls) i = Some k"
    using assms(1) unfolding table_inv_def by blast
  with i show ?thesis by (simp add: identifier_of_def)
qed

lemma update_session_eq:
  assumes "table_inv ls"
  shows "update_session_sublayers detach (ls, st) =
    (ls, st\<lparr>session_sublayers := map (\<lambda>k. (identifier_of ls k, no_offset)) (ls_order ls) @
       filter (\<lambda>(path, off). map_of (keys_by_identifier ls) path = None \<and> path \<notin> set detach)
         (session_sublayers st)\<rparr>)"
proof -
  have "identifier_of ls k \<in> set (dict_keys (keys_by_identifier ls))" if "k \<in> set (ls_order ls)" for k
    unfolding dict_keys_set using managed_identifier [OF assms that] by (rule domI)
  then have sub: "set (map (identifier_of ls) (ls_order ls)) \<subseteq> set (dict_keys (keys_by_identifier ls) @ detach)"
    by auto
  have test: "(path \<notin> set (dict_keys (keys_by_identifier ls) @ detach)) =
      (map_of (keys_by_identifier ls) path = None \<and> path \<notin> set detach)" for path
    by (simp add: map_of_eq_None_iff)
  show ?thesis
    unfolding update_session_sublayers_def case_prod_conv replace_managed_eq [OF sub] test
    by (simp add: o_def)
qed

text \<open>
  Reinstalling the sublayers over a well-formed session: \<open>idents\<close> are the identifiers managed
  before the change.
\<close>

lemma reinstall:
  assumes "table_inv ls" "table_inv ls'" "session_inv (ls, st)"
    and same: "\<And>path. map_of (keys_by_identifier ls) path \<noteq> None \<Longrightarrow>
      map_of (keys_by_identifier ls') path \<noteq> None \<or> path \<in> set detach"
    and rest: "\<And>path off. (path, off) \<in> set (unmanaged (ls, st)) \<Longrightarrow>
      map_of (keys_by_identifier ls) path = None \<Longrightarrow>
      map_of (keys_by_identifier ls') path = None \<and> path \<notin> set detach"
  shows "session_inv (update_session_sublayers detach (ls', st)) \<and>
    unmanaged (update_session_sublayers detach (ls', st)) = unmanaged (ls, st)"
proof -
  define keep where "keep = (\<lambda>(path :: string, off :: layer_offset).
    map_of (keys_by_identifier ls') path = None \<and> path \<notin> set detach)"
  obtain r where session: "session_sublayers st =
      map (\<lambda>k. (identifier_of ls k, no_offset)) (ls_order ls) @ r"
    and r: "\<forall>(path, off) \<in> set r. map_of (keys_by_identifier ls) path = None"
    using assms(3) by (auto simp: session_inv_def)
  have un: "unmanaged (ls, st) = r" by (simp add: unmanaged_def session)
  have "filter keep (map (\<lambda>k. (identifier_of ls k, no_offset)) (ls_order ls)) = []"
    using same managed_identifier [OF assms(1)] by (fastforce simp: filter_empty_conv keep_def)
  moreover have "filter keep r = r"
    using rest r unfolding un by (fastforce simp: filter_id_conv keep_def)
  ultimately have "filter keep (session_sublayers st) = r" by (simp add: session)
  then have upd: "update_session_sublayers detach (ls', st) =
      (ls', st\<lparr>session_sublayers := map (\<lambda>k. (identifier_of ls' k, no_offset)) (ls_order ls') @ r\<rparr>)"
    using update_session_eq [OF assms(2), of detach st] by (simp add: keep_def)
  have "\<forall>(path, off) \<in> set r. map_of (keys_by_identifier ls') path = None"
    using rest r unfolding un by blast
  then show ?thesis by (simp add: upd session_inv_def un) (simp add: unmanaged_def)
qed

definition fresh_ident :: "string \<Rightarrow> stack \<Rightarrow> bool" where
  "fresh_ident ident = (\<lambda>(ls, st).
     map_of (keys_by_identifier ls) ident = None \<and> ident \<notin> fst ` set (session_sublayers st))"

lemma unmanaged_subset: "p \<in> set (unmanaged (ls, st)) \<Longrightarrow> p \<in> set (session_sublayers st)"
  by (auto simp: unmanaged_def dest: in_set_dropD)

lemma table_inv_add:
  assumes "table_inv ls" "map_of (ls_layers ls) key = None" "map_of (keys_by_identifier ls) ident = None"
  shows "table_inv (ls\<lparr>ls_layers := AList.update key ident (ls_layers ls),
    keys_by_identifier := AList.update ident key (keys_by_identifier ls),
    ls_labels := AList.update key l (ls_labels ls),
    ls_order := butlast (ls_order ls) @ [key, default_key ls], ls_revision := n\<rparr>)"
proof -
  from assms(1) obtain ks where order: "ls_order ls = ks @ [default_key ls]"
    by (metis append_butlast_last_id table_inv_def)
  have keys: "set (ls_order ls) = dom (map_of (ls_layers ls))"
    using assms(1) unfolding table_inv_def dict_keys_set by blast
  have new: "key \<notin> set (ls_order ls)" using assms(2) by (simp add: keys domIff)
  have bij: "\<forall>k i. map_of (ls_layers ls) k = Some i \<longleftrightarrow> map_of (keys_by_identifier ls) i = Some k"
    and rest: "distinct (ls_order ls)" "wf_dict (ls_layers ls)" "wf_dict (keys_by_identifier ls)"
      "dom (map_of (ls_labels ls)) = dom (map_of (ls_layers ls))"
    using assms(1) unfolding table_inv_def dict_keys_set by blast+
  have "map_of (AList.update key ident (ls_layers ls)) k = Some i \<longleftrightarrow>
      map_of (AList.update ident key (keys_by_identifier ls)) i = Some k" for k i
    using bij assms(2,3) by auto (metis option.distinct(1))
  with rest new keys show ?thesis unfolding table_inv_def dict_keys_set by (auto simp: order)
qed

lemma table_inv_delete:
  assumes "table_inv ls" "map_of (ls_layers ls) key = Some layer" "key \<noteq> default_key ls"
  shows "table_inv (ls\<lparr>ls_layers := AList.delete key (ls_layers ls),
    keys_by_identifier := AList.delete layer (keys_by_identifier ls),
    ls_labels := AList.delete key (ls_labels ls),
    ls_order := filter (\<lambda>k. k \<noteq> key) (ls_order ls), ls_revision := n\<rparr>)"
proof -
  from assms(1) obtain ks where order: "ls_order ls = ks @ [default_key ls]"
    by (metis append_butlast_last_id table_inv_def)
  have keys: "set (ls_order ls) = dom (map_of (ls_layers ls))"
    "dom (map_of (ls_labels ls)) = dom (map_of (ls_layers ls))"
    using assms(1) unfolding table_inv_def dict_keys_set by blast+
  have bij: "\<forall>k i. map_of (ls_layers ls) k = Some i \<longleftrightarrow> map_of (keys_by_identifier ls) i = Some k"
    and rest: "distinct (ls_order ls)" "wf_dict (ls_layers ls)" "wf_dict (keys_by_identifier ls)"
    using assms(1) unfolding table_inv_def by blast+
  have "map_of (AList.delete key (ls_layers ls)) k = Some i \<longleftrightarrow>
      map_of (AList.delete layer (keys_by_identifier ls)) i = Some k" for k i
    using bij assms(2) by auto (metis option.inject)
  moreover have "last (filter (\<lambda>k. k \<noteq> key) (ls_order ls)) = default_key ls"
    "filter (\<lambda>k. k \<noteq> key) (ls_order ls) \<noteq> []" using assms(3) by (auto simp: order)
  ultimately show ?thesis
    using rest keys unfolding table_inv_def dict_keys_set
    by (auto simp del: map_of_update simp: distinct_filter)
qed

section \<open>Steps\<close>

inductive stack_step :: "stack \<Rightarrow> stack \<Rightarrow> bool" where
  ensure: "fresh_ident ident s \<Longrightarrow> stack_step s (snd (ensure_layer ident key label s))"
| order: "stack_step s (snd (set_order ord s))"
| mute: "stack_step s (snd (set_muted key m s))"
| remove: "stack_step s (snd (remove_layer key s))"

lemma stack_inv_cong:
  "ls_order ls' = ls_order ls \<Longrightarrow> ls_layers ls' = ls_layers ls \<Longrightarrow>
   keys_by_identifier ls' = keys_by_identifier ls \<Longrightarrow> ls_labels ls' = ls_labels ls \<Longrightarrow>
   default_key ls' = default_key ls \<Longrightarrow> session_sublayers st' = session_sublayers st \<Longrightarrow>
   table_inv ls' = table_inv ls \<and> session_inv (ls', st') = session_inv (ls, st) \<and>
   unmanaged (ls', st') = unmanaged (ls, st)"
  by (simp add: table_inv_def session_inv_def unmanaged_def identifier_of_def)

text \<open>What a step keeps, and when the revision moves.\<close>

definition kept :: "stack \<Rightarrow> stack \<Rightarrow> bool" where
  "kept s t \<longleftrightarrow> stack_inv t \<and> unmanaged t = unmanaged s \<and> default_key (fst t) = default_key (fst s) \<and>
     (t = s \<or> ls_revision (fst t) = ls_revision (fst s) + 1)"

lemma update_session_fst [simp]: "fst (update_session_sublayers d (ls, st)) = ls"
  by (simp add: update_session_sublayers_def)

lemma kept_reinstall:
  assumes "stack_inv (ls, st)" "table_inv ls'" "ls_revision ls' = ls_revision ls + 1"
    "default_key ls' = default_key ls" "session_sublayers st' = session_sublayers st"
    and "\<And>path. map_of (keys_by_identifier ls) path \<noteq> None \<Longrightarrow>
      map_of (keys_by_identifier ls') path \<noteq> None \<or> path \<in> set detach"
    and "\<And>path off. (path, off) \<in> set (unmanaged (ls, st)) \<Longrightarrow>
      map_of (keys_by_identifier ls) path = None \<Longrightarrow>
      map_of (keys_by_identifier ls') path = None \<and> path \<notin> set detach"
  shows "kept (ls, st) (update_session_sublayers detach (ls', st'))"
proof -
  have inv: "table_inv ls" "session_inv (ls, st')" "unmanaged (ls, st') = unmanaged (ls, st)"
    using assms(1,5) by (simp_all add: stack_inv_def session_inv_def unmanaged_def)
  have "session_inv (update_session_sublayers detach (ls', st')) \<and>
      unmanaged (update_session_sublayers detach (ls', st')) = unmanaged (ls, st')"
    using reinstall [OF inv(1) assms(2) inv(2), of detach] assms(6,7) unfolding inv(3) by blast
  with assms inv show ?thesis by (simp add: kept_def stack_inv_def)
qed

lemma kept_refl: "stack_inv s \<Longrightarrow> kept s s"
  by (simp add: kept_def)

lemma ensure_kept:
  assumes "stack_inv (ls, st)" "fresh_ident ident (ls, st)"
  shows "kept (ls, st) (snd (ensure_layer ident key label (ls, st)))"
proof (cases "key = [] \<or> map_of (ls_layers ls) key \<noteq> None")
  case True
  with kept_refl [OF assms(1)] show ?thesis by (auto simp: ensure_layer_def)
next
  case False
  have "kept (ls, st) (update_session_sublayers [] (ls\<lparr>ls_layers := AList.update key ident (ls_layers ls),
      keys_by_identifier := AList.update ident key (keys_by_identifier ls),
      ls_labels := AList.update key l (ls_labels ls),
      ls_order := butlast (ls_order ls) @ [key, default_key ls], ls_revision := ls_revision ls + 1\<rparr>, st))"
    for l
  proof (rule kept_reinstall [OF assms(1)], goal_cases)
    case 1
    show ?case
      using table_inv_add assms False by (auto simp: stack_inv_def fresh_ident_def)
  next
    case (6 path off)
    then have "(path, off) \<in> set (session_sublayers st)" by (blast intro: unmanaged_subset)
    then have "path \<in> fst ` set (session_sublayers st)" by (rule rev_image_eqI) simp
    then have "path \<noteq> ident" using assms(2) by (auto simp: fresh_ident_def)
    with 6 show ?case by simp
  qed (use False in auto)
  with False show ?thesis by (simp add: ensure_layer_def Let_def)
qed

lemma order_kept:
  assumes "stack_inv (ls, st)"
  shows "kept (ls, st) (snd (set_order ord (ls, st)))"
proof (cases "distinct ord \<and> set ord = set (dict_keys (ls_layers ls)) \<and> ord \<noteq> [] \<and>
    last ord = default_key ls \<and> ord \<noteq> ls_order ls")
  case False
  with kept_refl [OF assms] show ?thesis by (auto simp: set_order_def)
next
  case True
  have "kept (ls, st) (update_session_sublayers []
      (ls\<lparr>ls_order := ord, ls_revision := ls_revision ls + 1\<rparr>, st))"
  proof (rule kept_reinstall [OF assms], goal_cases)
    case 1
    show ?case using assms True by (auto simp: stack_inv_def table_inv_def)
  qed auto
  with True show ?thesis by (simp add: set_order_def)
qed

lemma mute_kept:
  assumes "stack_inv (ls, st)"
  shows "kept (ls, st) (snd (set_muted key m (ls, st)))"
proof -
  have "kept (ls, st) (ls\<lparr>ls_revision := ls_revision ls + 1\<rparr>, st\<lparr>muted_layers := ms\<rparr>)" for ms
    using assms by (simp add: kept_def stack_inv_def table_inv_def session_inv_def unmanaged_def
        identifier_of_def)
  with kept_refl [OF assms] show ?thesis by (auto simp: set_muted_def split: sum.split)
qed

lemma remove_kept:
  assumes "stack_inv (ls, st)"
  shows "kept (ls, st) (snd (remove_layer key (ls, st)))"
proof (cases "key = default_key ls \<or> map_of (ls_layers ls) key = None")
  case True
  with kept_refl [OF assms] show ?thesis by (auto simp: remove_layer_def layer_for_def)
next
  case False
  then obtain layer where layer: "map_of (ls_layers ls) key = Some layer" by auto
  then have managed: "map_of (keys_by_identifier ls) layer = Some key"
    using assms by (auto simp: stack_inv_def table_inv_def)
  have "kept (ls, st) (update_session_sublayers [layer]
      (ls\<lparr>ls_layers := AList.delete key (ls_layers ls),
        keys_by_identifier := AList.delete layer (keys_by_identifier ls),
        ls_labels := AList.delete key (ls_labels ls),
        ls_order := filter (\<lambda>k. k \<noteq> key) (ls_order ls), ls_revision := ls_revision ls + 1\<rparr>,
       st\<lparr>muted_layers := ms\<rparr>))" for ms
  proof (rule kept_reinstall [OF assms], goal_cases)
    case 1
    show ?case using table_inv_delete assms layer False by (simp add: stack_inv_def)
  next
    case (6 path off)
    with managed show ?case by auto
  qed auto
  with False layer show ?thesis by (simp add: remove_layer_def layer_for_def Let_def)
qed

lemma stack_step_kept: "stack_step s t \<Longrightarrow> stack_inv s \<Longrightarrow> kept s t"
  by (cases s) (auto elim!: stack_step.cases intro: ensure_kept order_kept mute_kept remove_kept)

interpretation stack_sys: monotone_system stack_step stack_inv "\<lambda>s. ls_revision (fst s)"
  by unfold_locales (auto simp: kept_def dest!: stack_step_kept)

lemma stack_reach_unmanaged:
  assumes "stack_step\<^sup>*\<^sup>* s t" "stack_inv s"
  shows "unmanaged t = unmanaged s"
  using assms(1)
proof (induction rule: rtranclp_induct)
  case (step t u)
  then have "stack_inv t" using assms(2) stack_sys.reach_invar by blast
  with step stack_step_kept show ?case by (fastforce simp: kept_def)
qed simp

section \<open>Properties\<close>

text \<open>C18. The layer stack stays coherent along every sequence of operations, rejected ones
  included: the order lists every managed key once with the default weakest, keys and layer
  identifiers stay one-to-one, the session layer starts with the managed layers in that order
  without offsets, and the sublayers the stack does not manage keep their order and offsets.
  The revision never decreases.\<close>

theorem layer_stack_coherent:
  assumes "stack_step\<^sup>*\<^sup>* s t" "stack_inv s"
  shows "distinct (ls_order (fst t)) \<and> set (ls_order (fst t)) = set (dict_keys (ls_layers (fst t))) \<and>
    last (ls_order (fst t)) = default_key (fst t) \<and>
    inj_on (identifier_of (fst t)) (set (ls_order (fst t))) \<and>
    session_sublayers (snd t) =
      map (\<lambda>i. (i, no_offset)) (ordered_layers (fst t)) @ unmanaged s \<and>
    ls_revision (fst s) \<le> ls_revision (fst t)"
proof -
  have inv: "stack_inv t" using assms stack_sys.reach_invar by blast
  obtain ls st where t: "t = (ls, st)" by (cases t)
  have table: "table_inv ls" and session: "session_inv (ls, st)"
    using inv by (simp_all add: t stack_inv_def)
  have "inj_on (identifier_of ls) (set (ls_order ls))"
    by (rule inj_on_inverseI [where g = "\<lambda>i. the (map_of (keys_by_identifier ls) i)"])
      (simp add: managed_identifier [OF table])
  moreover have "session_sublayers st = map (\<lambda>i. (i, no_offset)) (ordered_layers ls) @ unmanaged (ls, st)"
    using session by (auto simp: session_inv_def unmanaged_def ordered_layers_def)
  moreover have "unmanaged (ls, st) = unmanaged s" using stack_reach_unmanaged [OF assms] t by simp
  moreover have "ls_revision (fst s) \<le> ls_revision (fst t)"
    using stack_sys.reach_rank assms by blast
  ultimately show ?thesis using table by (simp add: t table_inv_def)
qed

theorem layer_stack_coherent_witness:
  "let ls = \<lparr>default_key = ''default'', ls_layers = [(''default'', ''l0''), (''anim'', ''l1'')],
         keys_by_identifier = [(''l0'', ''default''), (''l1'', ''anim'')],
         ls_labels = [(''default'', ''Default''), (''anim'', ''anim'')],
         ls_order = [''anim'', ''default''], ls_generation = ''g'', ls_revision = 2\<rparr>;
       st = \<lparr>session_sublayers = [(''l1'', no_offset), (''l0'', no_offset), (''base'', (3, 1))],
         muted_layers = []\<rparr>
   in session_sublayers (snd (snd (ensure_layer ''l2'' ''light'' None (ls, st)))) =
        [(''l1'', no_offset), (''l2'', no_offset), (''l0'', no_offset), (''base'', (3, 1))]"
proof -
  define ls where "ls = \<lparr>default_key = ''default'', ls_layers = [(''default'', ''l0''), (''anim'', ''l1'')],
         keys_by_identifier = [(''l0'', ''default''), (''l1'', ''anim'')],
         ls_labels = [(''default'', ''Default''), (''anim'', ''anim'')],
         ls_order = [''anim'', ''default''], ls_generation = ''g'', ls_revision = (2 :: int)\<rparr>"
  define st where "st = \<lparr>session_sublayers = [(''l1'', no_offset), (''l0'', no_offset), (''base'', (3, 1))],
         muted_layers = []\<rparr>"
  have inv: "stack_inv (ls, st)"
    by (auto simp: stack_inv_def table_inv_def session_inv_def ls_def st_def identifier_of_def
        wf_dict_def split: if_splits)
  have "fresh_ident ''l2'' (ls, st)" by (simp add: fresh_ident_def ls_def st_def)
  then have "stack_step\<^sup>*\<^sup>* (ls, st) (snd (ensure_layer ''l2'' ''light'' None (ls, st)))"
    by (intro r_into_rtranclp ensure)
  from layer_stack_coherent [OF this inv] show ?thesis
    unfolding Let_def ls_def [symmetric] st_def [symmetric]
    by (simp add: ls_def st_def ensure_layer_def update_session_sublayers_def ordered_layers_def
        identifier_of_def unmanaged_def)
qed

end
