(* ===== verification/Scene.thy ===== *)
theory Scene
  imports Atomic_Apply Layer_Stack
begin

text \<open>
  The authoritative scene of the server (\<open>SceneState\<close> in \<open>openusdconnect/server/scene.py\<close>):
  layer contents, edit target, layer stack and the prim index, with the operations a
  transaction performs on it.

  \<open>apply_events\<close> (\<open>openusdconnect/event_apply.py\<close>) authors events on one layer through pxr; it
  is a field of \<open>usd\<close>, together with the Sdf calls and the field names of a spec. It may raise
  and leave the layer half edited.
\<close>

record 'spec usd =
  usd_sdf :: "'spec sdf_api"
  usd_apply_events :: "event list \<Rightarrow> string \<Rightarrow> (string \<Rightarrow> 'spec content)
     \<Rightarrow> unit res \<times> (string \<Rightarrow> 'spec content)"
  usd_info_keys :: "string \<Rightarrow> string \<Rightarrow> (string \<Rightarrow> 'spec content) \<Rightarrow> string list option"

record 'spec scene =
  sc_layers :: "string \<Rightarrow> 'spec content"
  sc_stack :: stack
  sc_session :: string
  sc_edit_layer :: string
  sc_edit_target :: string
  sc_op_cache_layer :: "string option"
  sc_tracking :: tracking
  sc_dirty :: bool

section \<open>Applying events\<close>

definition is_removal :: "event \<Rightarrow> bool" where
  "is_removal ev \<longleftrightarrow> ev_kind ev = K_SET_SDF_SPEC_FIELDS \<and> truthy (map_of ev ''removed'')"

text \<open>\<open>event["fields"] = sorted(set(event["fields"]) | keys)\<close>.\<close>

definition complete_fields :: "string list \<Rightarrow> event \<Rightarrow> event" where
  "complete_fields keys ev =
     AList.update ''fields'' (PList (map PStr (sort (remdups (ev_strings ''fields'' ev @ keys))))) ev"

definition complete_deletion ::
  "'spec usd \<Rightarrow> string \<Rightarrow> event \<Rightarrow> (string \<Rightarrow> 'spec content) \<Rightarrow> event" where
  "complete_deletion usd layer ev ls =
     (case usd_info_keys usd layer (ev_str ''spec_path'' ev) ls of
        None \<Rightarrow> ev | Some keys \<Rightarrow> complete_fields keys ev)"

text \<open>
  \<open>apply_with_deletion_fields\<close>: \<open>run\<close> is the slice since the last removal. The result carries
  the events as the code leaves them, with completed fields.
\<close>

fun deletion_loop ::
  "'spec usd \<Rightarrow> string \<Rightarrow> event list \<Rightarrow> event list \<Rightarrow> (string \<Rightarrow> 'spec content)
     \<Rightarrow> event list res \<times> (string \<Rightarrow> 'spec content)" where
  "deletion_loop usd layer [] run ls =
     (if run = [] then (Inr [], ls)
      else case usd_apply_events usd run layer ls of
             (Inl e, ls') \<Rightarrow> (Inl e, ls') | (Inr _, ls') \<Rightarrow> (Inr run, ls'))"
| "deletion_loop usd layer (ev # evs) run ls =
     (if \<not> is_removal ev then deletion_loop usd layer evs (run @ [ev]) ls
      else case (if run = [] then (Inr (), ls) else usd_apply_events usd run layer ls) of
        (Inl e, ls1) \<Rightarrow> (Inl e, ls1)
      | (Inr _, ls1) \<Rightarrow>
          (let ev' = complete_deletion usd layer ev ls1
           in case usd_apply_events usd [ev'] layer ls1 of
                (Inl e, ls2) \<Rightarrow> (Inl e, ls2)
              | (Inr _, ls2) \<Rightarrow>
                  (case deletion_loop usd layer evs [] ls2 of
                     (Inl e, ls3) \<Rightarrow> (Inl e, ls3)
                   | (Inr evs', ls3) \<Rightarrow> (Inr (run @ [ev'] @ evs'), ls3))))"

definition apply_with_deletion_fields ::
  "'spec usd \<Rightarrow> string \<Rightarrow> event list \<Rightarrow> 'spec scene \<Rightarrow> event list res \<times> 'spec scene" where
  "apply_with_deletion_fields usd layer evs sc =
     (let (r, ls) = deletion_loop usd layer evs [] (sc_layers sc)
      in (r, sc\<lparr>sc_layers := ls, sc_op_cache_layer := Some layer\<rparr>))"

text \<open>\<open>itertools.groupby\<close> on a boolean key: maximal runs.\<close>

fun runs :: "('a \<Rightarrow> bool) \<Rightarrow> 'a list \<Rightarrow> (bool \<times> 'a list) list" where
  "runs f [] = []"
| "runs f (x # xs) =
     (case runs f xs of
        (b, ys) # rest \<Rightarrow> if b = f x then (b, x # ys) # rest else (f x, [x]) # (b, ys) # rest
      | [] \<Rightarrow> [(f x, [x])])"

definition is_session_event :: "event \<Rightarrow> bool" where
  "is_session_event ev \<longleftrightarrow> ev_kind ev \<in> set NON_COLLABORATION_KINDS"

fun apply_runs ::
  "'spec usd \<Rightarrow> string \<Rightarrow> (bool \<times> event list) list \<Rightarrow> 'spec scene \<Rightarrow> event list res \<times> 'spec scene" where
  "apply_runs usd tgt [] sc = (Inr [], sc)"
| "apply_runs usd tgt ((session, evs) # rest) sc =
     (let layer = (if session then sc_session sc else tgt)
      in case apply_with_deletion_fields usd layer evs (sc\<lparr>sc_edit_target := layer\<rparr>) of
           (Inl e, sc1) \<Rightarrow> (Inl e, sc1)
         | (Inr evs1, sc1) \<Rightarrow>
             (case apply_runs usd tgt rest sc1 of
                (Inl e, sc2) \<Rightarrow> (Inl e, sc2) | (Inr evs2, sc2) \<Rightarrow> (Inr (evs1 @ evs2), sc2)))"

definition apply_routed_runs ::
  "'spec usd \<Rightarrow> event list \<Rightarrow> string \<Rightarrow> 'spec scene \<Rightarrow> event list res \<times> 'spec scene" where
  "apply_routed_runs usd evs tgt sc = apply_runs usd tgt (runs is_session_event evs) sc"

definition set_mute :: "string \<Rightarrow> bool \<Rightarrow> 'spec scene \<Rightarrow> 'spec scene" where
  "set_mute layer muted sc =
     (let (ls, st) = sc_stack sc
      in sc\<lparr>sc_stack := (ls, st\<lparr>muted_layers :=
           (if muted then List.insert layer (muted_layers st)
            else removeAll layer (muted_layers st))\<rparr>)\<rparr>)"

definition is_muted :: "string \<Rightarrow> 'spec scene \<Rightarrow> bool" where
  "is_muted layer sc \<longleftrightarrow> layer \<in> set (muted_layers (snd (sc_stack sc)))"

definition apply_validated ::
  "'spec usd \<Rightarrow> event list \<Rightarrow> string option \<Rightarrow> 'spec scene \<Rightarrow> event list res \<times> 'spec scene" where
  "apply_validated usd evs layer sc =
     (let tgt = (case layer of Some l \<Rightarrow> l | None \<Rightarrow> sc_edit_layer sc);
          was_muted = is_muted tgt sc;
          needs_unmute = (was_muted \<and> list_ex (\<lambda>ev. \<not> is_session_event ev) evs);
          post_target = (if was_muted then sc_session sc else tgt);
          sc1 = (if needs_unmute then set_mute tgt False sc else sc);
          (r, sc2) =
            (if list_ex is_session_event evs then apply_routed_runs usd evs tgt sc1
             else apply_with_deletion_fields usd tgt evs (sc1\<lparr>sc_edit_target := tgt\<rparr>));
          sc3 = sc2\<lparr>sc_edit_target := post_target\<rparr>
      in (r, if needs_unmute then set_mute tgt True sc3 else sc3))"

definition scene_update_tracking :: "event list \<Rightarrow> 'spec scene \<Rightarrow> 'spec scene" where
  "scene_update_tracking evs sc =
     (let (t, d) = update_prim_tracking evs (sc_tracking sc, sc_dirty sc)
      in sc\<lparr>sc_tracking := t, sc_dirty := d\<rparr>)"

section \<open>Atomic edits\<close>

text \<open>
  What leaving \<open>atomic_edit\<close> on an exception does to the scene: every snapshotted layer is
  rolled back, the operation cache is dropped and the edit target restored.
\<close>

definition rollback_scene ::
  "'spec usd \<Rightarrow> (string \<times> path list) list \<Rightarrow> bool \<Rightarrow> 'spec scene \<Rightarrow> 'spec scene \<Rightarrow> 'spec scene" where
  "rollback_scene usd layer_paths include_session before after =
     (let scopes = map (\<lambda>(l, ps). (l, Some ps)) layer_paths @
            (if include_session then [(sc_session before, None)] else []);
          restore = (\<lambda>(l, scope) ls.
            ls(l := rollback_layer (usd_sdf usd) scope (sc_layers before l) (ls l)))
      in after\<lparr>sc_layers := fold restore (rev scopes) (sc_layers after),
               sc_op_cache_layer := None, sc_edit_target := sc_edit_target before\<rparr>)"

section \<open>Frames\<close>

text \<open>What no application changes.\<close>

definition same_frame :: "'spec scene \<Rightarrow> 'spec scene \<Rightarrow> bool" where
  "same_frame sc sc' \<longleftrightarrow> sc_session sc' = sc_session sc \<and> sc_edit_layer sc' = sc_edit_layer sc \<and>
     sc_tracking sc' = sc_tracking sc \<and> sc_dirty sc' = sc_dirty sc \<and>
     fst (sc_stack sc') = fst (sc_stack sc) \<and>
     set (muted_layers (snd (sc_stack sc'))) = set (muted_layers (snd (sc_stack sc))) \<and>
     session_sublayers (snd (sc_stack sc')) = session_sublayers (snd (sc_stack sc))"

lemma same_frame_refl [simp]: "same_frame sc sc"
  by (simp add: same_frame_def)

lemma apply_with_deletion_frame:
  "apply_with_deletion_fields usd layer evs sc = (r, sc') \<Longrightarrow>
     sc' = sc\<lparr>sc_layers := sc_layers sc', sc_op_cache_layer := Some layer\<rparr>"
  by (auto simp: apply_with_deletion_fields_def split: prod.splits)

lemma apply_runs_frame:
  "apply_runs usd tgt rs sc = (r, sc') \<Longrightarrow> same_frame sc sc' \<and> sc_stack sc' = sc_stack sc"
proof (induction rs arbitrary: sc r sc')
  case (Cons se rs)
  obtain session evs where se: "se = (session, evs)" by (cases se)
  define layer where "layer = (if session then sc_session sc else tgt)"
  obtain r1 sc1 where first: "apply_with_deletion_fields usd layer evs (sc\<lparr>sc_edit_target := layer\<rparr>) = (r1, sc1)"
    by fastforce
  have "same_frame sc sc1 \<and> sc_stack sc1 = sc_stack sc"
    using apply_with_deletion_frame [OF first] by (cases sc1, cases sc) (simp add: same_frame_def)
  moreover have "same_frame sc1 sc' \<and> sc_stack sc' = sc_stack sc1"
  proof (cases r1)
    case (Inl e)
    with Cons.prems first show ?thesis by (simp add: se layer_def Let_def)
  next
    case (Inr evs1)
    obtain r2 sc2 where rest: "apply_runs usd tgt rs sc1 = (r2, sc2)" by fastforce
    with Cons.prems first Inr have "sc' = sc2"
      by (auto simp: se layer_def Let_def split: sum.splits)
    with Cons.IH [OF rest] show ?thesis by simp
  qed
  ultimately show ?case by (auto simp: same_frame_def)
qed simp

lemma set_mute_back:
  assumes "same_frame (set_mute l False sc) sc2" "sc_stack sc2 = sc_stack (set_mute l False sc)"
    "is_muted l sc"
  shows "same_frame sc (set_mute l True sc2)"
  using assms by (cases "sc_stack sc") (auto simp: set_mute_def same_frame_def is_muted_def)

lemma apply_validated_frame:
  assumes "apply_validated usd evs layer sc = (r, sc')"
  shows "same_frame sc sc'"
proof -
  define tgt where "tgt = (case layer of Some l \<Rightarrow> l | None \<Rightarrow> sc_edit_layer sc)"
  define unmute where "unmute = (is_muted tgt sc \<and> list_ex (\<lambda>ev. \<not> is_session_event ev) evs)"
  define sc1 where "sc1 = (if unmute then set_mute tgt False sc else sc)"
  obtain r2 sc2 where run: "(if list_ex is_session_event evs then apply_routed_runs usd evs tgt sc1
      else apply_with_deletion_fields usd tgt evs (sc1\<lparr>sc_edit_target := tgt\<rparr>)) = (r2, sc2)"
    by fastforce
  have frame: "same_frame sc1 sc2 \<and> sc_stack sc2 = sc_stack sc1"
  proof (cases "list_ex is_session_event evs")
    case True
    with run show ?thesis by (auto simp: apply_routed_runs_def dest: apply_runs_frame)
  next
    case False
    with run apply_with_deletion_frame [of usd tgt evs "sc1\<lparr>sc_edit_target := tgt\<rparr>" r2 sc2]
    show ?thesis by (cases sc2, cases sc1) (simp add: same_frame_def)
  qed
  define post where "post = (if is_muted tgt sc then sc_session sc else tgt)"
  have sc': "sc' = (if unmute then set_mute tgt True (sc2\<lparr>sc_edit_target := post\<rparr>)
      else sc2\<lparr>sc_edit_target := post\<rparr>)"
    using assms run unfolding apply_validated_def tgt_def [symmetric] unmute_def [symmetric] Let_def
      sc1_def [symmetric] post_def [symmetric] by (auto split: prod.splits)
  have post: "same_frame sc1 (sc2\<lparr>sc_edit_target := post\<rparr>)"
    "sc_stack (sc2\<lparr>sc_edit_target := post\<rparr>) = sc_stack sc1"
    using frame by (simp_all add: same_frame_def)
  show ?thesis
  proof (cases unmute)
    case True
    with set_mute_back [of tgt sc "sc2\<lparr>sc_edit_target := post\<rparr>"] post show ?thesis
      by (simp add: sc' sc1_def unmute_def)
  next
    case False
    with post show ?thesis by (simp add: sc' sc1_def)
  qed
qed

section \<open>Confinement\<close>

text \<open>
  What \<open>atomic_apply_prim_paths\<close> promises of \<open>apply_events\<close>: only the target layer is edited,
  it stays well-formed, and the writes lie within the paths it returns.
\<close>

definition usd_confined :: "'spec usd \<Rightarrow> (string \<Rightarrow> path option) \<Rightarrow> bool" where
  "usd_confined usd owner \<longleftrightarrow>
     (\<forall>evs tgt ls r ls'. usd_apply_events usd evs tgt ls = (r, ls') \<longrightarrow>
        (\<forall>l. l \<noteq> tgt \<longrightarrow> ls' l = ls l) \<and> (wf_content (ls tgt) \<longrightarrow> wf_content (ls' tgt)) \<and>
        (\<forall>ps. atomic_apply_prim_paths owner evs = Some ps \<longrightarrow> confined ps (ls tgt) (ls' tgt)))"

text \<open>The rollback scope \<open>P\<close> contains the writes of every event.\<close>

definition event_scope :: "(string \<Rightarrow> path option) \<Rightarrow> path list \<Rightarrow> event \<Rightarrow> bool" where
  "event_scope owner P ev \<longleftrightarrow> (\<exists>ps. event_prim_paths owner ev = Some ps \<and>
     (\<forall>p \<in> set ps. \<exists>q \<in> set P. prefix q p))"

definition within_scope :: "(string \<Rightarrow> path option) \<Rightarrow> path list \<Rightarrow> event list \<Rightarrow> bool" where
  "within_scope owner P evs \<longleftrightarrow> (\<forall>ev \<in> set evs. event_scope owner P ev)"

lemma within_scope_simps [simp]:
  "within_scope owner P []"
  "within_scope owner P (ev # evs) \<longleftrightarrow> event_scope owner P ev \<and> within_scope owner P evs"
  "within_scope owner P (evs @ evs') \<longleftrightarrow> within_scope owner P evs \<and> within_scope owner P evs'"
  by (auto simp: within_scope_def)

lemma within_scope_paths:
  assumes "within_scope owner P evs"
  shows "\<exists>ps. atomic_apply_prim_paths owner evs = Some ps \<and> (\<forall>p \<in> set ps. \<exists>q \<in> set P. prefix q p)"
  using assms by (induction evs) (auto simp: event_scope_def)

lemma confined_weaken:
  assumes "confined ps a b" "\<forall>p \<in> set ps. \<exists>q \<in> set P. prefix q p"
  shows "confined P a b"
  unfolding confined_def
proof (intro allI impI)
  fix x assume "b x \<noteq> a x"
  with assms(1) obtain p where p: "p \<in> set ps" "prefix p x \<or> prefix x p \<and> a x = None"
    by (auto simp: confined_def)
  from assms(2) p(1) obtain q where q: "q \<in> set P" "prefix q p" by blast
  from p(2) show "\<exists>p \<in> set P. prefix p x \<or> prefix x p \<and> a x = None"
  proof
    assume "prefix p x"
    with q show ?thesis by (meson prefix_order.trans)
  next
    assume "prefix x p \<and> a x = None"
    with q prefix_comparable [of x p q] show ?thesis by blast
  qed
qed

lemma confined_refl [simp]: "confined P a a"
  by (simp add: confined_def)

lemma confined_trans: "confined P a b \<Longrightarrow> confined P b c \<Longrightarrow> confined P a c"
  unfolding confined_def by metis

text \<open>One layer edited within a scope, the others untouched.\<close>

definition scoped_edit ::
  "path list \<Rightarrow> string \<Rightarrow> (string \<Rightarrow> 'spec content) \<Rightarrow> (string \<Rightarrow> 'spec content) \<Rightarrow> bool" where
  "scoped_edit P layer ls ls' \<longleftrightarrow> (\<forall>l. l \<noteq> layer \<longrightarrow> ls' l = ls l) \<and>
     (wf_content (ls layer) \<longrightarrow> wf_content (ls' layer)) \<and> confined P (ls layer) (ls' layer)"

lemma scoped_edit_refl [simp]: "scoped_edit P layer ls ls"
  by (simp add: scoped_edit_def)

lemma scoped_edit_trans: "scoped_edit P l a b \<Longrightarrow> scoped_edit P l b c \<Longrightarrow> scoped_edit P l a c"
  by (auto simp: scoped_edit_def intro: confined_trans)

lemma apply_events_scoped:
  assumes "usd_confined usd owner" "within_scope owner P evs" "usd_apply_events usd evs layer ls = (r, ls')"
  shows "scoped_edit P layer ls ls'"
proof -
  obtain ps where ps: "atomic_apply_prim_paths owner evs = Some ps" "\<forall>p \<in> set ps. \<exists>q \<in> set P. prefix q p"
    using within_scope_paths [OF assms(2)] by blast
  have "(\<forall>l. l \<noteq> layer \<longrightarrow> ls' l = ls l) \<and> (wf_content (ls layer) \<longrightarrow> wf_content (ls' layer)) \<and>
      confined ps (ls layer) (ls' layer)"
    using assms(1,3) ps(1) unfolding usd_confined_def by blast
  with confined_weaken [OF _ ps(2)] show ?thesis by (auto simp: scoped_edit_def)
qed

lemma complete_deletion_scope:
  "event_scope owner P (complete_deletion usd layer ev ls) = event_scope owner P ev"
proof -
  have "map_of (complete_deletion usd layer ev ls) key = map_of ev key" if "key \<noteq> ''fields''" for key
    using that by (auto simp: complete_deletion_def complete_fields_def split: option.splits)
  then have same: "ev_str key (complete_deletion usd layer ev ls) = ev_str key ev"
    "ev_dict key (complete_deletion usd layer ev ls) = ev_dict key ev" if "key \<noteq> ''fields''" for key
    using that by (simp_all add: ev_str_def ev_dict_def)
  have fields: "ev_kind (complete_deletion usd layer ev ls) = ev_kind ev"
    "ev_prim (complete_deletion usd layer ev ls) = ev_prim ev"
    "ev_str ''spec_kind'' (complete_deletion usd layer ev ls) = ev_str ''spec_kind'' ev"
    "ev_str ''spec_path'' (complete_deletion usd layer ev ls) = ev_str ''spec_path'' ev"
    "ev_str ''new_name'' (complete_deletion usd layer ev ls) = ev_str ''new_name'' ev"
    "ev_dict ''connections'' (complete_deletion usd layer ev ls) = ev_dict ''connections'' ev"
    by (simp_all add: ev_kind_def ev_prim_def same)
  then have "rename_target (complete_deletion usd layer ev ls) = rename_target ev"
    "connection_sources (complete_deletion usd layer ev ls) = connection_sources ev"
    by (simp_all add: rename_target_def connection_sources_def)
  with fields have "event_prim_paths owner (complete_deletion usd layer ev ls) = event_prim_paths owner ev"
    unfolding event_prim_paths_def by (simp only:)
  then show ?thesis by (simp only: event_scope_def)
qed

lemma deletion_loop_scoped:
  assumes "usd_confined usd owner" "within_scope owner P run" "within_scope owner P evs"
    "deletion_loop usd layer evs run ls = (r, ls')"
  shows "scoped_edit P layer ls ls'"
  using assms(2-4)
proof (induction evs arbitrary: run ls r ls')
  case Nil
  then show ?case
    using apply_events_scoped [OF assms(1) Nil.prems(1), of layer ls]
    by (auto split: if_splits prod.splits sum.splits)
next
  case (Cons ev evs)
  have ev: "event_scope owner P ev" and evs: "within_scope owner P evs"
    using Cons.prems(2) by simp_all
  show ?case
  proof (cases "is_removal ev")
    case False
    with Cons.IH [of "run @ [ev]" ls r ls'] Cons.prems ev evs show ?thesis by simp
  next
    case True
    obtain r1 ls1 where first: "(if run = [] then (Inr (), ls) else usd_apply_events usd run layer ls) = (r1, ls1)"
      by fastforce
    have s1: "scoped_edit P layer ls ls1"
      using first apply_events_scoped [OF assms(1) Cons.prems(1)] by (auto split: if_splits)
    define ev' where "ev' = complete_deletion usd layer ev ls1"
    obtain r2 ls2 where second: "usd_apply_events usd [ev'] layer ls1 = (r2, ls2)" by fastforce
    have s2: "scoped_edit P layer ls1 ls2"
      by (rule apply_events_scoped [OF assms(1) _ second]) (simp add: ev'_def complete_deletion_scope ev)
    obtain r3 ls3 where third: "deletion_loop usd layer evs [] ls2 = (r3, ls3)" by fastforce
    have s3: "scoped_edit P layer ls2 ls3" by (rule Cons.IH [OF _ evs third]) simp
    have "ls' \<in> {ls1, ls2, ls3}"
      using Cons.prems(3) True first second third
      by (auto simp: ev'_def Let_def split: sum.splits)
    with s1 s2 s3 show ?thesis by (auto intro: scoped_edit_trans)
  qed
qed

lemma apply_with_deletion_scoped:
  assumes "usd_confined usd owner" "within_scope owner P evs"
    "apply_with_deletion_fields usd layer evs sc = (r, sc')"
  shows "scoped_edit P layer (sc_layers sc) (sc_layers sc')"
  using assms deletion_loop_scoped [OF assms(1) within_scope_simps(1) assms(2), of layer "sc_layers sc"]
  by (auto simp: apply_with_deletion_fields_def split: prod.splits)

lemma apply_events_others:
  "usd_confined usd owner \<Longrightarrow> usd_apply_events usd evs layer ls = (r, ls') \<Longrightarrow> l \<noteq> layer \<Longrightarrow> ls' l = ls l"
  unfolding usd_confined_def by blast

lemma deletion_loop_others:
  assumes "usd_confined usd owner" "l \<noteq> layer" "deletion_loop usd layer evs run ls = (r, ls')"
  shows "ls' l = ls l"
  using assms(3)
proof (induction evs arbitrary: run ls r ls')
  case Nil
  then show ?case
    using apply_events_others [OF assms(1) _ assms(2), of run ls]
    by (auto split: if_splits prod.splits sum.splits)
next
  case (Cons ev evs)
  show ?case
  proof (cases "is_removal ev")
    case False
    with Cons.IH Cons.prems show ?thesis by simp
  next
    case True
    obtain r1 ls1 where first: "(if run = [] then (Inr (), ls) else usd_apply_events usd run layer ls) = (r1, ls1)"
      by fastforce
    obtain r2 ls2 where second: "usd_apply_events usd [complete_deletion usd layer ev ls1] layer ls1 = (r2, ls2)"
      by fastforce
    obtain r3 ls3 where third: "deletion_loop usd layer evs [] ls2 = (r3, ls3)" by fastforce
    have "ls1 l = ls l" using first apply_events_others [OF assms(1) _ assms(2)] by (auto split: if_splits)
    moreover have "ls2 l = ls1 l" by (rule apply_events_others [OF assms(1) second assms(2)])
    moreover have "ls3 l = ls2 l" by (rule Cons.IH [OF third])
    moreover have "ls' \<in> {ls1, ls2, ls3}"
      using Cons.prems True first second third by (auto simp: Let_def split: sum.splits)
    ultimately show ?thesis by auto
  qed
qed

lemma apply_with_deletion_others:
  assumes "usd_confined usd owner" "l \<noteq> layer" "apply_with_deletion_fields usd layer evs sc = (r, sc')"
  shows "sc_layers sc' l = sc_layers sc l"
  using assms(3) deletion_loop_others [OF assms(1,2), of evs "[]" "sc_layers sc"]
  by (auto simp: apply_with_deletion_fields_def split: prod.splits)

lemma runs_members: "(b, ys) \<in> set (runs f xs) \<Longrightarrow> y \<in> set ys \<Longrightarrow> y \<in> set xs \<and> f y = b"
proof (induction xs arbitrary: b ys)
  case (Cons x xs)
  show ?case
  proof (cases "runs f xs")
    case Nil
    with Cons.prems show ?thesis by simp
  next
    case run: (Cons first rest)
    obtain c zs where first: "first = (c, zs)" by (cases first)
    show ?thesis
    proof (cases "c = f x")
      case True
      with Cons.prems run first Cons.IH [of b ys] Cons.IH [of c zs] show ?thesis by auto
    next
      case False
      with Cons.prems run first Cons.IH [of b ys] show ?thesis by auto
    qed
  qed
qed simp

lemma runs_concat: "concat (map snd (runs f xs)) = xs"
  by (induction xs) (auto split: list.splits if_splits)

text \<open>
  A transaction edits its target layer within the scope and, if it has session events, the
  session layer.
\<close>

definition txn_edit ::
  "path list \<Rightarrow> string \<Rightarrow> string option \<Rightarrow> (string \<Rightarrow> 'spec content) \<Rightarrow> (string \<Rightarrow> 'spec content) \<Rightarrow> bool"
where
  "txn_edit P tgt session ls ls' \<longleftrightarrow> (\<forall>l. l \<noteq> tgt \<longrightarrow> Some l \<noteq> session \<longrightarrow> ls' l = ls l) \<and>
     (wf_content (ls tgt) \<longrightarrow> wf_content (ls' tgt)) \<and> confined P (ls tgt) (ls' tgt)"

lemma txn_edit_refl [simp]: "txn_edit P tgt session ls ls"
  by (simp add: txn_edit_def)

lemma txn_edit_trans: "txn_edit P t s a b \<Longrightarrow> txn_edit P t s b c \<Longrightarrow> txn_edit P t s a c"
  by (auto simp: txn_edit_def intro: confined_trans)

lemma apply_runs_scoped:
  assumes "usd_confined usd owner" "tgt \<noteq> sc_session sc"
    "\<And>ys ev. (False, ys) \<in> set rs \<Longrightarrow> ev \<in> set ys \<Longrightarrow> event_scope owner P ev"
    "apply_runs usd tgt rs sc = (r, sc')"
  shows "txn_edit P tgt (Some (sc_session sc)) (sc_layers sc) (sc_layers sc')"
  using assms(2-4)
proof (induction rs arbitrary: sc r sc')
  case (Cons se rs)
  obtain session evs where se: "se = (session, evs)" by (cases se)
  define layer where "layer = (if session then sc_session sc else tgt)"
  obtain r1 sc1 where first: "apply_with_deletion_fields usd layer evs (sc\<lparr>sc_edit_target := layer\<rparr>) = (r1, sc1)"
    by fastforce
  have ses: "sc_session sc1 = sc_session sc"
    using apply_with_deletion_frame [OF first] by (cases sc1, cases sc) simp
  have one: "txn_edit P tgt (Some (sc_session sc)) (sc_layers sc) (sc_layers sc1)"
  proof (cases session)
    case True
    then have "sc_layers sc1 l = sc_layers sc l" if "l \<noteq> sc_session sc" for l
      using apply_with_deletion_others [OF assms(1) _ first, of l] that by (simp add: layer_def)
    with Cons.prems(1) show ?thesis by (simp add: txn_edit_def)
  next
    case False
    then have "within_scope owner P evs" using Cons.prems(2) by (auto simp: within_scope_def se)
    from apply_with_deletion_scoped [OF assms(1) this first] False show ?thesis
      by (simp add: txn_edit_def scoped_edit_def layer_def)
  qed
  show ?case
  proof (cases r1)
    case (Inl e)
    with Cons.prems(3) first one show ?thesis by (simp add: se layer_def Let_def)
  next
    case (Inr evs1)
    obtain r2 sc2 where rest: "apply_runs usd tgt rs sc1 = (r2, sc2)" by fastforce
    with Cons.prems(3) first Inr have "sc' = sc2"
      by (auto simp: se layer_def Let_def split: sum.splits)
    moreover have "txn_edit P tgt (Some (sc_session sc1)) (sc_layers sc1) (sc_layers sc2)"
      by (rule Cons.IH [OF _ _ rest]) (use Cons.prems(1,2) ses in auto)
    ultimately show ?thesis using one ses by (auto intro: txn_edit_trans)
  qed
qed simp

lemma apply_validated_scoped:
  assumes "usd_confined usd owner" "apply_validated usd evs (Some tgt) sc = (r, sc')"
    "tgt \<noteq> sc_session sc" "within_scope owner P (filter (\<lambda>ev. \<not> is_session_event ev) evs)"
  shows "txn_edit P tgt (if list_ex is_session_event evs then Some (sc_session sc) else None)
    (sc_layers sc) (sc_layers sc')"
proof -
  define unmute where "unmute = (is_muted tgt sc \<and> list_ex (\<lambda>ev. \<not> is_session_event ev) evs)"
  define sc1 where "sc1 = (if unmute then set_mute tgt False sc else sc)"
  have mute: "sc_layers (set_mute l b x) = sc_layers x" "sc_session (set_mute l b x) = sc_session x"
    for l b and x :: "'a scene" by (auto simp: set_mute_def split: prod.splits)
  have sc1: "sc_layers sc1 = sc_layers sc" "sc_session sc1 = sc_session sc" by (simp_all add: sc1_def mute)
  obtain r2 sc2 where run: "(if list_ex is_session_event evs then apply_routed_runs usd evs tgt sc1
      else apply_with_deletion_fields usd tgt evs (sc1\<lparr>sc_edit_target := tgt\<rparr>)) = (r2, sc2)"
    by fastforce
  have "sc_layers sc' = sc_layers sc2"
    using assms(2) run unfolding apply_validated_def option.case Let_def
      unmute_def [symmetric] sc1_def [symmetric] by (auto simp: mute split: prod.splits)
  moreover have "txn_edit P tgt (if list_ex is_session_event evs then Some (sc_session sc) else None)
      (sc_layers sc) (sc_layers sc2)"
  proof (cases "list_ex is_session_event evs")
    case True
    have scope: "event_scope owner P ev" if "(False, ys) \<in> set (runs is_session_event evs)" "ev \<in> set ys" for ys ev
      using runs_members [OF that] assms(4) by (auto simp: within_scope_def)
    have "apply_runs usd tgt (runs is_session_event evs) sc1 = (r2, sc2)"
      using run True by (simp add: apply_routed_runs_def)
    from apply_runs_scoped [OF assms(1) _ scope this] True assms(3) sc1 show ?thesis by simp
  next
    case False
    then have "within_scope owner P evs" using assms(4) by (auto simp: within_scope_def list_ex_iff)
    from apply_with_deletion_scoped [OF assms(1) this, of tgt "sc1\<lparr>sc_edit_target := tgt\<rparr>" r2 sc2] run False sc1
    show ?thesis by (simp add: scoped_edit_def txn_edit_def)
  qed
  ultimately show ?thesis by simp
qed

end
