(* ===== verification/Commit.thy ===== *)
theory Commit
  imports Transactions Scene
begin

text \<open>
  Atomic scene mutation and durable commits of managed transactions
  (\<open>openusdconnect/server/commit.py\<close>): admission by producer transaction id, the group commit
  with its single rollback and persistence boundary, and the commit of one request.

  The server state is the journal and the scene. \<open>srv_writes\<close> counts database writes; the
  argument \<open>db\<close> says which of them the engine accepts. The rest of the environment is the
  encoder and the \<open>usd\<close> record of the scene. Deletion fields a failed attempt has completed are
  not carried into a retry.
\<close>

record 'spec server =
  srv_journal :: journal
  srv_scene :: "'spec scene"
  srv_writes :: nat

record 'spec env =
  env_encode :: encoder
  env_usd :: "'spec usd"
  env_db :: "nat \<Rightarrow> bool"

record prepared_transaction =
  pt_request :: transaction_request
  pt_target_layer :: string
  pt_layer_key :: string
  pt_paths :: "path list"
  pt_session :: bool

section \<open>Operations\<close>

definition check_transaction_id :: "transaction_request \<Rightarrow> int \<Rightarrow> outcome option" where
  "check_transaction_id r mark =
     (if tr_txn_id r \<le> mark
      then Some (Inr \<lparr>tc_status = Duplicate, tc_txn_id = mark, tc_records = [],
             tc_checkpoint = None\<rparr>)
      else if tr_txn_id r \<noteq> mark + 1
      then Some (Inl (TransactionRejectedError ''unexpected_id'' ''expected transaction''
             (mark + 1)))
      else None)"

definition prepare_managed_transaction ::
  "transaction_request \<Rightarrow> 'spec scene \<Rightarrow> prepared_transaction res" where
  "prepare_managed_transaction r sc =
     (if tr_layer_key r \<noteq> [] then
        Inl (ValueError ''managed transactions cannot select an arbitrary layer key'')
      else
        let target_layer = (case tr_layer r of Some l \<Rightarrow> l | None \<Rightarrow> sc_edit_layer sc);
            layer_key = key_for_layer target_layer (fst (sc_stack sc))
        in if layer_key = None \<and> list_ex (\<lambda>ev. \<not> is_session_event ev) (tr_events r) then
             Inl (ValueError ''transaction target is not a managed collaboration layer'')
           else Inr \<lparr>pt_request = r, pt_target_layer = target_layer,
                  pt_layer_key = (case layer_key of None \<Rightarrow> [] | Some k \<Rightarrow> k),
                  pt_paths = managed_rollback_paths (tr_events r),
                  pt_session = list_ex is_session_event (tr_events r)\<rparr>)"

definition encode_managed ::
  "encoder \<Rightarrow> prepared_transaction \<Rightarrow> event list \<Rightarrow> journal \<Rightarrow> encoded_events res \<times> journal" where
  "encode_managed encode t evs j =
     assign_and_encode_events encode
       (map (\<lambda>ev. (if is_session_event ev then [] else pt_layer_key t, ev)) evs)
       (Some (tr_client_id (pt_request t))) (tr_origin (pt_request t)) (tr_client_addr (pt_request t)) j"

fun encode_all ::
  "encoder \<Rightarrow> prepared_transaction list \<Rightarrow> journal \<Rightarrow> encoded_events list res \<times> journal" where
  "encode_all encode [] j = (Inr [], j)"
| "encode_all encode (t # ts) j =
     (case encode_managed encode t (tr_events (pt_request t)) j of
        (Inl e, j1) \<Rightarrow> (Inl e, j1)
      | (Inr enc, j1) \<Rightarrow>
          (case encode_all encode ts j1 of
             (Inl e, j2) \<Rightarrow> (Inl e, j2) | (Inr encs, j2) \<Rightarrow> (Inr (enc # encs), j2)))"

text \<open>The touched prims per layer, and the last progress of each producer.\<close>

definition paths_by_layer :: "prepared_transaction list \<Rightarrow> (string \<times> path list) list" where
  "paths_by_layer ts =
     fold (\<lambda>t d. if pt_paths t = [] then d
         else AList.update (pt_target_layer t)
                (remdups (dict_get d (pt_target_layer t) [] @ pt_paths t)) d) ts []"

definition progress_by_producer :: "prepared_transaction list \<Rightarrow> producer_progress list" where
  "progress_by_producer ts =
     dict_values (fold (\<lambda>t d. AList.update (tr_client_id (pt_request t), tr_session_id (pt_request t))
       (progress (pt_request t)) d) ts [])"

definition needs_scene_fields :: "prepared_transaction list \<Rightarrow> bool" where
  "needs_scene_fields ts = list_ex (\<lambda>t. list_ex is_removal (tr_events (pt_request t))) ts"

text \<open>
  The loop that applies the transactions in order; with \<open>needs\<close> each is encoded right after it
  is applied. The result lists, per transaction, its events as applied and its encoding.
\<close>

fun apply_all ::
  "'spec env \<Rightarrow> bool \<Rightarrow> prepared_transaction list \<Rightarrow> 'spec server
     \<Rightarrow> (event list \<times> encoded_events) list res \<times> 'spec server" where
  "apply_all env needs [] s = (Inr [], s)"
| "apply_all env needs (t # ts) s =
     (case apply_validated (env_usd env) (tr_events (pt_request t)) (Some (pt_target_layer t)) (srv_scene s) of
        (Inl e, sc) \<Rightarrow> (Inl e, s\<lparr>srv_scene := sc\<rparr>)
      | (Inr evs, sc) \<Rightarrow>
          (let s1 = s\<lparr>srv_scene := sc\<rparr>;
               (enc, j) = (if needs then encode_managed (env_encode env) t evs (srv_journal s1)
                           else (Inr no_events, srv_journal s1));
               s2 = s1\<lparr>srv_journal := j\<rparr>
           in case enc of
                Inl e \<Rightarrow> (Inl e, s2)
              | Inr enc \<Rightarrow>
                  (case apply_all env needs ts s2 of
                     (Inl e, s3) \<Rightarrow> (Inl e, s3)
                   | (Inr rest, s3) \<Rightarrow> (Inr ((evs, enc) # rest), s3))))"

definition srv_append ::
  "'spec env \<Rightarrow> event_row list \<Rightarrow> producer_progress list \<Rightarrow> 'spec server \<Rightarrow> unit res \<times> 'spec server" where
  "srv_append env rows ps s =
     (let (r, j) = journal_append_batch (env_db env (srv_writes s)) rows ps [] True (srv_journal s)
      in (r, s\<lparr>srv_journal := j, srv_writes := srv_writes s + 1\<rparr>))"

definition edit_body ::
  "'spec env \<Rightarrow> encoded_events list \<Rightarrow> prepared_transaction list \<Rightarrow> 'spec server
     \<Rightarrow> encoded_events list res \<times> 'spec server" where
  "edit_body env pre ts s =
     (case apply_all env (needs_scene_fields ts) ts s of
        (Inl e, s1) \<Rightarrow> (Inl e, s1)
      | (Inr results, s1) \<Rightarrow>
          (let encs = (if needs_scene_fields ts then map snd results else pre)
           in case srv_append env (concat (map ee_store_rows encs)) (progress_by_producer ts) s1 of
                (Inl e, s2) \<Rightarrow> (Inl e, s2)
              | (Inr _, s2) \<Rightarrow>
                  (Inr encs, s2\<lparr>srv_scene := fold (\<lambda>(evs, enc). scene_update_tracking evs) results (srv_scene s2)\<rparr>)))"

definition atomic_edit ::
  "'spec env \<Rightarrow> (string \<times> path list) list \<Rightarrow> bool \<Rightarrow> ('spec server \<Rightarrow> 'a res \<times> 'spec server)
     \<Rightarrow> 'spec server \<Rightarrow> 'a res \<times> 'spec server" where
  "atomic_edit env layer_paths include_session body s =
     (case body s of
        (Inr x, s1) \<Rightarrow>
          (Inr x, s1\<lparr>srv_scene := (srv_scene s1)\<lparr>sc_edit_target := sc_edit_target (srv_scene s)\<rparr>\<rparr>)
      | (Inl e, s1) \<Rightarrow>
          (Inl e, s1\<lparr>srv_scene := rollback_scene (env_usd env) layer_paths include_session
             (srv_scene s) (srv_scene s1)\<rparr>))"

definition apply_and_persist_managed ::
  "'spec env \<Rightarrow> prepared_transaction list \<Rightarrow> 'spec server \<Rightarrow> encoded_events list res \<times> 'spec server" where
  "apply_and_persist_managed env ts s =
     (case (if needs_scene_fields ts then (Inr [], srv_journal s)
            else encode_all (env_encode env) ts (srv_journal s)) of
        (Inl e, j) \<Rightarrow> (Inl e, s\<lparr>srv_journal := j\<rparr>)
      | (Inr pre, j) \<Rightarrow>
          atomic_edit env (paths_by_layer ts) (list_ex pt_session ts) (edit_body env pre ts)
            (s\<lparr>srv_journal := j\<rparr>))"

definition srv_reserve :: "('spec server \<Rightarrow> 'a res \<times> 'spec server) \<Rightarrow> 'spec server \<Rightarrow> 'a res \<times> 'spec server" where
  "srv_reserve body s =
     (case body s of
        (Inl e, s1) \<Rightarrow>
          (Inl e, s1\<lparr>srv_journal := (srv_journal s1)\<lparr>next_seq := next_seq (srv_journal s)\<rparr>\<rparr>)
      | (Inr x, s1) \<Rightarrow> (Inr x, s1))"

definition persist_requests ::
  "'spec env \<Rightarrow> transaction_request list \<Rightarrow> 'spec server \<Rightarrow> encoded_events list res \<times> 'spec server" where
  "persist_requests env rs =
     srv_reserve (\<lambda>s. case map_res (\<lambda>r. prepare_managed_transaction r (srv_scene s)) rs of
        Inl e \<Rightarrow> (Inl e, s) | Inr ts \<Rightarrow> apply_and_persist_managed env ts s)"

text \<open>\<open>commit_events\<close> in managed mode.\<close>

definition commit_events ::
  "'spec env \<Rightarrow> transaction_request \<Rightarrow> 'spec server \<Rightarrow> (event_record \<times> bytes) list res \<times> 'spec server" where
  "commit_events env r s =
     (case persist_requests env [r] s of
        (Inl e, s1) \<Rightarrow> (Inl e, s1) | (Inr encs, s1) \<Rightarrow> (Inr (ee_records (hd encs)), s1))"

definition srv_committed_through :: "transaction_request \<Rightarrow> 'spec server \<Rightarrow> int \<times> 'spec server" where
  "srv_committed_through r s =
     (let (c, j) = committed_through (tr_client_id r) (tr_session_id r) (srv_journal s)
      in (c, s\<lparr>srv_journal := j\<rparr>))"

definition srv_remember :: "((string \<times> string) \<times> int) list \<Rightarrow> 'spec server \<Rightarrow> 'spec server" where
  "srv_remember updates s = s\<lparr>srv_journal := remember_progress updates (srv_journal s)\<rparr>"

definition committed :: "transaction_request \<Rightarrow> (event_record \<times> bytes) list \<Rightarrow> transaction_commit" where
  "committed r records = \<lparr>tc_status = Committed, tc_txn_id = tr_txn_id r, tc_records = records,
     tc_checkpoint = None\<rparr>"

definition commit :: "'spec env \<Rightarrow> transaction_request \<Rightarrow> 'spec server \<Rightarrow> outcome \<times> 'spec server" where
  "commit env r s =
     (let (c, s1) = srv_committed_through r s
      in case check_transaction_id r c of
           Some out \<Rightarrow> (out, s1)
         | None \<Rightarrow>
             (case commit_events env r s1 of
                (Inl e, s2) \<Rightarrow> (Inl e, s2)
              | (Inr records, s2) \<Rightarrow>
                  (Inr (committed r records),
                   srv_remember [((tr_client_id r, tr_session_id r), tr_txn_id r)] s2)))"

fun triage ::
  "transaction_request list \<Rightarrow> ((string \<times> string) \<times> int) list \<Rightarrow> 'spec server
     \<Rightarrow> outcome option list \<times> ((string \<times> string) \<times> int) list \<times> 'spec server" where
  "triage [] nbs s = ([], nbs, s)"
| "triage (r # rs) nbs s =
     (let producer = (tr_client_id r, tr_session_id r);
          (c, s1) = (case map_of nbs producer of
                       Some c \<Rightarrow> (c, s) | None \<Rightarrow> srv_committed_through r s);
          decision = check_transaction_id r c;
          nbs1 = (if decision = None then AList.update producer (tr_txn_id r) nbs else nbs);
          (ds, nbs2, s2) = triage rs nbs1 s1
      in (decision # ds, nbs2, s2))"

fun fill :: "outcome option list \<Rightarrow> outcome list \<Rightarrow> outcome list" where
  "fill [] cs = []"
| "fill (Some out # ds) cs = out # fill ds cs"
| "fill (None # ds) (c # cs) = c # fill ds cs"
| "fill (None # ds) [] = []"

fun accepted :: "transaction_request list \<Rightarrow> outcome option list \<Rightarrow> transaction_request list" where
  "accepted (r # rs) (None # ds) = r # accepted rs ds"
| "accepted (r # rs) (Some out # ds) = accepted rs ds"
| "accepted rs ds = []"

definition commit_group ::
  "'spec env \<Rightarrow> transaction_request list \<Rightarrow> 'spec server \<Rightarrow> outcome list res \<times> 'spec server" where
  "commit_group env rs s =
     (let (ds, nbs, s1) = triage rs [] s; acc = accepted rs ds
      in if acc = [] then (Inr (fill ds []), s1)
         else case persist_requests env acc s1 of
           (Inl e, s2) \<Rightarrow> (Inl e, s2)
         | (Inr encs, s2) \<Rightarrow>
             (Inr (fill ds (map2 (\<lambda>r enc. Inr (committed r (ee_records enc))) acc encs)),
              srv_remember nbs s2))"

section \<open>Sequencing\<close>

text \<open>Between entry and persistence a commit only reserves numbers and counts metrics.\<close>

definition jframe :: "journal \<Rightarrow> journal \<Rightarrow> bool" where
  "jframe j j' \<longleftrightarrow> next_seq j \<le> next_seq j' \<and> j' = j\<lparr>next_seq := next_seq j', jmetrics := jmetrics j'\<rparr>"

lemma jframe_refl [simp]: "jframe j j"
  by (simp add: jframe_def)

lemma jframe_trans: "jframe a b \<Longrightarrow> jframe b c \<Longrightarrow> jframe a c"
  by (cases a, cases b, cases c) (simp add: jframe_def)

lemma jframe_fields:
  assumes "jframe j j'"
  shows "jstore j' = jstore j" "progress_cache j' = progress_cache j" "jqueue j' = jqueue j"
    "replay_epoch j' = replay_epoch j" "next_seq j \<le> next_seq j'"
  using assms by (cases j, cases j', simp add: jframe_def)+

lemma jframe_inv:
  assumes "jframe j j'"
  shows "log_inv j \<Longrightarrow> log_inv j'" "cache_ok j \<Longrightarrow> cache_ok j'"
    "log_inv (j'\<lparr>next_seq := next_seq j\<rparr>) = log_inv j"
proof -
  define n m where "n = next_seq j'" and "m = jmetrics j'"
  have j': "j' = j\<lparr>next_seq := n, jmetrics := m\<rparr>" and n: "next_seq j \<le> n"
    using assms unfolding jframe_def n_def m_def by blast+
  show "log_inv j \<Longrightarrow> log_inv j'" unfolding j' log_inv_metrics using n by (rule log_inv_next_seq [rotated])
  show "cache_ok j \<Longrightarrow> cache_ok j'" unfolding j' by simp
  have "j\<lparr>next_seq := n, jmetrics := m\<rparr>\<lparr>next_seq := next_seq j\<rparr> = j\<lparr>jmetrics := m\<rparr>" by simp
  then show "log_inv (j'\<lparr>next_seq := next_seq j\<rparr>) = log_inv j" unfolding j' by (simp only: log_inv_metrics)
qed

text \<open>Consecutive encodings: each transaction's records carry its events and the next numbers.\<close>

fun chain :: "int \<Rightarrow> (event list \<times> encoded_events) list \<Rightarrow> int \<Rightarrow> bool" where
  "chain n [] m \<longleftrightarrow> n = m"
| "chain n ((evs, enc) # rest) m \<longleftrightarrow>
     map (rec_event \<circ> fst) (ee_records enc) = evs \<and>
     map (rec_seq \<circ> fst) (ee_records enc) = [n .. n + int (length evs) - 1] \<and>
     ee_store_rows enc = map (\<lambda>(r, bin). store_row r bin) (ee_records enc) \<and>
     chain (n + int (length evs)) rest m"

lemma upto_append: "n \<le> m \<Longrightarrow> m \<le> k \<Longrightarrow> [n .. m - 1] @ [m .. k - 1] = [n .. k - (1 :: int)]"
proof (cases "m = k")
  case False
  assume "n \<le> m" "m \<le> k"
  with False upto_split1 [of n m "k - 1"] show ?thesis by simp
qed simp

lemma chain_le: "chain n xs m \<Longrightarrow> n \<le> m"
  by (induction n xs m rule: chain.induct) auto

lemma chain_rows: "chain n xs m \<Longrightarrow> map row_seq (concat (map (ee_store_rows \<circ> snd) xs)) = [n .. m - 1]"
proof (induction n xs m rule: chain.induct)
  case (2 n evs enc rest m)
  have seqs: "map row_seq (ee_store_rows enc) = [n .. n + int (length evs) - 1]"
    using "2.prems" by (simp add: store_row_def case_prod_beta o_def)
  have "n + int (length evs) \<le> m" using "2.prems" chain_le by auto
  with seqs 2 show ?case by (simp add: upto_append)
qed simp

lemma encode_managed_spec:
  assumes "encode_managed encode t evs j = (r, j')"
  shows "jframe j j'"
    "r = Inr enc \<Longrightarrow> chain (next_seq j) [(evs, enc)] (next_seq j')"
proof -
  from assms have run: "encode_loop encode (map (\<lambda>ev. (if is_session_event ev then [] else pt_layer_key t, ev)) evs)
     (Some (tr_client_id (pt_request t))) (tr_origin (pt_request t)) (tr_client_addr (pt_request t)) no_events j = (r, j')"
    by (simp add: encode_managed_def assign_and_encode_events_def)
  from encode_loop_frame [OF run] show "jframe j j'" by (simp add: jframe_def)
  assume "r = Inr enc"
  from encode_loop_ok [OF run [unfolded this]]
  show "chain (next_seq j) [(evs, enc)] (next_seq j')"
    by (auto simp: encoded_run_def no_events_def o_def)
qed

lemma encode_all_spec:
  "encode_all encode ts j = (r, j') \<Longrightarrow> jframe j j' \<and>
     (\<forall>encs. r = Inr encs \<longrightarrow> length encs = length ts \<and>
        chain (next_seq j) (zip (map (tr_events \<circ> pt_request) ts) encs) (next_seq j'))"
proof (induction ts arbitrary: j r j')
  case (Cons t ts)
  obtain r1 j1 where one: "encode_managed encode t (tr_events (pt_request t)) j = (r1, j1)" by fastforce
  note spec = encode_managed_spec [OF one]
  show ?case
  proof (cases r1)
    case (Inl e)
    with Cons.prems one spec show ?thesis by auto
  next
    case (Inr enc)
    obtain r2 j2 where rest: "encode_all encode ts j1 = (r2, j2)" by fastforce
    from Cons.IH [OF rest] Inr Cons.prems one rest spec show ?thesis
      by (auto intro: jframe_trans split: sum.splits)
  qed
qed simp

lemma apply_all_spec:
  "apply_all env needs ts s = (r, s') \<Longrightarrow> jframe (srv_journal s) (srv_journal s') \<and>
     srv_writes s' = srv_writes s \<and> (\<not> needs \<longrightarrow> srv_journal s' = srv_journal s) \<and>
     (\<forall>results. r = Inr results \<longrightarrow> length results = length ts \<and>
        (needs \<longrightarrow> chain (next_seq (srv_journal s)) results (next_seq (srv_journal s'))))"
proof (induction ts arbitrary: s r s')
  case (Cons t ts)
  obtain r1 sc where one: "apply_validated (env_usd env) (tr_events (pt_request t))
      (Some (pt_target_layer t)) (srv_scene s) = (r1, sc)" by fastforce
  show ?case
  proof (cases r1)
    case (Inl e)
    with Cons.prems one show ?thesis by auto
  next
    case evs: (Inr evs)
    obtain r2 j where two: "(if needs then encode_managed (env_encode env) t evs (srv_journal s)
        else (Inr no_events, srv_journal s)) = (r2, j)" by fastforce
    have spec: "jframe (srv_journal s) j" "\<not> needs \<Longrightarrow> j = srv_journal s"
      "needs \<Longrightarrow> r2 = Inr enc \<Longrightarrow> chain (next_seq (srv_journal s)) [(evs, enc)] (next_seq j)" for enc
      using two encode_managed_spec [of "env_encode env" t evs "srv_journal s" r2 j] by (auto split: if_splits)
    define s2 where "s2 = s\<lparr>srv_scene := sc, srv_journal := j\<rparr>"
    show ?thesis
    proof (cases r2)
      case (Inl e)
      with Cons.prems one evs two spec(1) show ?thesis by (auto split: if_splits)
    next
      case (Inr enc)
      obtain r3 s3 where rest: "apply_all env needs ts s2 = (r3, s3)" by fastforce
      have s': "s' = s3" "r = (case r3 of Inl e \<Rightarrow> Inl e | Inr rest \<Rightarrow> Inr ((evs, enc) # rest))"
        using Cons.prems one evs two Inr rest
        by (auto simp: s2_def split: sum.splits if_splits)
      have j2: "srv_journal s2 = j" "srv_writes s2 = srv_writes s" by (simp_all add: s2_def)
      from Cons.IH [OF rest] spec Inr show ?thesis
        unfolding s' j2 by (auto intro: jframe_trans split: sum.splits)
    qed
  qed
qed simp

section \<open>Persistence\<close>

lemma srv_append_cases:
  assumes "srv_append env rows ps s = (r, s')"
  shows "srv_scene s' = srv_scene s \<and>
    (case r of Inl e \<Rightarrow> srv_journal s' = srv_journal s
     | Inr _ \<Rightarrow> journal_append_batch (env_db env (srv_writes s)) rows ps [] True (srv_journal s) =
         (Inr (), srv_journal s'))"
  using assms journal_append_batch_error
  by (auto simp: srv_append_def split: prod.splits sum.splits)

definition persisted ::
  "'spec env \<Rightarrow> prepared_transaction list \<Rightarrow> journal \<Rightarrow> encoded_events list \<Rightarrow> journal \<Rightarrow> bool" where
  "persisted env ts j encs j' \<longleftrightarrow> length encs = length ts \<and>
     (\<exists>evss j1 n. length evss = length ts \<and> jframe j j1 \<and>
        chain (next_seq j) (zip evss encs) (next_seq j1) \<and>
        journal_append_batch (env_db env n) (concat (map ee_store_rows encs))
          (progress_by_producer ts) [] True j1 = (Inr (), j'))"

lemma atomic_edit_journal:
  assumes "atomic_edit env lp ses body s = (r, s')" "body s = (r1, s1)"
  shows "r = r1" "srv_journal s' = srv_journal s1"
  using assms by (auto simp: atomic_edit_def split: sum.splits)

lemma edit_body_spec:
  assumes "edit_body env pre ts s = (r, s')" "jframe j (srv_journal s)"
    "\<not> needs_scene_fields ts \<Longrightarrow> length pre = length ts \<and>
       chain (next_seq j) (zip evss pre) (next_seq (srv_journal s)) \<and> length evss = length ts"
    "needs_scene_fields ts \<Longrightarrow> srv_journal s = j"
  shows "case r of Inl e \<Rightarrow> jframe j (srv_journal s')
    | Inr encs \<Rightarrow> persisted env ts j encs (srv_journal s')"
proof -
  obtain r1 s1 where ap: "apply_all env (needs_scene_fields ts) ts s = (r1, s1)" by fastforce
  note spec = apply_all_spec [OF ap]
  show ?thesis
  proof (cases r1)
    case (Inl e)
    with assms(1) ap spec assms(2) show ?thesis by (auto simp: edit_body_def intro: jframe_trans)
  next
    case (Inr results)
    define encs where "encs = (if needs_scene_fields ts then map snd results else pre)"
    define es where "es = (if needs_scene_fields ts then map fst results else evss)"
    have len: "length encs = length ts" "length es = length ts"
      using spec Inr assms(3) by (auto simp: encs_def es_def)
    have ch: "chain (next_seq j) (zip es encs) (next_seq (srv_journal s1))"
      using spec Inr assms(3,4) by (cases "needs_scene_fields ts") (auto simp: encs_def es_def zip_map_fst_snd)
    have jf: "jframe j (srv_journal s1)" using assms(2) spec by (blast intro: jframe_trans)
    obtain r2 s2 where app: "srv_append env (concat (map ee_store_rows encs)) (progress_by_producer ts) s1 = (r2, s2)"
      by fastforce
    note ac = srv_append_cases [OF app]
    show ?thesis
    proof (cases r2)
      case (Inl e)
      with assms(1) ap Inr app ac jf \<open>r1 = Inr results\<close> show ?thesis
        by (auto simp: edit_body_def encs_def Let_def)
    next
      case ok: (Inr u)
      with assms(1) ap Inr app have "r = Inr encs" "srv_journal s' = srv_journal s2"
        by (auto simp: edit_body_def encs_def Let_def)
      with ok ac len ch jf show ?thesis by (auto simp: persisted_def)
    qed
  qed
qed

lemma apply_and_persist_spec:
  assumes "apply_and_persist_managed env ts s = (r, s')"
  shows "case r of Inl e \<Rightarrow> jframe (srv_journal s) (srv_journal s')
    | Inr encs \<Rightarrow> persisted env ts (srv_journal s) encs (srv_journal s')"
proof -
  obtain r1 j1 where pre: "(if needs_scene_fields ts then (Inr [], srv_journal s)
      else encode_all (env_encode env) ts (srv_journal s)) = (r1, j1)" by fastforce
  have pre_spec: "jframe (srv_journal s) j1" "needs_scene_fields ts \<Longrightarrow> j1 = srv_journal s"
    "\<not> needs_scene_fields ts \<Longrightarrow> r1 = Inr encs \<Longrightarrow> length encs = length ts \<and>
       chain (next_seq (srv_journal s)) (zip (map (tr_events \<circ> pt_request) ts) encs) (next_seq j1)" for encs
    using pre encode_all_spec [of "env_encode env" ts "srv_journal s" r1 j1] by (auto split: if_splits)
  show ?thesis
  proof (cases r1)
    case (Inl e)
    with assms pre pre_spec(1) show ?thesis by (auto simp: apply_and_persist_managed_def)
  next
    case (Inr encs)
    define s1 where "s1 = s\<lparr>srv_journal := j1\<rparr>"
    obtain r2 s2 where body: "edit_body env encs ts s1 = (r2, s2)" by fastforce
    have ae: "atomic_edit env (paths_by_layer ts) (list_ex pt_session ts) (edit_body env encs ts) s1 = (r, s')"
      using assms pre Inr by (simp add: apply_and_persist_managed_def s1_def)
    note same = atomic_edit_journal [OF ae body]
    have "case r2 of Inl e \<Rightarrow> jframe (srv_journal s) (srv_journal s2)
      | Inr encs \<Rightarrow> persisted env ts (srv_journal s) encs (srv_journal s2)"
      by (rule edit_body_spec [OF body, where evss = "map (tr_events \<circ> pt_request) ts"])
        (use pre_spec Inr in \<open>auto simp: s1_def\<close>)
    with same show ?thesis by (cases r2) simp_all
  qed
qed

lemma prepare_request:
  "prepare_managed_transaction r sc = Inr t \<Longrightarrow> pt_request t = r \<and>
     pt_target_layer t = (case tr_layer r of Some l \<Rightarrow> l | None \<Rightarrow> sc_edit_layer sc) \<and>
     pt_paths t = managed_rollback_paths (tr_events r) \<and>
     pt_session t = list_ex is_session_event (tr_events r)"
  by (auto simp: prepare_managed_transaction_def Let_def split: if_splits)

lemma prepare_all:
  "map_res (\<lambda>r. prepare_managed_transaction r sc) rs = Inr ts \<Longrightarrow> map pt_request ts = rs"
  by (induction rs arbitrary: ts) (auto split: sum.splits dest!: prepare_request)

lemma persist_requests_spec:
  assumes "persist_requests env rs s = (r, s')"
  shows "case r of Inl e \<Rightarrow> srv_journal s' = (srv_journal s)\<lparr>jmetrics := jmetrics (srv_journal s')\<rparr>
    | Inr encs \<Rightarrow> (\<exists>ts. map pt_request ts = rs \<and>
        persisted env ts (srv_journal s) encs (srv_journal s'))"
proof (cases "map_res (\<lambda>r. prepare_managed_transaction r (srv_scene s)) rs")
  case (Inl e)
  with assms show ?thesis by (auto simp: persist_requests_def srv_reserve_def)
next
  case (Inr ts)
  obtain r1 s1 where ap: "apply_and_persist_managed env ts s = (r1, s1)" by fastforce
  note spec = apply_and_persist_spec [OF ap]
  have "r = r1" using assms Inr ap by (auto simp: persist_requests_def srv_reserve_def split: sum.splits)
  show ?thesis
  proof (cases r1)
    case (Inl e)
    then have "srv_journal s' = (srv_journal s1)\<lparr>next_seq := next_seq (srv_journal s)\<rparr>"
      using assms Inr ap \<open>map_res _ _ = Inr ts\<close> by (auto simp: persist_requests_def srv_reserve_def)
    moreover have "jframe (srv_journal s) (srv_journal s1)" using spec Inl by simp
    ultimately show ?thesis using Inl \<open>r = r1\<close>
      by (cases "srv_journal s", cases "srv_journal s1") (simp add: jframe_def)
  next
    case ok: (Inr encs)
    then have "s' = s1" using assms Inr ap by (auto simp: persist_requests_def srv_reserve_def)
    with spec ok \<open>r = r1\<close> prepare_all [OF Inr] show ?thesis by auto
  qed
qed

section \<open>Admission\<close>

text \<open>
  The specification of admission: walk the requests with the marks of all producers at hand.
\<close>

type_synonym marks = "string \<times> string \<Rightarrow> int"

definition producer :: "transaction_request \<Rightarrow> string \<times> string" where
  "producer r = (tr_client_id r, tr_session_id r)"

fun decide :: "transaction_request list \<Rightarrow> marks \<Rightarrow> outcome option list \<times> marks" where
  "decide [] m = ([], m)"
| "decide (r # rs) m =
     (let d = check_transaction_id r (m (producer r));
          (ds, m') = decide rs (if d = None then m(producer r := tr_txn_id r) else m)
      in (d # ds, m'))"

definition stored_marks :: "store \<Rightarrow> marks" where
  "stored_marks st = (\<lambda>(c, s). get_producer_progress c s st)"

definition current_marks :: "((string \<times> string) \<times> int) list \<Rightarrow> store \<Rightarrow> marks" where
  "current_marks nbs st = (\<lambda>p. case map_of nbs p of Some c \<Rightarrow> c | None \<Rightarrow> stored_marks st p)"

lemma check_None: "check_transaction_id r c = None \<longleftrightarrow> tr_txn_id r = c + 1"
  by (auto simp: check_transaction_id_def)

lemma decide_mono: "m p \<le> snd (decide rs m) p"
proof (induction rs arbitrary: m)
  case (Cons r rs)
  define m1 where "m1 = (if check_transaction_id r (m (producer r)) = None
    then m(producer r := tr_txn_id r) else m)"
  have "m p \<le> m1 p" by (auto simp: m1_def check_None)
  also have "m1 p \<le> snd (decide rs m1) p" by (rule Cons.IH)
  finally show ?case by (simp add: m1_def case_prod_beta Let_def)
qed simp

definition cache_only :: "'spec server \<Rightarrow> 'spec server \<Rightarrow> bool" where
  "cache_only s s' \<longleftrightarrow> (\<exists>c. s' = s\<lparr>srv_journal := (srv_journal s)\<lparr>progress_cache := c\<rparr>\<rparr>)"

lemma cache_only_refl [simp]: "cache_only s s"
  unfolding cache_only_def by (rule exI [of _ "progress_cache (srv_journal s)"]) simp

lemma cache_only_trans: "cache_only a b \<Longrightarrow> cache_only b c \<Longrightarrow> cache_only a c"
  by (auto simp: cache_only_def)

lemma cache_only_fields:
  assumes "cache_only s s'"
  shows "jstore (srv_journal s') = jstore (srv_journal s)" "next_seq (srv_journal s') = next_seq (srv_journal s)"
    "srv_scene s' = srv_scene s" "log_inv (srv_journal s') = log_inv (srv_journal s)"
  using assms by (auto simp: cache_only_def)

lemma srv_committed_through_spec:
  assumes "cache_ok (srv_journal s)" "srv_committed_through r s = (c, s')"
  shows "c = stored_marks (jstore (srv_journal s)) (producer r) \<and> cache_ok (srv_journal s') \<and>
    cache_only s s'"
proof -
  obtain pc where frame: "snd (committed_through (tr_client_id r) (tr_session_id r) (srv_journal s)) =
      (srv_journal s)\<lparr>progress_cache := pc\<rparr>"
    by (metis committed_through_frame)
  with assms committed_through_value [OF assms(1), of "tr_client_id r" "tr_session_id r"]
    committed_through_cache_ok [OF assms(1), of "tr_client_id r" "tr_session_id r"]
  show ?thesis
    by (auto simp: srv_committed_through_def stored_marks_def producer_def cache_only_def split: prod.splits)
qed

text \<open>Accepted requests and the marks they leave, in step with the code's dictionaries.\<close>

definition progress_dict ::
  "transaction_request list \<Rightarrow> ((string \<times> string) \<times> producer_progress) list
     \<Rightarrow> ((string \<times> string) \<times> producer_progress) list" where
  "progress_dict rs d = fold (\<lambda>r d. AList.update (producer r) (progress r) d) rs d"

definition in_step ::
  "((string \<times> string) \<times> producer_progress) list \<Rightarrow> ((string \<times> string) \<times> int) list \<Rightarrow> bool" where
  "in_step d nbs \<longleftrightarrow> wf_dict d \<and> wf_dict nbs \<and>
     (\<forall>p. map_option pp_committed_through (map_of d p) = map_of nbs p) \<and>
     (\<forall>p v. map_of d p = Some v \<longrightarrow> (pp_client_id v, pp_session_id v) = p)"

lemma in_step_update:
  "in_step d nbs \<Longrightarrow> in_step (AList.update (producer r) (progress r) d) (AList.update (producer r) (tr_txn_id r) nbs)"
  by (auto simp: in_step_def progress_def producer_def)

lemma triage_spec:
  assumes "triage rs nbs s = (ds, nbs', s')" "cache_ok (srv_journal s)" "in_step d nbs"
  shows "ds = fst (decide rs (current_marks nbs (jstore (srv_journal s)))) \<and>
    current_marks nbs' (jstore (srv_journal s)) = snd (decide rs (current_marks nbs (jstore (srv_journal s)))) \<and>
    in_step (progress_dict (accepted rs ds) d) nbs' \<and> cache_ok (srv_journal s') \<and>
    cache_only s s'"
  using assms
proof (induction rs arbitrary: nbs s ds nbs' s' d)
  case Nil
  then show ?case by (simp add: progress_dict_def)
next
  case (Cons r rs)
  define M where "M = current_marks nbs (jstore (srv_journal s))"
  obtain c s1 where cs: "(case map_of nbs (tr_client_id r, tr_session_id r) of
      Some c \<Rightarrow> (c, s) | None \<Rightarrow> srv_committed_through r s) = (c, s1)" by fastforce
  have s1: "c = M (producer r)" "cache_ok (srv_journal s1)"
    "cache_only s s1"
    using cs Cons.prems(2) srv_committed_through_spec [OF Cons.prems(2), of r c s1]
    by (auto simp: M_def current_marks_def producer_def split: option.splits)
  define dec where "dec = check_transaction_id r c"
  define nbs1 where "nbs1 = (if dec = None then AList.update (producer r) (tr_txn_id r) nbs else nbs)"
  define d1 where "d1 = (if dec = None then AList.update (producer r) (progress r) d else d)"
  have step1: "in_step d1 nbs1" using Cons.prems(3) by (simp add: d1_def nbs1_def in_step_update)
  have store1: "jstore (srv_journal s1) = jstore (srv_journal s)" by (rule cache_only_fields(1) [OF s1(3)])
  have M1: "current_marks nbs1 (jstore (srv_journal s1)) = (if dec = None then M(producer r := tr_txn_id r) else M)"
    by (auto simp: nbs1_def M_def current_marks_def store1 fun_eq_iff)
  obtain ds2 nbs2 s2 where rest: "triage rs nbs1 s1 = (ds2, nbs2, s2)" by (metis prod_cases3)
  have out: "ds = dec # ds2" "nbs' = nbs2" "s' = s2"
    using Cons.prems(1) cs rest unfolding triage.simps Let_def producer_def [symmetric]
    by (auto simp: dec_def nbs1_def producer_def split: if_splits)
  have acc: "progress_dict (accepted (r # rs) (dec # ds2)) d = progress_dict (accepted rs ds2) d1"
    by (cases dec) (simp_all add: progress_dict_def d1_def)
  note IH = Cons.IH [OF rest s1(2) step1, unfolded M1]
  have "cache_only s s2" using IH s1(3) by (blast intro: cache_only_trans)
  with IH s1(1) show ?case
    unfolding out acc M_def [symmetric] store1
    by (cases "check_transaction_id r (M (producer r))") (auto simp: dec_def Let_def case_prod_beta fun_upd_def)
qed

lemma marks_of_dict:
  "wf_dict d \<Longrightarrow> (\<forall>p v. map_of d p = Some v \<longrightarrow> (pp_client_id v, pp_session_id v) = p) \<Longrightarrow>
     marks c s (dict_values d) = (case map_of d (c, s) of None \<Rightarrow> [] | Some v \<Rightarrow> [pp_committed_through v])"
proof (induction d)
  case (Cons kv d)
  obtain k v where kv: "kv = (k, v)" by (cases kv)
  have wf: "wf_dict d" "map_of d k = None"
    using Cons.prems(1) by (auto simp: wf_dict_def kv map_of_eq_None_iff)
  have key: "(pp_client_id v, pp_session_id v) = k" using Cons.prems(2) [rule_format, of k v] by (simp add: kv)
  have rest: "\<forall>p v. map_of d p = Some v \<longrightarrow> (pp_client_id v, pp_session_id v) = p"
  proof (intro allI impI)
    fix p w assume some: "map_of d p = Some w"
    with wf(2) have "p \<noteq> k" by auto
    with some Cons.prems(2) [rule_format, of p w] show "(pp_client_id w, pp_session_id w) = p"
      by (simp add: kv)
  qed
  from Cons.IH [OF wf(1) rest] key wf(2) show ?case by (auto simp: kv marks_def)
qed (simp add: marks_def)

lemma progress_by_producer_dict:
  "progress_by_producer ts = dict_values (progress_dict (map pt_request ts) [])"
  by (simp add: progress_by_producer_def progress_dict_def fold_map o_def producer_def)

section \<open>The server invariant\<close>

definition srv_inv :: "'spec server \<Rightarrow> bool" where
  "srv_inv s \<longleftrightarrow> log_inv (srv_journal s) \<and> cache_ok (srv_journal s) \<and>
     (\<forall>p. 0 \<le> stored_marks (jstore (srv_journal s)) p)"

lemma persisted_log:
  assumes "persisted env ts j encs j'" "log_inv j"
  defines "rows \<equiv> concat (map ee_store_rows encs)"
  shows "log_inv j'" "events (jstore j') = events (jstore j) @ rows"
    "map row_seq rows = [next_seq j .. next_seq j' - 1]" "next_seq j \<le> next_seq j'"
proof -
  obtain evss j1 n where len: "length evss = length ts" "length encs = length ts" and fr: "jframe j j1"
    and ch: "chain (next_seq j) (zip evss encs) (next_seq j1)"
    and app: "journal_append_batch (env_db env n) rows (progress_by_producer ts) [] True j1 = (Inr (), j')"
    using assms(1) unfolding persisted_def rows_def by blast
  have "map (ee_store_rows \<circ> snd) (zip evss encs) = map ee_store_rows encs"
    using len by (simp flip: map_map)
  with chain_rows [OF ch] have seqs: "map row_seq rows = [next_seq j .. next_seq j1 - 1]"
    by (simp add: rows_def)
  have "log_inv (j1\<lparr>next_seq := next_seq j\<rparr>)" using jframe_inv(3) [OF fr] assms(2) by simp
  from journal_append_log_inv [OF this seqs jframe_fields(5) [OF fr] app] show "log_inv j'" .
  have "\<not> can_queue True (progress_by_producer ts) [] j1" by (simp add: can_queue_def)
  from app this obtain st where st: "append_batch (env_db env n) rows (progress_by_producer ts) [] (jstore j1) = (Inr (), st)"
    and j': "j' = j1\<lparr>jstore := st, event_count := event_count j1 + int (length rows)\<rparr>"
    by (rule journal_append_batch_durable)
  from append_batch_events [OF st] jframe_fields(1) [OF fr]
  show "events (jstore j') = events (jstore j) @ rows" by (simp add: j')
  from seqs show "map row_seq rows = [next_seq j .. next_seq j' - 1]" by (simp add: j')
  from jframe_fields(5) [OF fr] show "next_seq j \<le> next_seq j'" by (simp add: j')
qed

lemma map_of_rev: "wf_dict d \<Longrightarrow> map_of (rev d) = map_of d"
  by (rule map_of_inject_set [THEN iffD2]) (simp_all add: wf_dict_def rev_map [symmetric])

lemma persisted_marks:
  assumes "persisted env ts j encs j'" "cache_ok j" "in_step (progress_dict (map pt_request ts) []) nbs"
    "\<And>p c. map_of nbs p = Some c \<Longrightarrow> stored_marks (jstore j) p \<le> c \<and> 0 \<le> c"
  shows "stored_marks (jstore j') = current_marks nbs (jstore j)" "cache_ok (remember_progress nbs j')"
proof -
  define ps where "ps = progress_by_producer ts"
  define d where "d = progress_dict (map pt_request ts) []"
  obtain evss j1 n where fr: "jframe j j1"
    and app: "journal_append_batch (env_db env n) (concat (map ee_store_rows encs)) ps [] True j1 = (Inr (), j')"
    using assms(1) unfolding persisted_def ps_def by blast
  have d: "wf_dict d" "wf_dict nbs" "map_option pp_committed_through (map_of d p) = map_of nbs p"
    "\<forall>p v. map_of d p = Some v \<longrightarrow> (pp_client_id v, pp_session_id v) = p" for p
    using assms(3) unfolding in_step_def d_def by blast+
  have marks: "marks c s ps = (case map_of nbs (c, s) of None \<Rightarrow> [] | Some v \<Rightarrow> [v])" for c s
  proof -
    have "ps = dict_values d" by (simp add: ps_def progress_by_producer_dict d_def)
    then show ?thesis
      unfolding d(3) [symmetric] using marks_of_dict [OF d(1,4), of c s]
      by (cases "map_of d (c, s)") simp_all
  qed
  have nonneg: "\<forall>p \<in> set ps. 0 \<le> pp_committed_through p"
  proof
    fix q assume "q \<in> set ps"
    then obtain k where "(k, q) \<in> set d" by (auto simp: ps_def progress_by_producer_dict d_def)
    then have "map_of d k = Some q" using d(1) by (rule wf_dict_map_of [rotated])
    with d(3) [of k] assms(4) [of k "pp_committed_through q"] show "0 \<le> pp_committed_through q" by simp
  qed
  note st = jframe_fields(1) [OF fr]
  have fold: "fold max (marks c s ps) (get_producer_progress c s (jstore j)) = current_marks nbs (jstore j) (c, s)"
    for c s
    using assms(4) [of "(c, s)"] by (auto simp: marks current_marks_def stored_marks_def split: option.splits)
  have "\<not> can_queue True ps [] j1" by (simp add: can_queue_def)
  from app this obtain st' where st': "append_batch (env_db env n) (concat (map ee_store_rows encs)) ps [] (jstore j1) = (Inr (), st')"
    "jstore j' = st'" by (rule journal_append_batch_durable) simp
  show "stored_marks (jstore j') = current_marks nbs (jstore j)"
    using sqlite.append_progress [OF st'(1) nonneg] fold
    by (auto simp: st'(2) stored_marks_def st fun_eq_iff)
  show "cache_ok (remember_progress nbs j')"
  proof (rule remember_progress_cache_ok [OF jframe_inv(2) [OF fr assms(2)] app nonneg])
    fix c s v assume "map_of (rev nbs) (c, s) = Some v"
    with fold [of c s] show "fold max (marks c s ps) (get_producer_progress c s (jstore j1)) = v"
      by (simp add: map_of_rev d(2) st current_marks_def)
  next
    fix c s assume "map_of (rev nbs) (c, s) = None"
    then show "marks c s ps = []" by (simp add: marks map_of_rev d(2))
  qed
qed

definition published :: "outcome \<Rightarrow> (int \<times> bytes) list" where
  "published out = (case out of Inl _ \<Rightarrow> []
     | Inr c \<Rightarrow> map (\<lambda>(r, bin). (rec_seq r, bin)) (tc_records c))"

lemma check_publishes_nothing: "check_transaction_id r c = Some out \<Longrightarrow> published out = []"
  by (auto simp: check_transaction_id_def published_def split: if_splits)

lemma decide_length: "length (fst (decide rs m)) = length rs"
  by (induction rs arbitrary: m) (auto simp: Let_def case_prod_beta)

lemma decide_publishes_nothing: "Some out \<in> set (fst (decide rs m)) \<Longrightarrow> published out = []"
  by (induction rs arbitrary: m) (auto simp: Let_def case_prod_beta dest: check_publishes_nothing [OF sym])

text \<open>How an outcome answers a request the admission decided.\<close>

definition answers :: "transaction_request \<times> outcome option \<Rightarrow> outcome \<Rightarrow> bool" where
  "answers rd out = (case snd rd of
     Some decision \<Rightarrow> out = decision
   | None \<Rightarrow> (\<exists>records. out = Inr (committed (fst rd) records)))"

lemma accepted_None: "accepted rs ds \<noteq> [] \<Longrightarrow> None \<in> set ds"
  by (induction rs ds rule: accepted.induct) auto

lemma committed_inj [simp]: "committed r a = committed r b \<longleftrightarrow> a = b"
  by (simp add: committed_def)

lemma answers_simps [simp]:
  "answers (r, Some d) out \<longleftrightarrow> out = d"
  "answers (r, None) out \<longleftrightarrow> (\<exists>records. out = Inr (committed r records))"
  by (simp_all add: answers_def)

lemma fill_spec:
  assumes "length rs = length ds" "length encs = length (accepted rs ds)"
    "\<And>out. Some out \<in> set ds \<Longrightarrow> published out = []"
  defines "outs \<equiv> fill ds (map2 (\<lambda>r enc. Inr (committed r (ee_records enc))) (accepted rs ds) encs)"
  shows "list_all2 answers (zip rs ds) outs \<and>
    concat (map published outs) = concat (map (\<lambda>enc. map (\<lambda>(r, bin). (rec_seq r, bin)) (ee_records enc)) encs)"
  using assms(1-3) unfolding outs_def
proof (induction rs ds arbitrary: encs rule: list_induct2)
  case (Cons r rs d ds)
  show ?case
  proof (cases d)
    case None
    then obtain enc encs' where e: "encs = enc # encs'" using Cons.prems(1) by (cases encs) auto
    with Cons.IH [of encs'] Cons.prems None show ?thesis
      by (auto simp: published_def committed_def answers_def)
  next
    case (Some out)
    with Cons.IH [of encs] Cons.prems show ?thesis by (auto simp: answers_def)
  qed
qed simp

lemma chain_store_rows:
  "chain n xs m \<Longrightarrow> (evs, enc) \<in> set xs \<Longrightarrow>
     ee_store_rows enc = map (\<lambda>(r, bin). store_row r bin) (ee_records enc)"
  by (induction n xs m rule: chain.induct) auto

lemma persisted_rows:
  assumes "persisted env ts j encs j'"
  shows "map row_pair (concat (map ee_store_rows encs)) =
    concat (map (\<lambda>enc. map (\<lambda>(r, bin). (rec_seq r, bin)) (ee_records enc)) encs)"
proof -
  obtain evss and j1 :: journal where "length encs = length ts" "length evss = length ts"
    and ch: "chain (next_seq j) (zip evss encs) (next_seq j1)"
    using assms unfolding persisted_def by blast
  then have len: "length evss = length encs" by simp
  have "map row_pair (ee_store_rows enc) = map (\<lambda>(r, bin). (rec_seq r, bin)) (ee_records enc)"
    if enc: "enc \<in> set encs" for enc
  proof -
    obtain evs where "(evs, enc) \<in> set (zip evss encs)"
      using enc len by (metis in_set_impl_in_set_zip2)
    from chain_store_rows [OF ch this] show ?thesis
      by (simp add: row_pair_def store_row_def case_prod_beta)
  qed
  then show ?thesis by (simp add: map_concat cong: map_cong)
qed

lemma srv_remember_fields [simp]:
  "jstore (srv_journal (srv_remember u s)) = jstore (srv_journal s)"
  "next_seq (srv_journal (srv_remember u s)) = next_seq (srv_journal s)"
  "log_inv (srv_journal (srv_remember u s)) = log_inv (srv_journal s)"
  by (simp_all add: srv_remember_def remember_progress_def)

lemma failed_commit_frame:
  assumes "srv_journal s' = (srv_journal s)\<lparr>jmetrics := m\<rparr>"
  shows "jstore (srv_journal s') = jstore (srv_journal s)" "next_seq (srv_journal s') = next_seq (srv_journal s)"
    "srv_inv s' = srv_inv s"
  using assms by (simp_all add: srv_inv_def)

lemma in_step_empty [simp]: "in_step [] []"
  by (simp add: in_step_def)

lemma in_step_marks_grow:
  assumes "current_marks nbs st = snd (decide rs (stored_marks st))" "\<And>p. 0 \<le> stored_marks st p"
    "map_of nbs p = Some c"
  shows "stored_marks st p \<le> c \<and> 0 \<le> c"
proof -
  have "c = snd (decide rs (stored_marks st)) p"
    using assms(3) by (simp add: current_marks_def flip: assms(1))
  with decide_mono [of "stored_marks st" p rs] assms(2) [of p] show ?thesis by simp
qed

text \<open>A persisted batch of admitted requests.\<close>

lemma persisted_srv_inv:
  assumes "srv_inv s" "persisted env ts (srv_journal s) encs (srv_journal s2)"
    "in_step (progress_dict (map pt_request ts) []) nbs"
    "current_marks nbs (jstore (srv_journal s)) = snd (decide rs (stored_marks (jstore (srv_journal s))))"
  shows "srv_inv (srv_remember nbs s2) \<and>
    stored_marks (jstore (srv_journal s2)) = snd (decide rs (stored_marks (jstore (srv_journal s))))"
proof -
  have inv: "log_inv (srv_journal s)" "cache_ok (srv_journal s)"
    "0 \<le> stored_marks (jstore (srv_journal s)) p" for p using assms(1) unfolding srv_inv_def by blast+
  note grow = in_step_marks_grow [OF assms(4) inv(3)]
  note marks = persisted_marks [OF assms(2) inv(2) assms(3) grow]
  have "0 \<le> snd (decide rs (stored_marks (jstore (srv_journal s)))) p" for p
    using decide_mono [of "stored_marks (jstore (srv_journal s))" p rs] inv(3) [of p] by simp
  then show ?thesis
    using marks persisted_log(1) [OF assms(2) inv(1)] assms(4)
    by (simp add: srv_inv_def) (simp add: srv_remember_def)
qed

section \<open>Group and single commits\<close>

lemma commit_group_spec:
  assumes "srv_inv s" "commit_group env rs s = (res, s')"
  shows "srv_inv s' \<and>
    (case res of
       Inl e \<Rightarrow> jstore (srv_journal s') = jstore (srv_journal s) \<and>
         next_seq (srv_journal s') = next_seq (srv_journal s) \<and>
         None \<in> set (fst (decide rs (stored_marks (jstore (srv_journal s)))))
     | Inr outs \<Rightarrow>
         (let (ds, m) = decide rs (stored_marks (jstore (srv_journal s))) in
            list_all2 answers (zip rs ds) outs \<and> stored_marks (jstore (srv_journal s')) = m \<and>
            (\<exists>rows. events (jstore (srv_journal s')) = events (jstore (srv_journal s)) @ rows \<and>
               map row_pair rows = concat (map published outs) \<and>
               next_seq (srv_journal s) \<le> next_seq (srv_journal s') \<and>
               map row_seq rows =
                 [next_seq (srv_journal s) .. next_seq (srv_journal s') - 1])))"
proof -
  obtain ds nbs s1 where tri: "triage rs [] s = (ds, nbs, s1)" by (metis prod_cases3)
  have cm: "current_marks [] (jstore (srv_journal s)) = stored_marks (jstore (srv_journal s))"
    by (simp add: current_marks_def fun_eq_iff)
  have inv: "log_inv (srv_journal s)" "cache_ok (srv_journal s)"
    "0 \<le> stored_marks (jstore (srv_journal s)) p" for p using assms(1) unfolding srv_inv_def by blast+
  note spec = triage_spec [OF tri inv(2) in_step_empty, unfolded cm]
  have fields: "jstore (srv_journal s1) = jstore (srv_journal s)"
    "next_seq (srv_journal s1) = next_seq (srv_journal s)" "log_inv (srv_journal s1)"
    using cache_only_fields spec inv(1) by blast+
  have s1: "srv_inv s1" using fields spec inv(3) by (simp add: srv_inv_def)
  have dec: "ds = fst (decide rs (stored_marks (jstore (srv_journal s))))" using spec by blast
  have len: "length rs = length ds" using spec decide_length by metis
  have quiet: "published out = []" if "Some out \<in> set ds" for out
    using spec that decide_publishes_nothing by blast
  show ?thesis
  proof (cases "accepted rs ds = []")
    case True
    with assms(2) tri have res: "res = Inr (fill ds [])" "s' = s1" by (simp_all add: commit_group_def)
    have "map_of nbs = Map.empty" using spec True
      by (simp add: in_step_def progress_dict_def fun_eq_iff)
    then have "nbs = []" by (simp only: map_of_eq_empty_iff)
    have filled: "list_all2 answers (zip rs ds) (fill ds []) \<and> concat (map published (fill ds [])) = []"
      using fill_spec [OF len, of "[]"] True quiet by simp
    have "snd (decide rs (stored_marks (jstore (srv_journal s)))) = stored_marks (jstore (srv_journal s))"
      using spec unfolding \<open>nbs = []\<close> cm by simp
    with filled s1 fields dec show ?thesis by (simp add: res case_prod_beta)
  next
    case False
    obtain r2 s2 where per: "persist_requests env (accepted rs ds) s1 = (r2, s2)" by fastforce
    note pspec = persist_requests_spec [OF per]
    show ?thesis
    proof (cases r2)
      case (Inl e)
      with assms(2) tri False per have res: "res = Inl e" "s' = s2" by (simp_all add: commit_group_def)
      from pspec Inl have "srv_journal s2 = (srv_journal s1)\<lparr>jmetrics := jmetrics (srv_journal s2)\<rparr>" by simp
      note failed_commit_frame [OF this]
      with s1 fields accepted_None [OF False] show ?thesis by (simp add: res dec)
    next
      case (Inr encs)
      with assms(2) tri False per have res: "s' = srv_remember nbs s2"
        "res = Inr (fill ds (map2 (\<lambda>r enc. Inr (committed r (ee_records enc))) (accepted rs ds) encs))"
        by (simp_all add: commit_group_def)
      obtain ts where ts: "map pt_request ts = accepted rs ds"
        and p: "persisted env ts (srv_journal s1) encs (srv_journal s2)" using pspec Inr by auto
      have lenc: "length encs = length (accepted rs ds)"
        using p ts by (metis length_map persisted_def)
      have "srv_inv s' \<and> stored_marks (jstore (srv_journal s2)) =
          snd (decide rs (stored_marks (jstore (srv_journal s))))"
        using persisted_srv_inv [OF s1 p, of nbs rs, unfolded ts fields(1)] spec by (simp only: res(1)) blast
      with fill_spec [OF len lenc] quiet persisted_log(2-4) [OF p fields(3)] persisted_rows [OF p] spec
      show ?thesis by (auto simp: res fields case_prod_beta Let_def)
    qed
  qed
qed

text \<open>A single commit is the group commit of one request.\<close>

lemma commit_as_group:
  "commit env r s = (case commit_group env [r] s of
     (Inl e, s') \<Rightarrow> (Inl e, s') | (Inr outs, s') \<Rightarrow> (hd outs, s'))"
proof -
  obtain c s1 where ct: "srv_committed_through r s = (c, s1)" by fastforce
  obtain r2 s2 where per: "persist_requests env [r] s1 = (r2, s2)" by fastforce
  have one: "length encs = 1" if "r2 = Inr encs" for encs
    using persist_requests_spec [OF per] that by (auto simp: persisted_def)
  show ?thesis
  proof (cases "check_transaction_id r c")
    case None
    with ct per one show ?thesis
      by (cases r2) (auto simp: commit_def commit_group_def commit_events_def length_Suc_conv)
  qed (simp add: ct commit_def commit_group_def)
qed

text \<open>
  One-at-a-time service of requests: \<open>serves ros m m'\<close> says that the outcomes of \<open>ros\<close> take the
  producers' marks from \<open>m\<close> to \<open>m'\<close>. A mark moves only when a request with the next id
  commits; a duplicate or a gap is answered as admission decides.
\<close>

fun serves :: "(transaction_request \<times> outcome) list \<Rightarrow> marks \<Rightarrow> marks \<Rightarrow> bool" where
  "serves [] m m' \<longleftrightarrow> m' = m"
| "serves ((r, out) # rest) m m' \<longleftrightarrow>
     (let mark = m (producer r)
      in if tr_txn_id r \<le> mark
         then (\<exists>c. out = Inr c \<and> tc_status c = Duplicate \<and> tc_txn_id c = mark \<and> tc_records c = [] \<and>
                 tc_checkpoint c = None) \<and> serves rest m m'
         else if tr_txn_id r > mark + 1
         then (\<exists>msg. out = Inl (TransactionRejectedError ''unexpected_id'' msg (mark + 1))) \<and> serves rest m m'
         else case out of
             Inl e \<Rightarrow> serves rest m m'
           | Inr c \<Rightarrow> (\<exists>records. c = committed r records) \<and> serves rest (m(producer r := tr_txn_id r)) m')"

text \<open>The code's admission check decides exactly these cases.\<close>

lemma serves_decision:
  "check_transaction_id r (m (producer r)) = Some decision \<Longrightarrow> serves ((r, decision) # rest) m m' \<longleftrightarrow> serves rest m m'"
  "check_transaction_id r (m (producer r)) = None \<Longrightarrow> serves ((r, out) # rest) m m' \<longleftrightarrow>
     (case out of
        Inl e \<Rightarrow> serves rest m m'
      | Inr c \<Rightarrow> (\<exists>records. c = committed r records) \<and> serves rest (m(producer r := tr_txn_id r)) m')"
  by (auto simp: check_transaction_id_def Let_def split: if_splits)

declare serves.simps(2) [simp del]
declare serves_decision [simp]

lemma answers_serves:
  "list_all2 answers (zip rs (fst (decide rs m))) outs \<Longrightarrow> serves (zip rs outs) m (snd (decide rs m))"
proof (induction rs arbitrary: m outs)
  case (Cons r rs)
  then obtain out outs' where "outs = out # outs'"
    by (cases outs) (auto simp: case_prod_beta Let_def)
  with Cons show ?case
    by (auto simp: case_prod_beta Let_def split: option.splits if_splits)
qed simp

lemma answers_length: "list_all2 answers (zip rs (fst (decide rs m))) outs \<Longrightarrow> length outs = length rs"
  by (auto dest!: list_all2_lengthD simp: decide_length)

text \<open>What an interval of service does to the server.\<close>

definition served :: "transaction_request list \<Rightarrow> outcome list \<Rightarrow> 'spec server \<Rightarrow> 'spec server \<Rightarrow> bool" where
  "served rs outs s s' \<longleftrightarrow> length outs = length rs \<and> srv_inv s' \<and>
     serves (zip rs outs) (stored_marks (jstore (srv_journal s))) (stored_marks (jstore (srv_journal s'))) \<and>
     (\<exists>rows. events (jstore (srv_journal s')) = events (jstore (srv_journal s)) @ rows \<and>
        map row_pair rows = concat (map published outs) \<and>
        next_seq (srv_journal s) \<le> next_seq (srv_journal s') \<and>
        map row_seq rows = [next_seq (srv_journal s) .. next_seq (srv_journal s') - 1])"

lemma serves_append:
  "serves xs m m1 \<Longrightarrow> serves ys m1 m' \<Longrightarrow> serves (xs @ ys) m m'"
  by (induction xs m m1 rule: serves.induct) (auto simp: serves.simps(2) Let_def split: option.splits sum.splits)

lemma served_append:
  assumes "served rs outs s s1" "served rs' outs' s1 s2"
  shows "served (rs @ rs') (outs @ outs') s s2"
proof -
  obtain rows rows' where "events (jstore (srv_journal s1)) = events (jstore (srv_journal s)) @ rows"
    "map row_pair rows = concat (map published outs)" "next_seq (srv_journal s) \<le> next_seq (srv_journal s1)"
    "map row_seq rows = [next_seq (srv_journal s) .. next_seq (srv_journal s1) - 1]"
    "events (jstore (srv_journal s2)) = events (jstore (srv_journal s1)) @ rows'"
    "map row_pair rows' = concat (map published outs')" "next_seq (srv_journal s1) \<le> next_seq (srv_journal s2)"
    "map row_seq rows' = [next_seq (srv_journal s1) .. next_seq (srv_journal s2) - 1]"
    using assms unfolding served_def by blast
  then have "\<exists>rows. events (jstore (srv_journal s2)) = events (jstore (srv_journal s)) @ rows \<and>
      map row_pair rows = concat (map published (outs @ outs')) \<and>
      next_seq (srv_journal s) \<le> next_seq (srv_journal s2) \<and>
      map row_seq rows = [next_seq (srv_journal s) .. next_seq (srv_journal s2) - 1]"
    by (intro exI [of _ "rows @ rows'"]) (simp add: upto_append)
  then show ?thesis
    using assms serves_append unfolding served_def by auto
qed

lemma commit_served:
  assumes "srv_inv s" "commit env r s = (out, s')"
  shows "served [r] [out] s s'"
proof -
  obtain res where run: "commit_group env [r] s = (res, s')"
    and out: "out = (case res of Inl e \<Rightarrow> Inl e | Inr outs \<Rightarrow> hd outs)"
    using assms(2) commit_as_group [of env r s] by (auto split: prod.splits sum.splits)
  note spec = commit_group_spec [OF assms(1) run]
  show ?thesis
  proof (cases res)
    case (Inl e)
    with spec have "check_transaction_id r (stored_marks (jstore (srv_journal s)) (producer r)) = None"
      by (auto simp: case_prod_beta Let_def)
    with spec Inl show ?thesis by (auto simp: served_def out published_def)
  next
    case (Inr outs)
    have "length outs = 1" "serves (zip [r] outs) (stored_marks (jstore (srv_journal s)))
        (snd (decide [r] (stored_marks (jstore (srv_journal s)))))"
      using spec answers_length [of "[r]"] answers_serves [of "[r]"] Inr by (fastforce simp: case_prod_beta)+
    with spec Inr show ?thesis
      by (auto simp: served_def out case_prod_beta Let_def length_Suc_conv)
  qed
qed

lemma served_nil: "srv_inv s \<Longrightarrow> served [] [] s s"
  by (simp add: served_def)

lemma served_inv: "served rs outs s s' \<Longrightarrow> srv_inv s'"
  by (simp add: served_def)

lemma commit_each_served:
  "srv_inv s \<Longrightarrow> commit_each (commit env) rs s = (outs, s') \<Longrightarrow> served rs outs s s'"
proof (induction rs arbitrary: s outs s')
  case (Cons r rs)
  obtain out s1 where one: "commit env r s = (out, s1)" by fastforce
  obtain outs1 s2 where rest: "commit_each (commit env) rs s1 = (outs1, s2)" by fastforce
  note first = commit_served [OF Cons.prems(1) one]
  from served_append [OF first Cons.IH [OF served_inv [OF first] rest]] Cons.prems(2) one rest
  show ?case by simp
qed (simp add: served_nil)

lemma commit_group_served:
  assumes "srv_inv s" "commit_group env rs s = (res, s')"
  shows "case res of
      Inl e \<Rightarrow> srv_inv s' \<and> jstore (srv_journal s') = jstore (srv_journal s) \<and>
        next_seq (srv_journal s') = next_seq (srv_journal s)
    | Inr outs \<Rightarrow> served rs outs s s'"
  using commit_group_spec [OF assms] answers_length [of rs] answers_serves [of rs]
  by (fastforce simp: served_def case_prod_beta split: sum.splits)

lemma served_transfer:
  assumes "jstore (srv_journal s1) = jstore (srv_journal s)" "next_seq (srv_journal s1) = next_seq (srv_journal s)"
  shows "served rs outs s1 s' = served rs outs s s'"
  by (simp add: served_def assms)

lemma execute_served:
  assumes "srv_inv (co_state co)" "execute (commit env) (commit_group env) checkpoint rs co = co'"
  shows "\<exists>outs ck. served rs outs (co_state co) (co_state co') \<and>
    co_done co' = co_done co @ zip rs (map (completed_outcome ck) outs)"
proof -
  obtain res s1 where grp: "commit_group env rs (co_state co) = (res, s1)" by fastforce
  note spec = commit_group_served [OF assms(1) grp]
  obtain each s2 where ea: "commit_each (commit env) rs s1 = (each, s2)" by fastforce
  have "\<exists>outs s. served rs outs (co_state co) s \<and> co' = complete checkpoint rs outs (co\<lparr>co_state := s\<rparr>)"
  proof (cases res)
    case (Inl e)
    with spec commit_each_served [OF _ ea] served_transfer [of s1 "co_state co" rs each s2]
    have "served rs each (co_state co) s2" by simp
    moreover have "co' = complete checkpoint rs each (co\<lparr>co_state := s2\<rparr>)"
      unfolding assms(2) [symmetric] execute_def grp Inl by (simp add: ea)
    ultimately show ?thesis by blast
  next
    case (Inr outs)
    with spec have sv: "served rs outs (co_state co) s1" by simp
    then have "length outs = length rs" by (simp add: served_def)
    then have "co' = complete checkpoint rs outs (co\<lparr>co_state := s1\<rparr>)"
      unfolding assms(2) [symmetric] execute_def grp Inr by simp
    with sv show ?thesis by blast
  qed
  then obtain outs s where "served rs outs (co_state co) s"
    "co' = complete checkpoint rs outs (co\<lparr>co_state := s\<rparr>)" by blast
  then show ?thesis by (intro exI [of _ outs]) (auto simp: complete_def Let_def)
qed

section \<open>Rollback of the scene\<close>

text \<open>
  A group edits every layer within the scope \<open>P\<close> gives it; a layer with the empty scope stays as
  it is. The session layer \<open>ses\<close> is exempt.
\<close>

definition group_edit ::
  "(string \<Rightarrow> path list) \<Rightarrow> string option \<Rightarrow> (string \<Rightarrow> 'spec content) \<Rightarrow> (string \<Rightarrow> 'spec content) \<Rightarrow> bool"
where
  "group_edit P ses ls ls' \<longleftrightarrow> (\<forall>l. Some l \<noteq> ses \<longrightarrow>
     (wf_content (ls l) \<longrightarrow> wf_content (ls' l)) \<and> confined (P l) (ls l) (ls' l))"

lemma confined_empty: "confined [] a b \<Longrightarrow> b = a"
  by (auto simp: confined_def)

lemma group_edit_refl [simp]: "group_edit P ses ls ls"
  by (simp add: group_edit_def)

lemma group_edit_trans: "group_edit P ses a b \<Longrightarrow> group_edit P ses b c \<Longrightarrow> group_edit P ses a c"
  by (auto simp: group_edit_def intro: confined_trans)

lemma txn_edit_group:
  assumes "txn_edit (P tgt) tgt ses' ls ls'" "ses' = None \<or> ses' = ses"
  shows "group_edit P ses ls ls'"
  unfolding group_edit_def
proof (intro allI impI)
  fix l assume l: "Some l \<noteq> ses"
  show "(wf_content (ls l) \<longrightarrow> wf_content (ls' l)) \<and> confined (P l) (ls l) (ls' l)"
  proof (cases "l = tgt")
    case False
    with l assms have "ls' l = ls l" by (auto simp: txn_edit_def)
    then show ?thesis by simp
  qed (use assms in \<open>simp add: txn_edit_def\<close>)
qed

lemma apply_all_scoped:
  assumes "usd_confined (env_usd env) owner" "apply_all env needs ts s = (r, s')"
    "\<forall>t \<in> set ts. pt_target_layer t \<noteq> sc_session (srv_scene s) \<and>
       within_scope owner (P (pt_target_layer t)) (filter (\<lambda>ev. \<not> is_session_event ev) (tr_events (pt_request t)))"
    "\<forall>t \<in> set ts. list_ex is_session_event (tr_events (pt_request t)) \<longrightarrow> ses = Some (sc_session (srv_scene s))"
  shows "group_edit P ses (sc_layers (srv_scene s)) (sc_layers (srv_scene s')) \<and>
    same_frame (srv_scene s) (srv_scene s')"
  using assms(2-4)
proof (induction ts arbitrary: s r s')
  case (Cons t ts)
  obtain r1 sc where one: "apply_validated (env_usd env) (tr_events (pt_request t))
      (Some (pt_target_layer t)) (srv_scene s) = (r1, sc)" by fastforce
  have frame: "same_frame (srv_scene s) sc" by (rule apply_validated_frame [OF one])
  have "txn_edit (P (pt_target_layer t)) (pt_target_layer t)
      (if list_ex is_session_event (tr_events (pt_request t)) then Some (sc_session (srv_scene s)) else None)
      (sc_layers (srv_scene s)) (sc_layers sc)"
    by (rule apply_validated_scoped [OF assms(1) one]) (use Cons.prems(2) in auto)
  then have edit: "group_edit P ses (sc_layers (srv_scene s)) (sc_layers sc)"
    by (rule txn_edit_group) (use Cons.prems(3) in auto)
  show ?case
  proof (cases "srv_scene s' = sc")
    case True
    with edit frame show ?thesis by simp
  next
    case False
    then obtain s2 r2 where rest: "apply_all env needs ts s2 = (r2, s')" "srv_scene s2 = sc"
      using Cons.prems(1) one by (auto simp: Let_def split: sum.splits prod.splits if_splits)
    have ses: "sc_session sc = sc_session (srv_scene s)" using frame by (simp add: same_frame_def)
    from Cons.IH [OF rest(1)] Cons.prems(2,3)
    have "group_edit P ses (sc_layers sc) (sc_layers (srv_scene s')) \<and> same_frame sc (srv_scene s')"
      by (simp add: rest(2) ses)
    with edit frame show ?thesis by (auto intro: group_edit_trans simp: same_frame_def)
  qed
qed simp

lemma restore_scopes:
  fixes before :: "string \<Rightarrow> 'spec content" and sdf :: "'spec sdf_api"
  assumes "distinct (map fst scopes)"
  defines "restore \<equiv> \<lambda>(l, scope) ls. ls(l := rollback_layer sdf scope (before l) (ls l))"
  shows "fold restore scopes ls l = (case map_of scopes l of
     None \<Rightarrow> ls l | Some scope \<Rightarrow> rollback_layer sdf scope (before l) (ls l))"
  using assms(1)
proof (induction scopes arbitrary: ls)
  case (Cons s scopes)
  obtain k scope where s: "s = (k, scope)" by (cases s)
  have "map_of scopes k = None" using Cons.prems by (simp add: s map_of_eq_None_iff)
  with Cons show ?case by (auto simp: s restore_def split: option.splits)
qed simp

text \<open>
  A scope for each layer the transactions touch that rolls back exactly: the session layer only
  as a whole, and the paths of a layer ancestors first.
\<close>

definition rollback_ready :: "'spec env \<Rightarrow> (string \<Rightarrow> path option) \<Rightarrow> prepared_transaction list \<Rightarrow> 'spec scene \<Rightarrow> bool" where
  "rollback_ready env owner ts sc \<longleftrightarrow>
     usd_confined (env_usd env) owner \<and> sdf_laws (usd_sdf (env_usd env)) \<and>
     (\<forall>l. wf_content (sc_layers sc l)) \<and>
     (\<forall>t \<in> set ts. pt_target_layer t \<noteq> sc_session sc \<and>
        within_scope owner (dict_get (paths_by_layer ts) (pt_target_layer t) [])
          (filter (\<lambda>ev. \<not> is_session_event ev) (tr_events (pt_request t)))) \<and>
     (\<forall>(l, ps) \<in> set (paths_by_layer ts). [] \<in> set ps \<or> ancestors_first ps)"

lemma paths_by_layer_keys:
  "wf_dict (paths_by_layer ts)" "fst ` set (paths_by_layer ts) \<subseteq> pt_target_layer ` set ts"
proof -
  have "wf_dict d \<Longrightarrow> fst ` set d \<subseteq> K \<Longrightarrow>
      wf_dict (fold (\<lambda>t d. if pt_paths t = [] then d
         else AList.update (pt_target_layer t) (remdups (dict_get d (pt_target_layer t) [] @ pt_paths t)) d) ts d) \<and>
      fst ` set (fold (\<lambda>t d. if pt_paths t = [] then d
         else AList.update (pt_target_layer t) (remdups (dict_get d (pt_target_layer t) [] @ pt_paths t)) d) ts d)
        \<subseteq> K \<union> pt_target_layer ` set ts" for d K
  proof (induction ts arbitrary: d K)
    case (Cons t ts)
    define d1 where "d1 = (if pt_paths t = [] then d
       else AList.update (pt_target_layer t) (remdups (dict_get d (pt_target_layer t) [] @ pt_paths t)) d)"
    have "wf_dict d1" "fst ` set d1 \<subseteq> insert (pt_target_layer t) K"
      using Cons.prems by (auto simp: d1_def dom_update wf_dict_def distinct_update)
    from Cons.IH [OF this] show ?case by (simp add: d1_def [symmetric])
  qed simp
  from this [of "[]" "{}"] show "wf_dict (paths_by_layer ts)"
    "fst ` set (paths_by_layer ts) \<subseteq> pt_target_layer ` set ts"
    by (simp_all add: paths_by_layer_def)
qed

lemma rollback_restores:
  assumes ready: "rollback_ready env owner ts sc"
    and edit: "group_edit (\<lambda>l. dict_get (paths_by_layer ts) l []) (if flag then Some (sc_session sc) else None)
      (sc_layers sc) (sc_layers sc')"
  shows "sc_layers (rollback_scene (env_usd env) (paths_by_layer ts) flag sc sc') = sc_layers sc"
proof
  fix l
  define pl where "pl = paths_by_layer ts"
  define scopes where "scopes = map (\<lambda>(l, ps). (l, Some ps)) pl @ (if flag then [(sc_session sc, None)] else [])"
  have keys: "wf_dict pl" "sc_session sc \<notin> fst ` set pl"
    using paths_by_layer_keys [of ts] ready by (auto simp: pl_def rollback_ready_def)
  have "map fst scopes = map fst pl @ (if flag then [sc_session sc] else [])"
    by (auto simp: scopes_def o_def case_prod_beta)
  then have dist: "distinct (map fst scopes)" using keys by (auto simp: wf_dict_def)
  then have dist': "distinct (map fst (rev scopes))" by (simp add: rev_map [symmetric])
  have mo: "map_of (rev scopes) l = map_of scopes l"
    using dist by (intro map_of_rev [THEN fun_cong]) (simp add: wf_dict_def)
  have sc: "map_of scopes l = (case map_of pl l of Some ps \<Rightarrow> Some (Some ps)
      | None \<Rightarrow> if flag \<and> l = sc_session sc then Some None else None)"
    using keys(2) by (auto simp: scopes_def map_add_def map_of_map split: option.splits dest: map_of_SomeD
        intro: rev_image_eqI)
  have goal: "(case map_of scopes l of None \<Rightarrow> sc_layers sc' l
      | Some scope \<Rightarrow> rollback_layer (usd_sdf (env_usd env)) scope (sc_layers sc l) (sc_layers sc' l)) = sc_layers sc l"
  proof (cases "map_of pl l")
    case None
    then have P: "dict_get pl l [] = []" by (simp add: dict_get_def)
    have "sc_layers sc' l = sc_layers sc l" if "\<not> (flag \<and> l = sc_session sc)"
      using edit [unfolded group_edit_def, rule_format, of l] that unfolding pl_def [symmetric] P
      by (auto simp: confined_empty)
    with None show ?thesis by (simp add: sc rollback_layer_def)
  next
    case (Some ps)
    then have mem: "(l, ps) \<in> set pl" by (rule map_of_SomeD)
    with keys(2) have "l \<noteq> sc_session sc" by force
    moreover have P: "dict_get pl l [] = ps" using Some by (simp add: dict_get_def)
    moreover have "wf_content (sc_layers sc l)" using ready by (simp add: rollback_ready_def)
    ultimately have e: "wf_content (sc_layers sc' l)" "confined ps (sc_layers sc l) (sc_layers sc' l)"
      using edit [unfolded group_edit_def, rule_format, of l] unfolding pl_def [symmetric] P by auto
    have "[] \<in> set ps \<or> ancestors_first ps" using mem ready by (auto simp: rollback_ready_def pl_def)
    then have "rollback_layer (usd_sdf (env_usd env)) (Some ps) (sc_layers sc l) (sc_layers sc' l) = sc_layers sc l"
      using scoped_rollback_content [of "usd_sdf (env_usd env)" "sc_layers sc l" "sc_layers sc' l" ps] e ready
      by (cases "[] \<in> set ps") (auto simp: rollback_ready_def rollback_layer_def)
    with Some show ?thesis by (simp add: sc)
  qed
  have "sc_layers (rollback_scene (env_usd env) (paths_by_layer ts) flag sc sc') =
      fold (\<lambda>(l, scope) ls. ls(l := rollback_layer (usd_sdf (env_usd env)) scope (sc_layers sc l) (ls l)))
        (rev scopes) (sc_layers sc')"
    unfolding rollback_scene_def Let_def pl_def [symmetric] scopes_def by simp
  with goal restore_scopes [OF dist', of "usd_sdf (env_usd env)" "sc_layers sc" "sc_layers sc'" l]
  show "sc_layers (rollback_scene (env_usd env) (paths_by_layer ts) flag sc sc') l = sc_layers sc l"
    by (simp only: mo)
qed

lemma prepared_session:
  assumes "map_res (\<lambda>r. prepare_managed_transaction r sc) rs = Inr ts" "t \<in> set ts"
  shows "pt_session t = list_ex is_session_event (tr_events (pt_request t))"
  using assms
proof (induction rs arbitrary: ts)
  case (Cons r rs)
  then show ?case
    by (auto simp: prepare_managed_transaction_def Let_def split: sum.splits if_splits)
qed simp

lemma edit_body_error_scene:
  assumes "edit_body env pre ts s = (Inl e, s')"
  shows "\<exists>r s1. apply_all env (needs_scene_fields ts) ts s = (r, s1) \<and> srv_scene s' = srv_scene s1"
proof -
  obtain r s1 where "apply_all env (needs_scene_fields ts) ts s = (r, s1)" by fastforce
  with assms show ?thesis
    by (auto simp: edit_body_def srv_append_def Let_def split: sum.splits prod.splits)
qed

text \<open>What a failed edit leaves of the scene.\<close>

definition scene_restored :: "'spec scene \<Rightarrow> 'spec scene \<Rightarrow> bool" where
  "scene_restored sc sc' \<longleftrightarrow> sc_layers sc' = sc_layers sc \<and> sc_edit_target sc' = sc_edit_target sc \<and>
     sc_op_cache_layer sc' \<in> {None, sc_op_cache_layer sc} \<and> same_frame sc sc'"

lemma apply_and_persist_restores:
  assumes "apply_and_persist_managed env ts s = (Inl e, s')" "rollback_ready env owner ts (srv_scene s)"
    "\<And>t. t \<in> set ts \<Longrightarrow> pt_session t = list_ex is_session_event (tr_events (pt_request t))"
  shows "scene_restored (srv_scene s) (srv_scene s')"
proof -
  obtain r0 j where pre: "(if needs_scene_fields ts then (Inr [], srv_journal s)
      else encode_all (env_encode env) ts (srv_journal s)) = (r0, j)" by fastforce
  show ?thesis
  proof (cases r0)
    case (Inl x)
    then have "srv_scene s' = srv_scene s" using assms(1) pre by (auto simp: apply_and_persist_managed_def)
    then show ?thesis by (simp add: scene_restored_def)
  next
    case (Inr encs)
    define s0 where "s0 = s\<lparr>srv_journal := j\<rparr>"
    have scn: "srv_scene s0 = srv_scene s" by (simp add: s0_def)
    define flag where "flag = list_ex pt_session ts"
    obtain s1 where body: "edit_body env encs ts s0 = (Inl e, s1)"
      and s': "srv_scene s' = rollback_scene (env_usd env) (paths_by_layer ts) flag (srv_scene s) (srv_scene s1)"
      using assms(1) pre Inr
      by (auto simp: apply_and_persist_managed_def atomic_edit_def s0_def flag_def split: sum.splits prod.splits)
    from edit_body_error_scene [OF body] obtain r s2
      where ap: "apply_all env (needs_scene_fields ts) ts s0 = (r, s2)" and s1: "srv_scene s1 = srv_scene s2" by blast
    have "group_edit (\<lambda>l. dict_get (paths_by_layer ts) l []) (if flag then Some (sc_session (srv_scene s)) else None)
        (sc_layers (srv_scene s)) (sc_layers (srv_scene s1)) \<and> same_frame (srv_scene s) (srv_scene s1)"
      using apply_all_scoped [OF _ ap, of owner "\<lambda>l. dict_get (paths_by_layer ts) l []"
          "if flag then Some (sc_session (srv_scene s)) else None"] assms(2,3)
      by (auto simp: scn s1 rollback_ready_def flag_def list_ex_iff)
    then have "sc_layers (srv_scene s') = sc_layers (srv_scene s)" "same_frame (srv_scene s) (srv_scene s1)"
      using rollback_restores [OF assms(2)] by (simp_all add: s')
    then show ?thesis by (simp add: scene_restored_def s' rollback_scene_def same_frame_def Let_def)
  qed
qed

section \<open>A concrete environment\<close>

text \<open>A server on an empty store, whose encoder and pxr calls succeed without effect.\<close>

definition plain_env :: "(nat \<Rightarrow> bool) \<Rightarrow> unit env" where
  "plain_env db = \<lparr>env_encode = (\<lambda>r. Inr [1]),
     env_usd = \<lparr>usd_sdf = plain_sdf, usd_apply_events = (\<lambda>evs layer ls. (Inr (), ls)),
       usd_info_keys = (\<lambda>layer path ls. None)\<rparr>, env_db = db\<rparr>"

definition plain_stack :: stack where
  "plain_stack = (\<lparr>default_key = ''default'', ls_layers = [(''default'', ''L'')],
     keys_by_identifier = [(''L'', ''default'')], ls_labels = [(''default'', ''Default'')],
     ls_order = [''default''], ls_generation = ''g'', ls_revision = 0\<rparr>,
     \<lparr>session_sublayers = [(''L'', no_offset)], muted_layers = []\<rparr>)"

definition plain_server :: "unit server" where
  "plain_server = \<lparr>srv_journal = journal_init empty_store False None,
     srv_scene = \<lparr>sc_layers = (\<lambda>_. Map.empty), sc_stack = plain_stack, sc_session = ''S'',
       sc_edit_layer = ''L'', sc_edit_target = ''L'', sc_op_cache_layer = None,
       sc_tracking = empty_tracking, sc_dirty = False\<rparr>,
     srv_writes = 0\<rparr>"

definition plain_request :: "int \<Rightarrow> transaction_request" where
  "plain_request i = \<lparr>tr_events = [[(''k'', PStr K_SET_VISIBILITY), (''prim'', PStr ''/a'')]],
     tr_client_id = ''c'', tr_origin = None, tr_client_addr = None, tr_layer = None,
     tr_layer_key = [], tr_session_id = ''s'', tr_txn_id = i\<rparr>"

definition plain_coordinator :: "unit server coordinator" where
  "plain_coordinator = \<lparr>co_state = plain_server, co_barrier = new_barrier\<lparr>readers := 2\<rparr>, co_stopping = False,
     co_threaded = True, co_queue = [], co_done = []\<rparr>"

lemma plain_server_inv: "srv_inv plain_server"
  by (auto simp: srv_inv_def plain_server_def log_inv_def cache_ok_def journal_init_def empty_store_def store_inv_def
      get_max_seq_def stored_marks_def get_producer_progress_def queued_rows_def get_count_def)

section \<open>Properties\<close>

text \<open>C10. A group commit is atomic and admits exactly what one-at-a-time admission would. From a
  well-formed server: if the group raises, some request was admissible and the stored history,
  every producer's mark and the next sequence number are unchanged; otherwise there is one outcome per request, in order,
  each request is answered as the sequential admission by transaction id decides (a duplicate,
  a rejection naming the expected id, or a commit), the producers' stored marks are those of
  that admission, and the log gains exactly the records the outcomes carry, in order, under
  consecutive sequence numbers from the old head. The server stays well-formed either way.\<close>

theorem commit_group_correct:
  assumes "srv_inv s" "commit_group env rs s = (res, s')"
  shows "srv_inv s' \<and>
    (case res of
       Inl e \<Rightarrow> jstore (srv_journal s') = jstore (srv_journal s) \<and>
         next_seq (srv_journal s') = next_seq (srv_journal s) \<and>
         None \<in> set (fst (decide rs (stored_marks (jstore (srv_journal s)))))
     | Inr outs \<Rightarrow>
         (let (ds, m) = decide rs (stored_marks (jstore (srv_journal s))) in
            list_all2 answers (zip rs ds) outs \<and> stored_marks (jstore (srv_journal s')) = m \<and>
            (\<exists>rows. events (jstore (srv_journal s')) = events (jstore (srv_journal s)) @ rows \<and>
               map row_pair rows = concat (map published outs) \<and>
               next_seq (srv_journal s) \<le> next_seq (srv_journal s') \<and>
               map row_seq rows =
                 [next_seq (srv_journal s) .. next_seq (srv_journal s') - 1])))"
  using assms by (rule commit_group_spec)

theorem commit_group_correct_witness:
  "let (res, s') = commit_group (plain_env (\<lambda>_. True))
         [plain_request 1, plain_request 1, plain_request 5] plain_server
   in srv_inv s' \<and> \<not> isl res \<and> length (events (jstore (srv_journal s'))) = 1"
proof -
  obtain res s' where run: "commit_group (plain_env (\<lambda>_. True))
      [plain_request 1, plain_request 1, plain_request 5] plain_server = (res, s')" by fastforce
  have "\<not> isl (fst (commit_group (plain_env (\<lambda>_. True))
      [plain_request 1, plain_request 1, plain_request 5] plain_server))" by code_simp
  moreover have "length (events (jstore (srv_journal (snd (commit_group (plain_env (\<lambda>_. True))
      [plain_request 1, plain_request 1, plain_request 5] plain_server))))) = 1" by code_simp
  moreover note commit_group_correct [OF plain_server_inv run]
  ultimately show ?thesis by (simp add: run)
qed





end
