(* ===== verification/Producer_Protocol.thy ===== *)
theory Producer_Protocol
  imports Producer_Session Commit
begin

text \<open>
  One producer session and the server, end to end: the outbox of \<open>EventSender\<close>
  (\<open>openusdconnect/sender.py\<close>), the connection's read and result loops
  (\<open>openusdconnect/server/connection.py\<close>) and the durable commit.

  The link state keeps the session, what is on the wire in each direction, and the server. A
  broken connection loses what it carried, except that the server may have read a prefix of it
  and commit it later, in any order with the requests of newer connections: these requests are
  \<open>lk_late\<close>. The ghost fields are the requests the producer has submitted (\<open>lk_hist\<close>), those
  the server has committed (\<open>lk_log\<close>) and whether it has refused one (\<open>lk_refused\<close>).

  \<open>lk_blocked\<close>: the server has skipped a request of this connection. \<open>lk_dead\<close>: it has shut the
  connection down. \<open>lk_replaying\<close>: the producer holds its send lock for the reconnect replay.
\<close>

datatype msg = Hello int | Ack int | Rejected int recovery_disposition | RateLimited

record 'spec link =
  lk_session :: "transaction_request session"
  lk_up :: "transaction_request list"
  lk_down :: "msg list"
  lk_late :: "transaction_request list"
  lk_server :: "'spec server"
  lk_hist :: "transaction_request list"
  lk_log :: "transaction_request list"
  lk_blocked :: bool
  lk_dead :: bool
  lk_replaying :: bool
  lk_refused :: bool

definition new_link :: "nat \<Rightarrow> 'spec server \<Rightarrow> 'spec link" where
  "new_link capacity sv = \<lparr>lk_session = new_session capacity, lk_up = [], lk_down = [], lk_late = [],
     lk_server = sv, lk_hist = [], lk_log = [], lk_blocked = False, lk_dead = False,
     lk_replaying = False, lk_refused = False\<rparr>"

text \<open>Closing the socket: the server may still commit the first \<open>k\<close> requests on the wire.\<close>

definition close_link :: "nat \<Rightarrow> 'spec link \<Rightarrow> 'spec link" where
  "close_link k lk = lk\<lparr>lk_session := snd (session_disconnect (ss_generation (lk_session lk)) (lk_session lk)),
     lk_late := lk_late lk @ take k (lk_up lk), lk_up := [], lk_down := [], lk_blocked := False,
     lk_dead := False, lk_replaying := False\<rparr>"

definition log_commit :: "transaction_request \<Rightarrow> outcome \<Rightarrow> transaction_request list \<Rightarrow> transaction_request list" where
  "log_commit r out rs = (if is_committed out then rs @ [r] else rs)"

text \<open>
  What the connection sends back: an acknowledgement through the committed id, or a rejection.
  An error that is neither a \<open>TypeError\<close> nor a \<open>ValueError\<close> shuts the connection down instead
  (\<open>silent\<close>).
\<close>

definition reply :: "bool \<Rightarrow> transaction_request \<Rightarrow> outcome \<Rightarrow> recovery_disposition \<Rightarrow> msg list" where
  "reply silent r out d = (case out of
     Inr c \<Rightarrow> [Ack (tc_txn_id c)] | Inl e \<Rightarrow> if silent then [] else [Rejected (tr_txn_id r) d])"

inductive link_step :: "'spec env \<Rightarrow> bool \<Rightarrow> string \<times> string \<Rightarrow> 'spec link \<Rightarrow> 'spec link \<Rightarrow> bool"
  for env background who where
  connect: "begin_connection (lk_session lk) = (Some g, s) \<Longrightarrow> ss_phase (lk_session lk) = Disconnected \<Longrightarrow>
    link_step env background who lk (lk\<lparr>lk_session := s\<rparr>)"
| hello: "ss_phase (lk_session lk) = AwaitingHello \<Longrightarrow> lk_down lk = [] \<Longrightarrow>
    committed_through (fst who) (snd who) (srv_journal (lk_server lk)) = (c, j) \<Longrightarrow>
    link_step env background who lk
      (lk\<lparr>lk_down := [Hello c], lk_server := (lk_server lk)\<lparr>srv_journal := j\<rparr>\<rparr>)"
| accept: "lk_down lk = Hello c # rest \<Longrightarrow>
    accept_hello (ss_generation (lk_session lk)) c (lk_session lk) = (res, s) \<Longrightarrow>
    link_step env background who lk
      (lk\<lparr>lk_session := s, lk_down := rest, lk_replaying := \<not> background\<rparr>)"
| claim: "background \<or> lk_replaying lk \<Longrightarrow>
    claim_next_unsent (ss_generation (lk_session lk)) (lk_session lk) = (Accepted, Some e, s) \<Longrightarrow>
    link_step env background who lk (lk\<lparr>lk_session := s, lk_up := lk_up lk @ [e_payload e]\<rparr>)"
| replayed: "lk_replaying lk \<Longrightarrow>
    claim_next_unsent (ss_generation (lk_session lk)) (lk_session lk) = (NoPendingTransaction, None, s) \<Longrightarrow>
    link_step env background who lk (lk\<lparr>lk_session := s, lk_replaying := False\<rparr>)"
| submit: "\<not> lk_replaying lk \<Longrightarrow> producer r = who \<Longrightarrow> tr_txn_id r = ob_next_id (ss_outbox (lk_session lk)) \<Longrightarrow>
    session_append (ss_generation (lk_session lk)) (tr_txn_id r) r (length (tr_events r)) (tr_layer_key r)
      (lk_session lk) = (Accepted, s) \<Longrightarrow>
    link_step env background who lk
      (lk\<lparr>lk_session := s, lk_hist := lk_hist lk @ [r],
          lk_up := (if background then lk_up lk else lk_up lk @ [r])\<rparr>)"
| serve: "lk_up lk = r # rest \<Longrightarrow> \<not> lk_dead lk \<Longrightarrow> commit env r (lk_server lk) = (out, sv) \<Longrightarrow>
    link_step env background who lk
      (lk\<lparr>lk_up := rest, lk_server := sv, lk_log := log_commit r out (lk_log lk),
          lk_down := lk_down lk @ reply silent r out d,
          lk_blocked := (lk_blocked lk \<or> isl out), lk_dead := (isl out \<and> silent),
          lk_refused := (lk_refused lk \<or> isl out \<and> \<not> lk_blocked lk)\<rparr>)"
| limit: "lk_up lk = r # rest \<Longrightarrow> \<not> lk_dead lk \<Longrightarrow>
    link_step env background who lk
      (lk\<lparr>lk_up := rest, lk_down := lk_down lk @ [RateLimited], lk_blocked := True\<rparr>)"
| serve_late: "r \<in> set (lk_late lk) \<Longrightarrow> commit env r (lk_server lk) = (out, sv) \<Longrightarrow>
    link_step env background who lk (lk\<lparr>lk_server := sv, lk_log := log_commit r out (lk_log lk)\<rparr>)"
| serve_other: "producer r \<noteq> who \<Longrightarrow> commit env r (lk_server lk) = (out, sv) \<Longrightarrow>
    link_step env background who lk (lk\<lparr>lk_server := sv\<rparr>)"
| coalesce: "lk_down lk = pre @ Ack a # Ack b # post \<Longrightarrow>
    link_step env background who lk (lk\<lparr>lk_down := pre @ Ack b # post\<rparr>)"
| acked: "lk_down lk = Ack i # rest \<Longrightarrow>
    acknowledge_through (ss_generation (lk_session lk)) i (lk_session lk) = (res, s) \<Longrightarrow>
    link_step env background who lk (lk\<lparr>lk_session := s, lk_down := rest\<rparr>)"
| rejected: "lk_down lk = Rejected i d # rest \<Longrightarrow>
    session_reject (ss_generation (lk_session lk)) i d (lk_session lk) = (res, s) \<Longrightarrow>
    link_step env background who lk (close_link k (lk\<lparr>lk_session := s\<rparr>))"
| closed: "link_step env background who lk (close_link k lk)"

section \<open>What one commit does to the marks\<close>

lemma commit_mark:
  assumes "srv_inv s" "commit env r s = (out, s')"
  defines "m \<equiv> stored_marks (jstore (srv_journal s))" and "m' \<equiv> stored_marks (jstore (srv_journal s'))"
  shows "srv_inv s' \<and>
    (if tr_txn_id r \<le> m (producer r)
     then m' = m \<and> \<not> is_committed out \<and> (\<exists>c. out = Inr c \<and> tc_txn_id c = m (producer r))
     else if is_committed out
     then tr_txn_id r = m (producer r) + 1 \<and> m' = m(producer r := tr_txn_id r) \<and>
       (\<exists>c. out = Inr c \<and> tc_txn_id c = tr_txn_id r)
     else m' = m \<and> isl out)"
proof -
  have sv: "served [r] [out] s s'" by (rule commit_served [OF assms(1,2)])
  then have "serves [(r, out)] m m'" "srv_inv s'" by (simp_all add: served_def m_def m'_def)
  then show ?thesis
    by (auto simp: serves.simps(2) Let_def is_committed_def committed_def split: if_splits sum.splits)
qed

section \<open>Streams of requests\<close>

text \<open>
  A connection's requests are in step with the mark \<open>m\<close> when each is at most one ahead of the mark
  and of the requests before it; \<open>reach\<close> is the highest id among them and the mark.
\<close>

fun stream_ok :: "int \<Rightarrow> transaction_request list \<Rightarrow> bool" where
  "stream_ok m [] \<longleftrightarrow> True"
| "stream_ok m (r # rs) \<longleftrightarrow> tr_txn_id r \<le> m + 1 \<and> stream_ok (max m (tr_txn_id r)) rs"

fun reach :: "int \<Rightarrow> transaction_request list \<Rightarrow> int" where
  "reach m [] = m"
| "reach m (r # rs) = reach (max m (tr_txn_id r)) rs"

lemma reach_ge: "m \<le> reach m rs"
  by (induction m rs rule: reach.induct) auto

lemma reach_mono: "m \<le> m' \<Longrightarrow> reach m rs \<le> reach m' rs"
  by (induction rs arbitrary: m m') auto

lemma stream_mono: "m \<le> m' \<Longrightarrow> stream_ok m rs \<Longrightarrow> stream_ok m' rs"
proof (induction rs arbitrary: m m')
  case (Cons r rs)
  then have "stream_ok (max m' (tr_txn_id r)) rs" using Cons.IH [of "max m (tr_txn_id r)" "max m' (tr_txn_id r)"] by simp
  with Cons.prems show ?case by simp
qed simp

lemma stream_snoc: "stream_ok m (rs @ [r]) \<longleftrightarrow> stream_ok m rs \<and> tr_txn_id r \<le> reach m rs + 1"
  by (induction m rs rule: stream_ok.induct) auto

lemma reach_snoc: "reach m (rs @ [r]) = max (reach m rs) (tr_txn_id r)"
  by (induction m rs rule: stream_ok.induct) auto

section \<open>Results on the wire\<close>

text \<open>
  Up to the first message that ends the connection, the results are acknowledgements that never
  go back and never pass the mark; a rejection found there is of a request above all of them.
\<close>

fun down_ok :: "int \<Rightarrow> int \<Rightarrow> int \<Rightarrow> msg list \<Rightarrow> bool" where
  "down_ok low m n [] \<longleftrightarrow> True"
| "down_ok low m n (Ack i # ms) \<longleftrightarrow> low \<le> i \<and> i \<le> m \<and> down_ok i m n ms"
| "down_ok low m n (Rejected i d # ms) \<longleftrightarrow> low < i \<and> i \<le> n"
| "down_ok low m n (RateLimited # ms) \<longleftrightarrow> True"
| "down_ok low m n (Hello c # ms) \<longleftrightarrow> False"

definition is_ack :: "msg \<Rightarrow> bool" where
  "is_ack x \<longleftrightarrow> (\<exists>i. x = Ack i)"

text \<open>Whether the message that ends the connection is a rejection.\<close>

definition ends_rejected :: "msg list \<Rightarrow> bool" where
  "ends_rejected ms = (case dropWhile is_ack ms of Rejected i d # _ \<Rightarrow> True | _ \<Rightarrow> False)"

lemma ends_rejected_simps [simp]:
  "\<not> ends_rejected []" "ends_rejected (Ack i # ms) = ends_rejected ms" "ends_rejected (Rejected i d # ms)"
  "\<not> ends_rejected (RateLimited # ms)" "\<not> ends_rejected (Hello c # ms)"
  by (simp_all add: ends_rejected_def is_ack_def)

lemma ends_rejected_append:
  "ends_rejected (ms @ xs) = (if list_all is_ack ms then ends_rejected xs else ends_rejected ms)"
proof (induction ms)
  case (Cons x ms)
  then show ?case by (cases x) (auto simp: is_ack_def)
qed simp

lemma down_mono: "m \<le> m' \<Longrightarrow> n \<le> n' \<Longrightarrow> down_ok low m n ms \<Longrightarrow> down_ok low m' n' ms"
  by (induction low m n ms rule: down_ok.induct) auto

lemma down_low: "low' \<le> low \<Longrightarrow> down_ok low m n ms \<Longrightarrow> down_ok low' m n ms"
  by (cases "(low, m, n, ms)" rule: down_ok.cases) auto

lemma down_snoc_ended: "down_ok low m n ms \<Longrightarrow> \<not> list_all is_ack ms \<Longrightarrow> down_ok low m n (ms @ xs)"
  by (induction low m n ms rule: down_ok.induct) (auto simp: is_ack_def)

lemma down_snoc:
  "down_ok low m n ms \<Longrightarrow> list_all is_ack ms \<Longrightarrow> low \<le> m \<Longrightarrow>
     (case x of Ack i \<Rightarrow> i = m | Rejected i d \<Rightarrow> m < i \<and> i \<le> n | RateLimited \<Rightarrow> True | Hello c \<Rightarrow> False) \<Longrightarrow>
     down_ok low m n (ms @ [x])"
  by (induction low m n ms rule: down_ok.induct) (auto simp: is_ack_def split: msg.splits)

lemma down_coalesce:
  "down_ok low m n (pre @ Ack a # Ack b # post) \<Longrightarrow> down_ok low m n (pre @ Ack b # post)"
proof (induction pre arbitrary: low)
  case (Cons x pre)
  then show ?case by (cases x) auto
qed (auto intro: down_low)

section \<open>The link invariant\<close>

abbreviation mark_of :: "string \<times> string \<Rightarrow> 'spec link \<Rightarrow> int" where
  "mark_of who lk \<equiv> stored_marks (jstore (srv_journal (lk_server lk))) who"

abbreviation box :: "'spec link \<Rightarrow> transaction_request outbox" where
  "box lk \<equiv> ss_outbox (lk_session lk)"

text \<open>What is kept of the requests: their ids number the history, the outbox is its tail, the log its head.\<close>

definition hist_inv :: "string \<times> string \<Rightarrow> 'spec link \<Rightarrow> bool" where
  "hist_inv who lk \<longleftrightarrow> srv_inv (lk_server lk) \<and> ss_inv (lk_session lk) \<and>
     map tr_txn_id (lk_hist lk) = [1 .. ob_next_id (box lk) - 1] \<and>
     (\<forall>r \<in> set (lk_hist lk). producer r = who) \<and>
     map e_payload (ob_queue (box lk)) = drop (nat (ob_last_ack (box lk))) (lk_hist lk) \<and>
     ob_last_ack (box lk) \<le> mark_of who lk \<and> mark_of who lk < ob_next_id (box lk) \<and>
     lk_log lk = take (nat (mark_of who lk)) (lk_hist lk) \<and>
     set (lk_up lk) \<subseteq> set (lk_hist lk) \<and> set (lk_late lk) \<subseteq> set (lk_hist lk)"

text \<open>What is kept of the connection in each phase.\<close>

definition frontier :: "bool \<Rightarrow> 'spec link \<Rightarrow> int" where
  "frontier background lk = (if background \<or> lk_replaying lk
     then ob_last_ack (box lk) + int (ob_next_unsent (box lk)) else ob_next_id (box lk) - 1)"

definition wire_inv :: "bool \<Rightarrow> string \<times> string \<Rightarrow> 'spec link \<Rightarrow> bool" where
  "wire_inv background who lk \<longleftrightarrow>
     (case ss_phase (lk_session lk) of
        Ready \<Rightarrow>
          down_ok (ob_last_ack (box lk)) (mark_of who lk) (ob_next_id (box lk) - 1) (lk_down lk) \<and>
          (ends_rejected (lk_down lk) \<longrightarrow> lk_refused lk) \<and>
          (lk_blocked lk \<longrightarrow> lk_dead lk \<or> \<not> list_all is_ack (lk_down lk)) \<and>
          (\<not> lk_blocked lk \<longrightarrow> \<not> lk_dead lk \<and> list_all is_ack (lk_down lk) \<and>
             stream_ok (mark_of who lk) (lk_up lk) \<and>
             frontier background lk \<le> reach (mark_of who lk) (lk_up lk))
      | AwaitingHello \<Rightarrow> lk_up lk = [] \<and> \<not> lk_blocked lk \<and> \<not> lk_dead lk \<and>
          ob_next_unsent (box lk) = 0 \<and>
          (lk_down lk = [] \<or> (\<exists>c. lk_down lk = [Hello c] \<and> ob_last_ack (box lk) \<le> c \<and> c \<le> mark_of who lk))
      | Disconnected \<Rightarrow> lk_up lk = [] \<and> lk_down lk = [] \<and> \<not> lk_blocked lk \<and> \<not> lk_dead lk
      | RecoveryRequired \<Rightarrow> lk_up lk = [] \<and> lk_down lk = [] \<and> lk_refused lk)"

definition link_inv :: "bool \<Rightarrow> string \<times> string \<Rightarrow> 'spec link \<Rightarrow> bool" where
  "link_inv background who lk \<longleftrightarrow> hist_inv who lk \<and> wire_inv background who lk"

section \<open>Server steps\<close>

lemma hist_nth:
  assumes "map tr_txn_id h = [1 .. n - 1]" "r \<in> set h"
  shows "1 \<le> tr_txn_id r \<and> tr_txn_id r < n \<and> nat (tr_txn_id r - 1) < length h \<and> h ! nat (tr_txn_id r - 1) = r"
proof -
  obtain k where k: "k < length h" "h ! k = r" using assms(2) by (auto simp: in_set_conv_nth)
  have len: "length h = nat (n - 1)" using assms(1) by (metis length_map length_upto diff_add_cancel add.commute)
  have "tr_txn_id r = [1 .. n - 1] ! k" using assms(1) k by (metis nth_map)
  also have "\<dots> = 1 + int k" using k(1) len by (simp add: nth_upto)
  finally show ?thesis using k len by auto
qed

lemma take_snoc_nth: "k < length h \<Longrightarrow> h ! k = r \<Longrightarrow> take k h @ [r] = take (Suc k) h"
  by (simp add: take_Suc_conv_app_nth)

lemma hist_commit:
  assumes inv: "hist_inv who lk" and r: "r \<in> set (lk_hist lk)" and run: "commit env r (lk_server lk) = (out, sv)"
  defines "lk' \<equiv> lk\<lparr>lk_server := sv, lk_log := log_commit r out (lk_log lk)\<rparr>"
  shows "hist_inv who lk' \<and> mark_of who lk \<le> mark_of who lk' \<and>
    (tr_txn_id r \<le> mark_of who lk + 1 \<and> \<not> isl out \<longrightarrow> mark_of who lk' = max (mark_of who lk) (tr_txn_id r)) \<and>
    (\<forall>c. out = Inr c \<longrightarrow> tc_txn_id c = mark_of who lk') \<and>
    (isl out \<longrightarrow> mark_of who lk' = mark_of who lk \<and> mark_of who lk < tr_txn_id r)"
proof -
  have sv: "srv_inv (lk_server lk)" and who: "producer r = who"
    and h: "map tr_txn_id (lk_hist lk) = [1 .. ob_next_id (box lk) - 1]"
    and m: "0 \<le> mark_of who lk" "lk_log lk = take (nat (mark_of who lk)) (lk_hist lk)"
    using inv r unfolding hist_inv_def srv_inv_def by blast+
  note nth = hist_nth [OF h r]
  note cm = commit_mark [OF sv run, unfolded who]
  show ?thesis
  proof (cases "is_committed out")
    case True
    with cm have c: "tr_txn_id r = mark_of who lk + 1" "mark_of who lk' = tr_txn_id r" "srv_inv sv"
      "\<exists>c. out = Inr c \<and> tc_txn_id c = tr_txn_id r"
      by (auto simp: lk'_def split: if_splits)
    have "nat (tr_txn_id r - 1) = nat (mark_of who lk)" using c(1) by simp
    then have "lk_log lk' = take (Suc (nat (mark_of who lk))) (lk_hist lk)"
      using take_snoc_nth [of "nat (mark_of who lk)" "lk_hist lk" r] nth True m(2) by (simp add: lk'_def log_commit_def)
    moreover have "Suc (nat (mark_of who lk)) = nat (tr_txn_id r)" using c(1) m(1) by simp
    ultimately have "lk_log lk' = take (nat (mark_of who lk')) (lk_hist lk)" by (simp only: c(2))
    then have "hist_inv who lk'" using inv c nth unfolding hist_inv_def by (simp add: lk'_def)
    with c show ?thesis by auto
  next
    case False
    with cm have c: "mark_of who lk' = mark_of who lk" "srv_inv sv"
      "tr_txn_id r \<le> mark_of who lk \<Longrightarrow> \<exists>c. out = Inr c \<and> tc_txn_id c = mark_of who lk"
      "mark_of who lk < tr_txn_id r \<Longrightarrow> isl out"
      by (auto simp: lk'_def split: if_splits)
    have "hist_inv who lk'" using inv c(1,2) False unfolding hist_inv_def by (simp add: lk'_def log_commit_def)
    with c show ?thesis by (cases "tr_txn_id r \<le> mark_of who lk") auto
  qed
qed

text \<open>A commit that is not of this connection only lets the mark grow.\<close>

lemma wire_mark_grows:
  assumes "wire_inv background who lk" "lk_session lk' = lk_session lk" "lk_up lk' = lk_up lk" "lk_down lk' = lk_down lk"
    "lk_blocked lk' = lk_blocked lk" "lk_dead lk' = lk_dead lk" "lk_refused lk' = lk_refused lk"
    "lk_replaying lk' = lk_replaying lk" "mark_of who lk \<le> mark_of who lk'"
  shows "wire_inv background who lk'"
proof -
  have "frontier background lk' = frontier background lk" by (simp add: frontier_def assms)
  then show ?thesis
    using assms(1,9) stream_mono [OF assms(9)] down_mono [OF assms(9) order_refl] reach_mono [OF assms(9), of "lk_up lk"]
    unfolding wire_inv_def assms(2-8) by (auto split: producer_phase.splits)
qed

lemma serve_other_inv:
  assumes "link_inv background who lk" "producer r \<noteq> who" "commit env r (lk_server lk) = (out, sv)"
  shows "link_inv background who (lk\<lparr>lk_server := sv\<rparr>)"
proof -
  have sv: "srv_inv (lk_server lk)" using assms(1) by (simp add: link_inv_def hist_inv_def)
  from commit_mark [OF sv assms(3)] assms(2)
  have "srv_inv sv" "stored_marks (jstore (srv_journal sv)) who = mark_of who lk"
    by (auto split: if_splits)
  with assms(1) wire_mark_grows [of background who lk "lk\<lparr>lk_server := sv\<rparr>"] show ?thesis
    by (simp add: link_inv_def hist_inv_def)
qed

lemma serve_late_inv:
  assumes "link_inv background who lk" "r \<in> set (lk_late lk)" "commit env r (lk_server lk) = (out, sv)"
  shows "link_inv background who (lk\<lparr>lk_server := sv, lk_log := log_commit r out (lk_log lk)\<rparr>)"
proof -
  have h: "hist_inv who lk" and r: "r \<in> set (lk_hist lk)" using assms(1,2) by (auto simp: link_inv_def hist_inv_def)
  note hc = hist_commit [OF h r assms(3)]
  then show ?thesis using assms(1)
      wire_mark_grows [of background who lk "lk\<lparr>lk_server := sv, lk_log := log_commit r out (lk_log lk)\<rparr>"]
    by (auto simp: link_inv_def)
qed

lemma up_phase:
  assumes "wire_inv background who lk" "lk_up lk \<noteq> []"
  shows "ss_phase (lk_session lk) = Ready"
  using assms by (auto simp: wire_inv_def split: producer_phase.splits)

lemma serve_inv:
  assumes inv: "link_inv background who lk" and up: "lk_up lk = r # rest" "\<not> lk_dead lk"
    and run: "commit env r (lk_server lk) = (out, sv)"
  shows "link_inv background who
    (lk\<lparr>lk_up := rest, lk_server := sv, lk_log := log_commit r out (lk_log lk),
        lk_down := lk_down lk @ reply silent r out d,
        lk_blocked := (lk_blocked lk \<or> isl out), lk_dead := (isl out \<and> silent),
        lk_refused := (lk_refused lk \<or> isl out \<and> \<not> lk_blocked lk)\<rparr>)"
    (is "link_inv background who ?lk")
proof -
  have h: "hist_inv who lk" and w: "wire_inv background who lk" using inv by (auto simp: link_inv_def)
  have r: "r \<in> set (lk_hist lk)" using h up by (auto simp: hist_inv_def)
  have ready: "ss_phase (lk_session lk) = Ready" using up_phase [OF w] up by simp
  note hc = hist_commit [OF h r run]
  have "set rest \<subseteq> set (lk_hist lk)" using h up by (auto simp: hist_inv_def)
  then have hist: "hist_inv who ?lk" using hc by (simp add: hist_inv_def)
  define M M' where "M = mark_of who lk" and "M' = stored_marks (jstore (srv_journal sv)) who"
  have grow: "M \<le> M'" using hc by (simp add: M_def M'_def)
  have low: "ob_last_ack (box lk) \<le> M'" using h grow by (simp add: hist_inv_def M_def)
  have id: "tr_txn_id r < ob_next_id (box lk)"
    using hist_nth [of "lk_hist lk" "ob_next_id (box lk)" r] h r by (simp add: hist_inv_def)
  have dn: "down_ok (ob_last_ack (box lk)) M' (ob_next_id (box lk) - 1) (lk_down lk)"
    using w ready down_mono [OF grow order_refl] by (simp add: wire_inv_def M_def)
  have down: "down_ok (ob_last_ack (box lk)) M' (ob_next_id (box lk) - 1) (lk_down lk @ reply silent r out d)"
  proof (cases "list_all is_ack (lk_down lk)")
    case True
    then show ?thesis
      using down_snoc [OF dn True low] dn hc id
      by (cases out) (auto simp: reply_def M'_def M_def)
  next
    case False
    with down_snoc_ended [OF dn] show ?thesis by simp
  qed
  have rej: "ends_rejected (lk_down lk @ reply silent r out d) \<Longrightarrow> lk_refused lk \<or> isl out \<and> \<not> lk_blocked lk"
    using w ready up(2) by (cases out) (auto simp: wire_inv_def ends_rejected_append reply_def split: if_splits)
  have "wire_inv background who ?lk"
  proof (cases "lk_blocked lk \<or> isl out")
    case True
    have "\<not> list_all is_ack (lk_down lk @ reply silent r out d) \<or> isl out \<and> silent"
      using True w ready up(2) by (cases out) (auto simp: wire_inv_def reply_def is_ack_def)
    with True down rej ready show ?thesis by (auto simp: wire_inv_def M'_def)
  next
    case False
    with w ready have "stream_ok M (r # rest)" "frontier background lk \<le> reach M (r # rest)" "list_all is_ack (lk_down lk)"
      by (simp_all add: wire_inv_def M_def up)
    moreover have "M' = max M (tr_txn_id r)" using hc False calculation(1) by (simp add: M_def M'_def)
    moreover have "list_all is_ack (reply silent r out d)" using False by (cases out) (auto simp: reply_def is_ack_def)
    moreover have "frontier background ?lk = frontier background lk" by (simp add: frontier_def)
    ultimately show ?thesis using False down rej ready
      by (simp add: wire_inv_def M'_def [symmetric])
  qed
  with hist show ?thesis by (simp add: link_inv_def)
qed

lemma limit_inv:
  assumes "link_inv background who lk" "lk_up lk = r # rest"
  shows "link_inv background who (lk\<lparr>lk_up := rest, lk_down := lk_down lk @ [RateLimited], lk_blocked := True\<rparr>)"
proof -
  have w: "wire_inv background who lk" and h: "hist_inv who lk" using assms(1) by (auto simp: link_inv_def)
  have ready: "ss_phase (lk_session lk) = Ready" using up_phase [OF w] assms(2) by simp
  have dn: "down_ok (ob_last_ack (box lk)) (mark_of who lk) (ob_next_id (box lk) - 1) (lk_down lk)"
    using w ready by (simp add: wire_inv_def)
  have "ob_last_ack (box lk) \<le> mark_of who lk" using h by (simp add: hist_inv_def)
  with dn down_snoc [OF dn, of RateLimited] down_snoc_ended [OF dn, of "[RateLimited]"]
  have "down_ok (ob_last_ack (box lk)) (mark_of who lk) (ob_next_id (box lk) - 1) (lk_down lk @ [RateLimited])"
    by (cases "list_all is_ack (lk_down lk)") auto
  moreover have "ends_rejected (lk_down lk @ [RateLimited]) \<Longrightarrow> lk_refused lk"
    using w ready by (auto simp: wire_inv_def ends_rejected_append split: if_splits)
  ultimately show ?thesis using h assms(2) ready
    by (auto simp: link_inv_def hist_inv_def wire_inv_def is_ack_def)
qed

section \<open>Producer steps\<close>

lemma connect_inv:
  assumes "link_inv background who lk" "begin_connection (lk_session lk) = (Some g, s)"
    "ss_phase (lk_session lk) = Disconnected"
  shows "link_inv background who (lk\<lparr>lk_session := s\<rparr>)"
proof -
  have s: "s = (lk_session lk)\<lparr>ss_generation := ss_generation (lk_session lk) + 1,
      ss_outbox := ob_mark_unsent (box lk), ss_phase := AwaitingHello\<rparr>"
    using assms(2,3) by (auto simp: begin_connection_def)
  have "ss_inv s" using ss_inv_operations(1) [of "lk_session lk"] assms(1,2) by (simp add: link_inv_def hist_inv_def)
  then show ?thesis using assms(1,3)
    by (simp add: link_inv_def hist_inv_def wire_inv_def s ob_mark_unsent_def)
qed

lemma hello_inv:
  assumes "link_inv background who lk" "ss_phase (lk_session lk) = AwaitingHello" "lk_down lk = []"
    "committed_through (fst who) (snd who) (srv_journal (lk_server lk)) = (c, j)"
  shows "link_inv background who (lk\<lparr>lk_down := [Hello c], lk_server := (lk_server lk)\<lparr>srv_journal := j\<rparr>\<rparr>)"
proof -
  define pc where "pc = progress_cache j"
  have sv: "log_inv (srv_journal (lk_server lk))" "cache_ok (srv_journal (lk_server lk))"
    "\<forall>p. 0 \<le> stored_marks (jstore (srv_journal (lk_server lk))) p"
    using assms(1) by (simp_all add: link_inv_def hist_inv_def srv_inv_def)
  have j: "j = (srv_journal (lk_server lk))\<lparr>progress_cache := pc\<rparr>" and c: "c = mark_of who lk" and ok: "cache_ok j"
    using committed_through_frame [of "fst who" "snd who" "srv_journal (lk_server lk)"]
      committed_through_value [OF sv(2), of "fst who" "snd who"]
      committed_through_cache_ok [OF sv(2), of "fst who" "snd who"] assms(4)
    by (simp_all add: pc_def stored_marks_def case_prod_beta)
  have st: "jstore j = jstore (srv_journal (lk_server lk))" "log_inv j" using sv(1) by (simp_all add: j)
  have "srv_inv ((lk_server lk)\<lparr>srv_journal := j\<rparr>)" unfolding srv_inv_def using st ok sv(3) by simp
  with assms(1-3) c st show ?thesis by (simp add: link_inv_def hist_inv_def wire_inv_def)
qed

text \<open>Taking a highwater between the last acknowledgement and the mark.\<close>

lemma acknowledge_hist:
  assumes h: "hist_inv who lk" and i: "ob_last_ack (box lk) \<le> i" "i \<le> mark_of who lk"
    and s: "ss_outbox s = ob_acknowledge i (box lk)" "ss_inv s"
  shows "hist_inv who (lk\<lparr>lk_session := s\<rparr>)" "ob_last_ack (ss_outbox s) = i"
    "ob_next_id (ss_outbox s) = ob_next_id (box lk)"
    "ob_last_ack (ss_outbox s) + int (ob_next_unsent (ss_outbox s)) =
      max i (ob_last_ack (box lk) + int (ob_next_unsent (box lk)))"
proof -
  define k where "k = nat (i - ob_last_ack (box lk))"
  have ob: "ob_inv (box lk)" "i < ob_next_id (box lk)" "0 \<le> ob_last_ack (box lk)"
    using h i by (auto simp: hist_inv_def ss_inv_def ob_inv_def)
  note pop = ob_acknowledge_queue [OF ob(1) i(1) ob(2), folded k_def]
  have k: "int k = i - ob_last_ack (box lk)" using i by (simp add: k_def)
  show last: "ob_last_ack (ss_outbox s) = i" "ob_next_id (ss_outbox s) = ob_next_id (box lk)"
    using i ob(2) by (simp_all add: s ob_acknowledge_def pop)
  show "ob_last_ack (ss_outbox s) + int (ob_next_unsent (ss_outbox s)) =
      max i (ob_last_ack (box lk) + int (ob_next_unsent (box lk)))"
    using k by (auto simp: last s ob_acknowledge_def pop)
  have "map e_payload (ob_queue (ss_outbox s)) = drop k (drop (nat (ob_last_ack (box lk))) (lk_hist lk))"
    using h by (simp add: s ob_acknowledge_def pop hist_inv_def flip: drop_map)
  moreover have "k + nat (ob_last_ack (box lk)) = nat i" using ob(3) i(1) by (simp add: k_def)
  ultimately have "map e_payload (ob_queue (ss_outbox s)) = drop (nat i) (lk_hist lk)" by simp
  with h i last s(2) show "hist_inv who (lk\<lparr>lk_session := s\<rparr>)" by (simp add: hist_inv_def)
qed

lemma highwater_accepted:
  assumes "hist_inv who lk" "ob_last_ack (box lk) \<le> i" "i \<le> mark_of who lk"
  shows "take_highwater i (lk_session lk) = (Accepted, (lk_session lk)\<lparr>ss_outbox := ob_acknowledge i (box lk)\<rparr>)"
  using assms highwater_bounds [of i "lk_session lk"] by (simp add: take_highwater_def hist_inv_def)

lemma accept_inv:
  assumes inv: "link_inv background who lk" and down: "lk_down lk = Hello c # rest"
    and acc: "accept_hello (ss_generation (lk_session lk)) c (lk_session lk) = (res, s)"
  shows "link_inv background who (lk\<lparr>lk_session := s, lk_down := rest, lk_replaying := \<not> background\<rparr>)"
proof -
  have h: "hist_inv who lk" and w: "wire_inv background who lk" using inv by (auto simp: link_inv_def)
  have ph: "ss_phase (lk_session lk) = AwaitingHello"
    using w down by (auto simp: wire_inv_def split: producer_phase.splits)
  then have c: "ob_last_ack (box lk) \<le> c" "c \<le> mark_of who lk" "rest = []" "lk_up lk = []" "\<not> lk_blocked lk" "\<not> lk_dead lk"
      "ob_next_unsent (box lk) = 0"
    using w down by (auto simp: wire_inv_def)
  have s: "s = (lk_session lk)\<lparr>ss_outbox := ob_acknowledge c (box lk), ss_phase := Ready\<rparr>"
    using acc ph by (simp add: accept_hello_def require_phase_def highwater_accepted [OF h c(1,2)])
  have "ss_inv s" using ss_inv_operations(2) [of "lk_session lk" "ss_generation (lk_session lk)" c] h acc
    by (simp add: hist_inv_def)
  note ack = acknowledge_hist [OF h c(1,2), of s, OF _ this]
  have hist: "hist_inv who (lk\<lparr>lk_session := s\<rparr>)" using ack(1) by (simp add: s)
  then have "hist_inv who (lk\<lparr>lk_session := s, lk_down := rest, lk_replaying := \<not> background\<rparr>)"
    by (simp add: hist_inv_def)
  moreover have "ob_last_ack (ss_outbox s) + int (ob_next_unsent (ss_outbox s)) \<le> mark_of who lk"
    using ack(4) c by (simp add: s)
  ultimately show ?thesis using c by (simp add: link_inv_def wire_inv_def s frontier_def)
qed

lemma acked_inv:
  assumes inv: "link_inv background who lk" and down: "lk_down lk = Ack i # rest"
    and acc: "acknowledge_through (ss_generation (lk_session lk)) i (lk_session lk) = (res, s)"
  shows "link_inv background who (lk\<lparr>lk_session := s, lk_down := rest\<rparr>)"
proof -
  have h: "hist_inv who lk" and w: "wire_inv background who lk" using inv by (auto simp: link_inv_def)
  have ph: "ss_phase (lk_session lk) = Ready"
    using w down by (auto simp: wire_inv_def split: producer_phase.splits)
  then have i: "ob_last_ack (box lk) \<le> i" "i \<le> mark_of who lk"
    and rest: "down_ok i (mark_of who lk) (ob_next_id (box lk) - 1) rest"
    using w down by (simp_all add: wire_inv_def)
  have s: "s = (lk_session lk)\<lparr>ss_outbox := ob_acknowledge i (box lk)\<rparr>"
    using acc ph by (simp add: acknowledge_through_def require_phase_def highwater_accepted [OF h i])
  have "ss_inv s" using ss_inv_operations(6) [of "lk_session lk" "ss_generation (lk_session lk)" i] h acc
    by (simp add: hist_inv_def)
  note ack = acknowledge_hist [OF h i, of s, OF _ this]
  have "hist_inv who (lk\<lparr>lk_session := s\<rparr>)" using ack(1) by (simp add: s)
  then have "hist_inv who (lk\<lparr>lk_session := s, lk_down := rest\<rparr>)" by (simp add: hist_inv_def)
  moreover have "frontier background (lk\<lparr>lk_session := s, lk_down := rest\<rparr>) \<le> max i (frontier background lk)"
    using ack(2-4) by (simp add: frontier_def s)
  moreover have "i \<le> reach (mark_of who lk) (lk_up lk)" using i(2) reach_ge [of "mark_of who lk" "lk_up lk"] by simp
  ultimately show ?thesis using w ph rest down ack(2,3)
    by (auto simp: link_inv_def wire_inv_def s is_ack_def)
qed

lemma claim_inv:
  assumes inv: "link_inv background who lk" and mode: "background \<or> lk_replaying lk"
    and cl: "claim_next_unsent (ss_generation (lk_session lk)) (lk_session lk) = (Accepted, Some e, s)"
  shows "link_inv background who (lk\<lparr>lk_session := s, lk_up := lk_up lk @ [e_payload e]\<rparr>)"
proof -
  have h: "hist_inv who lk" and w: "wire_inv background who lk" using inv by (auto simp: link_inv_def)
  have ob: "ob_inv (box lk)" using h by (simp add: hist_inv_def ss_inv_def)
  have act: "require_phase (ss_generation (lk_session lk)) Ready (lk_session lk) = Accepted"
    using cl by (cases "require_phase (ss_generation (lk_session lk)) Ready (lk_session lk)")
      (auto simp: claim_next_unsent_def Let_def)
  then have ph: "ss_phase (lk_session lk) = Ready" by (simp add: require_phase_Accepted)
  define n where "n = ob_next_unsent (box lk)"
  have n: "n < length (ob_queue (box lk))" and e: "e = ob_queue (box lk) ! n"
    and s: "s = (lk_session lk)\<lparr>ss_outbox := (box lk)\<lparr>ob_next_unsent := n + 1\<rparr>\<rparr>"
    using cl act ob by (auto simp: claim_next_unsent_def ob_claim_def n_def ob_inv_def split: if_splits)
  have "ss_inv s" using ss_inv_operations(5) [of "lk_session lk" "ss_generation (lk_session lk)"] h cl
    by (simp add: hist_inv_def)
  have pay: "e_payload e = drop (nat (ob_last_ack (box lk))) (lk_hist lk) ! n"
    using h n e by (metis hist_inv_def nth_map)
  have len: "n < length (drop (nat (ob_last_ack (box lk))) (lk_hist lk))"
    using h n by (metis hist_inv_def length_map)
  then have mem: "e_payload e \<in> set (lk_hist lk)" unfolding pay by (metis in_set_dropD nth_mem)
  define k where "k = nat (ob_last_ack (box lk)) + n"
  have k: "e_payload e = lk_hist lk ! k" "k < length (lk_hist lk)" using len by (simp_all add: pay k_def)
  have ids: "map tr_txn_id (lk_hist lk) = [1 .. ob_next_id (box lk) - 1]" using h by (simp add: hist_inv_def)
  then have "tr_txn_id (e_payload e) = [1 .. ob_next_id (box lk) - 1] ! k" using k by (metis nth_map)
  moreover have "length (lk_hist lk) = nat (ob_next_id (box lk) - 1)"
    using ids by (metis length_map length_upto diff_add_cancel add.commute)
  ultimately have id: "tr_txn_id (e_payload e) = ob_last_ack (box lk) + int n + 1"
    using k(2) ob by (simp add: nth_upto k_def ob_inv_def)
  have "hist_inv who (lk\<lparr>lk_session := s, lk_up := lk_up lk @ [e_payload e]\<rparr>)"
    using h mem \<open>ss_inv s\<close> by (simp add: hist_inv_def s)
  moreover have "frontier background lk = ob_last_ack (box lk) + int n" using mode by (simp add: frontier_def n_def)
  moreover have "frontier background (lk\<lparr>lk_session := s, lk_up := lk_up lk @ [e_payload e]\<rparr>) = tr_txn_id (e_payload e)"
    using mode by (simp add: frontier_def s id)
  ultimately show ?thesis using w ph
    by (auto simp: link_inv_def wire_inv_def s stream_snoc reach_snoc id)
qed

lemma replayed_inv:
  assumes inv: "link_inv background who lk" and mode: "lk_replaying lk"
    and cl: "claim_next_unsent (ss_generation (lk_session lk)) (lk_session lk) = (NoPendingTransaction, None, s)"
  shows "link_inv background who (lk\<lparr>lk_session := s, lk_replaying := False\<rparr>)"
proof -
  have h: "hist_inv who lk" and w: "wire_inv background who lk" using inv by (auto simp: link_inv_def)
  have ob: "ob_inv (box lk)" using h by (simp add: hist_inv_def ss_inv_def)
  have act: "require_phase (ss_generation (lk_session lk)) Ready (lk_session lk) = Accepted"
    using cl by (cases "require_phase (ss_generation (lk_session lk)) Ready (lk_session lk)")
      (auto simp: claim_next_unsent_def Let_def require_phase_def split: if_splits)
  then have ph: "ss_phase (lk_session lk) = Ready" by (simp add: require_phase_Accepted)
  have s: "s = lk_session lk" and n: "ob_next_unsent (box lk) = length (ob_queue (box lk))"
    using cl act by (auto simp: claim_next_unsent_def ob_claim_def split: if_splits)
  have "map e_id (ob_queue (box lk)) = [ob_last_ack (box lk) + 1 .. ob_next_id (box lk) - 1]"
    using ob by (simp add: ob_inv_def)
  then have "length (ob_queue (box lk)) = nat (ob_next_id (box lk) - 1 - ob_last_ack (box lk))"
    by (metis length_map length_upto add_diff_cancel_left' diff_diff_eq diff_add_cancel add.commute)
  then have "frontier background (lk\<lparr>lk_session := s, lk_replaying := False\<rparr>) = frontier background lk"
    using mode n ob by (simp add: frontier_def s ob_inv_def)
  with h w ph show ?thesis by (simp add: link_inv_def hist_inv_def wire_inv_def s)
qed

lemma link_submit_inv:
  assumes inv: "link_inv background who lk" and mode: "\<not> lk_replaying lk" "producer r = who"
    "tr_txn_id r = ob_next_id (box lk)"
    and app: "session_append (ss_generation (lk_session lk)) (tr_txn_id r) r n layer (lk_session lk) = (Accepted, s)"
  shows "link_inv background who
    (lk\<lparr>lk_session := s, lk_hist := lk_hist lk @ [r], lk_up := (if background then lk_up lk else lk_up lk @ [r])\<rparr>)"
    (is "link_inv background who ?lk")
proof -
  have h: "hist_inv who lk" and w: "wire_inv background who lk" using inv by (auto simp: link_inv_def)
  have ob: "ob_inv (box lk)" using h by (simp add: hist_inv_def ss_inv_def)
  have act: "require_phase (ss_generation (lk_session lk)) Ready (lk_session lk) = Accepted"
    and s: "s = (lk_session lk)\<lparr>ss_outbox := ob_append (tr_txn_id r) r n layer (box lk)\<rparr>"
    using app by (auto simp: session_append_def Let_def split: if_splits)
  then have ph: "ss_phase (lk_session lk) = Ready" by (simp add: require_phase_Accepted)
  have ss: "ss_inv s" using ss_inv_operations(4) [of "lk_session lk" "ss_generation (lk_session lk)" "tr_txn_id r" r n layer] h app
    by (simp add: hist_inv_def)
  have nid: "1 \<le> ob_next_id (box lk)" using ob by (simp add: ob_inv_def)
  have ids: "map tr_txn_id (lk_hist lk) = [1 .. ob_next_id (box lk) - 1]" using h by (simp add: hist_inv_def)
  then have len: "length (lk_hist lk) = nat (ob_next_id (box lk) - 1)"
    by (metis length_map length_upto diff_add_cancel add.commute)
  have bnd: "ob_last_ack (box lk) \<le> mark_of who lk" "mark_of who lk < ob_next_id (box lk)"
    using h by (simp_all add: hist_inv_def)
  then have "nat (ob_last_ack (box lk)) \<le> length (lk_hist lk)" "nat (mark_of who lk) \<le> length (lk_hist lk)"
    using len by auto
  moreover have "map tr_txn_id (lk_hist lk @ [r]) = [1 .. ob_next_id (box lk)]"
    using ids mode(3) nid by (simp add: upto_rec2)
  ultimately have hist: "hist_inv who ?lk"
    using h ss mode(2,3) bnd by (auto simp: hist_inv_def s ob_append_def)
  have fr: "frontier background ?lk = (if background then frontier background lk else ob_next_id (box lk))"
    using mode(1) by (simp add: frontier_def s ob_append_def)
  have fr': "\<not> background \<Longrightarrow> frontier background lk = ob_next_id (box lk) - 1"
    using mode(1) by (simp add: frontier_def)
  have dn: "down_ok (ob_last_ack (box lk)) (mark_of who lk) (ob_next_id (box lk)) (lk_down lk)"
    using w ph down_mono [of "mark_of who lk" "mark_of who lk" "ob_next_id (box lk) - 1" "ob_next_id (box lk)"]
    by (simp add: wire_inv_def)
  have "wire_inv background who ?lk"
    using w ph fr fr' dn mode(3) unfolding wire_inv_def
    by (simp add: s ob_append_def stream_snoc reach_snoc) (auto simp: le_max_iff_disj)
  with hist show ?thesis by (simp add: link_inv_def)
qed

lemma coalesce_inv:
  assumes "link_inv background who lk" "lk_down lk = pre @ Ack a # Ack b # post"
  shows "link_inv background who (lk\<lparr>lk_down := pre @ Ack b # post\<rparr>)"
proof -
  have ph: "ss_phase (lk_session lk) = Ready"
    using assms by (auto simp: link_inv_def wire_inv_def Cons_eq_append_conv split: producer_phase.splits)
  have "frontier background (lk\<lparr>lk_down := pre @ Ack b # post\<rparr>) = frontier background lk" by (simp add: frontier_def)
  with assms ph down_coalesce [of _ _ _ pre a b post] show ?thesis
    by (auto simp: link_inv_def hist_inv_def wire_inv_def is_ack_def ends_rejected_append)
qed

lemma close_inv:
  assumes "hist_inv who lk" "ss_phase (lk_session lk) = RecoveryRequired \<Longrightarrow> lk_refused lk"
  shows "link_inv background who (close_link k lk)"
proof -
  define s where "s = snd (session_disconnect (ss_generation (lk_session lk)) (lk_session lk))"
  have "ss_inv s" unfolding s_def using assms(1) by (intro ss_inv_operations) (simp add: hist_inv_def)
  moreover have "ss_outbox s = ob_mark_unsent (box lk)"
    "ss_phase s = (if ss_phase (lk_session lk) \<noteq> RecoveryRequired then Disconnected else RecoveryRequired)"
    by (simp_all add: s_def session_disconnect_def)
  moreover have "set (take k (lk_up lk)) \<subseteq> set (lk_hist lk)"
    using assms(1) set_take_subset by (fastforce simp: hist_inv_def)
  ultimately show ?thesis using assms
    by (auto simp: close_link_def s_def [symmetric] link_inv_def hist_inv_def wire_inv_def ob_mark_unsent_def)
qed

lemma rejected_inv:
  assumes inv: "link_inv background who lk" and down: "lk_down lk = Rejected i d # rest"
    and rj: "session_reject (ss_generation (lk_session lk)) i d (lk_session lk) = (res, s)"
  shows "link_inv background who (close_link k (lk\<lparr>lk_session := s\<rparr>))"
proof -
  have h: "hist_inv who lk" and w: "wire_inv background who lk" using inv by (auto simp: link_inv_def)
  have ph: "ss_phase (lk_session lk) = Ready"
    using w down by (auto simp: wire_inv_def split: producer_phase.splits)
  then have i: "ob_last_ack (box lk) < i" "i \<le> ob_next_id (box lk) - 1" "lk_refused lk"
    using w down by (simp_all add: wire_inv_def)
  have ss: "ss_inv s" using ss_inv_operations(7) [of "lk_session lk" "ss_generation (lk_session lk)" i d] h rj
    by (simp add: hist_inv_def)
  have "ss_outbox s = ob_mark_unsent (box lk)"
    using rj ph by (auto simp: session_reject_def require_phase_def enter_recovery_def split: if_splits)
  then have "hist_inv who (lk\<lparr>lk_session := s\<rparr>)"
    using h ss by (simp add: hist_inv_def ob_mark_unsent_def)
  then show ?thesis by (rule close_inv) (simp add: i(3))
qed

lemma link_step_inv: "link_step env background who lk lk' \<Longrightarrow> link_inv background who lk \<Longrightarrow> link_inv background who lk'"
proof (induction rule: link_step.induct)
  case (closed k lk)
  then show ?case
    by (intro close_inv) (auto simp: link_inv_def wire_inv_def)
qed (blast intro: connect_inv hello_inv accept_inv claim_inv replayed_inv link_submit_inv serve_inv limit_inv
    serve_late_inv serve_other_inv coalesce_inv acked_inv rejected_inv)+

interpretation lp: invariant_system "link_step env background who" "link_inv background who"
  for env :: "'spec env" and background who
  by unfold_locales (rule link_step_inv)

lemma new_link_inv:
  assumes "srv_inv sv" "stored_marks (jstore (srv_journal sv)) who = 0"
  shows "link_inv background who (new_link capacity sv)"
  using assms by (simp add: link_inv_def hist_inv_def wire_inv_def new_link_def new_session_def ss_inv_def
      ob_inv_simple) (simp add: new_outbox_def)

section \<open>Properties\<close>

text \<open>C2. End to end, every submitted transaction is committed at most once, in order and without
  gaps, and an acknowledged one is committed. From a well-formed server that has not seen the
  session, along any run of connections, lost sockets, reconnect replays, rate limits, late
  commits of closed connections and other producers' commits: the requests the server has
  committed for the session are the first ones submitted, exactly as many as its durable mark;
  the outbox holds exactly the submissions after the last acknowledgement, and acknowledgements
  never pass the mark. The producer enters recovery only if the server refused a request it
  should have committed next: never because of a lost, repeated or overtaken transaction.\<close>

theorem end_to_end_exactly_once:
  assumes "srv_inv sv" "stored_marks (jstore (srv_journal sv)) who = 0"
    and "(link_step env background who)\<^sup>*\<^sup>* (new_link capacity sv) lk"
  shows "lk_log lk = take (nat (mark_of who lk)) (lk_hist lk) \<and> mark_of who lk \<le> int (length (lk_hist lk)) \<and>
    map tr_txn_id (lk_hist lk) = [1 .. int (length (lk_hist lk))] \<and>
    map e_payload (ob_queue (box lk)) = drop (nat (ob_last_ack (box lk))) (lk_hist lk) \<and>
    ob_last_ack (box lk) \<le> mark_of who lk \<and>
    (ss_phase (lk_session lk) = RecoveryRequired \<longrightarrow> lk_refused lk)"
proof -
  have inv: "hist_inv who lk" "wire_inv background who lk"
    using lp.reach_invar [OF assms(3) new_link_inv [OF assms(1,2)]] by (auto simp: link_inv_def)
  then have ids: "map tr_txn_id (lk_hist lk) = [1 .. ob_next_id (box lk) - 1]" "1 \<le> ob_next_id (box lk)"
    by (simp_all add: hist_inv_def ss_inv_def ob_inv_def)
  then have "length (lk_hist lk) = nat (ob_next_id (box lk) - 1)"
    by (metis length_map length_upto diff_add_cancel add.commute)
  with inv ids show ?thesis by (auto simp: hist_inv_def wire_inv_def)
qed

theorem end_to_end_exactly_once_witness:
  "\<exists>lk. (link_step (plain_env (\<lambda>_. True)) False (''c'', ''s''))\<^sup>*\<^sup>* (new_link 4 plain_server) lk \<and>
     lk_hist lk = [plain_request 1] \<and> lk_log lk = take (nat (mark_of (''c'', ''s'') lk)) [plain_request 1]"
proof -
  define step where "step = link_step (plain_env (\<lambda>_. True)) False (''c'', ''s'')"
  define lk0 where "lk0 = new_link 4 plain_server"
  define lk1 where "lk1 = lk0\<lparr>lk_session := snd (begin_connection (lk_session lk0))\<rparr>"
  define ct where "ct = committed_through ''c'' ''s'' (srv_journal (lk_server lk1))"
  define lk2 where "lk2 = lk1\<lparr>lk_down := [Hello (fst ct)], lk_server := (lk_server lk1)\<lparr>srv_journal := snd ct\<rparr>\<rparr>"
  define lk3 where "lk3 = lk2\<lparr>lk_session := snd (accept_hello (ss_generation (lk_session lk2)) (fst ct) (lk_session lk2)),
    lk_down := [], lk_replaying := \<not> False\<rparr>"
  define lk4 where "lk4 = lk3\<lparr>lk_session := snd (snd (claim_next_unsent (ss_generation (lk_session lk3)) (lk_session lk3))),
    lk_replaying := False\<rparr>"
  define ap where "ap = session_append (ss_generation (lk_session lk4)) 1 (plain_request 1) 1 [] (lk_session lk4)"
  define lk5 where "lk5 = lk4\<lparr>lk_session := snd ap, lk_hist := lk_hist lk4 @ [plain_request 1],
    lk_up := (if False then lk_up lk4 else lk_up lk4 @ [plain_request 1])\<rparr>"
  have c: "fst ct = 0"
    by (simp add: ct_def lk1_def lk0_def new_link_def plain_server_def committed_through_def journal_init_def
        get_producer_progress_def empty_store_def)
  note defs = lk0_def lk1_def lk2_def lk3_def lk4_def new_link_def new_session_def new_outbox_def begin_connection_def
    accept_hello_def require_phase_def take_highwater_def validate_highwater_def claim_next_unsent_def ob_claim_def
    ob_mark_unsent_def ob_acknowledge_def Let_def c
  have s1: "step lk0 lk1" unfolding step_def lk1_def
    by (rule link_step.connect [where g = 1]) (simp_all add: lk0_def new_link_def new_session_def begin_connection_def)
  have s2: "step lk1 lk2" unfolding step_def lk2_def
    by (rule link_step.hello) (simp_all add: defs ct_def)
  have s3: "step lk2 lk3" unfolding step_def lk3_def
    by (rule link_step.accept [where c = "fst ct" and res = Accepted]) (simp_all add: defs)
  have s4: "step lk3 lk4" unfolding step_def lk4_def
    by (rule link_step.replayed) (simp_all add: defs)
  have ap: "ap = (Accepted, snd ap)"
    by (simp add: ap_def defs session_append_def ob_can_append_def)
  have s5: "step lk4 lk5" unfolding step_def lk5_def
    by (rule link_step.submit) (use ap in \<open>simp_all add: defs ap_def plain_request_def producer_def\<close>)
  obtain out sv where run: "commit (plain_env (\<lambda>_. True)) (plain_request 1) (lk_server lk5) = (out, sv)" by fastforce
  have up: "lk_up lk5 = [plain_request 1]" "\<not> lk_dead lk5" "lk_hist lk5 = [plain_request 1]"
    by (simp_all add: lk5_def defs)
  from link_step.serve [OF up(1,2) run] obtain lk6 where s6: "step lk5 lk6" "lk_hist lk6 = [plain_request 1]"
    unfolding step_def using up(3) by fastforce
  have run: "step\<^sup>*\<^sup>* lk0 lk6" using s1 s2 s3 s4 s5 s6(1)
    by (blast intro: converse_rtranclp_into_rtranclp)
  moreover have "stored_marks (jstore (srv_journal plain_server)) (''c'', ''s'') = 0"
    by (simp add: plain_server_def stored_marks_def journal_init_def get_producer_progress_def empty_store_def)
  note end_to_end_exactly_once [OF plain_server_inv this run [unfolded step_def lk0_def]]
  ultimately show ?thesis using s6(2) by (auto simp: step_def lk0_def)
qed

end
