(* ===== verification/Validation.thy ===== *)
theory Validation
  imports Protocol
begin

text \<open>
  Validation at the event admission boundary
  (\<open>openusdconnect/protocol_validation.py\<close>, with the validators it calls in
  \<open>sdf_spec_delta.py\<close>, \<open>shared_layer_graph.py\<close>, \<open>sdf_arc_state.py\<close> and
  \<open>connectable_attrs.py\<close>).

  A validator is a list of checks in source order; \<open>first_error\<close> raises the first that fails.
  Every check is total, so a check behind a failed one does no harm. The pxr predicates on
  paths, names and fragments are the record \<open>sdf_lib\<close>; a path is the string it is written as.
  A call that raises \<open>Tf.ErrorException\<close> returns \<open>Inl TfError\<close>.
\<close>

record 'layer sdf_lib =
  IsValidPathString :: "string \<Rightarrow> bool"
  IsAbsolutePath :: "string \<Rightarrow> bool"
  IsAbsoluteRoot :: "string \<Rightarrow> bool"
  IsPrimPath :: "string \<Rightarrow> bool"
  IsPropertyPath :: "string \<Rightarrow> bool"
  IsPrimPropertyPath :: "string \<Rightarrow> bool"
  IsPrimVariantSelectionPath :: "string \<Rightarrow> bool"
  ContainsPrimVariantSelection :: "string \<Rightarrow> bool"
  VariantSelection :: "string \<Rightarrow> string"
  StrippedPrimPath :: "string \<Rightarrow> string"
  IsValidIdentifier :: "string \<Rightarrow> bool"
  IsValidNamespacedIdentifier :: "string \<Rightarrow> bool"
  FindValueType :: "string \<Rightarrow> bool"
  IsAnonymousLayerIdentifier :: "string \<Rightarrow> bool"
  SplitPackageOuter :: "string \<Rightarrow> string"
  ImportFromString :: "string \<Rightarrow> 'layer option res"
  SpecKindAt :: "'layer \<Rightarrow> string \<Rightarrow> string option"
  HasSubLayers :: "'layer \<Rightarrow> bool"

section \<open>Checks\<close>

fun first_error :: "unit res list \<Rightarrow> unit res" where
  "first_error [] = Inr ()"
| "first_error (c # cs) = (case c of Inl e \<Rightarrow> Inl e | Inr _ \<Rightarrow> first_error cs)"

definition require :: "bool \<Rightarrow> string \<Rightarrow> unit res" where
  "require b message = (if b then Inr () else Inl (ValueError message))"

definition require_res :: "bool res \<Rightarrow> string \<Rightarrow> unit res" where
  "require_res b message = (case b of Inl e \<Rightarrow> Inl e | Inr v \<Rightarrow> require v message)"

text \<open>\<open>all(...)\<close> over a generator that may raise.\<close>

fun all_res :: "('a \<Rightarrow> bool res) \<Rightarrow> 'a list \<Rightarrow> bool res" where
  "all_res p [] = Inr True"
| "all_res p (x # xs) = (case p x of Inl e \<Rightarrow> Inl e | Inr b \<Rightarrow> if b then all_res p xs else Inr False)"

definition py_get :: "string \<Rightarrow> event \<Rightarrow> pyval" where
  "py_get key ev = (case map_of ev key of None \<Rightarrow> PNone | Some v \<Rightarrow> v)"

definition py_get_default :: "string \<Rightarrow> pyval \<Rightarrow> event \<Rightarrow> pyval" where
  "py_get_default key d ev = (case map_of ev key of None \<Rightarrow> d | Some v \<Rightarrow> v)"

definition has_key :: "event \<Rightarrow> string \<Rightarrow> bool" where
  "has_key ev key = (map_of ev key \<noteq> None)"

fun is_str where "is_str (PStr s) = True" | "is_str v = False"
fun is_bool where "is_bool (PBool b) = True" | "is_bool v = False"
fun is_int where "is_int (PInt n) = True" | "is_int v = False"
fun is_list where "is_list (PList xs) = True" | "is_list v = False"
fun is_dict where "is_dict (PDict d) = True" | "is_dict v = False"
fun str_of where "str_of (PStr s) = s" | "str_of v = []"
fun items_of where "items_of (PList xs) = xs" | "items_of (PTuple xs) = xs" | "items_of v = []"
fun dict_of where "dict_of (PDict d) = d" | "dict_of v = []"
fun is_sequence where "is_sequence (PList xs) = True" | "is_sequence (PTuple xs) = True" | "is_sequence v = False"

fun hashable :: "pyval \<Rightarrow> bool" where
  "hashable (PList xs) = False"
| "hashable (PDict d) = False"
| "hashable (PArray shape kind) = False"
| "hashable (PTuple xs) = list_all hashable xs"
| "hashable v = True"

definition require_hashable :: "pyval list \<Rightarrow> unit res" where
  "require_hashable vs = (if list_all hashable vs then Inr () else Inl (TypeError ''unhashable type''))"

text \<open>
  \<open>math.isfinite(float(value))\<close>: an integer that rounds beyond the largest double raises
  \<open>OverflowError\<close>.
\<close>

definition float_limit :: int where
  "float_limit = 2 ^ 1024 - 2 ^ 970"

definition int_to_float :: "int \<Rightarrow> unit res" where
  "int_to_float n = (if \<bar>n\<bar> < float_limit then Inr () else Inl (OverflowError ''int too large to convert to float''))"

definition is_finite_number :: "pyval \<Rightarrow> bool res" where
  "is_finite_number v =
     (case v of
        PInt n \<Rightarrow> (case int_to_float n of Inl e \<Rightarrow> Inl e | Inr _ \<Rightarrow> Inr True)
      | PReal x \<Rightarrow> Inr True
      | _ \<Rightarrow> Inr False)"

definition require_finite :: "pyval \<Rightarrow> unit res" where
  "require_finite v = require_res (is_finite_number v) ''must be a finite number''"

definition require_optional_time :: "event \<Rightarrow> unit res" where
  "require_optional_time ev = (if py_get ''time'' ev = PNone then Inr () else require_finite (py_get ''time'' ev))"

definition sdf_path :: "'layer sdf_lib \<Rightarrow> pyval \<Rightarrow> unit res" where
  "sdf_path lib v = require (is_str v \<and> str_of v \<noteq> [] \<and> IsValidPathString lib (str_of v)) ''must be a valid Sdf path''"

definition require_prim_path :: "'layer sdf_lib \<Rightarrow> pyval \<Rightarrow> unit res" where
  "require_prim_path lib v = first_error
     [sdf_path lib v,
      require (IsAbsolutePath lib (str_of v) \<and> IsPrimPath lib (str_of v)) ''must be an absolute prim path'',
      require (\<not> IsAbsoluteRoot lib (str_of v)) ''must identify a prim, not the pseudo-root'',
      require (\<not> ContainsPrimVariantSelection lib (str_of v)) ''cannot contain variant selections'']"

definition require_identifier :: "'layer sdf_lib \<Rightarrow> pyval \<Rightarrow> unit res" where
  "require_identifier lib v = require (is_str v \<and> IsValidIdentifier lib (str_of v)) ''must be a valid Sdf identifier''"

definition require_namespaced :: "'layer sdf_lib \<Rightarrow> pyval \<Rightarrow> unit res" where
  "require_namespaced lib v =
     require (is_str v \<and> IsValidNamespacedIdentifier lib (str_of v)) ''must be a valid Sdf namespaced identifier''"

definition require_bool :: "string \<Rightarrow> event \<Rightarrow> unit res" where
  "require_bool key ev = require (is_bool (py_get key ev)) ''must be boolean''"

definition require_string :: "string \<Rightarrow> event \<Rightarrow> unit res" where
  "require_string key ev = require (is_str (py_get key ev)) ''must be a string''"

definition require_nonempty_string :: "string \<Rightarrow> event \<Rightarrow> unit res" where
  "require_nonempty_string key ev =
     require (is_str (py_get key ev) \<and> str_of (py_get key ev) \<noteq> []) ''must be a non-empty string''"

definition require_field_set :: "string list \<Rightarrow> event \<Rightarrow> unit res" where
  "require_field_set allowed ev =
     (let fields = py_get ''fields'' ev
      in first_error
        [require (is_list fields \<and> items_of fields \<noteq> []) ''fields must be a non-empty list'',
         require_hashable (items_of fields),
         require (distinct (items_of fields) \<and> list_all (\<lambda>f. f \<in> PStr ` set allowed) (items_of fields))
           ''fields contain duplicates or unsupported names''])"

definition require_vector :: "nat \<Rightarrow> pyval \<Rightarrow> unit res" where
  "require_vector n v = first_error
     [require (is_sequence v \<and> length (items_of v) = n) ''must contain numbers'',
      require_res (all_res is_finite_number (items_of v)) ''must contain finite numbers'']"

definition caught :: "unit res \<Rightarrow> bool res" where
  "caught r = (case r of Inr _ \<Rightarrow> Inr True | Inl (ValueError _) \<Rightarrow> Inr False | Inl e \<Rightarrow> Inl e)"

definition is_quat_valid :: "pyval \<Rightarrow> bool res" where
  "is_quat_valid q = caught (require_vector 4 q)"

definition is_vec3_valid :: "pyval \<Rightarrow> bool res" where
  "is_vec3_valid v = caught (require_vector 3 v)"

definition clamp_fields :: "string list \<Rightarrow> string list" where
  "clamp_fields fs = filter (\<lambda>f. f \<in> set TRS_FIELDS) fs"

section \<open>Sublayer entries and spec deltas\<close>

text \<open>\<open>posixpath.isabs\<close>, \<open>ntpath.isabs\<close> and the scheme of \<open>urllib.parse.urlsplit\<close>.\<close>

definition posix_isabs :: "string \<Rightarrow> bool" where
  "posix_isabs s = (take 1 s = ''/'')"

definition nt_isabs :: "string \<Rightarrow> bool" where
  "nt_isabs s =
     (let s = map (\<lambda>c. if c = CHR ''/'' then CHR 0x5C else c) (take 3 s)
      in drop 1 s = [CHR '':'', CHR 0x5C] \<or> take 2 s = [CHR 0x5C, CHR 0x5C])"

definition ascii_lower :: "char \<Rightarrow> char" where
  "ascii_lower c = (if 65 \<le> (of_char c :: nat) \<and> of_char c \<le> (90 :: nat) then char_of (of_char c + 32 :: nat) else c)"

definition url_scheme_is_file :: "string \<Rightarrow> bool" where
  "url_scheme_is_file s =
     (let s = filter (\<lambda>c. of_char c \<notin> {9 :: nat, 10, 13}) (dropWhile (\<lambda>c. of_char c \<le> (32 :: nat)) s)
      in CHR '':'' \<in> set s \<and> map ascii_lower (takeWhile (\<lambda>c. c \<noteq> CHR '':'') s) = ''file'')"

definition is_local_asset_path :: "'layer sdf_lib \<Rightarrow> string \<Rightarrow> bool" where
  "is_local_asset_path lib identifier =
     (let outer = SplitPackageOuter lib identifier
      in posix_isabs outer \<or> nt_isabs outer \<or> url_scheme_is_file outer)"

text \<open>
  \<open>float(x)\<close> of a finite number. The value is kept: rounding an integer to a double is the
  identity on the entries this is applied to twice.
\<close>

fun is_number where "is_number (PInt n) = True" | "is_number (PReal x) = True" | "is_number PNonFinite = True"
  | "is_number v = False"

fun to_float :: "pyval \<Rightarrow> pyval" where
  "to_float (PInt n) = PReal (of_int n)"
| "to_float v = v"

definition normalize_entry :: "'layer sdf_lib \<Rightarrow> string list \<Rightarrow> pyval \<Rightarrow> event res" where
  "normalize_entry lib seen entry =
     (let d = dict_of entry; path = str_of (py_get ''authored_path'' d);
          offset = py_get_default ''offset'' (PReal 0) d; scale = py_get_default ''scale'' (PReal 1) d;
          layer_key = py_get_default ''layer_key'' (PStr []) d;
          checks = first_error
            [require (is_dict entry) ''sublayer entries must be dictionaries'',
             require (is_str (py_get ''authored_path'' d) \<and> path \<noteq> [])
               ''sublayer authored paths must be non-empty strings'',
             require (\<not> (IsAnonymousLayerIdentifier lib path \<or> is_local_asset_path lib path))
               ''shared-stage sublayers must have portable asset identifiers'',
             require (path \<notin> set seen) ''duplicate authored sublayer path'',
             require (is_number offset \<and> is_number scale) ''sublayer offsets and scales must be finite numbers'',
             require_res (all_res is_finite_number [offset, scale])
               ''sublayer offsets and scales must be finite numbers'',
             require (is_str layer_key) ''sublayer layer keys must be strings'']
      in case checks of
           Inl e \<Rightarrow> Inl e
         | Inr _ \<Rightarrow> Inr ([(''authored_path'', PStr path), (''offset'', to_float offset), (''scale'', to_float scale)] @
               (if str_of layer_key = [] then [] else [(''layer_key'', layer_key)])))"

fun normalize_loop :: "'layer sdf_lib \<Rightarrow> string list \<Rightarrow> pyval list \<Rightarrow> event list res" where
  "normalize_loop lib seen [] = Inr []"
| "normalize_loop lib seen (entry # entries) =
     (case normalize_entry lib seen entry of
        Inl e \<Rightarrow> Inl e
      | Inr item \<Rightarrow>
          (case normalize_loop lib (ev_str ''authored_path'' item # seen) entries of
             Inl e \<Rightarrow> Inl e | Inr items \<Rightarrow> Inr (item # items)))"

definition normalize_sublayer_entries :: "'layer sdf_lib \<Rightarrow> pyval list \<Rightarrow> event list res" where
  "normalize_sublayer_entries lib entries = normalize_loop lib [] entries"

definition spec_path_valid :: "'layer sdf_lib \<Rightarrow> string \<Rightarrow> string \<Rightarrow> bool" where
  "spec_path_valid lib path kind =
     (if kind = ''layer'' then IsAbsoluteRoot lib path
      else if kind = ''prim'' then IsPrimPath lib path
      else if kind \<in> {''attribute'', ''relationship'', ''property''} then IsPropertyPath lib path
      else if kind = ''variant_set''
        then IsPrimVariantSelectionPath lib path \<and> VariantSelection lib path = []
      else IsPrimVariantSelectionPath lib path \<and> VariantSelection lib path \<noteq> [])"

definition spec_path :: "'layer sdf_lib \<Rightarrow> string \<Rightarrow> string \<Rightarrow> unit res" where
  "spec_path lib path kind = first_error
     [require (kind \<in> set SDF_SPEC_KINDS) ''unknown Sdf spec kind'',
      require (IsAbsolutePath lib path) ''expected an absolute Sdf spec path'',
      require (spec_path_valid lib path kind) ''path is not valid for Sdf spec kind'']"

definition event_prim_path :: "'layer sdf_lib \<Rightarrow> string \<Rightarrow> string \<Rightarrow> string" where
  "event_prim_path lib path kind = (if kind = ''layer'' then ''/'' else StrippedPrimPath lib path)"

definition get_spec :: "'layer sdf_lib \<Rightarrow> 'layer \<Rightarrow> string \<Rightarrow> string \<Rightarrow> bool" where
  "get_spec lib layer path kind =
     (if kind = ''layer'' then True
      else case SpecKindAt lib layer path of
        None \<Rightarrow> False
      | Some k \<Rightarrow> if kind = ''property'' then k \<in> {''attribute'', ''relationship''} else k = kind)"

definition fragment_authored_fields :: "'layer sdf_lib \<Rightarrow> string \<Rightarrow> string \<Rightarrow> string \<Rightarrow> unit res" where
  "fragment_authored_fields lib fragment path kind =
     (case spec_path lib path kind of
        Inl e \<Rightarrow> Inl e
      | Inr _ \<Rightarrow>
          (case ImportFromString lib fragment of
             Inl e \<Rightarrow> Inl e
           | Inr None \<Rightarrow> Inl (ValueError ''invalid Sdf spec fragment'')
           | Inr (Some layer) \<Rightarrow> require (get_spec lib layer path kind) ''fragment has no spec''))"

definition spec_delta_info :: "'layer sdf_lib \<Rightarrow> event \<Rightarrow> unit res" where
  "spec_delta_info lib ev =
     (let kind = ev_str ''spec_kind'' ev; path = ev_str ''spec_path'' ev;
          fs = py_get_default ''fields'' (PTuple []) ev; removed = py_get_default ''removed'' (PBool False) ev
      in first_error
        [spec_path lib path kind,
         require (py_get ''prim'' ev \<in> {PNone, PStr (event_prim_path lib path kind)}) ''Sdf spec path belongs to another prim'',
         require (is_sequence fs) ''Sdf spec fields must be a list'',
         require (list_all (\<lambda>f. is_str f \<and> str_of f \<noteq> []) (items_of fs)) ''Sdf spec field names must be non-empty strings'',
         require (\<not> (kind = ''layer'' \<and> list_ex (\<lambda>f. str_of f \<in> set SDF_LAYER_TOPOLOGY_FIELDS) (items_of fs)))
           ''sublayer topology is not a field-delta operation'',
         require (is_bool removed) ''Sdf spec removed state must be boolean'',
         require (\<not> (removed = PBool True \<and> kind = ''layer'')) ''the pseudo-root spec cannot be removed'',
         require (\<not> (kind = ''property'' \<and> removed \<noteq> PBool True)) ''the generic property kind is valid only for removal''])"

definition validate_spec_delta :: "'layer sdf_lib \<Rightarrow> event \<Rightarrow> unit res" where
  "validate_spec_delta lib ev =
     (case spec_delta_info lib ev of
        Inl e \<Rightarrow> Inl e
      | Inr _ \<Rightarrow>
          if py_get ''removed'' ev = PBool True then Inr ()
          else if ev_str ''fragment'' ev = [] then Inl (ValueError ''set_sdf_spec_fields requires a valid Sdf fragment'')
          else fragment_authored_fields lib (ev_str ''fragment'' ev) (ev_str ''spec_path'' ev) (ev_str ''spec_kind'' ev))"

definition validate_layer_content_replacement :: "'layer sdf_lib \<Rightarrow> event \<Rightarrow> unit res" where
  "validate_layer_content_replacement lib ev =
     (if ev_str ''fragment'' ev = [] then Inl (ValueError ''replace_sdf_layer_content requires a valid Sdf fragment'')
      else case ImportFromString lib (ev_str ''fragment'' ev) of
        Inl e \<Rightarrow> Inl e
      | Inr None \<Rightarrow> Inl (ValueError ''replace_sdf_layer_content requires a valid Sdf fragment'')
      | Inr (Some layer) \<Rightarrow> require (\<not> HasSubLayers lib layer) ''layer content replacement cannot author sublayer topology'')"

definition deserialize_reference_custom_data :: "'layer sdf_lib \<Rightarrow> string \<Rightarrow> unit res" where
  "deserialize_reference_custom_data lib fragment =
     (if fragment = [] then Inr ()
      else case ImportFromString lib fragment of
        Inl e \<Rightarrow> Inl e
      | Inr None \<Rightarrow> Inl (ValueError ''invalid reference custom-data fragment'')
      | Inr (Some _) \<Rightarrow> Inr ())"

definition split_qualified_attr :: "pyval \<Rightarrow> string \<times> string" where
  "split_qualified_attr v =
     (let s = str_of v
      in if take 7 s = ''inputs:'' \<and> 7 < length s then (''input'', drop 7 s)
         else if take 8 s = ''outputs:'' \<and> 8 < length s then (''output'', drop 8 s)
         else ([], []))"

section \<open>One validator per event kind\<close>

definition validate_ensure_prim :: "'layer sdf_lib \<Rightarrow> event \<Rightarrow> unit res" where
  "validate_ensure_prim lib ev =
     (let api = py_get ''api_schemas'' ev
      in first_error
        [require_string ''typeName'' ev,
         require (api = PNone \<or> is_list api \<and> list_all (\<lambda>n. is_str n \<and> str_of n \<noteq> [] \<and>
             IsValidNamespacedIdentifier lib (str_of n)) (items_of api))
           ''api_schemas must contain valid Sdf schema identifiers''])"

definition validate_xform :: "event \<Rightarrow> unit res" where
  "validate_xform ev =
     (let fs = items_of (py_get ''fields'' ev)
      in first_error
        ([require_field_set TRS_FIELDS ev,
          require (set fs = PStr ` set (filter (has_key ev) TRS_FIELDS))
            ''transform fields must exactly match the supplied t/r/s values''] @
         map (\<lambda>f. require_vector (if f = PStr ''r'' then 4 else 3) (py_get (str_of f) ev)) fs @
         [require_optional_time ev]))"

definition validate_active :: "event \<Rightarrow> unit res" where
  "validate_active ev = require_bool ''active'' ev"

definition validate_rename :: "'layer sdf_lib \<Rightarrow> event \<Rightarrow> unit res" where
  "validate_rename lib ev = require_identifier lib (py_get ''new_name'' ev)"

definition validate_visibility :: "event \<Rightarrow> unit res" where
  "validate_visibility ev = first_error [require_bool ''visible'' ev, require_optional_time ev]"

definition valid_attr_value :: "pyval \<Rightarrow> bool" where
  "valid_attr_value v =
     (case v of
        PBool _ \<Rightarrow> True | PStr _ \<Rightarrow> True | PInt _ \<Rightarrow> True | PReal _ \<Rightarrow> True | PList _ \<Rightarrow> True
      | PArray shape kind \<Rightarrow> 1 \<le> length shape \<and> kind \<in> set ''biufSU''
      | _ \<Rightarrow> False)"

definition validate_primvar :: "'layer sdf_lib \<Rightarrow> string \<times> pyval \<Rightarrow> unit res" where
  "validate_primvar lib nm =
     (let (name, metadata) = nm; type_name = py_get ''typeName'' (dict_of metadata);
          interpolation = py_get ''interpolation'' (dict_of metadata)
      in first_error
        [require_namespaced lib (PStr name),
         require (is_dict metadata) ''primvar metadata must be a dictionary'',
         require (is_str type_name \<and> FindValueType lib (str_of type_name)) ''primvar has an invalid Sdf type'',
         require (interpolation = PNone \<or> is_str interpolation) ''primvar interpolation must be a string''])"

definition validate_gprim_attrs :: "'layer sdf_lib \<Rightarrow> event \<Rightarrow> unit res" where
  "validate_gprim_attrs lib ev =
     (let attrs = py_get ''attrs'' ev; meta = py_get_default ''primvar_meta'' (PDict []) ev;
          interp = py_get_default ''attr_interp'' (PDict []) ev
      in first_error
        ([require (is_dict attrs) ''attrs must be a dictionary''] @
         concat (map (\<lambda>(name, v). [require_namespaced lib (PStr name),
           require (valid_attr_value v) ''attribute has an unsupported value'']) (dict_of attrs)) @
         [require (is_dict meta) ''primvar_meta must be a dictionary''] @
         map (validate_primvar lib) (dict_of meta) @
         [require (is_dict interp \<and> list_all (\<lambda>(name, v). is_str v) (dict_of interp))
            ''attr_interp must map attribute names to strings'',
          require_optional_time ev]))"

definition validate_arc_entry :: "'layer sdf_lib \<Rightarrow> bool \<Rightarrow> bool \<Rightarrow> pyval \<Rightarrow> unit res" where
  "validate_arc_entry lib explicit references entry =
     (let d = dict_of entry; asset = py_get ''asset_path'' d; prim = py_get ''prim_path'' d;
          position = py_get_default ''list_position'' (PStr (if explicit then ''explicit'' else ''prepended'')) d;
          fragment = py_get ''custom_data_fragment'' d
      in first_error
        [require (is_dict entry) ''arc entries must be dictionaries'',
         require (\<not> (asset = PNone \<and> prim = PNone)) ''an arc entry requires an asset_path or prim_path'',
         require (asset = PNone \<or> is_str asset) ''arc asset_path must be a string'',
         require (\<not> (asset = PStr [] \<and> prim = PNone)) ''an empty arc asset_path requires an internal prim_path'',
         if prim = PNone then Inr () else require_prim_path lib prim,
         require_hashable [position],
         require (position \<in> PStr ` set ARC_LIST_POSITIONS \<and> explicit = (position = PStr ''explicit''))
           ''arc list position does not match the list-op mode'',
         require_finite (py_get_default ''layer_offset'' (PReal 0) d),
         require_finite (py_get_default ''layer_scale'' (PReal 1) d),
         require (fragment = PNone \<or> references \<and> is_str fragment \<and> str_of fragment \<noteq> [])
           ''only references may carry non-empty custom data'',
         if fragment = PNone then Inr () else deserialize_reference_custom_data lib (str_of fragment)])"

definition validate_arc_event :: "'layer sdf_lib \<Rightarrow> string \<Rightarrow> bool \<Rightarrow> event \<Rightarrow> unit res" where
  "validate_arc_event lib key references ev =
     (let arcs = py_get key ev;
          explicit = py_get_default ''list_op_explicit'' (PBool False) ev;
          authored = py_get_default ''list_op_authored'' (if items_of arcs \<noteq> [] then PBool True else explicit) ev
      in first_error
        ([require (is_list arcs) ''must be a list'',
          require (is_bool explicit \<and> is_bool authored) ''arc list-op flags must be boolean'',
          require (\<not> (authored = PBool False \<and> (items_of arcs \<noteq> [] \<or> explicit = PBool True)))
            ''an unauthored list op cannot contain entries or be explicit''] @
         map (validate_arc_entry lib (explicit = PBool True) references) (items_of arcs)))"

definition validate_references :: "'layer sdf_lib \<Rightarrow> event \<Rightarrow> unit res" where
  "validate_references lib ev = validate_arc_event lib ''refs'' True ev"

definition validate_payloads :: "'layer sdf_lib \<Rightarrow> event \<Rightarrow> unit res" where
  "validate_payloads lib ev = validate_arc_event lib ''payloads'' False ev"

definition validate_variants :: "'layer sdf_lib \<Rightarrow> event \<Rightarrow> unit res" where
  "validate_variants lib ev =
     (let selections = py_get ''selections'' ev
      in first_error
        ([require (is_dict selections) ''selections must be a dictionary''] @
         concat (map (\<lambda>(set_name, selection).
           [require (is_str selection) ''variant set names and selections must be strings'',
            require (IsValidPathString lib (''/Prim{'' @ set_name @ ''='' @ str_of selection @ ''}''))
              ''invalid variant selection'']) (dict_of selections))))"

definition validate_material_binding :: "'layer sdf_lib \<Rightarrow> event \<Rightarrow> unit res" where
  "validate_material_binding lib ev =
     (let material = py_get ''material_path'' ev; purpose = py_get ''material_purpose'' ev
      in first_error
        [require_string ''material_path'' ev,
         if str_of material = [] then Inr () else require_prim_path lib material,
         if truthy (Some purpose) then require_namespaced lib purpose
         else require (purpose = PNone \<or> is_str purpose) ''material_purpose must be a string''])"

definition valid_connectable_value :: "pyval \<Rightarrow> bool res" where
  "valid_connectable_value v =
     (case v of
        PBool _ \<Rightarrow> Inr True | PStr _ \<Rightarrow> Inr True | PInt _ \<Rightarrow> Inr True | PReal _ \<Rightarrow> Inr True
      | PArray shape kind \<Rightarrow> Inr (length shape = 1 \<and> kind \<in> set ''biufSU'')
      | PList xs \<Rightarrow> if list_all is_str xs then Inr True else all_res is_finite_number xs
      | _ \<Rightarrow> Inr False)"

definition validate_connectable_input :: "'layer sdf_lib \<Rightarrow> event \<Rightarrow> unit res" where
  "validate_connectable_input lib ev =
     (let inputs = py_get ''inputs'' ev; types = py_get_default ''input_types'' (PDict []) ev
      in first_error
        ([require_string ''info_id'' ev, require (is_dict inputs) ''inputs must be a dictionary''] @
         concat (map (\<lambda>(name, v). [require_namespaced lib (PStr name),
           require_res (valid_connectable_value v) ''input has an unsupported value'']) (dict_of inputs)) @
         [require (is_dict types \<and> set (dict_keys (dict_of types)) \<subseteq> set (dict_keys (dict_of inputs)))
            ''input_types must map a subset of inputs''] @
         map (\<lambda>(name, t). require (is_str t \<and> (str_of t = [] \<or> FindValueType lib (str_of t)))
           ''input has an invalid Sdf type'') (dict_of types) @
         [require_optional_time ev]))"

definition require_connectable_attr :: "'layer sdf_lib \<Rightarrow> pyval \<Rightarrow> unit res" where
  "require_connectable_attr lib v =
     (let (side, base_name) = split_qualified_attr v
      in require (side \<noteq> [] \<and> IsValidNamespacedIdentifier lib base_name)
           ''must be a qualified inputs:/outputs: attribute'')"

definition validate_connection :: "'layer sdf_lib \<Rightarrow> string \<times> pyval \<Rightarrow> unit res" where
  "validate_connection lib lc =
     (let (local_attr, connection) = lc
      in first_error
        [require_connectable_attr lib (PStr local_attr),
         require (is_dict connection) ''connection sources must be dictionaries'',
         require_prim_path lib (py_get ''source_prim'' (dict_of connection)),
         require_connectable_attr lib (py_get ''source_attr'' (dict_of connection))])"

definition validate_connectable_connections :: "'layer sdf_lib \<Rightarrow> event \<Rightarrow> unit res" where
  "validate_connectable_connections lib ev =
     (let connections = py_get ''connections'' ev; dis = py_get_default ''disconnections'' (PList []) ev
      in first_error
        ([require (is_dict connections) ''connections must be a dictionary''] @
         map (validate_connection lib) (dict_of connections) @
         [require (is_list dis) ''disconnections must be a list''] @
         map (require_connectable_attr lib) (items_of dis)))"

fun is_positive where
  "is_positive (PInt n) = (0 < n)" | "is_positive (PReal x) = (0 < x)" | "is_positive v = False"

definition validate_metadata_field :: "event \<Rightarrow> string \<Rightarrow> unit res" where
  "validate_metadata_field ev key =
     (let v = py_get key ev
      in if key = ''upAxis'' then require (v \<in> {PStr ''Y'', PStr ''Z''}) ''upAxis must be Y or Z''
         else first_error
           [require_finite v,
            require (key \<notin> {''timeCodesPerSecond'', ''framesPerSecond'', ''metersPerUnit''} \<or> is_positive v)
              ''must be positive''])"

definition validate_stage_metadata :: "event \<Rightarrow> unit res" where
  "validate_stage_metadata ev =
     (let present = filter (has_key ev) STAGE_METADATA_KEYS
      in first_error
        (require (present \<noteq> []) ''set_stage_metadata must contain at least one metadata field'' #
         map (validate_metadata_field ev) present))"

definition validate_instanceable :: "event \<Rightarrow> unit res" where
  "validate_instanceable ev = require_bool ''instanceable'' ev"

text \<open>
  \<open>_require_bulk_array\<close>: arrays by shape and dtype, lists by their elements. A bool in a flat
  list is refused; in the float case an oversized integer raises.
\<close>

definition bulk_item :: "bool \<Rightarrow> pyval \<Rightarrow> bool res" where
  "bulk_item integer v = (if integer then Inr (is_int v) else is_finite_number v)"

definition bulk_row :: "nat \<Rightarrow> pyval \<Rightarrow> bool res" where
  "bulk_row w row =
     (if is_sequence row \<and> length (items_of row) = w then all_res is_finite_number (items_of row)
      else Inr False)"

definition require_bulk_array :: "nat option \<Rightarrow> bool \<Rightarrow> pyval \<Rightarrow> unit res" where
  "require_bulk_array width integer v =
     (case v of
        PArray shape kind \<Rightarrow> first_error
          [require (case width of None \<Rightarrow> length shape = 1 | Some w \<Rightarrow> length shape = 2 \<and> shape ! 1 = w)
             ''has an invalid array shape'',
           require (kind \<in> set (if integer then ''iu'' else ''iuf'')) ''has an invalid array dtype'']
      | _ \<Rightarrow> first_error
          [require (is_list v) ''must be a list or numpy array'',
           require_res (case width of None \<Rightarrow> all_res (bulk_item integer) (items_of v)
                        | Some w \<Rightarrow> all_res (bulk_row w) (items_of v)) ''has invalid values''])"

definition BULK_FIELDS :: "(string \<times> nat option \<times> bool) list" where
  "BULK_FIELDS =
     map (\<lambda>f. (f, None, True)) [''proto_indices'', ''ids'', ''invisible_ids'', ''inactive_ids''] @
     [(''positions'', Some 3, False), (''orientations'', Some 4, False), (''scales'', Some 3, False),
      (''velocities'', Some 3, False), (''accelerations'', Some 3, False),
      (''angular_velocities'', Some 3, False)]"

definition validate_point_instancer :: "'layer sdf_lib \<Rightarrow> event \<Rightarrow> unit res" where
  "validate_point_instancer lib ev =
     (let fs = items_of (py_get ''fields'' ev); present = filter (has_key ev) POINT_INSTANCER_FIELDS;
          prototypes = py_get ''prototypes'' ev
      in first_error
        ([require_field_set POINT_INSTANCER_FIELDS ev,
          require (set fs = PStr ` set present) ''point-instancer fields must exactly match supplied values'',
          require (\<not> (py_get ''time'' ev \<noteq> PNone \<and> (has_key ev ''prototypes'' \<or> has_key ev ''inactive_ids'')))
            ''prototypes and inactive_ids cannot be time-sampled''] @
         (if has_key ev ''prototypes'' then require (is_list prototypes) ''prototypes must be a list'' #
            map (require_prim_path lib) (items_of prototypes) else []) @
         map (\<lambda>(f, width, integer). require_bulk_array width integer (py_get f ev))
           (filter (\<lambda>(f, width, integer). has_key ev f) BULK_FIELDS) @
         [require_optional_time ev]))"

definition validate_erase_time_samples :: "'layer sdf_lib \<Rightarrow> event \<Rightarrow> unit res" where
  "validate_erase_time_samples lib ev =
     (let path = py_get ''spec_path'' ev; times = py_get ''times'' ev
      in first_error
        ([sdf_path lib path,
          require (IsAbsolutePath lib (str_of path) \<and> IsPrimPropertyPath lib (str_of path))
            ''spec_path must be an absolute attribute path'',
          require (py_get ''prim'' ev = PStr (StrippedPrimPath lib (str_of path))) ''prim must match the spec_path owner'',
          require (is_list times \<and> items_of times \<noteq> []) ''times must be a non-empty list''] @
         map require_finite (items_of times)))"

definition validate_sdf_spec_fields :: "'layer sdf_lib \<Rightarrow> event \<Rightarrow> unit res" where
  "validate_sdf_spec_fields lib ev = first_error
     [require (py_get ''spec_kind'' ev \<in> PStr ` set SDF_SPEC_KINDS) ''spec_kind is invalid'',
      require (is_str (py_get ''spec_path'' ev)) ''spec_path must be a string'',
      require (is_list (py_get ''fields'' ev)) ''fields must be a list'',
      require (is_str (py_get ''fragment'' ev)) ''fragment must be a string'',
      require (is_bool (py_get ''removed'' ev)) ''removed must be boolean'',
      validate_spec_delta lib ev]"

definition validate_layer_replacement :: "'layer sdf_lib \<Rightarrow> event \<Rightarrow> unit res" where
  "validate_layer_replacement lib ev = first_error
     [require (py_get ''prim'' ev = PStr ''/'') ''replace_sdf_layer_content must target the pseudo-root'',
      validate_layer_content_replacement lib ev]"

fun is_nonneg_int where "is_nonneg_int (PInt n) = (0 \<le> n)" | "is_nonneg_int v = False"

definition validate_sublayers :: "'layer sdf_lib \<Rightarrow> event \<Rightarrow> unit res" where
  "validate_sublayers lib ev =
     (let sublayers = py_get ''sublayers'' ev
      in first_error
        [require (py_get ''prim'' ev = PStr ''/'') ''set_sublayers must target the pseudo-root'',
         require_nonempty_string ''generation'' ev,
         require (is_nonneg_int (py_get ''revision'' ev)) ''revision must be a non-negative integer'',
         require (is_list sublayers) ''sublayers must be a list'',
         map_sum id (\<lambda>_. ()) (normalize_sublayer_entries lib (items_of sublayers))])"

section \<open>Admission\<close>

text \<open>The registry of validators; every kind of the table has one.\<close>

definition spec_validate :: "'layer sdf_lib \<Rightarrow> string \<Rightarrow> (event \<Rightarrow> unit res) option" where
  "spec_validate lib = map_of
     [(K_ENSURE_PRIM, validate_ensure_prim lib),
      (K_ENSURE_XFORM_OPS, \<lambda>_. Inr ()), (K_DELETE_PRIM, \<lambda>_. Inr ()),
      (K_LOAD_PAYLOAD, \<lambda>_. Inr ()), (K_UNLOAD_PAYLOAD, \<lambda>_. Inr ()),
      (K_SET_XFORM_TRS, validate_xform), (K_DEACTIVATE_PRIM, validate_active),
      (K_RENAME_PRIM, validate_rename lib), (K_SET_VISIBILITY, validate_visibility),
      (K_SET_GPRIM_ATTRS, validate_gprim_attrs lib), (K_SET_REFERENCE, validate_references lib),
      (K_SET_PAYLOAD, validate_payloads lib), (K_SET_VARIANT_SELECTIONS, validate_variants lib),
      (K_SET_MATERIAL_BINDING, validate_material_binding lib),
      (K_SET_CONNECTABLE_INPUT, validate_connectable_input lib),
      (K_SET_CONNECTABLE_CONNECTION, validate_connectable_connections lib),
      (K_SET_STAGE_METADATA, validate_stage_metadata), (K_SET_INSTANCEABLE, validate_instanceable),
      (K_SET_POINT_INSTANCER, validate_point_instancer lib),
      (K_ERASE_TIME_SAMPLES, validate_erase_time_samples lib),
      (K_SET_SDF_SPEC_FIELDS, validate_sdf_spec_fields lib),
      (K_REPLACE_SDF_LAYER_CONTENT, validate_layer_replacement lib),
      (K_SET_SUBLAYERS, validate_sublayers lib)]"

definition pathless_kinds :: "string list" where
  "pathless_kinds = [K_SET_STAGE_METADATA, K_SET_SDF_SPEC_FIELDS, K_REPLACE_SDF_LAYER_CONTENT, K_SET_SUBLAYERS]"

text \<open>\<open>except Tf.ErrorException\<close>.\<close>

definition tf_caught :: "unit res \<Rightarrow> unit res" where
  "tf_caught r = (case r of Inl TfError \<Rightarrow> Inl (ValueError ''invalid payload'') | r \<Rightarrow> r)"

definition validate_event_or_raise ::
  "'layer sdf_lib \<Rightarrow> layer_mode option \<Rightarrow> pyval \<Rightarrow> unit res" where
  "validate_event_or_raise lib mode v =
     (let ev = dict_of v; kind = str_of (py_get ''k'' ev)
      in case first_error
           [require (is_dict v) ''events must be dictionaries'',
            require (is_str (py_get ''k'' ev)) ''event kind must be a string'',
            require (map_of EVENT_KIND_INFO kind \<noteq> None \<and> spec_validate lib kind \<noteq> None)
              ''unknown or unvalidated event kind'',
            require (case mode of None \<Rightarrow> True
                     | Some m \<Rightarrow> m \<in> set (modes (the (map_of EVENT_KIND_INFO kind)))) ''event is unavailable in this mode'',
            if kind \<in> set pathless_kinds then Inr () else require_prim_path lib (py_get ''prim'' ev)]
         of Inl e \<Rightarrow> Inl e
          | Inr _ \<Rightarrow> tf_caught (case spec_validate lib kind of None \<Rightarrow> Inr () | Some f \<Rightarrow> f ev))"

definition kind_count :: "string \<Rightarrow> pyval list \<Rightarrow> nat" where
  "kind_count kind evs = length (filter (\<lambda>v. py_get ''k'' (dict_of v) = PStr kind) evs)"

definition indexed_error :: "unit res \<Rightarrow> unit res" where
  "indexed_error r = (case r of
     Inl (TypeError m) \<Rightarrow> Inl (ValueError m) | Inl (ValueError m) \<Rightarrow> Inl (ValueError m) | r \<Rightarrow> r)"

definition validate_events :: "'layer sdf_lib \<Rightarrow> layer_mode option \<Rightarrow> pyval \<Rightarrow> unit res" where
  "validate_events lib mode v =
     (let evs = items_of v
      in first_error
        ([require (is_list v \<and> evs \<noteq> []) ''a transaction must contain at least one event''] @
         map (\<lambda>ev. indexed_error (validate_event_or_raise lib mode ev)) evs @
         (if mode = None \<or> mode = Some SHARED_STAGE
          then [require (kind_count K_SET_SUBLAYERS evs \<le> 1)
                  ''one shared-stage transaction may replace a parent topology once'',
                require (kind_count K_REPLACE_SDF_LAYER_CONTENT evs \<le> 1)
                  ''one shared-stage transaction may replace layer content once'']
          else [])))"

definition validate_event :: "'layer sdf_lib \<Rightarrow> pyval \<Rightarrow> bool res" where
  "validate_event lib v =
     (case validate_event_or_raise lib None v of
        Inr _ \<Rightarrow> Inr True
      | Inl (TypeError _) \<Rightarrow> Inr False
      | Inl (ValueError _) \<Rightarrow> Inr False
      | Inl e \<Rightarrow> Inl e)"

section \<open>Checks that pass\<close>

lemma first_error_ok [simp]: "first_error cs = Inr u \<longleftrightarrow> list_all (\<lambda>c. c = Inr ()) cs"
  by (induction cs) (auto split: sum.splits)

lemma require_ok [simp]: "require b m = Inr u \<longleftrightarrow> b"
  by (simp add: require_def)

lemma require_res_ok [simp]: "require_res b m = Inr u \<longleftrightarrow> b = Inr True"
  by (auto simp: require_res_def require_def split: sum.splits)

lemma all_res_ok [simp]: "all_res p xs = Inr True \<longleftrightarrow> list_all (\<lambda>x. p x = Inr True) xs"
  by (induction xs) (auto split: sum.splits)

lemma require_hashable_ok [simp]: "require_hashable vs = Inr u \<longleftrightarrow> list_all hashable vs"
  by (simp add: require_hashable_def)

lemma sequence_ok [simp]: "(case c of Inl e \<Rightarrow> Inl e | Inr _ \<Rightarrow> r) = Inr u \<longleftrightarrow> ok c \<and> r = Inr u"
  by (cases c) auto

lemma ok_unit [simp]: "ok (c :: unit res) \<longleftrightarrow> c = Inr ()"
  by (cases c) auto

lemma tf_caught_ok [simp]: "tf_caught r = Inr u \<longleftrightarrow> r = Inr u"
  by (auto simp: tf_caught_def split: sum.splits py_exn.splits)

lemma is_str_iff: "is_str v \<longleftrightarrow> v = PStr (str_of v)"
  by (cases v) auto

lemma is_dict_iff: "is_dict v \<longleftrightarrow> v = PDict (dict_of v)"
  by (cases v) auto

lemma ev_str_py_get: "ev_str key ev = str_of (py_get key ev)"
  by (simp add: ev_str_def py_get_def split: option.split pyval.split)

section \<open>Which exceptions a validator raises\<close>

text \<open>\<open>small v\<close>: no integer of \<open>v\<close> is too large for a double, as for every decoded wire value.\<close>

fun small :: "pyval \<Rightarrow> bool" where
  "small (PInt n) = (\<bar>n\<bar> < float_limit)"
| "small (PList xs) = list_all small xs"
| "small (PTuple xs) = list_all small xs"
| "small (PDict d) = list_all (\<lambda>kv. small (snd kv)) d"
| "small v = True"

definition benign :: "'a res \<Rightarrow> bool" where
  "benign r \<longleftrightarrow> (\<forall>e. r = Inl e \<longrightarrow> e = TfError \<or> (\<exists>m. e = ValueError m \<or> e = TypeError m))"

declare first_error.simps [simp del] all_res.simps [simp del] small.simps(4) [simp del]

named_theorems benign_simps "checks that raise only ValueError, TypeError or a Tf error"

lemma benign_results [benign_simps]: "benign (Inr x)" "benign (Inl (ValueError m))"
  by (simp_all add: benign_def)

lemma benign_first_error [benign_simps]: "list_all benign cs \<Longrightarrow> benign (first_error cs)"
  by (induction cs) (auto simp: benign_def first_error.simps split: sum.splits)

lemma benign_case: "benign c \<Longrightarrow> benign (case c of Inl e \<Rightarrow> Inl e | Inr _ \<Rightarrow> Inr y)"
  by (cases c) (auto simp: benign_def)

lemma benign_require [benign_simps]: "benign (require b m)" "benign (require_hashable vs)"
  by (simp_all add: benign_def require_def require_hashable_def)

lemma benign_require_res [benign_simps]: "benign b \<Longrightarrow> benign (require_res b m)"
  by (auto simp: benign_def require_res_def require_def split: sum.splits)

lemma benign_all_res [benign_simps]: "list_all (\<lambda>x. benign (p x)) xs \<Longrightarrow> benign (all_res p xs)"
  by (induction xs) (auto simp: benign_def all_res.simps split: sum.splits)

lemma benign_finite [benign_simps]: "small v \<Longrightarrow> benign (is_finite_number v)"
  by (cases v) (auto simp: benign_def is_finite_number_def int_to_float_def)

lemma small_dict: "small (PDict d) \<Longrightarrow> map_of d key = Some v \<Longrightarrow> small v"
  by (induction d) (auto simp: small.simps(4) split: if_splits)

lemma small_get [benign_simps]:
  "small (PDict ev) \<Longrightarrow> small (py_get key ev)"
  "small (PDict ev) \<Longrightarrow> small d \<Longrightarrow> small (py_get_default key d ev)"
  by (auto simp: py_get_def py_get_default_def dest: small_dict split: option.split)

lemma small_dict_of [benign_simps]: "small v \<Longrightarrow> small (PDict (dict_of v))"
  by (cases v) (auto simp: small.simps(4))

lemma small_items: "small v \<Longrightarrow> list_all small (items_of v)"
  by (cases v) auto

lemma small_item: "small v \<Longrightarrow> x \<in> set (items_of v) \<Longrightarrow> small x"
  using small_items by (auto simp: list_all_iff)

lemma small_value: "small v \<Longrightarrow> (name, x) \<in> set (dict_of v) \<Longrightarrow> small x"
  by (cases v) (auto simp: list_all_iff small.simps(4))

lemma benign_numbers [benign_simps]:
  "small v \<Longrightarrow> benign (require_finite v)"
  "small (PDict ev) \<Longrightarrow> benign (require_optional_time ev)"
  "small v \<Longrightarrow> benign (require_vector n v)"
  by (simp_all add: require_finite_def require_optional_time_def require_vector_def benign_simps
      list_all_iff small_item [of v])

lemma benign_names [benign_simps]:
  "benign (sdf_path lib v)" "benign (require_prim_path lib v)"
  "benign (require_identifier lib v)" "benign (require_namespaced lib v)" "benign (require_bool key ev)"
  "benign (require_string key ev)" "benign (require_nonempty_string key ev)"
  "benign (require_connectable_attr lib v)" "benign (require_field_set allowed ev)"
  by (simp_all add: sdf_path_def require_prim_path_def require_identifier_def require_namespaced_def
      require_bool_def require_string_def require_nonempty_string_def require_connectable_attr_def
      require_field_set_def benign_simps case_prod_beta Let_def)

text \<open>What is relied on of pxr: importing a fragment fails only with a Tf error.\<close>

definition import_raises_tf :: "'layer sdf_lib \<Rightarrow> bool" where
  "import_raises_tf lib \<longleftrightarrow> (\<forall>fragment e. ImportFromString lib fragment = Inl e \<longrightarrow> e = TfError)"

lemma benign_import [benign_simps]:
  assumes "import_raises_tf lib"
  shows "benign (fragment_authored_fields lib fragment path kind)"
    "benign (validate_layer_content_replacement lib ev)"
    "benign (deserialize_reference_custom_data lib fragment)"
proof -
  have tf: "ImportFromString lib f = Inl e \<Longrightarrow> e = TfError" for f e
    using assms by (simp add: import_raises_tf_def)
  have path: "benign (spec_path lib path kind)" by (simp add: spec_path_def benign_simps)
  show "benign (fragment_authored_fields lib fragment path kind)"
    using path tf
    by (auto simp: fragment_authored_fields_def benign_def require_def split: sum.splits option.splits)
  show "benign (validate_layer_content_replacement lib ev)"
    using tf by (auto simp: validate_layer_content_replacement_def benign_def require_def
        split: sum.splits option.splits)
  show "benign (deserialize_reference_custom_data lib fragment)"
    using tf by (auto simp: deserialize_reference_custom_data_def benign_def split: sum.splits option.splits)
qed

lemma benign_spec_delta [benign_simps]: "import_raises_tf lib \<Longrightarrow> benign (validate_spec_delta lib ev)"
proof -
  assume lib: "import_raises_tf lib"
  have "benign (spec_delta_info lib ev)"
    by (simp add: spec_delta_info_def spec_path_def benign_simps Let_def)
  then show ?thesis using benign_import(1) [OF lib]
    by (auto simp: validate_spec_delta_def benign_results split: sum.split)
qed

lemma benign_normalize_entry:
  assumes "small entry"
  shows "benign (normalize_entry lib seen entry)"
proof -
  have d: "small (PDict (dict_of entry))" using assms by (simp add: benign_simps)
  show ?thesis unfolding normalize_entry_def Let_def
    by (rule benign_case) (auto simp: d benign_simps)
qed

lemma benign_normalize [benign_simps]:
  assumes "list_all small entries"
  shows "benign (map_sum id f (normalize_sublayer_entries lib entries))"
proof -
  have "benign (normalize_loop lib seen entries)" for seen
    using assms
  proof (induction entries arbitrary: seen)
    case (Cons e es)
    from Cons.prems benign_normalize_entry [of e lib seen] Cons.IH show ?case
      by (auto simp: benign_results benign_def split: sum.splits)
  qed (simp add: benign_results)
  then show ?thesis unfolding normalize_sublayer_entries_def
    by (cases "normalize_loop lib [] entries") (auto simp: benign_def)
qed

lemma benign_value [benign_simps]:
  assumes "small v"
  shows "benign (valid_connectable_value v)" "benign (require_bulk_array width integer v)"
proof -
  note item = small_item [OF assms]
  show "benign (valid_connectable_value v)"
    using assms by (cases v) (auto simp: valid_connectable_value_def benign_simps list_all_iff)
  have row: "benign (bulk_row w x)" if "x \<in> set (items_of v)" for w x
    using small_item [OF item [OF that]] by (auto simp: bulk_row_def benign_simps list_all_iff)
  have flat: "benign (bulk_item integer x)" if "x \<in> set (items_of v)" for x
    using item [OF that] by (auto simp: bulk_item_def benign_simps)
  have list: "benign (first_error [require b m, require_res (case width of None \<Rightarrow> all_res (bulk_item integer) (items_of v)
      | Some w \<Rightarrow> all_res (bulk_row w) (items_of v)) m'])" for b m m'
    using row flat by (cases width) (auto simp: benign_simps list_all_iff)
  show "benign (require_bulk_array width integer v)"
    using list by (cases v) (auto simp: require_bulk_array_def benign_simps)
qed

lemma benign_arc_entry: "import_raises_tf lib \<Longrightarrow> small entry \<Longrightarrow> benign (validate_arc_entry lib x r entry)"
  unfolding validate_arc_entry_def Let_def by (simp add: benign_simps)

lemma benign_validators:
  assumes "small (PDict ev)"
  shows "benign (validate_ensure_prim lib ev)" "benign (validate_xform ev)" "benign (validate_active ev)"
    "benign (validate_rename lib ev)" "benign (validate_visibility ev)" "benign (validate_variants lib ev)"
    "benign (validate_material_binding lib ev)" "benign (validate_stage_metadata ev)"
    "benign (validate_instanceable ev)" "benign (validate_point_instancer lib ev)"
    "benign (validate_erase_time_samples lib ev)" "benign (validate_sublayers lib ev)"
    "benign (validate_connectable_connections lib ev)" "benign (validate_gprim_attrs lib ev)"
    "benign (validate_connectable_input lib ev)"
proof -
  note d = benign_simps Let_def case_prod_beta list_all_iff assms small_items
  show "benign (validate_ensure_prim lib ev)" by (simp add: validate_ensure_prim_def d)
  show "benign (validate_xform ev)" by (simp add: validate_xform_def d)
  show "benign (validate_active ev)" by (simp add: validate_active_def d)
  show "benign (validate_rename lib ev)" by (simp add: validate_rename_def d)
  show "benign (validate_visibility ev)" by (simp add: validate_visibility_def d)
  show "benign (validate_variants lib ev)" by (auto simp: validate_variants_def d)
  show "benign (validate_material_binding lib ev)" by (simp add: validate_material_binding_def d)
  have "benign (validate_metadata_field ev key)" for key
    by (auto simp: validate_metadata_field_def d)
  then show "benign (validate_stage_metadata ev)" by (simp add: validate_stage_metadata_def d)
  show "benign (validate_instanceable ev)" by (simp add: validate_instanceable_def d)
  show "benign (validate_point_instancer lib ev)" 
    unfolding validate_point_instancer_def Let_def by (rule benign_first_error) (auto simp: d)
  show "benign (validate_erase_time_samples lib ev)"
    by (simp add: validate_erase_time_samples_def d small_item [of "py_get ''times'' ev"])
  show "benign (validate_sublayers lib ev)"
    by (simp add: validate_sublayers_def d small_item [of "py_get ''sublayers'' ev"])
  show "benign (validate_connectable_connections lib ev)"
    unfolding validate_connectable_connections_def Let_def
    by (rule benign_first_error) (auto simp: validate_connection_def d)
  show "benign (validate_gprim_attrs lib ev)"
    unfolding validate_gprim_attrs_def Let_def
    by (rule benign_first_error) (auto simp: validate_primvar_def d)
  show "benign (validate_connectable_input lib ev)"
    unfolding validate_connectable_input_def Let_def
    by (rule benign_first_error) (use small_value [of "py_get ''inputs'' ev"] in \<open>auto simp: d\<close>)
qed

lemma benign_spec_validate:
  assumes "import_raises_tf lib" "small (PDict ev)" "spec_validate lib kind = Some f"
  shows "benign (f ev)"
proof -
  have arcs: "benign (validate_arc_event lib key r ev)" for key r
    unfolding validate_arc_event_def Let_def
    using small_item [of "py_get key ev"] benign_arc_entry [OF assms(1)]
    by (auto simp: benign_simps list_all_iff assms)
  have "benign (validate_sdf_spec_fields lib ev)" "benign (validate_layer_replacement lib ev)"
    by (simp_all add: validate_sdf_spec_fields_def validate_layer_replacement_def benign_simps assms)
  with assms(3) arcs benign_validators [OF assms(2)] show ?thesis
    by (auto simp: spec_validate_def validate_references_def validate_payloads_def benign_results
        split: if_splits)
qed

section \<open>Available kinds\<close>

lemma validate_event_or_raise_iff:
  "validate_event_or_raise lib mode v = Inr () \<longleftrightarrow> is_dict v \<and> is_str (py_get ''k'' (dict_of v)) \<and>
     (\<exists>info f. map_of EVENT_KIND_INFO (str_of (py_get ''k'' (dict_of v))) = Some info \<and>
        spec_validate lib (str_of (py_get ''k'' (dict_of v))) = Some f \<and> f (dict_of v) = Inr () \<and>
        (\<forall>m. mode = Some m \<longrightarrow> m \<in> set (modes info))) \<and>
     (str_of (py_get ''k'' (dict_of v)) \<in> set pathless_kinds \<or>
      require_prim_path lib (py_get ''prim'' (dict_of v)) = Inr ())"
  unfolding validate_event_or_raise_def Let_def
  by (cases "map_of EVENT_KIND_INFO (str_of (py_get ''k'' (dict_of v)))";
      cases "spec_validate lib (str_of (py_get ''k'' (dict_of v)))") (auto split: option.splits)

lemma validate_mode_split:
  "validate_event_or_raise lib (Some m) v = Inr () \<longleftrightarrow> validate_event_or_raise lib None v = Inr () \<and>
     (\<exists>info. map_of EVENT_KIND_INFO (ev_kind (dict_of v)) = Some info \<and> m \<in> set (modes info))"
  unfolding validate_event_or_raise_iff ev_kind_def ev_str_py_get by auto

lemma indexed_error_ok [simp]: "indexed_error r = Inr u \<longleftrightarrow> r = Inr u"
  by (auto simp: indexed_error_def split: sum.splits py_exn.splits)

lemma shared_only_unmanaged:
  "kind \<in> {K_SET_SUBLAYERS, K_REPLACE_SDF_LAYER_CONTENT} \<Longrightarrow> map_of EVENT_KIND_INFO kind = Some info \<Longrightarrow>
     MANAGED \<notin> set (modes info)"
  by (auto simp: EVENT_KIND_INFO_def kind_info_def)

lemma kind_count_managed:
  assumes "\<forall>v \<in> set evs. \<exists>info. map_of EVENT_KIND_INFO (ev_kind (dict_of v)) = Some info \<and> MANAGED \<in> set (modes info)"
    "kind \<in> {K_SET_SUBLAYERS, K_REPLACE_SDF_LAYER_CONTENT}"
  shows "kind_count kind evs = 0"
proof -
  have "py_get ''k'' (dict_of v) \<noteq> PStr kind" if "v \<in> set evs" for v
    using assms that shared_only_unmanaged [OF assms(2)] by (auto simp: ev_kind_def ev_str_py_get)
  then show ?thesis by (auto simp: kind_count_def filter_empty_conv)
qed

definition value_only :: "unit res \<Rightarrow> bool" where
  "value_only r \<longleftrightarrow> (\<forall>e. r = Inl e \<longrightarrow> (\<exists>m. e = ValueError m))"

lemma value_only_simps [simp]:
  "value_only (Inr u)" "value_only (require b m)" "value_only (Inl (ValueError m))"
  by (auto simp: value_only_def require_def)

lemma value_only_first_error: "list_all value_only cs \<Longrightarrow> value_only (first_error cs)"
  by (induction cs) (auto simp: value_only_def first_error.simps split: sum.splits)

lemma value_only_prim_path [simp]: "value_only (require_prim_path lib x)"
  unfolding require_prim_path_def sdf_path_def by (rule value_only_first_error) simp

lemma validate_event_raises:
  assumes "import_raises_tf lib" "small x"
  shows "value_only (indexed_error (validate_event_or_raise lib mode x))"
proof -
  define kind where "kind = str_of (py_get ''k'' (dict_of x))"
  have "benign (case spec_validate lib kind of None \<Rightarrow> Inr () | Some f \<Rightarrow> f (dict_of x))"
    using benign_spec_validate [OF assms(1) small_dict_of [OF assms(2)]]
    by (auto simp: benign_results split: option.split)
  then have last: "value_only (indexed_error (tf_caught
      (case spec_validate lib kind of None \<Rightarrow> Inr () | Some f \<Rightarrow> f (dict_of x))))"
    by (auto simp: benign_def tf_caught_def indexed_error_def value_only_def split: sum.splits py_exn.splits)
  have seq: "value_only (indexed_error (case c of Inl e \<Rightarrow> Inl e | Inr _ \<Rightarrow> r))"
    if "value_only c" "value_only (indexed_error r)" for c r
    using that by (cases c) (auto simp: value_only_def indexed_error_def)
  show ?thesis
    unfolding validate_event_or_raise_def Let_def kind_def [symmetric]
    by (rule seq [OF value_only_first_error last]) simp
qed

text \<open>A normalized entry is what normalization returns of it.\<close>

lemma float_finite:
  "is_finite_number v = Inr True \<Longrightarrow> is_finite_number (to_float v) = Inr True \<and> is_number (to_float v) \<and>
     to_float (to_float v) = to_float v"
  by (cases v) (auto simp: is_finite_number_def int_to_float_def)

definition portable_path :: "'layer sdf_lib \<Rightarrow> string \<Rightarrow> bool" where
  "portable_path lib path \<longleftrightarrow> path \<noteq> [] \<and> \<not> IsAnonymousLayerIdentifier lib path \<and> \<not> is_local_asset_path lib path"

lemma normalize_entry_fixed:
  assumes "normalize_entry lib seen entry = Inr item"
  shows "normalize_entry lib seen (PDict item) = Inr item \<and> ev_str ''authored_path'' item \<notin> set seen \<and>
    portable_path lib (ev_str ''authored_path'' item)"
proof -
  define d where "d = dict_of entry"
  define path where "path = str_of (py_get ''authored_path'' d)"
  define offset where "offset = py_get_default ''offset'' (PReal 0) d"
  define scale where "scale = py_get_default ''scale'' (PReal 1) d"
  define layer_key where "layer_key = py_get_default ''layer_key'' (PStr []) d"
  have ok: "path \<noteq> []" "\<not> IsAnonymousLayerIdentifier lib path" "\<not> is_local_asset_path lib path" "path \<notin> set seen"
    "is_finite_number offset = Inr True" "is_finite_number scale = Inr True" "is_str layer_key"
    and item: "item = [(''authored_path'', PStr path), (''offset'', to_float offset), (''scale'', to_float scale)] @
       (if str_of layer_key = [] then [] else [(''layer_key'', layer_key)])"
    using assms unfolding normalize_entry_def Let_def d_def [symmetric] path_def [symmetric] offset_def [symmetric]
      scale_def [symmetric] layer_key_def [symmetric] by auto
  note fl = float_finite [OF ok(5)] float_finite [OF ok(6)]
  have "str_of (py_get_default ''layer_key'' (PStr []) item) = str_of layer_key"
    "is_str (py_get_default ''layer_key'' (PStr []) item)"
    "str_of layer_key \<noteq> [] \<Longrightarrow> py_get_default ''layer_key'' (PStr []) item = layer_key"
    using ok(7) by (auto simp: item py_get_default_def)
  moreover have "py_get ''authored_path'' item = PStr path" "py_get_default ''offset'' x item = to_float offset"
    "py_get_default ''scale'' x item = to_float scale" for x
    by (simp_all add: item py_get_def py_get_default_def)
  ultimately show ?thesis using ok fl
    by (simp add: normalize_entry_def Let_def ev_str_py_get portable_path_def) (simp add: item)
qed

lemma normalize_loop_fixed:
  "normalize_loop lib seen entries = Inr items \<Longrightarrow> normalize_loop lib seen (map PDict items) = Inr items \<and>
     distinct (map (ev_str ''authored_path'') items) \<and> set (map (ev_str ''authored_path'') items) \<inter> set seen = {} \<and>
     list_all (\<lambda>i. portable_path lib (ev_str ''authored_path'' i)) items"
proof (induction entries arbitrary: seen items)
  case (Cons entry entries)
  then obtain item rest where it: "normalize_entry lib seen entry = Inr item"
    "normalize_loop lib (ev_str ''authored_path'' item # seen) entries = Inr rest" "items = item # rest"
    by (auto split: sum.splits)
  from Cons.IH [OF it(2)] normalize_entry_fixed [OF it(1)] show ?case by (auto simp: it(3))
qed simp

text \<open>The empty library: nothing is a path, a name or a type.\<close>

definition empty_lib :: "unit sdf_lib" where
  "empty_lib = \<lparr>IsValidPathString = (\<lambda>_. False), IsAbsolutePath = (\<lambda>_. False), IsAbsoluteRoot = (\<lambda>_. False),
     IsPrimPath = (\<lambda>_. False), IsPropertyPath = (\<lambda>_. False), IsPrimPropertyPath = (\<lambda>_. False),
     IsPrimVariantSelectionPath = (\<lambda>_. False), ContainsPrimVariantSelection = (\<lambda>_. False),
     VariantSelection = id, StrippedPrimPath = id, IsValidIdentifier = (\<lambda>_. False),
     IsValidNamespacedIdentifier = (\<lambda>_. False), FindValueType = (\<lambda>_. False),
     IsAnonymousLayerIdentifier = (\<lambda>_. False), SplitPackageOuter = id,
     ImportFromString = (\<lambda>_. Inl TfError), SpecKindAt = (\<lambda>_ _. None), HasSubLayers = (\<lambda>_. False)\<rparr>"

text \<open>A library that takes every path that starts with a slash for a prim path.\<close>

definition slash_lib :: "unit sdf_lib" where
  "slash_lib = empty_lib\<lparr>IsValidPathString := (\<lambda>s. s \<noteq> []), IsAbsolutePath := posix_isabs,
     IsPrimPath := posix_isabs, IsAbsoluteRoot := (\<lambda>s. s = ''/''), IsValidIdentifier := (\<lambda>s. s \<noteq> []),
     IsValidNamespacedIdentifier := (\<lambda>s. s \<noteq> [])\<rparr>"

section \<open>Properties\<close>

text \<open>Validating for one layer mode is validating without a mode plus the availability of
  every kind in that mode: the two checks a producer and the server run agree, and the limits on
  topology and content replacements hold in managed mode because those kinds are unavailable.\<close>

theorem mode_validation_factors:
  "validate_events lib (Some m) v = Inr () \<longleftrightarrow>
     validate_events lib None v = Inr () \<and>
     list_all (\<lambda>e. \<exists>info. map_of EVENT_KIND_INFO (ev_kind (dict_of e)) = Some info \<and> m \<in> set (modes info))
       (items_of v)"
proof (cases m)
  case MANAGED
  have "kind_count K_SET_SUBLAYERS (items_of v) = 0 \<and> kind_count K_REPLACE_SDF_LAYER_CONTENT (items_of v) = 0"
    if "list_all (\<lambda>e. \<exists>info. map_of EVENT_KIND_INFO (ev_kind (dict_of e)) = Some info \<and> m \<in> set (modes info))
       (items_of v)"
    using that kind_count_managed [of "items_of v"] MANAGED by (simp add: list_all_iff)
  with MANAGED show ?thesis
    by (auto simp: validate_events_def Let_def list_all_iff validate_mode_split)
next
  case SHARED_STAGE
  then show ?thesis by (auto simp: validate_events_def Let_def list_all_iff validate_mode_split)
qed

text \<open>C23. Validation answers: for a value whose integers fit a double, and pxr imports that fail
  only with Tf errors, \<open>validate_event\<close> returns a boolean, true exactly when
  \<open>validate_event_or_raise\<close> accepts the event, and \<open>validate_events\<close> raises only
  \<open>ValueError\<close>.\<close>

theorem validation_errors_caught:
  assumes "import_raises_tf lib" "small v"
  shows "validate_event lib v = Inr (validate_event_or_raise lib None v = Inr ()) \<and>
    (\<forall>e. validate_events lib mode v = Inl e \<longrightarrow> (\<exists>m. e = ValueError m))"
proof
  note event = validate_event_raises [OF assms(1)]
  show "validate_event lib v = Inr (validate_event_or_raise lib None v = Inr ())"
    using event [OF assms(2), of None]
    by (auto simp: validate_event_def value_only_def indexed_error_def split: sum.splits py_exn.splits)
  have "value_only (validate_events lib mode v)"
    unfolding validate_events_def Let_def
    by (rule value_only_first_error) (auto simp: list_all_iff intro: event small_item [OF assms(2)])
  then show "\<forall>e. validate_events lib mode v = Inl e \<longrightarrow> (\<exists>m. e = ValueError m)"
    by (simp add: value_only_def)
qed

theorem validation_errors_caught_witness:
  "validate_event empty_lib (PDict [(''k'', PStr K_SET_SUBLAYERS), (''prim'', PInt 3)]) = Inr False"
  using validation_errors_caught [of empty_lib "PDict [(''k'', PStr K_SET_SUBLAYERS), (''prim'', PInt 3)]" None]
  by (simp add: import_raises_tf_def empty_lib_def small.simps(4) float_limit_def validate_event_or_raise_iff
      py_get_def spec_validate_def validate_sublayers_def Let_def)



text \<open>C26. Normalizing a sublayer list is idempotent: the entries it returns are accepted and
  returned unchanged, and their authored paths are distinct, non-empty and portable.\<close>

theorem sublayer_normalization_idempotent:
  assumes "normalize_sublayer_entries lib entries = Inr items"
  shows "normalize_sublayer_entries lib (map PDict items) = Inr items \<and>
    distinct (map (ev_str ''authored_path'') items) \<and>
    list_all (\<lambda>i. portable_path lib (ev_str ''authored_path'' i)) items"
  using normalize_loop_fixed [OF assms [unfolded normalize_sublayer_entries_def]]
  by (simp add: normalize_sublayer_entries_def)

theorem sublayer_normalization_idempotent_witness:
  "normalize_sublayer_entries empty_lib [PDict [(''authored_path'', PStr ''a.usd''), (''offset'', PReal 0), (''scale'', PReal 1)]]
     = Inr [[(''authored_path'', PStr ''a.usd''), (''offset'', PReal 0), (''scale'', PReal 1)]]"
proof -
  have "normalize_sublayer_entries empty_lib [PDict [(''authored_path'', PStr ''a.usd'')]]
      = Inr [[(''authored_path'', PStr ''a.usd''), (''offset'', PReal 0), (''scale'', PReal 1)]]"
    by (simp add: normalize_sublayer_entries_def normalize_entry_def Let_def py_get_def py_get_default_def
        first_error.simps require_def require_res_def all_res.simps is_finite_number_def empty_lib_def
        is_local_asset_path_def posix_isabs_def nt_isabs_def url_scheme_is_file_def)
  from sublayer_normalization_idempotent [OF this] show ?thesis by simp
qed



text \<open>C25. An accepted transform names exactly the components it supplies, each once, and every
  one is a vector of finite numbers of its length, four for the rotation and three otherwise.\<close>

theorem transform_fields_exact:
  assumes "validate_event_or_raise lib mode (PDict ev) = Inr ()" "ev_kind ev = K_SET_XFORM_TRS"
  shows "distinct (ev_strings ''fields'' ev) \<and> ev_strings ''fields'' ev \<noteq> [] \<and>
    set (ev_strings ''fields'' ev) = {f \<in> set TRS_FIELDS. has_key ev f} \<and>
    (\<forall>f \<in> set (ev_strings ''fields'' ev). length (items_of (py_get f ev)) = (if f = ''r'' then 4 else 3) \<and>
       list_all (\<lambda>x. is_finite_number x = Inr True) (items_of (py_get f ev)))"
proof -
  have kind: "str_of (py_get ''k'' ev) = K_SET_XFORM_TRS" using assms(2) by (simp add: ev_kind_def ev_str_py_get)
  have valid: "validate_xform ev = Inr ()"
    using assms(1) unfolding validate_event_or_raise_iff by (auto simp: kind spec_validate_def)
  define xs where "xs = items_of (py_get ''fields'' ev)"
  have ok: "is_list (py_get ''fields'' ev)" "xs \<noteq> []" "distinct xs"
    "\<forall>f \<in> set xs. f \<in> PStr ` set TRS_FIELDS" "set xs = PStr ` set (filter (has_key ev) TRS_FIELDS)"
    "\<forall>f \<in> set xs. require_vector (if f = PStr ''r'' then 4 else 3) (py_get (str_of f) ev) = Inr ()"
    using valid by (auto simp: validate_xform_def require_field_set_def Let_def list_all_iff xs_def)
  obtain fs where xs: "xs = map PStr fs"
    using ok(4) by (metis (no_types, lifting) ex_map_conv imageE)
  have fs: "ev_strings ''fields'' ev = fs"
  proof -
    have "map_of ev ''fields'' = Some (PList xs)"
      using ok(1) xs_def by (cases "py_get ''fields'' ev") (auto simp: py_get_def split: option.splits)
    moreover have "[x. PStr x \<leftarrow> map PStr fs] = fs" by (induction fs) auto
    ultimately show ?thesis by (simp add: ev_strings_def xs)
  qed
  have "PStr ` set fs = PStr ` {f \<in> set TRS_FIELDS. has_key ev f}" using ok(5) by (auto simp: xs)
  then have "set fs = {f \<in> set TRS_FIELDS. has_key ev f}" by (metis inj_image_eq_iff injI pyval.inject(4))
  with ok xs show ?thesis unfolding fs by (auto simp: distinct_map require_vector_def)
qed

theorem transform_fields_exact_witness:
  "let ev = [(''k'', PStr K_SET_XFORM_TRS), (''prim'', PStr ''/a''), (''fields'', PList [PStr ''t'']),
     (''t'', PTuple [PInt 1, PInt 2, PInt 3])]
   in set (ev_strings ''fields'' ev) = {f \<in> set TRS_FIELDS. has_key ev f}"
proof -
  define ev where "ev = [(''k'', PStr K_SET_XFORM_TRS), (''prim'', PStr ''/a''), (''fields'', PList [PStr ''t'']),
     (''t'', PTuple [PInt 1, PInt 2, PInt 3])]"
  have "validate_event_or_raise slash_lib (Some MANAGED) (PDict ev) = Inr ()"
    unfolding validate_event_or_raise_iff ev_def
    by (simp add: py_get_def spec_validate_def EVENT_KIND_INFO_def kind_info_def validate_xform_def Let_def
        require_field_set_def TRS_FIELDS_def has_key_def require_vector_def is_finite_number_def int_to_float_def
        float_limit_def require_optional_time_def require_prim_path_def sdf_path_def slash_lib_def empty_lib_def
        posix_isabs_def pathless_kinds_def)
  from transform_fields_exact [OF this] show ?thesis by (simp add: ev_def ev_kind_def ev_str_def)
qed

end
