(* ===== verification/Collaboration.thy ===== *)
theory Collaboration
  imports Layer_Stack "HOL-Library.Sublist"
begin

text \<open>
  Department assignments and replay compatibility
  (\<open>openusdconnect/server/collaboration.py\<close>). The policy state sits on top of the layer
  stack; the callbacks and the merge into the root layer are entries of \<open>effects\<close>, in the
  order the code performs them. Every method body runs under the scene lock and is atomic.
\<close>

definition DEFAULT_LAYER_KEY :: string where "DEFAULT_LAYER_KEY = ''default''"

definition DEPARTMENT_LAYER_KEY_PREFIX :: string where
  "DEPARTMENT_LAYER_KEY_PREFIX = ''department:''"

definition layer_key_for_department :: "string option \<Rightarrow> string" where
  "layer_key_for_department department =
     (case department of
        None \<Rightarrow> DEFAULT_LAYER_KEY
      | Some d \<Rightarrow> if d = [] then DEFAULT_LAYER_KEY else DEPARTMENT_LAYER_KEY_PREFIX @ d)"

definition department_for_layer_key :: "string \<Rightarrow> string option" where
  "department_for_layer_key key =
     (if key = DEFAULT_LAYER_KEY then None
      else if prefix DEPARTMENT_LAYER_KEY_PREFIX key then
        (let department = drop (length DEPARTMENT_LAYER_KEY_PREFIX) key
         in if department \<noteq> [] then Some department else None)
      else None)"

definition label_for_layer_key :: "string \<Rightarrow> string" where
  "label_for_layer_key key =
     (case department_for_layer_key key of
        Some d \<Rightarrow> d
      | None \<Rightarrow> if key = DEFAULT_LAYER_KEY then ''Default'' else key)"

datatype policy_effect =
    BumpSnapshotEpoch string
  | BroadcastLayerStackState
  | MergeLayerIntoRoot string

record policy =
  layer_stack :: stack
  client_layer_keys :: "(string \<times> string) list"
  department_priority :: "string list"
  flat_receiver_count :: int
  effects :: "policy_effect list"

definition emit :: "policy_effect list \<Rightarrow> policy \<Rightarrow> policy" where
  "emit es p = p\<lparr>effects := effects p @ es\<rparr>"

section \<open>Operations\<close>

definition validate_priority :: "string list \<Rightarrow> string list res" where
  "validate_priority departments =
     (if [] \<in> set departments then Inl (ValueError ''department names must be non-empty'')
      else if \<not> distinct departments then
        Inl (ValueError ''department priority contains duplicates'')
      else Inr departments)"

definition restore_assignment :: "string \<Rightarrow> string \<Rightarrow> policy \<Rightarrow> policy" where
  "restore_assignment client_id key p =
     p\<lparr>client_layer_keys := AList.update client_id key (client_layer_keys p)\<rparr>"

definition reject_layer_stack_change :: "policy \<Rightarrow> unit res" where
  "reject_layer_stack_change p =
     (if flat_receiver_count p \<noteq> 0 then
        Inl (ReplayModeConflictError
          ''layer-stack changes require all connected receivers to use layered replay'')
      else Inr ())"

definition department_order :: "policy \<Rightarrow> string list" where
  "department_order p =
     (let ls = fst (layer_stack p);
          priority_keys = filter (\<lambda>k. has_layer k ls)
            (map (\<lambda>d. layer_key_for_department (Some d)) (department_priority p));
          unlisted_keys = filter (\<lambda>k. k \<noteq> DEFAULT_LAYER_KEY \<and> k \<notin> set priority_keys) (ls_order ls)
      in priority_keys @ unlisted_keys @ [DEFAULT_LAYER_KEY])"

definition apply_department_order :: "policy \<Rightarrow> bool res \<times> policy" where
  "apply_department_order p =
     (let (r, s) = set_order (department_order p) (layer_stack p) in (r, p\<lparr>layer_stack := s\<rparr>))"

definition get_or_create_client_layer ::
  "string \<Rightarrow> string \<Rightarrow> string \<Rightarrow> string option \<Rightarrow> policy \<Rightarrow> string res \<times> policy" where
  "get_or_create_client_layer ident edit_layer client_id department p =
     (let key = layer_key_for_department department in
      if department \<in> {None, Some []} then
        (Inr edit_layer, p\<lparr>client_layer_keys := AList.update client_id key (client_layer_keys p)\<rparr>)
      else
        case (if has_layer key (fst (layer_stack p)) then Inr () else reject_layer_stack_change p) of
          Inl e \<Rightarrow> (Inl e, p)
        | Inr _ \<Rightarrow>
            (case ensure_layer ident key department (layer_stack p) of
               (Inl e, s) \<Rightarrow> (Inl e, p\<lparr>layer_stack := s\<rparr>)
             | (Inr (layer, added), s) \<Rightarrow>
                 let p1 = p\<lparr>layer_stack := s\<rparr>
                 in case (if added then apply_department_order p1 else (Inr False, p1)) of
                      (Inl e, p2) \<Rightarrow> (Inl e, p2)
                    | (Inr _, p2) \<Rightarrow>
                        let p3 = p2\<lparr>client_layer_keys :=
                              AList.update client_id key (client_layer_keys p2)\<rparr>
                        in (Inr layer, if added
                              then emit [BumpSnapshotEpoch ''create_department_layer'',
                                         BroadcastLayerStackState] p3
                              else p3)))"

definition flat_replay_rejection_reason :: "policy \<Rightarrow> string" where
  "flat_replay_rejection_reason p =
     (let (ls, st) = layer_stack p in
      if department_priority p \<noteq> [] then ''department collaboration requires layered replay''
      else if length (ls_order ls) \<noteq> 1 then ''multiple collaboration layers require layered replay''
      else if hd (ordered_layers ls) \<in> set (muted_layers st) then
        ''muted collaboration layers require layered replay''
      else [])"

definition reserve_receiver_replay_mode :: "bool \<Rightarrow> policy \<Rightarrow> (bool \<times> string) \<times> policy" where
  "reserve_receiver_replay_mode layered p =
     (if layered then ((True, []), p)
      else let reason = flat_replay_rejection_reason p
           in if reason \<noteq> [] then ((False, reason), p)
              else ((True, []), p\<lparr>flat_receiver_count := flat_receiver_count p + 1\<rparr>))"

definition release_receiver_replay_mode :: "bool \<Rightarrow> policy \<Rightarrow> unit res \<times> policy" where
  "release_receiver_replay_mode layered p =
     (if layered then (Inr (), p)
      else if flat_receiver_count p \<le> 0 then
        (Inl (RuntimeError ''flat receiver reservation underflow''), p)
      else (Inr (), p\<lparr>flat_receiver_count := flat_receiver_count p - 1\<rparr>))"

definition present_key :: "string option \<Rightarrow> string option" where
  "present_key v = (case v of Some s \<Rightarrow> if s = [] then None else Some s | None \<Rightarrow> None)"

definition resolve_layer_key :: "string \<Rightarrow> policy \<Rightarrow> string option" where
  "resolve_layer_key key p =
     (let department_key = layer_key_for_department (Some key); ls = fst (layer_stack p)
      in case present_key (map_of (client_layer_keys p) key) of
           Some k \<Rightarrow> Some k
         | None \<Rightarrow> if has_layer department_key ls then Some department_key
                   else if has_layer key ls then Some key else None)"

definition department_for_layer :: "string \<Rightarrow> policy \<Rightarrow> string option" where
  "department_for_layer layer p =
     (case key_for_layer layer (fst (layer_stack p)) of
        None \<Rightarrow> None | Some key \<Rightarrow> department_for_layer_key key)"

definition release_client_assignment :: "string \<Rightarrow> bool \<Rightarrow> policy \<Rightarrow> bool res \<times> policy" where
  "release_client_assignment client_id merge_into_root p =
     (case present_key (map_of (client_layer_keys p) client_id) of
        None \<Rightarrow> (Inr False, p)
      | Some key \<Rightarrow>
          if key = DEFAULT_LAYER_KEY then (Inr False, p)
          else
            case (if merge_into_root
                  then (case layer_for key (fst (layer_stack p)) of
                          Inl e \<Rightarrow> Inl e | Inr layer \<Rightarrow> Inr (emit [MergeLayerIntoRoot layer] p))
                  else Inr p) of
              Inl e \<Rightarrow> (Inl e, p)
            | Inr p1 \<Rightarrow>
                (let p2 = p1\<lparr>client_layer_keys := AList.delete client_id (client_layer_keys p1)\<rparr>;
                     removed = key \<notin> set (dict_values (client_layer_keys p2));
                     (r, s) = (if removed then remove_layer key (layer_stack p2)
                               else (Inr [], layer_stack p2));
                     p3 = p2\<lparr>layer_stack := s\<rparr>
                 in case r of
                      Inl e \<Rightarrow> (Inl e, p3)
                    | Inr _ \<Rightarrow>
                        (Inr True, emit (BumpSnapshotEpoch (if merge_into_root then ''merge_layer''
                             else ''delete_layer'') # (if removed then [BroadcastLayerStackState] else [])) p3)))"

definition set_department_priority :: "string list \<Rightarrow> policy \<Rightarrow> unit res \<times> policy" where
  "set_department_priority departments p =
     (case validate_priority departments of
        Inl e \<Rightarrow> (Inl e, p)
      | Inr ds \<Rightarrow>
          let policy_changed = (ds \<noteq> department_priority p)
          in case (if policy_changed then reject_layer_stack_change p else Inr ()) of
               Inl e \<Rightarrow> (Inl e, p)
             | Inr _ \<Rightarrow>
                 (case apply_department_order (p\<lparr>department_priority := ds\<rparr>) of
                    (Inl e, p1) \<Rightarrow> (Inl e, p1)
                  | (Inr order_changed, p1) \<Rightarrow>
                      (Inr (), if \<not> order_changed \<and> \<not> policy_changed then p1
                               else emit [BumpSnapshotEpoch ''set_department_priority'',
                                          BroadcastLayerStackState] p1)))"

definition policy_set_muted :: "string \<Rightarrow> bool \<Rightarrow> policy \<Rightarrow> bool res \<times> policy" where
  "policy_set_muted key muted p =
     (case resolve_layer_key key p of
        None \<Rightarrow> (Inr False, p)
      | Some layer_key \<Rightarrow>
          (case layer_for layer_key (fst (layer_stack p)) of
             Inl e \<Rightarrow> (Inl e, p)
           | Inr layer \<Rightarrow>
               if (layer \<in> set (muted_layers (snd (layer_stack p)))) = muted then (Inr True, p)
               else case reject_layer_stack_change p of
                 Inl e \<Rightarrow> (Inl e, p)
               | Inr _ \<Rightarrow>
                   (let (r, s) = set_muted layer_key muted (layer_stack p);
                        p1 = p\<lparr>layer_stack := s\<rparr>
                    in case r of
                         Inl e \<Rightarrow> (Inl e, p1)
                       | Inr _ \<Rightarrow>
                           (Inr True, emit [BumpSnapshotEpoch (if muted then ''mute_layer''
                              else ''unmute_layer''), BroadcastLayerStackState] p1))))"

record layer_row =
  lr_layer_key :: string
  lr_label :: string
  lr_department :: "string option"
  lr_clients :: "string list"
  lr_identifier :: string
  lr_muted :: bool
  lr_shared :: bool

definition get_layer_stack_info :: "(string \<Rightarrow> bool) \<Rightarrow> policy \<Rightarrow> layer_row list" where
  "get_layer_stack_info layer_empty p =
     (let (ls, st) = layer_stack p;
          clients_of = (\<lambda>key. map fst (filter (\<lambda>(c, k). k = key) (client_layer_keys p)))
      in map (\<lambda>key. \<lparr>lr_layer_key = key, lr_label = dict_get (ls_labels ls) key [],
               lr_department = department_for_layer_key key, lr_clients = clients_of key,
               lr_identifier = identifier_of ls key,
               lr_muted = (identifier_of ls key \<in> set (muted_layers st)),
               lr_shared = (key = DEFAULT_LAYER_KEY)\<rparr>)
           (filter (\<lambda>key. clients_of key \<noteq> [] \<or> \<not> layer_empty (identifier_of ls key)) (ls_order ls)))"

section \<open>Department keys\<close>

lemma department_roundtrip:
  "d \<noteq> [] \<Longrightarrow> department_for_layer_key (layer_key_for_department (Some d)) = Some d"
  by (simp add: department_for_layer_key_def layer_key_for_department_def DEFAULT_LAYER_KEY_def
      DEPARTMENT_LAYER_KEY_PREFIX_def)

lemma layer_key_inj:
  "layer_key_for_department (Some d) = layer_key_for_department (Some e) \<Longrightarrow> d = e"
  by (auto simp: layer_key_for_department_def DEFAULT_LAYER_KEY_def DEPARTMENT_LAYER_KEY_PREFIX_def
      split: if_splits)

lemma layer_key_not_default:
  "d \<noteq> [] \<Longrightarrow> layer_key_for_department (Some d) \<noteq> DEFAULT_LAYER_KEY"
  by (auto simp: layer_key_for_department_def DEFAULT_LAYER_KEY_def DEPARTMENT_LAYER_KEY_PREFIX_def)

section \<open>Invariant\<close>

text \<open>
  A flat receiver mirrors one unmuted layer and nothing else; clients are assigned to layers
  that exist.
\<close>

lemma dict_values_update: "set (dict_values (AList.update k v d)) \<subseteq> insert v (set (dict_values d))"
  by (induction d) auto

lemma dict_values_delete: "set (dict_values (AList.delete k d)) \<subseteq> set (dict_values d)"
  by (auto simp: AList.delete_eq)

definition flat_contract :: "policy \<Rightarrow> bool" where
  "flat_contract p \<longleftrightarrow> department_priority p = [] \<and>
     ls_order (fst (layer_stack p)) = [DEFAULT_LAYER_KEY] \<and>
     identifier_of (fst (layer_stack p)) DEFAULT_LAYER_KEY \<notin> set (muted_layers (snd (layer_stack p)))"

definition policy_inv :: "policy \<Rightarrow> bool" where
  "policy_inv p \<longleftrightarrow> stack_inv (layer_stack p) \<and>
     default_key (fst (layer_stack p)) = DEFAULT_LAYER_KEY \<and>
     0 \<le> flat_receiver_count p \<and> (flat_receiver_count p > 0 \<longrightarrow> flat_contract p) \<and>
     distinct (department_priority p) \<and> [] \<notin> set (department_priority p) \<and>
     set (dict_values (client_layer_keys p)) \<subseteq> set (ls_order (fst (layer_stack p)))"

lemma has_layer_order:
  "stack_inv s \<Longrightarrow> has_layer k (fst s) \<longleftrightarrow> k \<in> set (ls_order (fst s))"
  by (simp add: has_layer_def stack_inv_def table_inv_def)

lemma department_order_ok:
  assumes "stack_inv (layer_stack p)" "default_key (fst (layer_stack p)) = DEFAULT_LAYER_KEY"
    "distinct (department_priority p)" "[] \<notin> set (department_priority p)"
  shows "distinct (department_order p)"
    "set (department_order p) = set (dict_keys (ls_layers (fst (layer_stack p))))"
    "last (department_order p) = DEFAULT_LAYER_KEY" "department_order p \<noteq> []"
proof -
  define ls where "ls = fst (layer_stack p)"
  define pk where "pk = filter (\<lambda>k. has_layer k ls)
    (map (\<lambda>d. layer_key_for_department (Some d)) (department_priority p))"
  have order: "department_order p = pk @ filter (\<lambda>k. k \<noteq> DEFAULT_LAYER_KEY \<and> k \<notin> set pk) (ls_order ls) @
      [DEFAULT_LAYER_KEY]"
    by (simp add: department_order_def Let_def pk_def ls_def)
  have table: "distinct (ls_order ls)" "set (ls_order ls) = set (dict_keys (ls_layers ls))"
    "DEFAULT_LAYER_KEY \<in> set (ls_order ls)"
    using assms(1,2) last_in_set [of "ls_order ls"]
    by (simp_all add: stack_inv_def table_inv_def ls_def)
  have "inj_on (\<lambda>d. layer_key_for_department (Some d)) (set (department_priority p))"
    by (auto simp: inj_on_def dest: layer_key_inj)
  then have dpk: "distinct pk" using assms(3) by (simp add: pk_def distinct_map distinct_filter)
  have sub: "set pk \<subseteq> set (ls_order ls)"
    using has_layer_order [OF assms(1)] by (auto simp: pk_def ls_def)
  have nd: "DEFAULT_LAYER_KEY \<notin> set pk"
  proof
    assume "DEFAULT_LAYER_KEY \<in> set pk"
    then obtain d where "d \<in> set (department_priority p)"
      "layer_key_for_department (Some d) = DEFAULT_LAYER_KEY" by (auto simp: pk_def)
    with assms(4) layer_key_not_default [of d] show False by blast
  qed
  show "distinct (department_order p)" using dpk table(1) nd by (auto simp: order)
  show "set (department_order p) = set (dict_keys (ls_layers (fst (layer_stack p))))"
    using sub table(2,3) by (auto simp: order simp flip: ls_def)
  show "last (department_order p) = DEFAULT_LAYER_KEY" "department_order p \<noteq> []" by (simp_all add: order)
qed

subsection \<open>What the stack operations do to order and mutes\<close>

lemma update_session_muted [simp]: "muted_layers (snd (update_session_sublayers d (ls, st))) = muted_layers st"
  by (simp add: update_session_sublayers_def)

lemma set_order_valid:
  assumes "distinct ord" "set ord = set (dict_keys (ls_layers (fst s)))" "ord \<noteq> []"
    "last ord = default_key (fst s)"
  shows "\<exists>b. fst (set_order ord s) = Inr b" "ls_order (fst (snd (set_order ord s))) = ord"
    "ls_layers (fst (snd (set_order ord s))) = ls_layers (fst s)"
    "default_key (fst (snd (set_order ord s))) = default_key (fst s)"
    "muted_layers (snd (snd (set_order ord s))) = muted_layers (snd s)"
    "fst (set_order ord s) = Inr False \<Longrightarrow> snd (set_order ord s) = s"
  using assms by (cases s; auto simp: set_order_def)+

lemma kept_inv: "kept s t \<Longrightarrow> stack_inv t" "kept s t \<Longrightarrow> default_key (fst t) = default_key (fst s)"
  by (auto simp: kept_def)

lemma apply_department_order_ok:
  assumes "policy_inv p"
  shows "\<exists>b. fst (apply_department_order p) = Inr b"
    "policy_inv (snd (apply_department_order p)) \<and>
     ls_order (fst (layer_stack (snd (apply_department_order p)))) = department_order p"
    "fst (apply_department_order p) = Inr False \<Longrightarrow> snd (apply_department_order p) = p"
proof -
  have inv: "stack_inv (layer_stack p)" "default_key (fst (layer_stack p)) = DEFAULT_LAYER_KEY"
    "distinct (department_priority p)" "[] \<notin> set (department_priority p)"
    using assms by (simp_all add: policy_inv_def)
  note ord = department_order_ok [OF inv]
  have last: "last (department_order p) = default_key (fst (layer_stack p))"
    using ord(3) inv(2) by simp
  note so = set_order_valid [OF ord(1,2,4) last]
  have kept: "kept (layer_stack p) (snd (set_order (department_order p) (layer_stack p)))"
    using order_kept inv(1) by (cases "layer_stack p") auto
  show "\<exists>b. fst (apply_department_order p) = Inr b"
    using so(1) by (simp add: apply_department_order_def case_prod_beta Let_def)
  show "fst (apply_department_order p) = Inr False \<Longrightarrow> snd (apply_department_order p) = p"
    using so(6) by (simp add: apply_department_order_def case_prod_beta Let_def)
  have same: "set (department_order p) = set (ls_order (fst (layer_stack p)))"
    using ord(2) inv(1) by (simp add: stack_inv_def table_inv_def)
  have "department_order p = [DEFAULT_LAYER_KEY]" if "flat_contract p"
    using that by (simp add: flat_contract_def department_order_def)
  then show "policy_inv (snd (apply_department_order p)) \<and>
     ls_order (fst (layer_stack (snd (apply_department_order p)))) = department_order p"
    using assms so(2-5) same kept_inv [OF kept] inv(2)
    by (auto simp: apply_department_order_def case_prod_beta Let_def policy_inv_def flat_contract_def
        identifier_of_def)
qed

lemma ensure_layer_new:
  assumes "key \<noteq> []" "map_of (ls_layers (fst s)) key = None"
  shows "fst (ensure_layer ident key label s) = Inr (ident, True)"
    "ls_order (fst (snd (ensure_layer ident key label s))) =
       butlast (ls_order (fst s)) @ [key, default_key (fst s)]"
  using assms by (cases s; simp add: ensure_layer_def Let_def)+

lemma ensure_layer_old:
  assumes "key \<noteq> []" "map_of (ls_layers (fst s)) key = Some i"
  shows "ensure_layer ident key label s = (Inr (i, False), s)"
  using assms by (cases s) (simp add: ensure_layer_def)

lemma stack_order_butlast:
  "stack_inv s \<Longrightarrow> set (butlast (ls_order (fst s)) @ [key, default_key (fst s)]) =
     insert key (set (ls_order (fst s)))"
  by (cases "ls_order (fst s)" rule: rev_cases) (auto simp: stack_inv_def table_inv_def)

lemma policy_inv_effects [simp]: "policy_inv (p\<lparr>effects := es\<rparr>) = policy_inv p"
  by (simp add: policy_inv_def flat_contract_def)

lemma policy_inv_effects_first [simp]:
  "policy_inv (p\<lparr>effects := es, client_layer_keys := ks\<rparr>) = policy_inv (p\<lparr>client_layer_keys := ks\<rparr>)"
  "policy_inv (p\<lparr>effects := es, client_layer_keys := ks, layer_stack := s\<rparr>) =
     policy_inv (p\<lparr>client_layer_keys := ks, layer_stack := s\<rparr>)"
  by (simp_all add: policy_inv_def flat_contract_def)

lemma policy_inv_emit [simp]: "policy_inv (emit es p) = policy_inv p"
  by (simp add: policy_inv_def emit_def flat_contract_def)

lemma assign_inv:
  assumes "policy_inv p" "key \<in> set (ls_order (fst (layer_stack p)))"
  shows "policy_inv (p\<lparr>client_layer_keys := AList.update c key (client_layer_keys p)\<rparr>)"
proof -
  have "set (dict_values (AList.update c key (client_layer_keys p))) \<subseteq> set (ls_order (fst (layer_stack p)))"
    using dict_values_update [of c key "client_layer_keys p"] assms by (auto simp: policy_inv_def)
  with assms(1) show ?thesis by (simp add: policy_inv_def flat_contract_def)
qed

lemma default_in_order: "policy_inv p \<Longrightarrow> DEFAULT_LAYER_KEY \<in> set (ls_order (fst (layer_stack p)))"
  using last_in_set [of "ls_order (fst (layer_stack p))"]
  by (simp add: policy_inv_def stack_inv_def table_inv_def)

lemma policy_has_layer:
  "policy_inv p \<Longrightarrow> has_layer k (fst (layer_stack p)) \<longleftrightarrow> map_of (ls_layers (fst (layer_stack p))) k \<noteq> None"
  by (simp add: has_layer_def map_of_eq_None_iff)

lemma policy_order_keys:
  "policy_inv p \<Longrightarrow> k \<in> set (ls_order (fst (layer_stack p))) \<longleftrightarrow> has_layer k (fst (layer_stack p))"
  by (simp add: has_layer_order policy_inv_def)

lemma add_layer_inv:
  fixes label
  assumes "policy_inv p" "fresh_ident ident (layer_stack p)" "flat_receiver_count p = 0" "key \<noteq> []"
    "map_of (ls_layers (fst (layer_stack p))) key = None"
  defines "s \<equiv> snd (ensure_layer ident key label (layer_stack p))"
  shows "policy_inv (p\<lparr>layer_stack := s\<rparr>) \<and> key \<in> set (ls_order (fst s))"
proof -
  have inv: "stack_inv (layer_stack p)" using assms(1) by (simp add: policy_inv_def)
  have "kept (layer_stack p) s"
    using ensure_kept [of "fst (layer_stack p)" "snd (layer_stack p)" ident key label] inv assms(2)
    by (simp add: s_def)
  moreover have "set (ls_order (fst s)) = insert key (set (ls_order (fst (layer_stack p))))"
    unfolding s_def ensure_layer_new(2) [OF assms(4,5)] by (rule stack_order_butlast [OF inv])
  ultimately show ?thesis
    using assms(1,3) kept_inv [of "layer_stack p" s] by (auto simp: policy_inv_def)
qed

lemma get_or_create_inv:
  assumes "policy_inv p" "fresh_ident ident (layer_stack p)"
  shows "policy_inv (snd (get_or_create_client_layer ident edit client dept p))"
proof (cases "dept \<in> {None, Some []}")
  case True
  then have "layer_key_for_department dept = DEFAULT_LAYER_KEY"
    by (auto simp: layer_key_for_department_def)
  with True assign_inv [OF assms(1) default_in_order [OF assms(1)]] show ?thesis
    by (simp add: get_or_create_client_layer_def)
next
  case False
  define key where "key = layer_key_for_department dept"
  define ls where "ls = ls_layers (fst (layer_stack p))"
  have key: "key \<noteq> []"
    using False by (auto simp: key_def layer_key_for_department_def DEPARTMENT_LAYER_KEY_PREFIX_def
        DEFAULT_LAYER_KEY_def split: option.splits)
  show ?thesis
  proof (cases "map_of ls key")
    case (Some i)
    then have old: "has_layer key (fst (layer_stack p))" "ensure_layer ident key dept (layer_stack p) =
        (Inr (i, False), layer_stack p)"
      using policy_has_layer [OF assms(1)] ensure_layer_old [OF key] by (simp_all add: ls_def)
    with assign_inv [OF assms(1)] policy_order_keys [OF assms(1)] False show ?thesis
      by (simp add: get_or_create_client_layer_def Let_def flip: key_def)
  next
    case None
    then have new: "\<not> has_layer key (fst (layer_stack p))"
      using policy_has_layer [OF assms(1)] by (simp add: ls_def)
    show ?thesis
    proof (cases "flat_receiver_count p = 0")
      case flat: False
      with new False assms(1) show ?thesis
        by (auto simp: get_or_create_client_layer_def Let_def reject_layer_stack_change_def
            simp flip: key_def)
    next
      case flat: True
      define p1 where "p1 = p\<lparr>layer_stack := snd (ensure_layer ident key dept (layer_stack p))\<rparr>"
      have p1: "policy_inv p1" "key \<in> set (ls_order (fst (layer_stack p1)))"
        using add_layer_inv [OF assms flat key, of dept] None by (simp_all add: p1_def ls_def)
      obtain b p2 where ord: "apply_department_order p1 = (Inr b, p2)"
        using apply_department_order_ok(1) [OF p1(1)] by (metis prod.collapse)
      have "policy_inv p2" "key \<in> set (ls_order (fst (layer_stack p2)))"
        using apply_department_order_ok(2) [OF p1(1)] ord p1(2)
          department_order_ok(2) [of p1] p1(1) policy_order_keys [OF p1(1)]
        by (auto simp: policy_inv_def has_layer_def)
      moreover have ens: "ensure_layer ident key dept (layer_stack p) = (Inr (ident, True), layer_stack p1)"
        using ensure_layer_new(1) [OF key] None by (simp add: p1_def ls_def prod_eq_iff)
      moreover have "p\<lparr>layer_stack := layer_stack p1\<rparr> = p1" by (simp add: p1_def)
      moreover have dept: "dept \<noteq> None" "dept \<noteq> Some []" using False by auto
      ultimately have "snd (get_or_create_client_layer ident edit client dept p) =
          emit [BumpSnapshotEpoch ''create_department_layer'', BroadcastLayerStackState]
            (p2\<lparr>client_layer_keys := AList.update client key (client_layer_keys p2)\<rparr>)"
        unfolding get_or_create_client_layer_def key_def [symmetric] Let_def
        by (simp add: new flat ord reject_layer_stack_change_def del: not_None_eq)
      with assign_inv [of p2 key client] \<open>policy_inv p2\<close>
        \<open>key \<in> set (ls_order (fst (layer_stack p2)))\<close> show ?thesis by simp
    qed
  qed
qed

lemma reserve_inv: "policy_inv p \<Longrightarrow> policy_inv (snd (reserve_receiver_replay_mode layered p))"
proof -
  assume inv: "policy_inv p"
  have "flat_contract p" if "flat_replay_rejection_reason p = []"
  proof -
    obtain ls st where s: "layer_stack p = (ls, st)" by fastforce
    from that have flat: "department_priority p = []" "length (ls_order ls) = 1"
      "hd (ordered_layers ls) \<notin> set (muted_layers st)"
      by (auto simp: flat_replay_rejection_reason_def s split: if_splits)
    then obtain k where "ls_order ls = [k]" by (auto simp: length_Suc_conv)
    with default_in_order [OF inv] flat show ?thesis
      by (simp add: flat_contract_def s ordered_layers_def)
  qed
  with inv show ?thesis
    by (auto simp: reserve_receiver_replay_mode_def Let_def policy_inv_def flat_contract_def)
qed

lemma release_inv: "policy_inv p \<Longrightarrow> policy_inv (snd (release_receiver_replay_mode layered p))"
  by (auto simp: release_receiver_replay_mode_def policy_inv_def flat_contract_def)

lemma set_priority_inv: "policy_inv p \<Longrightarrow> policy_inv (snd (set_department_priority ds p))"
proof (cases "validate_priority ds")
  case (Inr ds')
  assume inv: "policy_inv p"
  from Inr have ds: "ds' = ds" "distinct ds" "[] \<notin> set ds"
    by (auto simp: validate_priority_def split: if_splits)
  show ?thesis
  proof (cases "ds \<noteq> department_priority p \<and> flat_receiver_count p \<noteq> 0")
    case True
    with Inr ds inv show ?thesis by (simp add: set_department_priority_def reject_layer_stack_change_def)
  next
    case False
    have "policy_inv (p\<lparr>department_priority := ds\<rparr>)"
      using inv False ds by (auto simp: policy_inv_def flat_contract_def)
    note ok = apply_department_order_ok [OF this]
    from ok(1) obtain b p1 where "apply_department_order (p\<lparr>department_priority := ds\<rparr>) = (Inr b, p1)"
      by (metis prod.collapse)
    with ok(2) False Inr ds show ?thesis
      by (auto simp: set_department_priority_def reject_layer_stack_change_def Let_def)
  qed
qed (simp add: set_department_priority_def)

lemma set_muted_stack:
  "ls_order (fst (snd (set_muted key m s))) = ls_order (fst s)"
  "default_key (fst (snd (set_muted key m s))) = default_key (fst s)"
  by (cases s; auto simp: set_muted_def split: sum.splits)+

lemma policy_set_muted_inv: "policy_inv p \<Longrightarrow> policy_inv (snd (policy_set_muted key m p))"
proof -
  assume inv: "policy_inv p"
  have "policy_inv (p\<lparr>layer_stack := snd (set_muted k m (layer_stack p))\<rparr>)" if "flat_receiver_count p = 0" for k
  proof -
    have "kept (layer_stack p) (snd (set_muted k m (layer_stack p)))"
      using mute_kept inv by (cases "layer_stack p") (auto simp: policy_inv_def)
    with inv that kept_inv(1) [OF this] show ?thesis
      by (simp add: policy_inv_def set_muted_stack)
  qed
  with inv show ?thesis
    by (auto simp: policy_set_muted_def reject_layer_stack_change_def Let_def case_prod_beta
        split: option.splits sum.splits)
qed

lemma remove_layer_stack:
  assumes "key \<noteq> default_key (fst s)" "map_of (ls_layers (fst s)) key = Some layer"
  shows "fst (remove_layer key s) = Inr layer"
    "ls_order (fst (snd (remove_layer key s))) = filter (\<lambda>k. k \<noteq> key) (ls_order (fst s))"
  using assms by (cases s; simp add: remove_layer_def layer_for_def Let_def)+

lemma unassign_inv:
  assumes "policy_inv p" "key \<noteq> DEFAULT_LAYER_KEY" "map_of (client_layer_keys p) c = Some key"
  defines "keys \<equiv> AList.delete c (client_layer_keys p)"
  shows "flat_receiver_count p = 0"
    "policy_inv (p\<lparr>client_layer_keys := keys\<rparr>)"
    "key \<notin> set (dict_values keys) \<Longrightarrow>
       policy_inv (p\<lparr>client_layer_keys := keys, layer_stack := snd (remove_layer key (layer_stack p))\<rparr>)"
    "\<exists>layer. fst (remove_layer key (layer_stack p)) = Inr layer"
proof -
  have "key \<in> set (dict_values (client_layer_keys p))"
    using map_of_SomeD [OF assms(3)] by force
  then have inorder: "key \<in> set (ls_order (fst (layer_stack p)))"
    using assms(1) by (auto simp: policy_inv_def)
  with assms(1,2) show flat: "flat_receiver_count p = 0"
    by (auto simp: policy_inv_def flat_contract_def)
  have sub: "set (dict_values keys) \<subseteq> set (ls_order (fst (layer_stack p)))"
    using dict_values_delete [of c "client_layer_keys p"] assms(1) by (auto simp: policy_inv_def keys_def)
  then show "policy_inv (p\<lparr>client_layer_keys := keys\<rparr>)"
    using assms(1) flat by (simp add: policy_inv_def)
  from inorder obtain layer where layer: "map_of (ls_layers (fst (layer_stack p))) key = Some layer"
    using policy_order_keys [OF assms(1)] policy_has_layer [OF assms(1)] by auto
  have nd: "key \<noteq> default_key (fst (layer_stack p))" using assms(1,2) by (simp add: policy_inv_def)
  note rem = remove_layer_stack [OF nd layer]
  show "\<exists>layer. fst (remove_layer key (layer_stack p)) = Inr layer" using rem(1) by blast
  have kept: "kept (layer_stack p) (snd (remove_layer key (layer_stack p)))"
    using remove_kept assms(1) by (cases "layer_stack p") (auto simp: policy_inv_def)
  show "policy_inv (p\<lparr>client_layer_keys := keys, layer_stack := snd (remove_layer key (layer_stack p))\<rparr>)"
    if "key \<notin> set (dict_values keys)"
    using assms(1) flat sub that rem(2) kept_inv [OF kept] by (auto simp: policy_inv_def)
qed

lemma release_assignment_inv:
  assumes "policy_inv p"
  shows "policy_inv (snd (release_client_assignment c merge p))"
proof (cases "present_key (map_of (client_layer_keys p) c)")
  case None
  with assms show ?thesis by (simp add: release_client_assignment_def)
next
  case (Some key)
  then have some: "map_of (client_layer_keys p) c = Some key"
    by (auto simp: present_key_def split: option.splits if_splits)
  show ?thesis
  proof (cases "key = DEFAULT_LAYER_KEY")
    case True
    with Some assms show ?thesis by (simp add: release_client_assignment_def)
  next
    case False
    note step = unassign_inv [OF assms False some]
    show ?thesis
      using Some False step assms
      by (auto simp: release_client_assignment_def Let_def case_prod_beta emit_def
          split: sum.splits if_splits)
  qed
qed

section \<open>Reachable policies\<close>

inductive policy_step :: "policy \<Rightarrow> policy \<Rightarrow> bool" where
  assign: "fresh_ident ident (layer_stack p) \<Longrightarrow>
    policy_step p (snd (get_or_create_client_layer ident edit client dept p))"
| admit: "policy_step p (snd (reserve_receiver_replay_mode layered p))"
| disconnect: "policy_step p (snd (release_receiver_replay_mode layered p))"
| unassign: "policy_step p (snd (release_client_assignment client merge p))"
| prioritise: "policy_step p (snd (set_department_priority ds p))"
| mute_layer: "policy_step p (snd (policy_set_muted key m p))"

interpretation policy_sys: invariant_system policy_step policy_inv
  by unfold_locales
    (auto elim!: policy_step.cases intro: get_or_create_inv reserve_inv release_inv
      release_assignment_inv set_priority_inv policy_set_muted_inv)

definition initial_policy :: "string \<Rightarrow> string \<Rightarrow> usd_stage \<Rightarrow> policy" where
  "initial_policy default_layer generation st =
     \<lparr>layer_stack = (case stack_init default_layer DEFAULT_LAYER_KEY ''Default'' generation st of
          Inr s \<Rightarrow> s),
      client_layer_keys = [], department_priority = [], flat_receiver_count = 0, effects = []\<rparr>"

lemma stack_init_inv:
  "case stack_init layer DEFAULT_LAYER_KEY label gen st of Inl _ \<Rightarrow> False
   | Inr s \<Rightarrow> stack_inv s \<and> default_key (fst s) = DEFAULT_LAYER_KEY"
proof -
  define ls where "ls = \<lparr>default_key = DEFAULT_LAYER_KEY, ls_layers = [(DEFAULT_LAYER_KEY, layer)],
    keys_by_identifier = [(layer, DEFAULT_LAYER_KEY)], ls_labels = [(DEFAULT_LAYER_KEY, label)],
    ls_order = [DEFAULT_LAYER_KEY], ls_generation = gen, ls_revision = 1\<rparr>"
  have table: "table_inv ls" by (auto simp: table_inv_def ls_def wf_dict_def)
  have "session_inv (update_session_sublayers [] (ls, st))"
    unfolding update_session_eq [OF table] by (auto simp: session_inv_def)
  with table have "stack_inv (update_session_sublayers [] (ls, st))"
    by (simp add: stack_inv_def) (simp add: ls_def)
  then show ?thesis
    unfolding stack_init_def ls_def [symmetric] by (simp add: DEFAULT_LAYER_KEY_def) (simp add: ls_def DEFAULT_LAYER_KEY_def)
qed

lemma initial_policy_inv: "policy_inv (initial_policy layer gen st)"
  using stack_init_inv [of layer "''Default''" gen st]
  by (auto simp: policy_inv_def initial_policy_def split: sum.splits)

section \<open>Properties\<close>

text \<open>C19. Flat receivers stay representable: from a fresh policy, along every sequence of client
  assignments and releases, receiver admissions and disconnects, priority changes and mutes,
  accepted or rejected, the number of flat receivers is never negative, and while one is
  connected there is no department priority, the default layer is the only managed layer, and
  it is not muted. Every assigned client's layer exists.\<close>

theorem flat_receivers_representable:
  assumes "policy_step\<^sup>*\<^sup>* (initial_policy layer gen st) p"
  shows "0 \<le> flat_receiver_count p \<and> (flat_receiver_count p > 0 \<longrightarrow> flat_contract p) \<and>
    (\<forall>key \<in> set (dict_values (client_layer_keys p)). has_layer key (fst (layer_stack p)))"
proof -
  have inv: "policy_inv p" using policy_sys.reach_invar assms initial_policy_inv by blast
  moreover have "has_layer key (fst (layer_stack p))"
    if "key \<in> set (dict_values (client_layer_keys p))" for key
    using that inv policy_order_keys [OF inv] by (auto simp: policy_inv_def)
  ultimately show ?thesis by (simp add: policy_inv_def)
qed

theorem flat_receivers_representable_witness:
  "let p = snd (reserve_receiver_replay_mode False (initial_policy ''l0'' ''g''
        \<lparr>session_sublayers = [], muted_layers = []\<rparr>))
   in flat_receiver_count p = 1 \<and> flat_contract p"
proof -
  define p where "p = snd (reserve_receiver_replay_mode False (initial_policy ''l0'' ''g''
        \<lparr>session_sublayers = [], muted_layers = []\<rparr>))"
  have "policy_step\<^sup>*\<^sup>* (initial_policy ''l0'' ''g'' \<lparr>session_sublayers = [], muted_layers = []\<rparr>) p"
    unfolding p_def by (intro r_into_rtranclp admit)
  from flat_receivers_representable [OF this]
  have contract: "flat_receiver_count p > 0 \<longrightarrow> flat_contract p" by blast
  have "flat_receiver_count p = 1"
    by (simp add: p_def initial_policy_def stack_init_def DEFAULT_LAYER_KEY_def
        reserve_receiver_replay_mode_def flat_replay_rejection_reason_def
        update_session_sublayers_def ordered_layers_def identifier_of_def case_prod_beta Let_def)
  with contract show ?thesis by (simp flip: p_def)
qed

text \<open>The configured department order always applies: on a well-formed policy reordering
  never raises, the resulting strongest-first order starts with the configured departments that
  have a layer, in priority order, keeps the relative order of the others, and ends with the
  default layer.\<close>

theorem department_order_applies:
  assumes "policy_inv p"
  shows "(\<exists>b. fst (apply_department_order p) = Inr b) \<and>
    ls_order (fst (layer_stack (snd (apply_department_order p)))) = department_order p \<and>
    set (department_order p) = set (ls_order (fst (layer_stack p))) \<and>
    distinct (department_order p) \<and> last (department_order p) = DEFAULT_LAYER_KEY \<and>
    policy_inv (snd (apply_department_order p))"
proof -
  have inv: "stack_inv (layer_stack p)" "default_key (fst (layer_stack p)) = DEFAULT_LAYER_KEY"
    "distinct (department_priority p)" "[] \<notin> set (department_priority p)"
    using assms by (simp_all add: policy_inv_def)
  have "set (department_order p) = set (ls_order (fst (layer_stack p)))"
    using department_order_ok(2) [OF inv] inv(1) by (simp add: stack_inv_def table_inv_def)
  then show ?thesis
    using apply_department_order_ok [OF assms] department_order_ok [OF inv] by blast
qed

theorem department_order_applies_witness:
  "last (department_order (initial_policy ''l0'' ''g'' \<lparr>session_sublayers = [], muted_layers = []\<rparr>)) =
     DEFAULT_LAYER_KEY"
  using department_order_applies [OF initial_policy_inv] by blast

end
