(* ===== verification/Authentication.thy ===== *)
theory Authentication
  imports Prelude "HOL-Library.AList"
begin

text \<open>
  Trust-on-first-use authentication (\<open>openusdconnect/token_store.py\<close> and
  \<open>UsdSyncServer.authenticate\<close> in \<open>openusdconnect/server/state.py\<close>).

  The table is an association list from the primary key to the row; a row has the token and the
  department, the time stamps are left out. The token \<open>secrets.token_hex\<close> draws is an argument.
  Each method of the store holds its lock and is one atomic operation; \<open>authenticate\<close> calls
  several of them.
\<close>

type_synonym token_table = "(string \<times> (string \<times> string option)) list"

definition issue :: "string \<Rightarrow> string \<Rightarrow> string option \<Rightarrow> token_table \<Rightarrow> string \<times> token_table" where
  "issue fresh client_id department tbl = (fresh, AList.update client_id (fresh, department) tbl)"

definition is_ascii :: "string \<Rightarrow> bool" where
  "is_ascii s \<longleftrightarrow> list_all (\<lambda>c. of_char c < (128 :: nat)) s"

text \<open>\<open>secrets.compare_digest\<close> on strings: other than ASCII characters are a \<open>TypeError\<close>.\<close>

definition compare_digest :: "string \<Rightarrow> string \<Rightarrow> bool res" where
  "compare_digest a b =
     (if is_ascii a \<and> is_ascii b then Inr (a = b)
      else Inl (TypeError ''comparing strings with non-ASCII characters is not supported''))"

definition verify :: "string \<Rightarrow> string \<Rightarrow> token_table \<Rightarrow> bool res" where
  "verify client_id token tbl =
     (case map_of tbl client_id of None \<Rightarrow> Inr False | Some (stored, department) \<Rightarrow> compare_digest stored token)"

definition has_token :: "string \<Rightarrow> token_table \<Rightarrow> bool" where
  "has_token client_id tbl \<longleftrightarrow> map_of tbl client_id \<noteq> None"

definition revoke :: "string \<Rightarrow> token_table \<Rightarrow> bool \<times> token_table" where
  "revoke client_id tbl = (map_of tbl client_id \<noteq> None, AList.delete client_id tbl)"

text \<open>\<open>tokens\<close> is \<open>None\<close> when the server does not require tokens.\<close>

definition authenticate ::
  "string \<Rightarrow> string option \<Rightarrow> string option \<Rightarrow> string option \<Rightarrow> token_table option
     \<Rightarrow> (bool \<times> string option) res \<times> token_table option" where
  "authenticate fresh client_id token department tokens =
     (case tokens of
        None \<Rightarrow> (Inr (True, None), None)
      | Some tbl \<Rightarrow>
          if client_id \<in> {None, Some []} then (Inr (False, None), Some tbl)
          else let c = the client_id
          in if \<not> has_token c tbl
             then let (t, tbl') = issue fresh c department tbl in (Inr (True, Some t), Some tbl')
             else case token of
               None \<Rightarrow> (Inr (False, None), Some tbl)
             | Some t \<Rightarrow>
                 if t = [] then (Inr (False, None), Some tbl)
                 else case verify c t tbl of
                   Inl e \<Rightarrow> (Inl e, Some tbl)
                 | Inr valid \<Rightarrow> (Inr (valid, None), Some tbl))"

section \<open>Sequences of connections\<close>

datatype auth_op = Connect string "string option" "string option" "string option" | Revoke string

fun auth_apply :: "auth_op \<Rightarrow> token_table \<Rightarrow> token_table" where
  "auth_apply (Connect fresh client_id token department) tbl =
     the (snd (authenticate fresh client_id token department (Some tbl)))"
| "auth_apply (Revoke client_id) tbl = snd (revoke client_id tbl)"

lemma auth_table: "\<exists>tbl'. snd (authenticate fresh c token d (Some tbl)) = Some tbl'"
  by (auto simp: authenticate_def issue_def Let_def split: option.splits sum.splits)

lemma auth_apply_keeps:
  assumes "map_of tbl c = Some row" "op \<noteq> Revoke c"
  shows "map_of (auth_apply op tbl) c = Some row"
  using assms
  by (cases row; cases op)
    (auto simp: authenticate_def has_token_def issue_def revoke_def Let_def delete_conv' update_conv'
      split: option.splits sum.splits)

lemma auth_run_keeps:
  "map_of tbl c = Some row \<Longrightarrow> Revoke c \<notin> set ops \<Longrightarrow> map_of (fold auth_apply ops tbl) c = Some row"
  by (induction ops arbitrary: tbl) (auto simp: auth_apply_keeps)

section \<open>Properties\<close>



text \<open>
  The two calls of a first connection are not atomic. When two first connections under one id
  interleave, both are accepted, and the one that stored its token first holds a token the server
  refuses.
\<close>

lemma concurrent_first_connect_loses_token:
  assumes "\<not> has_token c tbl" "is_ascii t1" "is_ascii t2" "t1 \<noteq> t2"
  shows "let tbl1 = snd (issue t1 c d1 tbl); tbl2 = snd (issue t2 c d2 tbl1)
    in verify c t1 tbl2 = Inr False \<and> verify c t2 tbl2 = Inr True"
  using assms by (auto simp: issue_def verify_def compare_digest_def update_conv' Let_def)

end
