(* ===== verification/Rate_Limit.thy ===== *)
theory Rate_Limit
  imports Prelude Complex_Main
begin

text \<open>
  The per-client token bucket (\<open>openusdconnect/server/rate_limit.py\<close>). Times and rates are reals;
  a rate that is not finite is \<open>None\<close>. The monotonic clock is the argument \<open>now\<close>.
\<close>

definition validate_rate_limit_config :: "real option \<Rightarrow> int \<Rightarrow> unit res" where
  "validate_rate_limit_config rate burst =
     (case rate of
        None \<Rightarrow> Inl (ValueError ''txn_rate must be a finite non-negative number'')
      | Some r \<Rightarrow>
          if r < 0 then Inl (ValueError ''txn_rate must be a finite non-negative number'')
          else if burst < 0 then Inl (ValueError ''txn_burst must be non-negative'')
          else if (r = 0) \<noteq> (burst = 0)
          then Inl (ValueError ''txn_rate and txn_burst must both be zero or both be positive'')
          else Inr ())"

record token_bucket =
  tb_rate :: real
  tb_burst :: int
  tb_tokens :: real
  tb_last :: real

definition new_bucket :: "real option \<Rightarrow> int \<Rightarrow> real \<Rightarrow> token_bucket res" where
  "new_bucket rate burst now =
     (case validate_rate_limit_config rate burst of
        Inl e \<Rightarrow> Inl e
      | Inr _ \<Rightarrow>
          if rate = Some 0 then Inl (ValueError ''TokenBucket rate and burst must be positive'')
          else Inr \<lparr>tb_rate = the rate, tb_burst = burst, tb_tokens = of_int burst, tb_last = now\<rparr>)"

definition try_consume :: "real \<Rightarrow> token_bucket \<Rightarrow> real \<times> token_bucket" where
  "try_consume now b =
     (let tokens = min (of_int (tb_burst b)) (tb_tokens b + (now - tb_last b) * tb_rate b);
          b = b\<lparr>tb_tokens := tokens, tb_last := now\<rparr>
      in if tokens \<ge> 1 then (0, b\<lparr>tb_tokens := tokens - 1\<rparr>) else ((1 - tokens) / tb_rate b, b))"

text \<open>A sequence of attempts and their answers.\<close>

fun consume_all :: "real list \<Rightarrow> token_bucket \<Rightarrow> real list \<times> token_bucket" where
  "consume_all [] b = ([], b)"
| "consume_all (t # ts) b =
     (let (w, b1) = try_consume t b; (ws, b2) = consume_all ts b1 in (w # ws, b2))"

definition granted :: "real list \<Rightarrow> nat" where
  "granted ws = length (filter (\<lambda>w. w = 0) ws)"

section \<open>Invariant\<close>

definition bucket_inv :: "token_bucket \<Rightarrow> bool" where
  "bucket_inv b \<longleftrightarrow> 0 < tb_rate b \<and> 1 \<le> tb_burst b \<and> 0 \<le> tb_tokens b \<and> tb_tokens b \<le> of_int (tb_burst b)"

lemma new_bucket_inv:
  "new_bucket rate burst now = Inr b \<Longrightarrow>
     bucket_inv b \<and> tb_last b = now \<and> rate = Some (tb_rate b) \<and> tb_burst b = burst"
  by (auto simp: new_bucket_def validate_rate_limit_config_def bucket_inv_def split: option.splits if_splits)

text \<open>One attempt: what is granted is paid for by the tokens and the time that has passed.\<close>

lemma try_consume_step:
  assumes "bucket_inv b" "tb_last b \<le> now" "try_consume now b = (w, b')"
  shows "bucket_inv b'" "tb_last b' = now" "tb_rate b' = tb_rate b" "tb_burst b' = tb_burst b" "0 \<le> w"
    "of_bool (w = 0) + tb_tokens b' \<le> tb_tokens b + (now - tb_last b) * tb_rate b"
    "of_bool (w = 0) + tb_tokens b' \<le> of_int (tb_burst b)"
    "w \<noteq> 0 \<Longrightarrow> w = (1 - tb_tokens b') / tb_rate b"
proof -
  define tokens where "tokens = min (of_int (tb_burst b)) (tb_tokens b + (now - tb_last b) * tb_rate b)"
  have nonneg: "0 \<le> (now - tb_last b) * tb_rate b" using assms(1,2) by (simp add: bucket_inv_def)
  then have tk: "0 \<le> tokens" "tokens \<le> of_int (tb_burst b)" "tokens \<le> tb_tokens b + (now - tb_last b) * tb_rate b"
    using assms(1) by (auto simp: tokens_def bucket_inv_def)
  have wb: "(w, b') = (if tokens \<ge> 1 then (0, b\<lparr>tb_tokens := tokens - 1, tb_last := now\<rparr>)
      else ((1 - tokens) / tb_rate b, b\<lparr>tb_tokens := tokens, tb_last := now\<rparr>))"
    using assms(3) by (auto simp: try_consume_def tokens_def [symmetric] Let_def split: if_splits)
  have rate: "0 < tb_rate b" using assms(1) by (simp add: bucket_inv_def)
  show "bucket_inv b'" "tb_last b' = now" "tb_rate b' = tb_rate b" "tb_burst b' = tb_burst b"
    using wb tk assms(1) by (auto simp: bucket_inv_def split: if_splits)
  show "0 \<le> w" "of_bool (w = 0) + tb_tokens b' \<le> tb_tokens b + (now - tb_last b) * tb_rate b"
    "of_bool (w = 0) + tb_tokens b' \<le> of_int (tb_burst b)" "w \<noteq> 0 \<Longrightarrow> w = (1 - tb_tokens b') / tb_rate b"
    using wb tk rate by (auto split: if_splits)
qed

lemma consume_all_spec:
  assumes "bucket_inv b" "sorted (tb_last b # ts)" "consume_all ts b = (ws, b')"
  shows "bucket_inv b' \<and> tb_last b' = last (tb_last b # ts) \<and> tb_rate b' = tb_rate b \<and> tb_burst b' = tb_burst b \<and>
    real (granted ws) + tb_tokens b' \<le> tb_tokens b + (tb_last b' - tb_last b) * tb_rate b"
  using assms
proof (induction ts arbitrary: b ws)
  case (Cons t ts)
  obtain w b1 where one: "try_consume t b = (w, b1)" by fastforce
  obtain ws1 where rest: "consume_all ts b1 = (ws1, b')" "ws = w # ws1"
    using Cons.prems(3) one by (auto split: prod.splits)
  have le: "tb_last b \<le> t" using Cons.prems(2) by simp
  note step = try_consume_step [OF Cons.prems(1) le one]
  have "sorted (tb_last b1 # ts)" using Cons.prems(2) step(2) by simp
  note IH = Cons.IH [OF step(1) this rest(1)]
  have "real (granted ws) = of_bool (w = 0) + real (granted ws1)" by (simp add: rest(2) granted_def)
  with IH step show ?case by (auto simp: algebra_simps)
qed (simp add: granted_def)

lemma window_bound:
  assumes "bucket_inv b" "sorted (tb_last b # us)" "us \<noteq> []" "consume_all us b = (ws, b')"
  shows "real (granted ws) + tb_tokens b' \<le> of_int (tb_burst b) + (last us - hd us) * tb_rate b"
proof -
  obtain t ts where us: "us = t # ts" using assms(3) by (cases us) auto
  obtain w b1 where one: "try_consume t b = (w, b1)" by fastforce
  obtain ws1 where rest: "consume_all ts b1 = (ws1, b')" "ws = w # ws1"
    using assms(4) one us by (auto split: prod.splits)
  have "tb_last b \<le> t" using assms(2) us by simp
  note step = try_consume_step [OF assms(1) this one]
  have "sorted (tb_last b1 # ts)" using assms(2) us step(2) by simp
  note IH = consume_all_spec [OF step(1) this rest(1)]
  have "real (granted ws) = of_bool (w = 0) + real (granted ws1)" by (simp add: rest(2) granted_def)
  with IH step us show ?thesis by (auto simp: algebra_simps)
qed

section \<open>Properties\<close>



end
