(* ===== verification/Playback.thy ===== *)
theory Playback
  imports Prelude Complex_Main
begin

text \<open>
  Playback leadership and the shared playhead (\<open>openusdconnect/server/playback.py\<close>). Every
  method holds the playback lock, so each is one atomic operation. A connection without a client
  id passes the empty string.
\<close>

record playback =
  pb_time :: real
  pb_playing :: bool
  pb_rate :: real
  pb_leader :: "string option"

definition new_playback :: playback where
  "new_playback = \<lparr>pb_time = 0, pb_playing = False, pb_rate = 1, pb_leader = None\<rparr>"

definition leader_name :: "playback \<Rightarrow> string" where
  "leader_name pb = (case pb_leader pb of None \<Rightarrow> [] | Some c \<Rightarrow> c)"

definition claim :: "string \<Rightarrow> real option \<Rightarrow> playback \<Rightarrow> (bool \<times> string) \<times> playback" where
  "claim client_id initial_time pb =
     (let current = leader_name pb
      in if client_id = [] then ((False, current), pb)
         else if current \<noteq> [] \<and> current \<noteq> client_id then ((False, current), pb)
         else let pb = pb\<lparr>pb_leader := Some client_id\<rparr>
              in ((True, client_id), case initial_time of None \<Rightarrow> pb | Some t \<Rightarrow> pb\<lparr>pb_time := t\<rparr>))"

text \<open>The result: whether the command was applied, the error text or the new state, the leader.\<close>

definition apply_control :: "string \<Rightarrow> string \<Rightarrow> real \<Rightarrow> real \<Rightarrow> playback \<Rightarrow> (bool \<times> (string + playback) \<times> string) \<times> playback" where
  "apply_control client_id action time_value rate pb =
     (let leader = leader_name pb
      in if leader \<noteq> client_id then ((False, Inl (''not the playback leader (current: '' @ leader @ '')''), leader), pb)
         else if action = ''play'' then let pb = pb\<lparr>pb_playing := True\<rparr> in ((True, Inr pb, leader), pb)
         else if action = ''pause'' then let pb = pb\<lparr>pb_playing := False\<rparr> in ((True, Inr pb, leader), pb)
         else if action = ''stop'' then let pb = pb\<lparr>pb_playing := False, pb_time := 0\<rparr> in ((True, Inr pb, leader), pb)
         else if action = ''set_time'' then let pb = pb\<lparr>pb_time := time_value\<rparr> in ((True, Inr pb, leader), pb)
         else if action = ''set_rate'' then let pb = pb\<lparr>pb_rate := rate\<rparr> in ((True, Inr pb, leader), pb)
         else ((False, Inl (''unknown playback action '' @ action), leader), pb))"

definition release :: "string \<Rightarrow> playback \<Rightarrow> bool \<times> playback" where
  "release client_id pb =
     (if client_id = [] then (False, pb)
      else if pb_leader pb = Some client_id then (True, pb\<lparr>pb_leader := None\<rparr>)
      else (False, pb))"

text \<open>What connections do, as a sequence of operations with the client that does each.\<close>

datatype playback_op = Claim "real option" | PlayControl string real real | Release

fun playback_apply :: "string \<times> playback_op \<Rightarrow> playback \<Rightarrow> playback" where
  "playback_apply (c, Claim t) pb = snd (claim c t pb)"
| "playback_apply (c, PlayControl action t r) pb = snd (apply_control c action t r pb)"
| "playback_apply (c, Release) pb = snd (release c pb)"

section \<open>Leadership\<close>

lemma others_refused:
  "pb_leader pb = Some a \<Longrightarrow> a \<noteq> [] \<Longrightarrow> c \<noteq> a \<Longrightarrow> playback_apply (c, op) pb = pb"
  by (cases op) (auto simp: claim_def apply_control_def release_def leader_name_def Let_def)

lemma others_refused_run:
  "pb_leader pb = Some a \<Longrightarrow> a \<noteq> [] \<Longrightarrow> list_all (\<lambda>(c, op). c \<noteq> a) ops \<Longrightarrow> fold playback_apply ops pb = pb"
  by (induction ops) (auto simp: others_refused)

lemma apply_control_leader [simp]: "pb_leader (snd (apply_control c action t r pb)) = pb_leader pb"
  by (simp add: apply_control_def Let_def)

lemma claim_leader: "pb_leader pb \<noteq> Some [] \<Longrightarrow> pb_leader (snd (claim c t pb)) \<noteq> Some []"
  by (cases t) (simp_all add: claim_def Let_def)

lemma leader_never_empty:
  "pb_leader pb \<noteq> Some [] \<Longrightarrow> pb_leader (playback_apply (c, op) pb) \<noteq> Some []"
  by (cases op) (simp_all add: claim_leader release_def)

lemma leader_never_empty_run: "pb_leader pb \<noteq> Some [] \<Longrightarrow> pb_leader (fold playback_apply ops pb) \<noteq> Some []"
proof (induction ops arbitrary: pb)
  case (Cons x ops)
  then show ?case using leader_never_empty [of pb "fst x" "snd x"] by simp
qed simp

text \<open>C36. Playback leadership is exclusive. From the initial state, after any operations of any
  clients: a claim by a named client succeeds exactly when nobody else leads, and then no
  sequence of operations of other clients changes the leader, the playhead, the rate or whether
  it plays, until the leader releases it; releasing keeps the playhead and lets anyone else claim.\<close>

theorem playback_leader_exclusive:
  assumes "pb = fold playback_apply history new_playback" "c \<noteq> []"
  shows "(fst (fst (claim c t pb)) \<longleftrightarrow> pb_leader pb \<in> {None, Some c}) \<and>
    (fst (fst (claim c t pb)) \<longrightarrow> pb_leader (snd (claim c t pb)) = Some c \<and>
       (\<forall>ops. list_all (\<lambda>(d, op). d \<noteq> c) ops \<longrightarrow>
          fold playback_apply ops (snd (claim c t pb)) = snd (claim c t pb)) \<and>
       (\<forall>d. d \<noteq> [] \<longrightarrow> fst (fst (claim d None (snd (release c (snd (claim c t pb))))))) \<and>
       pb_time (snd (release c (snd (claim c t pb)))) = pb_time (snd (claim c t pb)))"
proof -
  have ne: "pb_leader pb \<noteq> Some []" unfolding assms(1) by (rule leader_never_empty_run) (simp add: new_playback_def)
  have iff: "fst (fst (claim c t pb)) \<longleftrightarrow> pb_leader pb \<in> {None, Some c}"
    using ne assms(2) by (cases "pb_leader pb") (auto simp: claim_def leader_name_def Let_def)
  have lead: "pb_leader (snd (claim c t pb)) = Some c" if "fst (fst (claim c t pb))"
    using that by (auto simp: claim_def Let_def split: if_splits option.splits)
  have "fst (fst (claim d None (snd (release c (snd (claim c t pb))))))" if "fst (fst (claim c t pb))" "d \<noteq> []" for d
    using lead [OF that(1)] assms(2) that(2) by (simp add: release_def claim_def [of d] leader_name_def Let_def)
  with iff lead others_refused_run assms(2) show ?thesis by (auto simp: release_def)
qed

theorem playback_leader_exclusive_witness:
  "fold playback_apply [(''b'', Claim None), (''b'', PlayControl ''stop'' 0 1), (''b'', Release)]
     (snd (claim ''a'' (Some 5) new_playback)) = snd (claim ''a'' (Some 5) new_playback)"
proof -
  have "fst (fst (claim ''a'' (Some 5) new_playback))" by (simp add: claim_def new_playback_def leader_name_def)
  moreover have "list_all (\<lambda>(d, op). d \<noteq> ''a'') [(''b'', Claim None), (''b'', PlayControl ''stop'' 0 1), (''b'', Release)]" by simp
  ultimately show ?thesis using playback_leader_exclusive [of new_playback "[]" "''a''" "Some 5"] by (metis fold.simps(1) id_apply list.distinct(1))
qed

text \<open>
  A connection without a client id cannot claim the role, yet while nobody leads its commands are
  taken: the leader's name is then the empty string as well.
\<close>

lemma anonymous_playback_control:
  "fst (fst (claim [] t new_playback)) = False"
  "apply_control [] ''play'' 0 1 new_playback =
     ((True, Inr (new_playback\<lparr>pb_playing := True\<rparr>), []), new_playback\<lparr>pb_playing := True\<rparr>)"
  by (simp_all add: claim_def apply_control_def new_playback_def leader_name_def Let_def)

end
