(* ===== verification/Connection.thy ===== *)
theory Connection
  imports Producer_Protocol Validation Collaboration Authentication Rate_Limit Playback "HOL-Library.Sublist"
begin

text \<open>
  The connection handler (\<open>openusdconnect/server/connection.py\<close>): the checks of a hello, the
  receiver's replay-mode reservation, the read loop of a client and the worker that returns
  transaction results.

  A hello and a message are what the codec decodes. The handlers of a server share the policy, the
  token table and the journal. Sending has no effect on the server's state; whether a send
  succeeds is an argument. Client bookkeeping for the dashboard is left out.
\<close>

section \<open>Admission\<close>

record hello =
  h_protocol_version :: int
  h_role :: string
  h_client_id :: "string option"
  h_department :: "string option"
  h_layered :: bool
  h_layer_mode :: layer_mode
  h_token :: "string option"
  h_session_id :: string

datatype rejection_kind = Unspecified | LayerModeMismatch | LayeredReplayRequired

record admission =
  ad_committed_through :: "int option"
  ad_layer_mode :: layer_mode
  ad_token :: "string option"
  ad_layered_replay :: bool
  ad_replay_identity :: bool

datatype hello_result = NoAnswer | RejectHello rejection_kind string | RejectAuth | Raised py_exn | Admitted admission

record front =
  fr_mode :: layer_mode
  fr_policy :: policy
  fr_tokens :: "token_table option"
  fr_journal :: journal

definition quoted :: "string \<Rightarrow> string" where
  "quoted s = [CHR 0x27] @ s @ [CHR 0x27]"

definition mode_value :: "layer_mode \<Rightarrow> string" where
  "mode_value m = (case m of MANAGED \<Rightarrow> ''managed'' | SHARED_STAGE \<Rightarrow> ''shared_stage'')"

definition falsy :: "string option \<Rightarrow> bool" where
  "falsy v \<longleftrightarrow> v \<in> {None, Some []}"

text \<open>
  \<open>handle\<close> up to the hello reply. The flag of the result says whether the handler has reserved a
  flat or layered replay mode.
\<close>

definition admit :: "string \<Rightarrow> hello \<Rightarrow> front \<Rightarrow> hello_result \<times> bool \<times> front" where
  "admit fresh h fr =
     (if h_protocol_version h \<noteq> PROTOCOL_VERSION then (NoAnswer, False, fr)
      else if h_role h \<notin> {''emitter'', ''receiver''}
      then (RejectHello Unspecified (''role must be '' @ quoted ''emitter'' @ '' or '' @ quoted ''receiver''), False, fr)
      else if h_layer_mode h \<noteq> fr_mode fr
      then (RejectHello LayerModeMismatch (''server uses '' @ quoted (mode_value (fr_mode fr)) @ '' layer mode, client requested '' @
              quoted (mode_value (h_layer_mode h))), False, fr)
      else if h_role h = ''emitter'' \<and> (falsy (h_client_id h) \<or> h_session_id h = [] \<or> length (h_session_id h) > 128)
      then (RejectHello Unspecified ''emitter hello requires client_id and producer_session_id'', False, fr)
      else if h_layer_mode h = SHARED_STAGE \<and> (h_layered h \<or> \<not> falsy (h_department h))
      then (RejectHello LayerModeMismatch
              ''shared-stage mode does not use managed layered replay or department routing'', False, fr)
      else
        let reserve = (h_role h = ''receiver'' \<and> h_layer_mode h = MANAGED);
            ((accepted, reason), p) =
              (if reserve then reserve_receiver_replay_mode (h_layered h) (fr_policy fr) else ((True, []), fr_policy fr));
            fr1 = fr\<lparr>fr_policy := p\<rparr>
        in if \<not> accepted then (RejectHello LayeredReplayRequired reason, False, fr1)
           else case authenticate fresh (h_client_id h) (h_token h) (h_department h) (fr_tokens fr1) of
             (Inl e, tokens) \<Rightarrow> (Raised e, reserve, fr1\<lparr>fr_tokens := tokens\<rparr>)
           | (Inr (accepted, issued), tokens) \<Rightarrow>
               (let fr2 = fr1\<lparr>fr_tokens := tokens\<rparr>
                in if \<not> accepted then (RejectAuth, reserve, fr2)
                   else let (mark, j) = (if h_role h = ''emitter''
                              then map_prod Some id (committed_through (the (h_client_id h)) (h_session_id h) (fr_journal fr2))
                              else (None, fr_journal fr2))
                        in (Admitted \<lparr>ad_committed_through = mark, ad_layer_mode = fr_mode fr2, ad_token = issued,
                              ad_layered_replay = (h_role h = ''receiver'' \<and> fr_mode fr2 = MANAGED \<and> h_layered h),
                              ad_replay_identity = (h_role h = ''receiver'')\<rparr>,
                            reserve, fr2\<lparr>fr_journal := j\<rparr>)))"

section \<open>Reservations\<close>

text \<open>
  The handlers of the server: whether each holds a reservation, and in which mode. Both the end of
  the connection and a failed send release it.
\<close>

record handlers =
  hn_front :: front
  hn_reserved :: "nat \<Rightarrow> bool"
  hn_layered :: "nat \<Rightarrow> bool"
  hn_next :: nat

definition connect_handler :: "string \<Rightarrow> hello \<Rightarrow> handlers \<Rightarrow> hello_result \<times> handlers" where
  "connect_handler fresh h hs =
     (let (res, reserved, fr) = admit fresh h (hn_front hs)
      in (res, hs\<lparr>hn_front := fr, hn_reserved := (hn_reserved hs)(hn_next hs := reserved),
                  hn_layered := (hn_layered hs)(hn_next hs := h_layered h), hn_next := hn_next hs + 1\<rparr>))"

definition release_receiver_replay_reservation :: "nat \<Rightarrow> handlers \<Rightarrow> unit res \<times> handlers" where
  "release_receiver_replay_reservation n hs =
     (if \<not> hn_reserved hs n then (Inr (), hs)
      else let (r, p) = release_receiver_replay_mode (hn_layered hs n) (fr_policy (hn_front hs))
           in (r, hs\<lparr>hn_reserved := (hn_reserved hs)(n := False), hn_front := (hn_front hs)\<lparr>fr_policy := p\<rparr>\<rparr>))"

definition new_handlers :: "front \<Rightarrow> handlers" where
  "new_handlers fr = \<lparr>hn_front = fr, hn_reserved = (\<lambda>_. False), hn_layered = (\<lambda>_. False), hn_next = 0\<rparr>"

inductive handler_step :: "handlers \<Rightarrow> handlers \<Rightarrow> bool" where
  connect: "handler_step hs (snd (connect_handler fresh h hs))"
| release: "handler_step hs (snd (release_receiver_replay_reservation n hs))"
| policy: "flat_receiver_count p = flat_receiver_count (fr_policy (hn_front hs)) \<Longrightarrow>
    handler_step hs (hs\<lparr>hn_front := (hn_front hs)\<lparr>fr_policy := p, fr_journal := j\<rparr>\<rparr>)"

section \<open>Transactions in, results out\<close>

definition submit_request ::
  "'layer sdf_lib \<Rightarrow> layer_mode \<Rightarrow> transaction_request \<Rightarrow> transaction_request res" where
  "submit_request lib mode r =
     (if tr_client_id r = [] \<or> tr_session_id r = [] \<or> length (tr_session_id r) > 128 \<or> tr_txn_id r < 1
      then Inl (TransactionRejectedError ''invalid_identity''
             ''client_id and session_id are required and txn_id must be positive'' 0)
      else case validate_events lib (Some mode) (PList (map PDict (tr_events r))) of
        Inl e \<Rightarrow> Inl e | Inr _ \<Rightarrow> Inr r)"

datatype txn_reply = AckReply int "transaction_checkpoint option" | RejReply int string string int

definition is_value_error :: "py_exn \<Rightarrow> bool" where
  "is_value_error e = (case e of ValueError m \<Rightarrow> True | TypeError m \<Rightarrow> True | StaleLayerGraphError m \<Rightarrow> True
     | TransactionRejectedError code m expected \<Rightarrow> True | _ \<Rightarrow> False)"

definition exn_text :: "py_exn \<Rightarrow> string" where
  "exn_text e = (case e of ValueError m \<Rightarrow> m | TypeError m \<Rightarrow> m | StaleLayerGraphError m \<Rightarrow> m
     | TransactionRejectedError code m expected \<Rightarrow> m | _ \<Rightarrow> [])"

definition transaction_rejection :: "int \<Rightarrow> py_exn \<Rightarrow> txn_reply" where
  "transaction_rejection txn_id e =
     (case e of
        TransactionRejectedError code m expected \<Rightarrow> RejReply txn_id code m expected
      | e \<Rightarrow> RejReply txn_id ''invalid_transaction'' (exn_text e) 0)"

text \<open>\<open>None\<close>: the error is not a protocol result, and the connection is shut down.\<close>

definition resolve_transaction_reply :: "transaction_request \<Rightarrow> outcome \<Rightarrow> txn_reply option" where
  "resolve_transaction_reply r out =
     (case out of
        Inr c \<Rightarrow> Some (AckReply (tc_txn_id c) (tc_checkpoint c))
      | Inl e \<Rightarrow> if is_value_error e then Some (transaction_rejection (tr_txn_id r) e) else None)"

datatype client_message = MQuit | MCompact | MClaim "real option" | MControl string real real
  | MTxn "event list" int string | MOther

datatype pending_result = PendingRequest transaction_request | PendingReply txn_reply

datatype read_effect = Compact | DoClaim "real option" | DoControl string real real | Limited real | Submit pending_result

record reader =
  rd_client_id :: string
  rd_session_id :: string
  rd_origin :: "string option"
  rd_addr :: "string option"
  rd_layer :: "string option"
  rd_mode :: layer_mode
  rd_bucket :: "token_bucket option"
  rd_emitter :: bool

text \<open>
  One message of \<open>_read_loop\<close> at time \<open>now\<close>: whether the loop goes on, its effect, the bucket. An
  error of the admission check that is not a \<open>ValueError\<close> or \<open>TypeError\<close> leaves the loop.
\<close>

definition read_message ::
  "'layer sdf_lib \<Rightarrow> client_message \<Rightarrow> real \<Rightarrow> reader \<Rightarrow> bool \<times> read_effect list \<times> reader" where
  "read_message lib msg now rd =
     (case msg of
        MQuit \<Rightarrow> (False, [], rd)
      | MCompact \<Rightarrow> (True, [Compact], rd)
      | MClaim t \<Rightarrow> (True, [DoClaim t], rd)
      | MControl a t r \<Rightarrow> (True, [DoControl a t r], rd)
      | MOther \<Rightarrow> (True, [], rd)
      | MTxn evs txn_id layer_key \<Rightarrow>
          if evs = [] then (True, [], rd)
          else let (wait, rd1) = (case rd_bucket rd of None \<Rightarrow> (0, rd)
                 | Some b \<Rightarrow> let (w, b') = try_consume now b in (w, rd\<lparr>rd_bucket := Some b'\<rparr>))
          in if wait > 0 then (True, [Limited wait], rd1)
             else if \<not> rd_emitter rd1 then (False, [], rd1)
             else let r = \<lparr>tr_events = evs, tr_client_id = rd_client_id rd1, tr_origin = rd_origin rd1,
                        tr_client_addr = rd_addr rd1, tr_layer = rd_layer rd1, tr_layer_key = layer_key,
                        tr_session_id = rd_session_id rd1, tr_txn_id = txn_id\<rparr>
             in case submit_request lib (rd_mode rd1) r of
                  Inr r \<Rightarrow> (True, [Submit (PendingRequest r)], rd1)
                | Inl e \<Rightarrow> if is_value_error e then (True, [Submit (PendingReply (transaction_rejection txn_id e))], rd1)
                           else (False, [], rd1))"

fun read_loop :: "'layer sdf_lib \<Rightarrow> (client_message \<times> real) list \<Rightarrow> reader \<Rightarrow> read_effect list" where
  "read_loop lib [] rd = []"
| "read_loop lib ((msg, now) # rest) rd =
     (let (go_on, eff, rd1) = read_message lib msg now rd
      in eff @ (if go_on then read_loop lib rest rd1 else []))"

section \<open>The result worker\<close>

text \<open>One batch: the replies to send, after cumulative acknowledgements replace the ones before.\<close>

definition add_reply :: "txn_reply \<Rightarrow> txn_reply list \<Rightarrow> txn_reply list" where
  "add_reply rp outgoing =
     (case rp of
        AckReply i ck \<Rightarrow>
          (case rev outgoing of
             AckReply i' ck' # before \<Rightarrow> rev before @ [rp]
           | _ \<Rightarrow> outgoing @ [rp])
      | RejReply i code reason expected \<Rightarrow> outgoing @ [rp])"

fun batch_outgoing :: "txn_reply option list \<Rightarrow> txn_reply list \<Rightarrow> txn_reply list" where
  "batch_outgoing [] outgoing = outgoing"
| "batch_outgoing (None # rest) outgoing = batch_outgoing rest outgoing"
| "batch_outgoing (Some rp # rest) outgoing = batch_outgoing rest (add_reply rp outgoing)"

text \<open>
  The loop over the batches the worker takes from its queue, with whether each send succeeds. The
  first unexpected error or failed send ends delivery, not the waiting for outcomes.
\<close>

fun result_loop :: "(txn_reply option list \<times> bool) list \<Rightarrow> bool \<Rightarrow> txn_reply list" where
  "result_loop [] delivery_failed = []"
| "result_loop ((replies, sent) # rest) delivery_failed =
     (let failed = (delivery_failed \<or> None \<in> set replies);
          outgoing = batch_outgoing replies []
      in if outgoing \<noteq> [] \<and> \<not> failed
         then if sent then outgoing @ result_loop rest failed else result_loop rest True
         else result_loop rest failed)"

section \<open>Reservations are balanced\<close>

definition flat_handlers :: "handlers \<Rightarrow> nat" where
  "flat_handlers hs = length (filter (\<lambda>n. hn_reserved hs n \<and> \<not> hn_layered hs n) [0..<hn_next hs])"

definition handlers_inv :: "handlers \<Rightarrow> bool" where
  "handlers_inv hs \<longleftrightarrow> flat_receiver_count (fr_policy (hn_front hs)) = int (flat_handlers hs) \<and>
     (\<forall>n \<ge> hn_next hs. \<not> hn_reserved hs n)"

lemma admit_count:
  assumes "admit fresh h fr = (res, reserved, fr')"
  shows "flat_receiver_count (fr_policy fr') = flat_receiver_count (fr_policy fr) + of_bool (reserved \<and> \<not> h_layered h)"
proof -
  obtain acc reason p where rs: "reserve_receiver_replay_mode (h_layered h) (fr_policy fr) = ((acc, reason), p)"
    by (metis prod.collapse)
  have count: "flat_receiver_count p = flat_receiver_count (fr_policy fr) + of_bool (acc \<and> \<not> h_layered h)"
    using rs by (auto simp: reserve_receiver_replay_mode_def Let_def split: if_splits)
  show ?thesis using assms count
    by (auto simp: admit_def rs Let_def split: if_splits prod.splits sum.splits)
qed

lemma flat_handlers_new:
  assumes "hn_next hs' = hn_next hs + 1"
    "\<And>n. n < hn_next hs \<Longrightarrow> hn_reserved hs' n = hn_reserved hs n \<and> hn_layered hs' n = hn_layered hs n"
  shows "flat_handlers hs' = flat_handlers hs + of_bool (hn_reserved hs' (hn_next hs) \<and> \<not> hn_layered hs' (hn_next hs))"
proof -
  have "filter (\<lambda>n. hn_reserved hs' n \<and> \<not> hn_layered hs' n) [0..<hn_next hs] =
      filter (\<lambda>n. hn_reserved hs n \<and> \<not> hn_layered hs n) [0..<hn_next hs]"
    by (rule filter_cong) (auto simp: assms(2))
  then show ?thesis by (simp add: flat_handlers_def assms(1))
qed

lemma connect_handler_inv:
  assumes "handlers_inv hs"
  shows "handlers_inv (snd (connect_handler fresh h hs))"
proof -
  obtain res reserved fr where ad: "admit fresh h (hn_front hs) = (res, reserved, fr)" by (metis prod_cases3)
  define hs' where "hs' = snd (connect_handler fresh h hs)"
  have f: "hn_next hs' = hn_next hs + 1" "hn_front hs' = fr" "hn_reserved hs' = (hn_reserved hs)(hn_next hs := reserved)"
    "hn_layered hs' = (hn_layered hs)(hn_next hs := h_layered h)"
    using ad by (simp_all add: hs'_def connect_handler_def)
  have "flat_handlers hs' = flat_handlers hs + of_bool (reserved \<and> \<not> h_layered h)"
    using flat_handlers_new [OF f(1)] f(3,4) by simp
  with assms admit_count [OF ad] f show ?thesis unfolding hs'_def [symmetric]
    by (auto simp: handlers_inv_def)
qed

lemma flat_handlers_release:
  assumes "n < hn_next hs" "hn_reserved hs n" "\<not> hn_layered hs n"
  shows "flat_handlers (hs\<lparr>hn_reserved := (hn_reserved hs)(n := False)\<rparr>) + 1 = flat_handlers hs"
proof -
  define P where "P = (\<lambda>m. hn_reserved hs m \<and> \<not> hn_layered hs m)"
  have "length (filter P xs) = length (filter (\<lambda>m. m \<noteq> n \<and> P m) xs) + 1" if "distinct xs" "n \<in> set xs" for xs
    using that
  proof (induction xs)
    case (Cons x xs)
    have "filter (\<lambda>m. m \<noteq> x \<and> P m) xs = filter P xs" if "x \<notin> set xs"
      using that by (intro filter_cong) auto
    with Cons assms show ?case by (cases "x = n") (auto simp: P_def)
  qed simp
  from this [of "[0..<hn_next hs]"] assms(1)
  have "length (filter P [0..<hn_next hs]) = length (filter (\<lambda>m. m \<noteq> n \<and> P m) [0..<hn_next hs]) + 1" by simp
  moreover have "filter (\<lambda>m. ((hn_reserved hs)(n := False)) m \<and> \<not> hn_layered hs m) xs = filter (\<lambda>m. m \<noteq> n \<and> P m) xs" for xs
    by (intro filter_cong) (auto simp: P_def)
  ultimately show ?thesis by (simp add: flat_handlers_def P_def)
qed

lemma release_handler:
  assumes "handlers_inv hs"
  shows "handlers_inv (snd (release_receiver_replay_reservation n hs))"
    "fst (release_receiver_replay_reservation n hs) = Inr ()"
    "\<not> hn_reserved (snd (release_receiver_replay_reservation n hs)) n"
proof -
  consider (none) "\<not> hn_reserved hs n" | (layered) "hn_reserved hs n" "hn_layered hs n"
    | (flat) "hn_reserved hs n" "\<not> hn_layered hs n" by blast
  then have "handlers_inv (snd (release_receiver_replay_reservation n hs)) \<and>
      fst (release_receiver_replay_reservation n hs) = Inr () \<and>
      \<not> hn_reserved (snd (release_receiver_replay_reservation n hs)) n"
  proof cases
    case none
    with assms show ?thesis by (simp add: release_receiver_replay_reservation_def)
  next
    case layered
    have "filter (\<lambda>m. (if m = n then False else hn_reserved hs m) \<and> \<not> hn_layered hs m) xs =
        filter (\<lambda>m. hn_reserved hs m \<and> \<not> hn_layered hs m) xs" for xs
      using layered(2) by (intro filter_cong) auto
    with assms layered show ?thesis
      by (simp add: release_receiver_replay_reservation_def release_receiver_replay_mode_def handlers_inv_def
          flat_handlers_def fun_upd_def)
  next
    case flat
    then have "n < hn_next hs" using assms by (auto simp: handlers_inv_def not_le [symmetric])
    note fh = flat_handlers_release [OF this flat]
    define hs1 where "hs1 = hs\<lparr>hn_reserved := (hn_reserved hs)(n := False)\<rparr>"
    have pos: "flat_receiver_count (fr_policy (hn_front hs)) = int (flat_handlers hs1) + 1"
      using assms fh unfolding hs1_def handlers_inv_def by linarith
    have rel: "release_receiver_replay_reservation n hs = (Inr (), hs1\<lparr>hn_front := (hn_front hs)\<lparr>fr_policy :=
        (fr_policy (hn_front hs))\<lparr>flat_receiver_count := flat_receiver_count (fr_policy (hn_front hs)) - 1\<rparr>\<rparr>\<rparr>)"
      using flat pos by (simp add: release_receiver_replay_reservation_def release_receiver_replay_mode_def hs1_def)
    have "flat_handlers (hs1\<lparr>hn_front := fr\<rparr>) = flat_handlers hs1" for fr by (simp add: flat_handlers_def)
    with rel pos assms show ?thesis by (auto simp: handlers_inv_def hs1_def)
  qed
  then show "handlers_inv (snd (release_receiver_replay_reservation n hs))"
    "fst (release_receiver_replay_reservation n hs) = Inr ()"
    "\<not> hn_reserved (snd (release_receiver_replay_reservation n hs)) n" by auto
qed

lemma handler_step_inv: "handler_step hs hs' \<Longrightarrow> handlers_inv hs \<Longrightarrow> handlers_inv hs'"
proof (induction rule: handler_step.induct)
  case (policy p hs j)
  have "flat_handlers (hs\<lparr>hn_front := fr\<rparr>) = flat_handlers hs" for fr by (simp add: flat_handlers_def)
  with policy show ?case by (simp add: handlers_inv_def)
qed (auto intro: connect_handler_inv release_handler(1))

interpretation hd: invariant_system handler_step handlers_inv
  by unfold_locales (rule handler_step_inv)

section \<open>Results\<close>

text \<open>A reply as a message of the producer protocol.\<close>

definition code_disposition :: "string \<Rightarrow> recovery_disposition" where
  "code_disposition code = (if code = ''stale_layer_graph'' then RecoverableConflict
     else if code = ''invalid_transaction'' then InvalidOperation else SessionFatal)"

fun msg_of :: "txn_reply \<Rightarrow> msg" where
  "msg_of (AckReply i ck) = Ack i"
| "msg_of (RejReply i code reason expected) = Rejected i (code_disposition code)"

definition coalesced :: "msg list \<Rightarrow> msg list \<Rightarrow> bool" where
  "coalesced xs ys \<longleftrightarrow> (\<exists>before a b after. xs = before @ Ack a # Ack b # after \<and> ys = before @ Ack b # after)"

lemma coalesced_context: "coalesced\<^sup>*\<^sup>* xs ys \<Longrightarrow> coalesced\<^sup>*\<^sup>* (us @ xs @ vs) (us @ ys @ vs)"
proof (induction rule: rtranclp_induct)
  case (step ys zs)
  then obtain before a b after where "ys = before @ Ack a # Ack b # after" "zs = before @ Ack b # after"
    by (auto simp: coalesced_def)
  then have "us @ ys @ vs = (us @ before) @ Ack a # Ack b # (after @ vs) \<and> us @ zs @ vs = (us @ before) @ Ack b # (after @ vs)"
    by simp
  then have "coalesced (us @ ys @ vs) (us @ zs @ vs)" unfolding coalesced_def by blast
  with step.IH show ?case by simp
qed simp

lemma add_reply_cases:
  "add_reply rp outgoing = outgoing @ [rp] \<or>
   (\<exists>before i ck j ck'. outgoing = before @ [AckReply i ck] \<and> rp = AckReply j ck' \<and> add_reply rp outgoing = before @ [rp])"
  by (cases outgoing rule: rev_cases; cases rp) (auto simp: add_reply_def split: txn_reply.splits)

lemma add_reply_coalesces: "coalesced\<^sup>*\<^sup>* (map msg_of (outgoing @ [rp])) (map msg_of (add_reply rp outgoing))"
proof -
  from add_reply_cases [of rp outgoing] show ?thesis
  proof
    assume "\<exists>before i ck j ck'. outgoing = before @ [AckReply i ck] \<and> rp = AckReply j ck' \<and> add_reply rp outgoing = before @ [rp]"
    then obtain before i ck j ck' where "outgoing = before @ [AckReply i ck]" "rp = AckReply j ck'" "add_reply rp outgoing = before @ [rp]"
      by blast
    then have "coalesced (map msg_of (outgoing @ [rp])) (map msg_of (add_reply rp outgoing))"
      unfolding coalesced_def by (intro exI [of _ "map msg_of before"] exI [of _ i] exI [of _ j] exI [of _ "[]"]) simp
    then show ?thesis by simp
  qed simp
qed

lemma batch_coalesces:
  "coalesced\<^sup>*\<^sup>* (map msg_of (outgoing @ replies)) (map msg_of (batch_outgoing (map Some replies) outgoing))"
proof (induction replies arbitrary: outgoing)
  case (Cons rp replies)
  have "coalesced\<^sup>*\<^sup>* (map msg_of (outgoing @ rp # replies)) (map msg_of (add_reply rp outgoing @ replies))"
    using coalesced_context [OF add_reply_coalesces, of "[]" outgoing rp "map msg_of replies"] by simp
  with Cons.IH [of "add_reply rp outgoing"] show ?case by simp
qed simp

lemma coalesced_link:
  assumes "coalesced\<^sup>*\<^sup>* xs ys"
  shows "lk_down lk = xs \<Longrightarrow> (link_step env background who)\<^sup>*\<^sup>* lk (lk\<lparr>lk_down := ys\<rparr>)"
  using assms
proof (induction rule: rtranclp_induct)
  case (step ys zs)
  then obtain before a b after where yz: "ys = before @ Ack a # Ack b # after" "zs = before @ Ack b # after"
    by (auto simp: coalesced_def)
  have "link_step env background who (lk\<lparr>lk_down := ys\<rparr>) ((lk\<lparr>lk_down := ys\<rparr>)\<lparr>lk_down := before @ Ack b # after\<rparr>)"
    by (rule link_step.coalesce [where pre = before and a = a]) (simp add: yz)
  with step yz show ?case by simp
qed (cases lk, simp)

section \<open>Properties\<close>

text \<open>C34. Reservations are balanced: from a server without flat receivers, through any connections,
  rejections, ends of connections and failed sends in any order and any number, the policy counts
  exactly the handlers that hold a flat reservation; releasing one never raises, and a handler
  releases at most once.\<close>

theorem receiver_reservations_balanced:
  assumes "flat_receiver_count (fr_policy fr) = 0" "handler_step\<^sup>*\<^sup>* (new_handlers fr) hs"
  shows "flat_receiver_count (fr_policy (hn_front hs)) = int (flat_handlers hs) \<and>
    fst (release_receiver_replay_reservation n hs) = Inr () \<and>
    snd (release_receiver_replay_reservation n (snd (release_receiver_replay_reservation n hs))) =
      snd (release_receiver_replay_reservation n hs)"
proof -
  have "handlers_inv (new_handlers fr)" using assms(1) by (simp add: handlers_inv_def new_handlers_def flat_handlers_def)
  then have inv: "handlers_inv hs" by (rule hd.reach_invar [OF assms(2)])
  then have "snd (release_receiver_replay_reservation n (snd (release_receiver_replay_reservation n hs))) =
      snd (release_receiver_replay_reservation n hs)"
    using release_handler(3) [OF inv, of n] by (simp add: release_receiver_replay_reservation_def [of n "snd _"])
  with inv release_handler [OF inv, of n] show ?thesis by (simp add: handlers_inv_def)
qed

text \<open>A flat receiver connects and its connection ends twice over: by a failed send and by itself.\<close>

definition demo_front :: front where
  "demo_front = \<lparr>fr_mode = MANAGED, fr_policy = initial_policy ''l0'' ''g'' \<lparr>session_sublayers = [], muted_layers = []\<rparr>,
     fr_tokens = None, fr_journal = journal_init empty_store False None\<rparr>"

definition demo_receiver :: hello where
  "demo_receiver = \<lparr>h_protocol_version = PROTOCOL_VERSION, h_role = ''receiver'', h_client_id = None, h_department = None,
     h_layered = False, h_layer_mode = MANAGED, h_token = None, h_session_id = []\<rparr>"

definition demo_handlers :: handlers where
  "demo_handlers = snd (connect_handler [] demo_receiver (new_handlers demo_front))"

theorem receiver_reservations_balanced_witness:
  "flat_receiver_count (fr_policy (hn_front demo_handlers)) = 1 \<and>
   fst (release_receiver_replay_reservation 0 demo_handlers) = Inr () \<and>
   snd (release_receiver_replay_reservation 0 (snd (release_receiver_replay_reservation 0 demo_handlers))) =
     snd (release_receiver_replay_reservation 0 demo_handlers)"
proof -
  have zero: "flat_receiver_count (fr_policy demo_front) = 0"
    by (simp add: demo_front_def initial_policy_def case_prod_beta Let_def)
  have "handler_step\<^sup>*\<^sup>* (new_handlers demo_front) demo_handlers"
    unfolding demo_handlers_def by (intro r_into_rtranclp handler_step.connect)
  note balanced = receiver_reservations_balanced [OF zero this, of 0]
  have "flat_receiver_count (fr_policy (hn_front demo_handlers)) = 1" by code_simp
  with balanced show ?thesis by blast
qed

text \<open>C32. The result worker refines the protocol's down link: replacing an acknowledgement by the
  next one, as the worker does within a batch, is a sequence of the link's coalescing steps; no
  rejection is dropped or moved and the last acknowledgement of a run survives.\<close>

theorem result_worker_refines_link:
  assumes "lk_down lk = before @ map msg_of replies"
  shows "(link_step env background who)\<^sup>*\<^sup>* lk (lk\<lparr>lk_down := before @ map msg_of (batch_outgoing (map Some replies) [])\<rparr>)"
  using coalesced_link [OF _ assms, of "before @ map msg_of (batch_outgoing (map Some replies) [])"]
    coalesced_context [OF batch_coalesces, of before "[]" replies "[]"] by simp

theorem result_worker_refines_link_witness:
  "(link_step (plain_env (\<lambda>_. True)) False (''c'', ''s''))\<^sup>*\<^sup>*
     ((new_link 4 plain_server)\<lparr>lk_down := [Ack 1, Ack 2, Rejected 3 InvalidOperation, Ack 3]\<rparr>)
     ((new_link 4 plain_server)\<lparr>lk_down := [Ack 2, Rejected 3 InvalidOperation, Ack 3]\<rparr>)"
  using result_worker_refines_link [of "(new_link 4 plain_server)\<lparr>lk_down := [Ack 1, Ack 2, Rejected 3 InvalidOperation, Ack 3]\<rparr>" "[]"
    "[AckReply 1 None, AckReply 2 None, RejReply 3 ''invalid_transaction'' [] 0, AckReply 3 None]"]
  by (simp add: add_reply_def code_disposition_def)

definition pending_id :: "pending_result \<Rightarrow> int" where
  "pending_id p = (case p of PendingRequest r \<Rightarrow> tr_txn_id r
     | PendingReply (AckReply i ck) \<Rightarrow> i | PendingReply (RejReply i code reason expected) \<Rightarrow> i)"

definition pendings :: "read_effect list \<Rightarrow> pending_result list" where
  "pendings eff = [p. Submit p \<leftarrow> eff]"

definition txn_ids :: "(client_message \<times> real) list \<Rightarrow> int list" where
  "txn_ids msgs = [i. (MTxn evs i key, now) \<leftarrow> msgs]"

definition admissible :: "'layer sdf_lib \<Rightarrow> reader \<Rightarrow> pending_result \<Rightarrow> bool" where
  "admissible lib rd p = (case p of
     PendingRequest r \<Rightarrow> tr_client_id r = rd_client_id rd \<and> tr_session_id r = rd_session_id rd \<and> tr_client_id r \<noteq> [] \<and>
       tr_session_id r \<noteq> [] \<and> length (tr_session_id r) \<le> 128 \<and> 1 \<le> tr_txn_id r \<and>
       validate_events lib (Some (rd_mode rd)) (PList (map PDict (tr_events r))) = Inr ()
   | PendingReply (AckReply i ck) \<Rightarrow> False | PendingReply (RejReply i code reason expected) \<Rightarrow> True)"

lemma submit_request_Inr:
  "submit_request lib mode r = Inr r' \<Longrightarrow> r' = r \<and> tr_client_id r \<noteq> [] \<and> tr_session_id r \<noteq> [] \<and>
     length (tr_session_id r) \<le> 128 \<and> 1 \<le> tr_txn_id r \<and>
     validate_events lib (Some mode) (PList (map PDict (tr_events r))) = Inr ()"
  by (auto simp: submit_request_def split: if_splits sum.splits)

lemma pendings_simps [simp]:
  "pendings [] = []" "pendings (Submit p # eff) = p # pendings eff" "pendings (Limited w # eff) = pendings eff"
  "pendings (Compact # eff) = pendings eff" "pendings (DoClaim t # eff) = pendings eff"
  "pendings (DoControl a u r # eff) = pendings eff"
  by (simp_all add: pendings_def)

lemma read_message_spec:
  assumes "read_message lib msg now rd = (go_on, eff, rd')"
  shows "rd_client_id rd' = rd_client_id rd \<and> rd_session_id rd' = rd_session_id rd \<and> rd_mode rd' = rd_mode rd \<and>
    list_all (admissible lib rd) (pendings eff) \<and>
    subseq (map pending_id (pendings eff)) (txn_ids [(msg, now)])"
proof (cases msg)
  case (MTxn evs i key)
  obtain wait rd1 where w: "(case rd_bucket rd of None \<Rightarrow> (0, rd)
      | Some b \<Rightarrow> let (w, b') = try_consume now b in (w, rd\<lparr>rd_bucket := Some b'\<rparr>)) = (wait, rd1)" by fastforce
  have rd1: "rd_client_id rd1 = rd_client_id rd" "rd_session_id rd1 = rd_session_id rd" "rd_mode rd1 = rd_mode rd"
    using w by (auto split: option.splits prod.splits)
  have rej: "pending_id (PendingReply (transaction_rejection i e)) = i"
    "admissible lib rd (PendingReply (transaction_rejection i e))" for e
    by (cases e; simp add: transaction_rejection_def pending_id_def admissible_def)+
  define r where "r = \<lparr>tr_events = evs, tr_client_id = rd_client_id rd1, tr_origin = rd_origin rd1,
    tr_client_addr = rd_addr rd1, tr_layer = rd_layer rd1, tr_layer_key = key,
    tr_session_id = rd_session_id rd1, tr_txn_id = i\<rparr>"
  have run: "(go_on, eff, rd') = (if evs = [] then (True, [], rd) else if wait > 0 then (True, [Limited wait], rd1)
      else if \<not> rd_emitter rd1 then (False, [], rd1)
      else case submit_request lib (rd_mode rd1) r of
          Inr r \<Rightarrow> (True, [Submit (PendingRequest r)], rd1)
        | Inl e \<Rightarrow> if is_value_error e then (True, [Submit (PendingReply (transaction_rejection i e))], rd1)
                   else (False, [], rd1))"
    using assms unfolding read_message_def MTxn client_message.case w by (auto simp: r_def Let_def)
  have ids: "txn_ids [(msg, now)] = [i]" by (simp add: MTxn txn_ids_def)
  have good: "admissible lib rd (PendingRequest r') \<and> pending_id (PendingRequest r') = i"
    if "submit_request lib (rd_mode rd1) r = Inr r'" for r'
    using submit_request_Inr [OF that] rd1 by (simp add: admissible_def pending_id_def r_def)
  show ?thesis
  proof (cases "submit_request lib (rd_mode rd1) r")
    case (Inl e)
    with run rd1 rej ids show ?thesis by (auto split: if_splits)
  next
    case (Inr r')
    with run rd1 good [OF Inr] ids show ?thesis by (auto split: if_splits)
  qed
qed (use assms in \<open>auto simp: read_message_def txn_ids_def\<close>)

lemma read_loop_spec:
  "list_all (admissible lib rd) (pendings (read_loop lib msgs rd)) \<and>
   subseq (map pending_id (pendings (read_loop lib msgs rd))) (txn_ids msgs)"
proof (induction lib msgs rd rule: read_loop.induct)
  case (2 lib msg now rest rd)
  obtain go_on eff rd1 where run: "read_message lib msg now rd = (go_on, eff, rd1)" by (metis prod_cases3)
  note one = read_message_spec [OF run]
  have app: "pendings (xs @ ys) = pendings xs @ pendings ys" for xs ys by (simp add: pendings_def)
  have ids: "txn_ids ((msg, now) # rest) = txn_ids [(msg, now)] @ txn_ids rest" by (simp add: txn_ids_def)
  show ?case
  proof (cases go_on)
    case True
    have same: "admissible lib rd1 = admissible lib rd" using one
      by (intro ext) (auto simp: admissible_def split: pending_result.splits txn_reply.splits)
    from "2.IH" [OF run [symmetric] refl refl True] one True run same show ?thesis
      unfolding ids by (auto simp: app list_emb_append_mono)
  next
    case False
    have "subseq (map pending_id (pendings eff) @ []) (txn_ids [(msg, now)] @ txn_ids rest)"
      using one by (intro list_emb_append_mono) auto
    with one False run show ?thesis unfolding ids by (simp add: app pendings_def)
  qed
qed (simp add: pendings_def)


end
