(* ===== verification/Sender.thy ===== *)
theory Sender
  imports Producer_Session Validation Journal
begin

text \<open>
  The durable producer \<open>EventSender\<close> (\<open>openusdconnect/sender.py\<close>) over the native session, and
  the typed rejection policy (\<open>openusdconnect/recovery.py\<close>).

  A socket is a number, fresh for each connection. What the network does is an argument: the
  server's first message of a handshake, whether a send raises \<open>OSError\<close>, what the clock says.
  A method that closes a socket after leaving its critical section is one operation here.
  Callbacks and logging are left out. Transaction ids in messages are not modelled as text.
\<close>

section \<open>Rejections\<close>

datatype rejection_code = InvalidIdentity | UnexpectedId | StaleLayerGraph | InvalidTransaction | UnknownCode int

record transaction_failure =
  tf_txn_id :: int
  tf_code :: rejection_code
  tf_reason :: string
  tf_expected_txn_id :: int

definition code_name :: "transaction_failure \<Rightarrow> string" where
  "code_name f = (case tf_code f of
     InvalidIdentity \<Rightarrow> ''invalid_identity'' | UnexpectedId \<Rightarrow> ''unexpected_id''
   | StaleLayerGraph \<Rightarrow> ''stale_layer_graph'' | InvalidTransaction \<Rightarrow> ''invalid_transaction''
   | UnknownCode n \<Rightarrow> ''unknown_'' @ int_str n)"

definition failure_disposition :: "transaction_failure \<Rightarrow> recovery_disposition" where
  "failure_disposition f = (case tf_code f of
     StaleLayerGraph \<Rightarrow> RecoverableConflict | InvalidTransaction \<Rightarrow> InvalidOperation | _ \<Rightarrow> SessionFatal)"

record recovery_artifact =
  ra_session_id :: string
  ra_failure :: transaction_failure
  ra_transactions :: "bytes entry list"

definition artifact_event_count :: "recovery_artifact \<Rightarrow> nat" where
  "artifact_event_count a = sum_list (map e_events (ra_transactions a))"

text \<open>\<open>dict.fromkeys\<close>: the first occurrence of each key, in order.\<close>

definition artifact_layer_keys :: "recovery_artifact \<Rightarrow> string list" where
  "artifact_layer_keys a = rev (remdups (rev (filter (\<lambda>k. k \<noteq> []) (map e_layer (ra_transactions a)))))"

record recovery_incident =
  ri_incident_id :: "string \<times> int"
  ri_failure :: transaction_failure
  ri_session_id :: string
  ri_transaction_ids :: "int list"
  ri_event_count :: nat
  ri_layer_keys :: "string list"

definition make_recovery_incident :: "recovery_artifact \<Rightarrow> recovery_incident" where
  "make_recovery_incident a = \<lparr>ri_incident_id = (ra_session_id a, tf_txn_id (ra_failure a)),
     ri_failure = ra_failure a, ri_session_id = ra_session_id a,
     ri_transaction_ids = map e_id (ra_transactions a), ri_event_count = artifact_event_count a,
     ri_layer_keys = artifact_layer_keys a\<rparr>"

section \<open>The sender\<close>

record mirror_checkpoint =
  mc_server_instance :: string
  mc_epoch :: int
  mc_head_seq :: int

record sender =
  sd_layer_mode :: layer_mode
  sd_mode_active :: layer_mode
  sd_session_id :: string
  sd_background :: bool
  sd_token :: "string option"
  sd_sock :: "nat option"
  sd_next_sock :: nat
  sd_auth_rejected :: bool
  sd_hello_rejected :: bool
  sd_reason :: string
  sd_metadata :: event
  sd_epoch :: nat
  sd_connect_active :: nat
  sd_connect_thread :: bool
  sd_retry_at :: real
  sd_retry_delay :: real
  sd_generation :: int
  sd_session :: "bytes session"
  sd_failure :: "transaction_failure option"
  sd_artifact :: "recovery_artifact option"
  sd_incident :: "recovery_incident option"
  sd_retry_until :: real
  sd_server_instance :: string
  sd_checkpoint :: "mirror_checkpoint option"

definition valid_session_id :: "string \<Rightarrow> bool" where
  "valid_session_id s \<longleftrightarrow> s \<noteq> [] \<and> length s \<le> 128"

definition sender_init :: "string \<Rightarrow> layer_mode \<Rightarrow> string \<Rightarrow> int \<Rightarrow> bool \<Rightarrow> string option \<Rightarrow> sender res" where
  "sender_init role mode session_id max_pending background token =
     (if role \<noteq> ''emitter'' then Inl (ValueError ''EventSender role must be emitter'')
      else if max_pending < 1 then Inl (ValueError ''max_pending_transactions must be positive'')
      else if \<not> valid_session_id session_id then Inl (ValueError ''session_id must contain 1-128 characters'')
      else Inr \<lparr>sd_layer_mode = mode, sd_mode_active = MANAGED, sd_session_id = session_id,
        sd_background = background, sd_token = token, sd_sock = None, sd_next_sock = 0,
        sd_auth_rejected = False, sd_hello_rejected = False, sd_reason = [], sd_metadata = [],
        sd_epoch = 0, sd_connect_active = 0, sd_connect_thread = False, sd_retry_at = 0,
        sd_retry_delay = 1, sd_generation = 0, sd_session = new_session (nat max_pending),
        sd_failure = None, sd_artifact = None, sd_incident = None, sd_retry_until = 0,
        sd_server_instance = [], sd_checkpoint = None\<rparr>)"

definition acknowledged_checkpoint :: "sender \<Rightarrow> mirror_checkpoint option" where
  "acknowledged_checkpoint sd =
     (if sd_failure sd \<noteq> None \<or> ob_queue (ss_outbox (sd_session sd)) \<noteq> [] then None else sd_checkpoint sd)"

definition recovery_required :: "sender \<Rightarrow> bool" where
  "recovery_required sd \<longleftrightarrow> ss_phase (sd_session sd) = RecoveryRequired"

section \<open>Failures and closing\<close>

definition record_session_failure :: "transaction_failure \<Rightarrow> sender \<Rightarrow> sender" where
  "record_session_failure f sd =
     (let a = \<lparr>ra_session_id = sd_session_id sd, ra_failure = f,
                ra_transactions = ob_queue (ss_outbox (sd_session sd))\<rparr>
      in sd\<lparr>sd_failure := Some f, sd_artifact := Some a, sd_incident := Some (make_recovery_incident a)\<rparr>)"

definition clear_failure :: "sender \<Rightarrow> sender" where
  "clear_failure sd = sd\<lparr>sd_failure := None, sd_artifact := None, sd_incident := None, sd_retry_until := 0\<rparr>"

definition sender_close :: "nat option \<Rightarrow> sender \<Rightarrow> sender" where
  "sender_close expected sd =
     (if sd_sock sd = None \<or> (expected \<noteq> None \<and> sd_sock sd \<noteq> expected) then sd
      else sd\<lparr>sd_sock := None, sd_session := snd (session_disconnect (sd_generation sd) (sd_session sd))\<rparr>)"

definition highwater_failure_reason :: "producer_result \<Rightarrow> string" where
  "highwater_failure_reason r = (case r of
     HighwaterAhead \<Rightarrow> ''server producer highwater is ahead of local transaction''
   | HighwaterRegressed \<Rightarrow> ''server producer highwater regressed''
   | _ \<Rightarrow> ''invalid producer result'')"

definition cancel_connect :: "sender \<Rightarrow> bool \<times> sender" where
  "cancel_connect sd = (sd_connect_active sd = 0 \<and> \<not> sd_connect_thread sd,
     sd\<lparr>sd_epoch := sd_epoch sd + 1, sd_retry_at := 0, sd_retry_delay := 1\<rparr>)"

text \<open>\<open>disconnect\<close>; sending the quit message has no effect on the state.\<close>

definition sender_disconnect :: "sender \<Rightarrow> sender" where
  "sender_disconnect sd =
     (let sd = snd (cancel_connect sd)
      in if sd_background sd then sender_close None sd
         else if sd_sock sd = None then sd else sender_close (sd_sock sd) sd)"

section \<open>Connecting\<close>

record hello_ok =
  ho_server_instance :: string
  ho_shared_stage :: bool
  ho_committed_through :: int
  ho_token :: string
  ho_metadata :: event

datatype first_message = AuthRejected string | HelloRejected string | HelloOk hello_ok | Unexpected

definition accept_handshake_response :: "first_message \<Rightarrow> int \<Rightarrow> sender \<Rightarrow> bool \<times> sender" where
  "accept_handshake_response msg generation sd =
     (case msg of
        AuthRejected reason \<Rightarrow> (False, sd\<lparr>sd_reason := reason, sd_auth_rejected := True\<rparr>)
      | HelloRejected reason \<Rightarrow>
          (False, sd\<lparr>sd_reason := (if reason = [] then ''connection rejected'' else reason), sd_hello_rejected := True\<rparr>)
      | Unexpected \<Rightarrow> (False, sd)
      | HelloOk ho \<Rightarrow>
          (let sd = sd\<lparr>sd_server_instance := ho_server_instance ho, sd_checkpoint := None\<rparr>;
               active = (if ho_shared_stage ho then SHARED_STAGE else MANAGED)
           in if active \<noteq> sd_layer_mode sd
              then (False, sd\<lparr>sd_reason := ''server negotiated another layer mode'', sd_hello_rejected := True\<rparr>)
              else let sd = sd\<lparr>sd_mode_active := active\<rparr>;
                       (result, ss) = accept_hello generation (ho_committed_through ho) (sd_session sd);
                       sd = sd\<lparr>sd_session := ss\<rparr>
                   in if result \<noteq> Accepted
                      then let reason = highwater_failure_reason result;
                               f = \<lparr>tf_txn_id = ho_committed_through ho, tf_code = UnexpectedId,
                                    tf_reason = reason, tf_expected_txn_id = 0\<rparr>
                           in (False, record_session_failure f (sd\<lparr>sd_reason := reason\<rparr>))
                      else let sd = (if ho_token ho \<noteq> [] then sd\<lparr>sd_token := Some (ho_token ho)\<rparr> else sd)
                           in (True, if ho_metadata ho \<noteq> [] then sd\<lparr>sd_metadata := ho_metadata ho\<rparr> else sd)))"

text \<open>
  The replay loop on the published socket: \<open>sends\<close> says, send by send, whether the socket takes
  the bytes; running out of it is a timeout. The result lists what was sent.
\<close>

fun replay_outbox :: "bool list \<Rightarrow> bytes session \<Rightarrow> bool \<times> bytes list \<times> bytes session" where
  "replay_outbox [] s = (case claim_next_unsent (ss_generation s) s of
     (r, None, s1) \<Rightarrow> (True, [], s1) | (r, Some e, s1) \<Rightarrow> (False, [], s1))"
| "replay_outbox (sent # sends) s = (case claim_next_unsent (ss_generation s) s of
     (r, None, s1) \<Rightarrow> (True, [], s1)
   | (r, Some e, s1) \<Rightarrow>
       if sent then let (done, bs, s2) = replay_outbox sends s1 in (done, e_payload e # bs, s2)
       else (False, [], s1))"

text \<open>
  \<open>_connect_locked\<close>: \<open>msg\<close> is the server's answer, \<open>None\<close> when the connection or the handshake
  fails on the way; \<open>current\<close> says whether the attempt's epoch is still current at publication.
\<close>

definition connect_locked ::
  "first_message option \<Rightarrow> bool \<Rightarrow> bool list \<Rightarrow> real \<Rightarrow> sender \<Rightarrow> bool \<times> bytes list \<times> sender" where
  "connect_locked msg current sends now sd =
     (if sd_sock sd \<noteq> None then (True, [], sd)
      else if recovery_required sd \<or> now < sd_retry_until sd then (False, [], sd)
      else case begin_connection (sd_session sd) of
        (None, ss) \<Rightarrow> (False, [], sd\<lparr>sd_session := ss\<rparr>)
      | (Some generation, ss) \<Rightarrow>
          (let sd = sd\<lparr>sd_session := ss, sd_auth_rejected := False, sd_hello_rejected := False, sd_reason := []\<rparr>;
               (accepted, sd) = (case msg of None \<Rightarrow> (False, sd)
                                 | Some m \<Rightarrow> accept_handshake_response m generation sd)
           in if \<not> (accepted \<and> current)
              then (False, [], sd\<lparr>sd_session := snd (session_disconnect generation (sd_session sd))\<rparr>)
              else let sd = sd\<lparr>sd_sock := Some (sd_next_sock sd), sd_next_sock := sd_next_sock sd + 1,
                               sd_generation := generation\<rparr>
                   in if sd_background sd then (True, [], sd)
                      else let (finished, bs, ss) = replay_outbox sends (sd_session sd);
                               sd = sd\<lparr>sd_session := ss\<rparr>
                           in if finished then (True, bs, sd)
                              else (False, bs, sender_close (sd_sock sd) sd)))"

definition request_connect :: "real \<Rightarrow> sender \<Rightarrow> bool \<times> sender" where
  "request_connect now sd =
     (if sd_sock sd \<noteq> None \<or> sd_connect_active sd \<noteq> 0 \<or> sd_connect_thread sd \<or> sd_auth_rejected sd
         \<or> sd_hello_rejected sd \<or> recovery_required sd \<or> now < max (sd_retry_at sd) (sd_retry_until sd)
      then (False, sd) else (True, sd\<lparr>sd_connect_thread := True\<rparr>))"

definition connect_worker_done :: "nat \<Rightarrow> bool \<Rightarrow> real \<Rightarrow> sender \<Rightarrow> sender" where
  "connect_worker_done epoch success now sd =
     (let sd = (if epoch \<noteq> sd_epoch sd then sd
                else if success then sd\<lparr>sd_retry_at := 0, sd_retry_delay := 1\<rparr>
                else sd\<lparr>sd_retry_at := now + sd_retry_delay sd, sd_retry_delay := min 8 (sd_retry_delay sd * 2)\<rparr>)
      in sd\<lparr>sd_connect_thread := False\<rparr>)"

section \<open>Sending\<close>

text \<open>
  \<open>send_events\<close>: the encoder gets the events, the layer key and the transaction id. The result
  says whether the outbox owns the transaction, and what was written to the socket.
\<close>

definition send_events ::
  "'layer sdf_lib \<Rightarrow> (event list \<Rightarrow> string \<Rightarrow> int \<Rightarrow> bytes res) \<Rightarrow> event list \<Rightarrow> string \<Rightarrow> bool \<Rightarrow> sender
     \<Rightarrow> (bool \<times> bytes list) res \<times> sender" where
  "send_events lib encode evs layer_key sent sd =
     (if evs = [] then (Inr (False, []), sd)
      else case validate_events lib (Some (sd_layer_mode sd)) (PList (map PDict evs)) of
        Inl e \<Rightarrow> (Inl e, sd)
      | Inr _ \<Rightarrow>
          if sd_sock sd = None \<or> sd_failure sd \<noteq> None \<or> \<not> session_can_append (sd_session sd)
          then (Inr (False, []), sd)
          else let txn_id = ob_next_id (ss_outbox (sd_session sd))
               in case encode evs layer_key txn_id of
                    Inl e \<Rightarrow> (Inl e, sd)
                  | Inr payload \<Rightarrow>
                      (let (result, ss) = session_append (sd_generation sd) txn_id payload (length evs) layer_key (sd_session sd);
                           sd1 = sd\<lparr>sd_session := ss\<rparr>
                       in if result \<noteq> Accepted then (Inr (False, []), sd1)
                          else if sd_background sd then (Inr (True, []), sd1)
                          else if sent then (Inr (True, [payload]), sd1)
                          else (Inr (True, []), sender_close (sd_sock sd) sd1)))"

text \<open>One round of the background writer for socket \<open>sock\<close>; the flag says whether it goes on.\<close>

definition write_pending :: "nat \<Rightarrow> int \<Rightarrow> bool \<Rightarrow> sender \<Rightarrow> bool \<times> bytes list \<times> sender" where
  "write_pending sock generation sent sd =
     (if sd_sock sd \<noteq> Some sock \<or> sd_generation sd \<noteq> generation \<or> sd_failure sd \<noteq> None
      then (False, [], sender_close (Some sock) sd)
      else case claim_next_unsent generation (sd_session sd) of
        (r, None, ss) \<Rightarrow> (True, [], sd\<lparr>sd_session := ss\<rparr>)
      | (r, Some e, ss) \<Rightarrow>
          if sent then (True, [e_payload e], sd\<lparr>sd_session := ss\<rparr>)
          else (False, [], sender_close (Some sock) (sd\<lparr>sd_session := ss\<rparr>)))"

section \<open>Results\<close>

datatype txn_result = Acknowledged "(int \<times> int) option" | RejectedResult rejection_code string int

definition accept_result :: "int \<Rightarrow> txn_result \<Rightarrow> int \<Rightarrow> sender \<Rightarrow> sender" where
  "accept_result txn_id result generation sd =
     (if generation \<noteq> sd_generation sd \<or> sd_sock sd = None then sd
      else case result of
        Acknowledged checkpoint \<Rightarrow>
          (let (accepted, ss) = acknowledge_through generation txn_id (sd_session sd)
           in if accepted = StaleGeneration then sd\<lparr>sd_session := ss\<rparr>
              else if accepted = Accepted
              then sd\<lparr>sd_session := ss, sd_checkpoint :=
                     (case checkpoint of
                        Some (epoch, head) \<Rightarrow> if sd_server_instance sd = [] then None
                          else Some \<lparr>mc_server_instance = sd_server_instance sd, mc_epoch = epoch, mc_head_seq = head\<rparr>
                      | None \<Rightarrow> None)\<rparr>
              else sender_close (sd_sock sd) (record_session_failure
                     \<lparr>tf_txn_id = txn_id, tf_code = UnexpectedId, tf_reason = highwater_failure_reason accepted,
                      tf_expected_txn_id = 0\<rparr> (sd\<lparr>sd_session := ss\<rparr>)))
      | RejectedResult code reason expected \<Rightarrow>
          (let f = \<lparr>tf_txn_id = txn_id, tf_code = code, tf_reason = reason, tf_expected_txn_id = expected\<rparr>;
               (accepted, ss) = session_reject generation txn_id (failure_disposition f) (sd_session sd)
           in if accepted = StaleGeneration then sd\<lparr>sd_session := ss\<rparr>
              else let f = (if accepted = TransactionMissing
                            then \<lparr>tf_txn_id = txn_id, tf_code = UnexpectedId,
                                  tf_reason = ''server rejected unknown transaction'', tf_expected_txn_id = 0\<rparr> else f)
                   in sender_close (sd_sock sd) (record_session_failure f (sd\<lparr>sd_session := ss\<rparr>))))"

definition rate_limited :: "nat \<Rightarrow> int \<Rightarrow> real \<Rightarrow> real \<Rightarrow> sender \<Rightarrow> sender" where
  "rate_limited sock generation now retry_after sd =
     (let sd = sd\<lparr>sd_retry_until := max (sd_retry_until sd) (now + retry_after)\<rparr>
      in if generation = sd_generation sd \<and> sd_sock sd = Some sock then sender_close (Some sock) sd else sd)"

section \<open>Recovery\<close>

definition repair_rejected_transaction ::
  "'layer sdf_lib \<Rightarrow> (event list \<Rightarrow> string \<Rightarrow> int \<Rightarrow> bytes res) \<Rightarrow> event list \<Rightarrow> string \<Rightarrow> sender \<Rightarrow> int res \<times> sender" where
  "repair_rejected_transaction lib encode evs layer_key sd =
     (if evs = [] then (Inl (ValueError ''repair events must not be empty''), sd)
      else case validate_events lib (Some (sd_layer_mode sd)) (PList (map PDict evs)) of
        Inl e \<Rightarrow> (Inl e, sd)
      | Inr _ \<Rightarrow>
          (case sd_failure sd of
             None \<Rightarrow> (Inl (RuntimeError ''there is no rejected transaction to retry''), sd)
           | Some f \<Rightarrow>
               if failure_disposition f \<noteq> RecoverableConflict then (Inl (RuntimeError ''not recoverable''), sd)
               else let sd = sender_disconnect sd
                    in case encode evs layer_key (tf_txn_id f) of
                         Inl e \<Rightarrow> (Inl e, sd)
                       | Inr payload \<Rightarrow>
                           (case repair_rejected payload (length evs) layer_key (sd_session sd) of
                              (Accepted, ss) \<Rightarrow> (Inr (tf_txn_id f), clear_failure (sd\<lparr>sd_session := ss\<rparr>))
                            | (r, ss) \<Rightarrow> (Inl (RuntimeError ''native recovery rejected repair''), sd\<lparr>sd_session := ss\<rparr>))))"

definition abandon_rejected_session :: "string \<Rightarrow> sender \<Rightarrow> recovery_artifact res \<times> sender" where
  "abandon_rejected_session replacement sd =
     (if \<not> valid_session_id replacement then (Inl (ValueError ''session_id must contain 1-128 characters''), sd)
      else case sd_failure sd of
        None \<Rightarrow> (Inl (RuntimeError ''there is no rejected producer session to abandon''), sd)
      | Some f \<Rightarrow>
          (case sd_artifact sd of
             None \<Rightarrow> (Inl (RuntimeError ''there is no rejected producer session to abandon''), sd)
           | Some a \<Rightarrow>
               if replacement = sd_session_id sd
               then (Inl (ValueError ''replacement session_id must differ from rejected session''), sd)
               else let sd = sender_disconnect sd
                    in (Inr a, (clear_failure (sd\<lparr>sd_session := reset_session (sd_session sd),
                          sd_session_id := replacement\<rparr>))\<lparr>sd_reason := []\<rparr>)))"

text \<open>One look of \<open>flush\<close> at the state: raise, return, give up, wait or reconnect.\<close>

datatype flush_action = FlushRaise transaction_failure | FlushReturn bool | FlushWait | FlushSleep real | FlushConnect

definition flush_look :: "real option \<Rightarrow> real \<Rightarrow> sender \<Rightarrow> flush_action" where
  "flush_look deadline now sd =
     (case sd_failure sd of
        Some f \<Rightarrow> FlushRaise f
      | None \<Rightarrow>
          if ob_queue (ss_outbox (sd_session sd)) = [] then FlushReturn True
          else if (case deadline of None \<Rightarrow> False | Some d \<Rightarrow> d - now \<le> 0) then FlushReturn False
          else if sd_sock sd \<noteq> None then FlushWait
          else let delay = max 0 (sd_retry_until sd - now)
               in if delay > 0
                  then if (case deadline of None \<Rightarrow> False | Some d \<Rightarrow> d \<le> now + delay) then FlushReturn False
                       else FlushSleep (min delay (1 / 4))
                  else FlushConnect)"

definition drain_acknowledged_event_count :: "sender \<Rightarrow> nat \<times> sender" where
  "drain_acknowledged_event_count sd =
     (let (n, ob) = ob_drain (ss_outbox (sd_session sd))
      in (n, sd\<lparr>sd_session := (sd_session sd)\<lparr>ss_outbox := ob\<rparr>\<rparr>))"

section \<open>Reachable senders\<close>

inductive sender_step :: "'layer sdf_lib \<Rightarrow> (event list \<Rightarrow> string \<Rightarrow> int \<Rightarrow> bytes res) \<Rightarrow> sender \<Rightarrow> sender \<Rightarrow> bool"
  for lib encode where
  connect: "sender_step lib encode sd (snd (snd (connect_locked msg current sends now sd)))"
| request: "sender_step lib encode sd (snd (request_connect now sd))"
| worker: "sender_step lib encode sd (connect_worker_done epoch success now sd)"
| disconnect: "sender_step lib encode sd (sender_disconnect sd)"
| send: "sender_step lib encode sd (snd (send_events lib encode evs layer_key sent sd))"
| writer: "sender_step lib encode sd (snd (snd (write_pending sock generation sent sd)))"
| result: "sender_step lib encode sd (accept_result txn_id res generation sd)"
| limited: "sender_step lib encode sd (rate_limited sock generation now retry_after sd)"
| repair: "sender_step lib encode sd (snd (repair_rejected_transaction lib encode evs layer_key sd))"
| abandon: "sender_step lib encode sd (snd (abandon_rejected_session replacement sd))"
| drain: "sender_step lib encode sd (snd (drain_acknowledged_event_count sd))"

text \<open>The native session and the socket agree.\<close>

definition link_ok :: "sender \<Rightarrow> bool" where
  "link_ok sd \<longleftrightarrow> ss_inv (sd_session sd) \<and> ss_phase (sd_session sd) \<noteq> AwaitingHello \<and>
     (sd_sock sd \<noteq> None \<longleftrightarrow> ss_phase (sd_session sd) = Ready) \<and>
     (sd_sock sd \<noteq> None \<longrightarrow> sd_generation sd = ss_generation (sd_session sd))"

text \<open>The recorded failure, its evidence and the native recovery state agree.\<close>

definition failure_ok :: "sender \<Rightarrow> bool" where
  "failure_ok sd \<longleftrightarrow>
     (case sd_failure sd of
        None \<Rightarrow> sd_artifact sd = None \<and> sd_incident sd = None \<and> ss_phase (sd_session sd) \<noteq> RecoveryRequired
      | Some f \<Rightarrow> ss_phase (sd_session sd) = RecoveryRequired \<and>
          (\<exists>a. sd_artifact sd = Some a \<and> sd_incident sd = Some (make_recovery_incident a) \<and>
             ra_failure a = f \<and> ra_session_id a = sd_session_id sd \<and>
             ra_transactions a = ob_queue (ss_outbox (sd_session sd))) \<and>
          (failure_disposition f = RecoverableConflict \<longrightarrow>
             ss_disposition (sd_session sd) = RecoverableConflict \<and> ss_rejected (sd_session sd) = tf_txn_id f))"

definition sender_inv :: "sender \<Rightarrow> bool" where
  "sender_inv sd \<longleftrightarrow> link_ok sd \<and> failure_ok sd \<and> sd_retry_delay sd \<in> {1, 2, 4, 8} \<and> valid_session_id (sd_session_id sd)"

lemma sender_init_inv: "sender_init role mode sid n bg token = Inr sd \<Longrightarrow> sender_inv sd"
  by (auto simp: sender_init_def sender_inv_def link_ok_def failure_ok_def new_session_def ss_inv_def ob_inv_simple
      split: if_splits)

text \<open>Closing is disconnecting the session of the published socket, or nothing.\<close>

lemma disconnect_fields:
  "ss_phase (snd (session_disconnect g s)) = (if g = ss_generation s \<and> ss_phase s \<noteq> RecoveryRequired then Disconnected else ss_phase s)"
  "ss_generation (snd (session_disconnect g s)) = ss_generation s"
  "ss_disposition (snd (session_disconnect g s)) = ss_disposition s"
  "ss_rejected (snd (session_disconnect g s)) = ss_rejected s"
  "ob_queue (ss_outbox (snd (session_disconnect g s))) = ob_queue (ss_outbox s)"
  by (simp_all add: session_disconnect_def ob_mark_unsent_def)

lemma sender_close_inv:
  assumes "sender_inv sd"
  shows "sender_inv (sender_close expected sd)"
  using assms ss_inv_operations(3) [of "sd_session sd" "sd_generation sd"]
  by (auto simp: sender_close_def sender_inv_def link_ok_def failure_ok_def disconnect_fields
      simp del: split_paired_Ex split: option.splits)

text \<open>
  A failure recorded with the session in recovery, followed by closing the socket: the reader's
  path. Until the socket is closed the socket and the session disagree.
\<close>

lemma fail_and_close_inv:
  assumes "ss_inv (sd_session sd)" "ss_phase (sd_session sd) = RecoveryRequired"
    "sd_sock sd \<noteq> None" "sd_retry_delay sd \<in> {1, 2, 4, 8}" "valid_session_id (sd_session_id sd)"
    "failure_disposition f = RecoverableConflict \<Longrightarrow>
       ss_disposition (sd_session sd) = RecoverableConflict \<and> ss_rejected (sd_session sd) = tf_txn_id f"
  shows "sender_inv (sender_close (sd_sock sd) (record_session_failure f sd))"
  using assms ss_inv_operations(3) [of "sd_session sd" "sd_generation sd"]
  by (auto simp: sender_close_def record_session_failure_def Let_def sender_inv_def link_ok_def failure_ok_def
      disconnect_fields)

lemma cancel_inv: "sender_inv sd \<Longrightarrow> sender_inv (snd (cancel_connect sd))"
  by (simp add: cancel_connect_def sender_inv_def link_ok_def failure_ok_def split: option.splits)

lemma sender_disconnect_inv: "sender_inv sd \<Longrightarrow> sender_inv (sender_disconnect sd)"
  by (auto simp: sender_disconnect_def Let_def intro!: sender_close_inv cancel_inv)

lemma claim_fields:
  assumes "claim_next_unsent g s = (r, e, s')"
  shows "ss_phase s' = ss_phase s" "ss_generation s' = ss_generation s" "ss_disposition s' = ss_disposition s"
    "ss_rejected s' = ss_rejected s" "ob_queue (ss_outbox s') = ob_queue (ss_outbox s)"
  using assms by (auto simp: claim_next_unsent_def ob_claim_def Let_def split: if_splits)

lemma same_session_inv:
  assumes "sender_inv sd" "ss_inv s" "ss_phase s = ss_phase (sd_session sd)" "ss_generation s = ss_generation (sd_session sd)"
    "ss_disposition s = ss_disposition (sd_session sd)" "ss_rejected s = ss_rejected (sd_session sd)"
    "ss_phase s = RecoveryRequired \<Longrightarrow> ob_queue (ss_outbox s) = ob_queue (ss_outbox (sd_session sd))"
  shows "sender_inv (sd\<lparr>sd_session := s\<rparr>)"
  using assms by (auto simp: sender_inv_def link_ok_def failure_ok_def split: option.splits)

lemma ss_inv_claim: "ss_inv s \<Longrightarrow> claim_next_unsent g s = (r, e, s') \<Longrightarrow> ss_inv s'"
  using ss_inv_operations(5) [of s g] by simp

lemma write_pending_inv:
  assumes "sender_inv sd"
  shows "sender_inv (snd (snd (write_pending sock generation sent sd)))"
proof -
  obtain r e ss where cl: "claim_next_unsent generation (sd_session sd) = (r, e, ss)" by (cases "claim_next_unsent generation (sd_session sd)")
  have "ss_inv ss" using assms cl ss_inv_claim by (auto simp: sender_inv_def link_ok_def)
  then have "sender_inv (sd\<lparr>sd_session := ss\<rparr>)"
    using same_session_inv [OF assms] claim_fields [OF cl] by simp
  with assms show ?thesis by (auto simp: write_pending_def cl intro: sender_close_inv split: option.splits)
qed

lemma send_events_inv:
  assumes "sender_inv sd"
  shows "sender_inv (snd (send_events lib encode evs layer_key sent sd))"
proof -
  have ss: "ss_inv (sd_session sd)" using assms by (simp add: sender_inv_def link_ok_def)
  have step: "sender_inv (sd\<lparr>sd_session := s\<rparr>)"
    if "session_append g i payload n layer (sd_session sd) = (r, s)" "session_can_append (sd_session sd)" for g i payload n layer r s
  proof -
    have "ss_inv s" using ss_inv_operations(4) [OF ss, of g i payload n layer] that(1) by simp
    moreover have "ss_phase s = ss_phase (sd_session sd)" "ss_generation s = ss_generation (sd_session sd)"
      "ss_disposition s = ss_disposition (sd_session sd)" "ss_rejected s = ss_rejected (sd_session sd)"
      using that(1) by (auto simp: session_append_def Let_def split: if_splits)
    ultimately show ?thesis using assms that(2) by (intro same_session_inv) (auto simp: session_can_append_def)
  qed
  show ?thesis using assms step sender_close_inv [OF step]
    by (auto simp: send_events_def Let_def split: sum.splits prod.splits)
qed

lemma accept_result_inv:
  assumes inv: "sender_inv sd"
  shows "sender_inv (accept_result txn_id res generation sd)"
proof (cases "generation \<noteq> sd_generation sd \<or> sd_sock sd = None")
  case False
  then have gen: "generation = ss_generation (sd_session sd)" and ready: "ss_phase (sd_session sd) = Ready"
    and sock: "sd_sock sd \<noteq> None" and ss: "ss_inv (sd_session sd)" and nofail: "sd_failure sd = None"
    and rest: "sd_retry_delay sd \<in> {1, 2, 4, 8}" "valid_session_id (sd_session_id sd)"
    using inv by (auto simp: sender_inv_def link_ok_def failure_ok_def split: option.splits)
  have act: "require_phase generation Ready (sd_session sd) = Accepted" using gen ready by (simp add: require_phase_Accepted)
  show ?thesis
  proof (cases res)
    case (Acknowledged ck)
    obtain r s where ak: "acknowledge_through generation txn_id (sd_session sd) = (r, s)" by fastforce
    then have hw: "take_highwater txn_id (sd_session sd) = (r, s)" using act by (simp add: acknowledge_through_def)
    have ss': "ss_inv s" using ss_inv_operations(6) [OF ss, of generation txn_id] ak by simp
    show ?thesis
    proof (cases "r = Accepted")
      case True
      have fields: "ss_phase s = Ready" "ss_generation s = ss_generation (sd_session sd)"
        using hw True ready by (auto simp: take_highwater_def Let_def split: if_splits)
      with inv ss' True ak Acknowledged False ready show ?thesis
        by (auto simp: accept_result_def sender_inv_def link_ok_def failure_ok_def split: option.splits)
    next
      case bad: False
      have fields: "ss_phase s = RecoveryRequired"
        using hw bad by (auto simp: take_highwater_def Let_def enter_recovery_def split: if_splits)
      have "r \<noteq> StaleGeneration" using hw by (auto simp: take_highwater_def validate_highwater_def Let_def split: if_splits)
      moreover have "sender_inv (sender_close (sd_sock sd) (record_session_failure
          \<lparr>tf_txn_id = txn_id, tf_code = UnexpectedId, tf_reason = highwater_failure_reason r, tf_expected_txn_id = 0\<rparr>
          (sd\<lparr>sd_session := s\<rparr>)))"
        using fail_and_close_inv [of "sd\<lparr>sd_session := s\<rparr>" "\<lparr>tf_txn_id = txn_id, tf_code = UnexpectedId,
          tf_reason = highwater_failure_reason r, tf_expected_txn_id = 0\<rparr>"] ss' fields sock rest
        by (simp add: failure_disposition_def)
      ultimately show ?thesis using bad ak Acknowledged False by (auto simp: accept_result_def)
    qed
  next
    case (RejectedResult code reason expected)
    define f where "f = \<lparr>tf_txn_id = txn_id, tf_code = code, tf_reason = reason, tf_expected_txn_id = expected\<rparr>"
    obtain r s where rj: "session_reject generation txn_id (failure_disposition f) (sd_session sd) = (r, s)" by fastforce
    have ss': "ss_inv s" using ss_inv_operations(7) [OF ss, of generation txn_id] rj by (metis snd_conv)
    have fields: "ss_phase s = RecoveryRequired" "ss_rejected s = txn_id" "r = Accepted \<and> ss_disposition s = failure_disposition f \<or> r = TransactionMissing"
      using rj act by (auto simp: session_reject_def enter_recovery_def split: if_splits)
    have "sender_inv (sender_close (sd_sock sd) (record_session_failure g (sd\<lparr>sd_session := s\<rparr>)))"
      if "failure_disposition g = RecoverableConflict \<Longrightarrow> ss_disposition s = RecoverableConflict \<and> tf_txn_id g = txn_id" for g
      using fail_and_close_inv [of "sd\<lparr>sd_session := s\<rparr>" g] ss' fields(1,2) sock rest that by simp
    from this [of f] this [of "\<lparr>tf_txn_id = txn_id, tf_code = UnexpectedId,
        tf_reason = ''server rejected unknown transaction'', tf_expected_txn_id = 0\<rparr>"] fields(3) rj RejectedResult False
    show ?thesis
      by (auto simp: accept_result_def f_def [symmetric]) (auto simp: f_def failure_disposition_def)
  qed
qed (use inv in \<open>auto simp: accept_result_def\<close>)

lemma accept_hello_fields:
  assumes "accept_hello g c s = (r, s')" "ss_phase s = AwaitingHello" "g = ss_generation s"
  shows "ss_generation s' = g" "r = Accepted \<Longrightarrow> ss_phase s' = Ready"
    "r \<noteq> Accepted \<Longrightarrow> ss_phase s' = RecoveryRequired"
proof -
  obtain q t where hw: "take_highwater c s = (q, t)" by fastforce
  have "require_phase g AwaitingHello s = Accepted" using assms(2,3) by (simp add: require_phase_Accepted)
  with assms(1) hw have r: "r = q" "s' = (if q = Accepted then t\<lparr>ss_phase := Ready\<rparr> else t)"
    by (cases q; simp add: accept_hello_def)+
  then show "ss_generation s' = g" "r = Accepted \<Longrightarrow> ss_phase s' = Ready"
    "r \<noteq> Accepted \<Longrightarrow> ss_phase s' = RecoveryRequired"
    using hw assms(3) by (auto simp: take_highwater_def enter_recovery_def Let_def split: if_splits)
qed

text \<open>
  After the handshake message: accepted with a ready session, refused with the session still
  waiting, or refused with the failure recorded and the session in recovery.
\<close>

definition handshake_ok :: "bool \<Rightarrow> int \<Rightarrow> sender \<Rightarrow> bool" where
  "handshake_ok accepted g sd \<longleftrightarrow> ss_inv (sd_session sd) \<and> ss_generation (sd_session sd) = g \<and> sd_sock sd = None \<and>
     sd_retry_delay sd \<in> {1, 2, 4, 8} \<and> valid_session_id (sd_session_id sd) \<and> failure_ok sd \<and>
     (accepted \<longrightarrow> ss_phase (sd_session sd) = Ready) \<and>
     (\<not> accepted \<longrightarrow> ss_phase (sd_session sd) \<in> {AwaitingHello, RecoveryRequired})"

lemma handshake:
  assumes "handshake_ok False g sd" "ss_phase (sd_session sd) = AwaitingHello" "accept_handshake_response m g sd = (acc, sd')"
  shows "handshake_ok acc g sd' \<and> sd_background sd' = sd_background sd"
proof (cases m)
  case (HelloOk ho)
  obtain r s where ah: "accept_hello g (ho_committed_through ho) (sd_session sd) = (r, s)" by fastforce
  have ss: "ss_inv s" using ss_inv_operations(2) [of "sd_session sd" g "ho_committed_through ho"] assms(1) ah
    by (simp add: handshake_ok_def)
  have g: "ss_generation (sd_session sd) = g" using assms(1) by (simp add: handshake_ok_def)
  note fields = accept_hello_fields [OF ah assms(2) g [symmetric]]
  have none: "sd_failure sd = None" using assms(1,2) by (auto simp: handshake_ok_def failure_ok_def split: option.splits)
  show ?thesis
  proof (cases "(if ho_shared_stage ho then SHARED_STAGE else MANAGED) \<noteq> sd_layer_mode sd")
    case True
    with assms HelloOk show ?thesis
      by (auto simp: accept_handshake_response_def Let_def handshake_ok_def failure_ok_def split: option.splits)
  next
    case same: False
    show ?thesis
    proof (cases "r = Accepted")
      case True
      with assms HelloOk same ah ss fields none show ?thesis
        by (auto simp: accept_handshake_response_def Let_def handshake_ok_def failure_ok_def split: if_splits)
    next
      case False
      with assms HelloOk same ah ss fields none show ?thesis
        by (auto simp: accept_handshake_response_def Let_def handshake_ok_def failure_ok_def record_session_failure_def
            failure_disposition_def)
    qed
  qed
qed (use assms in \<open>auto simp: accept_handshake_response_def handshake_ok_def failure_ok_def split: option.splits\<close>)

lemma replay_fields:
  "replay_outbox sends s = (acc, bs, s') \<Longrightarrow> ss_inv s \<Longrightarrow> ss_inv s' \<and> ss_phase s' = ss_phase s \<and>
     ss_generation s' = ss_generation s \<and> ss_disposition s' = ss_disposition s \<and> ss_rejected s' = ss_rejected s \<and>
     ob_queue (ss_outbox s') = ob_queue (ss_outbox s)"
proof (induction sends arbitrary: s acc bs s')
  case Nil
  obtain r e s1 where cl: "claim_next_unsent (ss_generation s) s = (r, e, s1)" by (cases "claim_next_unsent (ss_generation s) s")
  with Nil claim_fields [OF cl] ss_inv_claim [OF Nil(2) cl] show ?case by (auto split: option.splits)
next
  case (Cons sent sends)
  obtain r e s1 where cl: "claim_next_unsent (ss_generation s) s = (r, e, s1)" by (cases "claim_next_unsent (ss_generation s) s")
  obtain acc2 bs2 s2 where rest: "replay_outbox sends s1 = (acc2, bs2, s2)" by (metis prod_cases3)
  note IH = Cons.IH [OF rest ss_inv_claim [OF Cons.prems(2) cl]]
  with Cons.prems cl rest claim_fields [OF cl] ss_inv_claim [OF Cons.prems(2) cl] show ?case
    by (auto split: option.splits if_splits)
qed

lemma connect_locked_inv:
  assumes inv: "sender_inv sd"
  shows "sender_inv (snd (snd (connect_locked msg current sends now sd)))"
proof (cases "sd_sock sd \<noteq> None \<or> recovery_required sd \<or> now < sd_retry_until sd")
  case False
  obtain g ss where bc: "begin_connection (sd_session sd) = (Some g, ss)"
    using False by (auto simp: begin_connection_def recovery_required_def)
  have nofail: "sd_failure sd = None"
    using inv False by (auto simp: sender_inv_def failure_ok_def recovery_required_def split: option.splits)
  define sd1 where "sd1 = sd\<lparr>sd_session := ss, sd_auth_rejected := False, sd_hello_rejected := False, sd_reason := []\<rparr>"
  have ss: "ss_inv ss" "ss_phase ss = AwaitingHello" "ss_generation ss = g"
    using ss_inv_operations(1) [of "sd_session sd"] inv bc False
    by (auto simp: begin_connection_def recovery_required_def sender_inv_def link_ok_def split: if_splits)
  have hs1: "handshake_ok False g sd1" using inv ss nofail False
    by (simp add: handshake_ok_def sd1_def sender_inv_def failure_ok_def)
  obtain acc sd2 where hsr: "(case msg of None \<Rightarrow> (False, sd1) | Some m \<Rightarrow> accept_handshake_response m g sd1) = (acc, sd2)"
    by fastforce
  have hs2: "handshake_ok acc g sd2"
  proof (cases msg)
    case None
    with hsr hs1 show ?thesis by simp
  next
    case (Some m)
    with hsr handshake [OF hs1, of m acc sd2] ss show ?thesis by (simp add: sd1_def)
  qed
  note step = bc hsr [unfolded sd1_def]
  show ?thesis
  proof (cases "acc \<and> current")
    case bad: False
    have "snd (snd (connect_locked msg current sends now sd)) = sd2\<lparr>sd_session := snd (session_disconnect g (sd_session sd2))\<rparr>"
      using False bad step by (simp add: connect_locked_def Let_def)
    moreover have "sender_inv (sd2\<lparr>sd_session := snd (session_disconnect g (sd_session sd2))\<rparr>)"
      using hs2 ss_inv_operations(3) [of "sd_session sd2" g]
      by (auto simp: handshake_ok_def sender_inv_def link_ok_def failure_ok_def disconnect_fields split: option.splits)
    ultimately show ?thesis by simp
  next
    case True
    define sd3 where "sd3 = sd2\<lparr>sd_sock := Some (sd_next_sock sd2), sd_next_sock := sd_next_sock sd2 + 1, sd_generation := g\<rparr>"
    have i3: "sender_inv sd3" using hs2 True
      by (auto simp: handshake_ok_def sender_inv_def link_ok_def failure_ok_def sd3_def split: option.splits)
    obtain fin bs s4 where rp: "replay_outbox sends (sd_session sd3) = (fin, bs, s4)" by (metis prod_cases3)
    have "ss_inv (sd_session sd3)" using i3 by (simp add: sender_inv_def link_ok_def)
    from replay_fields [OF rp this] have i4: "sender_inv (sd3\<lparr>sd_session := s4\<rparr>)" by (intro same_session_inv [OF i3]) auto
    have "snd (snd (connect_locked msg current sends now sd)) =
        (if sd_background sd3 then sd3 else if fin then sd3\<lparr>sd_session := s4\<rparr>
         else sender_close (sd_sock sd3) (sd3\<lparr>sd_session := s4\<rparr>))"
      using False True step rp by (simp add: connect_locked_def Let_def sd3_def)
    with i3 i4 sender_close_inv [OF i4] show ?thesis by auto
  qed
qed (use inv in \<open>auto simp: connect_locked_def\<close>)

lemma clear_failure_inv:
  assumes "sender_inv sd" "ss_inv s" "ss_phase s = Disconnected" "sd_sock sd = None" "valid_session_id i"
  shows "sender_inv (clear_failure (sd\<lparr>sd_session := s, sd_session_id := i\<rparr>))"
  using assms by (auto simp: clear_failure_def sender_inv_def link_ok_def failure_ok_def)

lemma sender_disconnect_frame:
  "sd_failure (sender_disconnect sd) = sd_failure sd" "sd_artifact (sender_disconnect sd) = sd_artifact sd"
  "sd_session_id (sender_disconnect sd) = sd_session_id sd"
  "sd_layer_mode (sender_disconnect sd) = sd_layer_mode sd"
  "sd_sock (sender_disconnect sd) = None"
  "ob_queue (ss_outbox (sd_session (sender_disconnect sd))) = ob_queue (ss_outbox (sd_session sd))"
  "ss_disposition (sd_session (sender_disconnect sd)) = ss_disposition (sd_session sd)"
  "ss_rejected (sd_session (sender_disconnect sd)) = ss_rejected (sd_session sd)"
  by (simp_all add: sender_disconnect_def cancel_connect_def sender_close_def Let_def disconnect_fields)

lemma repair_fields:
  assumes "repair_rejected payload n layer s = (r, s')"
  shows "r = Accepted \<Longrightarrow> ss_phase s' = Disconnected" "r \<noteq> Accepted \<Longrightarrow> s' = s"
  using assms by (auto simp: repair_rejected_def split: if_splits)

lemma repair_inv:
  assumes "sender_inv sd"
  shows "sender_inv (snd (repair_rejected_transaction lib encode evs layer_key sd))"
proof -
  note dis = sender_disconnect_inv [OF assms]
  have ss: "ss_inv (sd_session (sender_disconnect sd))" using dis by (simp add: sender_inv_def link_ok_def)
  have valid: "valid_session_id (sd_session_id (sender_disconnect sd))" using dis by (simp add: sender_inv_def)
  have "sender_inv (if r = Accepted then clear_failure ((sender_disconnect sd)\<lparr>sd_session := s\<rparr>)
      else (sender_disconnect sd)\<lparr>sd_session := s\<rparr>)"
    if rr: "repair_rejected payload n layer (sd_session (sender_disconnect sd)) = (r, s)" for payload n layer r s
  proof (cases "r = Accepted")
    case True
    have "ss_inv s" using ss_inv_operations(8) [OF ss, of payload n layer] rr by simp
    from clear_failure_inv [OF dis this repair_fields(1) [OF rr True] sender_disconnect_frame(5) valid] True
    show ?thesis by (simp add: clear_failure_def)
  next
    case False
    then show ?thesis using repair_fields(2) [OF rr False] dis by simp
  qed
  note step = this
  show ?thesis
  proof (cases "\<exists>f payload. sd_failure sd = Some f \<and> encode evs layer_key (tf_txn_id f) = Inr payload")
    case True
    then obtain f payload where f: "sd_failure sd = Some f" "encode evs layer_key (tf_txn_id f) = Inr payload" by blast
    obtain r s where rr: "repair_rejected payload (length evs) layer_key (sd_session (sender_disconnect sd)) = (r, s)" by fastforce
    from step [OF rr] assms dis f rr show ?thesis
      by (cases r) (auto simp: repair_rejected_transaction_def Let_def split: sum.splits)
  next
    case False
    with assms dis show ?thesis
      by (auto simp: repair_rejected_transaction_def Let_def split: sum.splits option.splits)
  qed
qed

lemma abandon_inv:
  assumes "sender_inv sd"
  shows "sender_inv (snd (abandon_rejected_session replacement sd))"
proof (cases "valid_session_id replacement \<and> sd_failure sd \<noteq> None \<and> sd_artifact sd \<noteq> None \<and> replacement \<noteq> sd_session_id sd")
  case True
  note dis = sender_disconnect_inv [OF assms]
  have ss: "ss_inv (sd_session (sender_disconnect sd))" using dis by (simp add: sender_inv_def link_ok_def)
  have "sender_inv (clear_failure ((sender_disconnect sd)\<lparr>sd_session := reset_session (sd_session (sender_disconnect sd)),
      sd_session_id := replacement\<rparr>))"
    using clear_failure_inv [OF dis ss_inv_operations(9) [OF ss] _ sender_disconnect_frame(5)] True
    by (simp add: reset_session_def)
  then have "sender_inv ((clear_failure ((sender_disconnect sd)\<lparr>sd_session := reset_session (sd_session (sender_disconnect sd)),
      sd_session_id := replacement\<rparr>))\<lparr>sd_reason := []\<rparr>)"
    by (simp add: sender_inv_def link_ok_def failure_ok_def split: option.splits)
  with True show ?thesis by (auto simp: abandon_rejected_session_def Let_def)
qed (use assms in \<open>auto simp: abandon_rejected_session_def split: option.splits\<close>)

lemma request_connect_inv: "sender_inv sd \<Longrightarrow> sender_inv (snd (request_connect now sd))"
  by (auto simp: request_connect_def sender_inv_def link_ok_def failure_ok_def split: option.splits)

lemma connect_worker_inv:
  assumes "sender_inv sd"
  shows "sender_inv (connect_worker_done epoch success now sd)"
proof -
  have "min 8 (sd_retry_delay sd * 2) \<in> {1, 2, 4, 8}" using assms by (auto simp: sender_inv_def)
  with assms show ?thesis
    unfolding connect_worker_done_def sender_inv_def link_ok_def failure_ok_def Let_def
    by (simp split: option.splits)
qed

lemma rate_limited_inv:
  assumes "sender_inv sd"
  shows "sender_inv (rate_limited sock generation now retry_after sd)"
proof -
  have "sender_inv (sd\<lparr>sd_retry_until := t\<rparr>)" for t
    using assms by (simp add: sender_inv_def link_ok_def failure_ok_def split: option.splits)
  then show ?thesis by (auto simp: rate_limited_def Let_def intro: sender_close_inv)
qed

lemma sender_drain_inv:
  assumes "sender_inv sd"
  shows "sender_inv (snd (drain_acknowledged_event_count sd))"
proof -
  have "ss_inv ((sd_session sd)\<lparr>ss_outbox := (ss_outbox (sd_session sd))\<lparr>ob_since_drain := 0\<rparr>\<rparr>)"
    using assms by (simp add: sender_inv_def link_ok_def ss_inv_def ob_inv_def ob_contains_def)
  from same_session_inv [OF assms this] show ?thesis
    by (simp add: drain_acknowledged_event_count_def ob_drain_def)
qed

lemma sender_step_inv: "sender_step lib encode sd sd' \<Longrightarrow> sender_inv sd \<Longrightarrow> sender_inv sd'"
  by (induction rule: sender_step.induct)
    (assumption | rule connect_locked_inv request_connect_inv connect_worker_inv sender_disconnect_inv send_events_inv
      write_pending_inv accept_result_inv rate_limited_inv repair_inv abandon_inv sender_drain_inv)+

interpretation sn: invariant_system "sender_step lib encode" sender_inv
  for lib :: "'layer sdf_lib" and encode
  by unfold_locales (rule sender_step_inv)

lemma sender_inv_coherent:
  assumes "sender_inv sd"
  shows "(recovery_required sd \<longleftrightarrow> sd_failure sd \<noteq> None) \<and>
    (\<forall>f. sd_failure sd = Some f \<longrightarrow>
       (let a = \<lparr>ra_session_id = sd_session_id sd, ra_failure = f, ra_transactions = ob_queue (ss_outbox (sd_session sd))\<rparr>
        in sd_artifact sd = Some a \<and> sd_incident sd = Some (make_recovery_incident a))) \<and>
    (sd_failure sd = None \<longrightarrow> sd_artifact sd = None \<and> sd_incident sd = None) \<and>
    (sd_sock sd \<noteq> None \<longleftrightarrow> ss_phase (sd_session sd) = Ready) \<and>
    (sd_sock sd \<noteq> None \<longrightarrow> sd_generation sd = ss_generation (sd_session sd)) \<and>
    sd_retry_delay sd \<in> {1, 2, 4, 8}"
proof (cases "sd_failure sd")
  case (Some f)
  define a where "a = \<lparr>ra_session_id = sd_session_id sd, ra_failure = f, ra_transactions = ob_queue (ss_outbox (sd_session sd))\<rparr>"
  from assms Some obtain b where b: "sd_artifact sd = Some b" "sd_incident sd = Some (make_recovery_incident b)"
    "ra_failure b = f" "ra_session_id b = sd_session_id sd" "ra_transactions b = ob_queue (ss_outbox (sd_session sd))"
    by (auto simp: sender_inv_def failure_ok_def)
  then have "b = a" by (simp add: a_def)
  with b assms Some show ?thesis unfolding a_def
    by (auto simp: sender_inv_def failure_ok_def link_ok_def recovery_required_def)
qed (use assms in \<open>auto simp: sender_inv_def failure_ok_def link_ok_def recovery_required_def\<close>)

section \<open>What a repair and a reconnection do\<close>

lemma replace_first_map:
  "distinct (map e_id q) \<Longrightarrow> e_id new = i \<Longrightarrow> replace_first i new q = map (\<lambda>e. if e_id e = i then new else e) q"
proof (induction q)
  case (Cons e q)
  have "map (\<lambda>e. if e_id e = i then new else e) q = q" if "i \<notin> e_id ` set q"
    using that by (intro map_idI) auto
  with Cons show ?case by auto
qed simp

lemma repair_spec:
  assumes inv: "sender_inv sd" and f: "sd_failure sd = Some f" "failure_disposition f = RecoverableConflict"
    and evs: "evs \<noteq> []" "validate_events lib (Some (sd_layer_mode sd)) (PList (map PDict evs)) = Inr u"
    and enc: "encode evs layer_key (tf_txn_id f) = Inr payload"
  defines "new \<equiv> \<lparr>e_id = tf_txn_id f, e_payload = payload, e_events = length evs, e_layer = layer_key\<rparr>"
    and "q \<equiv> ob_queue (ss_outbox (sd_session sd))"
  shows "\<exists>sd'. repair_rejected_transaction lib encode evs layer_key sd = (Inr (tf_txn_id f), sd') \<and>
    tf_txn_id f \<in> e_id ` set q \<and>
    ob_queue (ss_outbox (sd_session sd')) = map (\<lambda>e. if e_id e = tf_txn_id f then new else e) q \<and>
    sd_failure sd' = None \<and> \<not> recovery_required sd' \<and> sd_sock sd' = None"
proof -
  define s where "s = sd_session (sender_disconnect sd)"
  have dis: "sender_inv (sender_disconnect sd)" by (rule sender_disconnect_inv [OF inv])
  have s: "ss_phase s = RecoveryRequired" "ss_disposition s = RecoverableConflict" "ss_rejected s = tf_txn_id f"
    "ss_inv s" "ob_queue (ss_outbox s) = q"
    using dis f sender_disconnect_frame [of sd]
    by (auto simp: s_def q_def sender_inv_def failure_ok_def link_ok_def split: option.splits)
  have rr: "repair_rejected payload (length evs) layer_key s = (Accepted, s\<lparr>ss_outbox :=
      ob_replace (tf_txn_id f) payload (length evs) layer_key (ss_outbox s), ss_rejected := 0,
      ss_disposition := NoDisposition, ss_phase := Disconnected\<rparr>)"
    using s evs by (simp add: repair_rejected_def)
  have "distinct (map e_id q)" using s(4,5) by (auto simp: ss_inv_def ob_inv_def)
  note map = replace_first_map [OF this, of new "tf_txn_id f"]
  have "\<exists>e \<in> set q. e_id e = tf_txn_id f" using s by (auto simp: ss_inv_def ob_contains_def list_ex_iff)
  then have "tf_txn_id f \<in> e_id ` set q" by (auto intro: rev_image_eqI)
  with map f evs enc rr s(5) sender_disconnect_frame [of sd] show ?thesis
    by (simp add: repair_rejected_transaction_def s_def [symmetric] clear_failure_def ob_replace_def new_def
        recovery_required_def)
qed

text \<open>The replay loop sends the rest of the queue when every send succeeds.\<close>

lemma replay_all:
  assumes "ss_phase s = Ready" "ob_next_unsent (ss_outbox s) + n = length (ob_queue (ss_outbox s))" "n \<le> length sends"
    "list_all id sends"
  shows "\<exists>s'. replay_outbox sends s = (True, map e_payload (drop (ob_next_unsent (ss_outbox s)) (ob_queue (ss_outbox s))), s') \<and>
    ob_queue (ss_outbox s') = ob_queue (ss_outbox s) \<and> ob_next_unsent (ss_outbox s') = length (ob_queue (ss_outbox s))"
  using assms
proof (induction n arbitrary: s sends)
  case 0
  then show ?case
    by (cases sends) (simp_all add: claim_next_unsent_def require_phase_def ob_claim_def)
next
  case (Suc n)
  obtain sends' where sends: "sends = True # sends'" "n \<le> length sends'" "list_all id sends'"
    using Suc.prems by (cases sends) (auto simp: id_def)
  define s1 where "s1 = s\<lparr>ss_outbox := (ss_outbox s)\<lparr>ob_next_unsent := ob_next_unsent (ss_outbox s) + 1\<rparr>\<rparr>"
  have cl: "claim_next_unsent (ss_generation s) s = (Accepted, Some (ob_queue (ss_outbox s) ! ob_next_unsent (ss_outbox s)), s1)"
    using Suc.prems by (simp add: claim_next_unsent_def require_phase_def ob_claim_def s1_def)
  from Suc.IH [of s1 sends'] Suc.prems sends obtain s' where
    "replay_outbox sends' s1 = (True, map e_payload (drop (ob_next_unsent (ss_outbox s) + 1) (ob_queue (ss_outbox s))), s')"
    "ob_queue (ss_outbox s') = ob_queue (ss_outbox s)" "ob_next_unsent (ss_outbox s') = length (ob_queue (ss_outbox s))"
    by (auto simp: s1_def)
  moreover have "ob_next_unsent (ss_outbox s) < length (ob_queue (ss_outbox s))" using Suc.prems(2) by simp
  ultimately show ?case using cl sends(1)
    by (simp add: Cons_nth_drop_Suc [symmetric])
qed

lemma reconnect_spec:
  assumes inv: "sender_inv sd" and idle: "sd_sock sd = None" "sd_failure sd = None" "sd_retry_until sd \<le> now"
    and fg: "\<not> sd_background sd" and mode: "sd_layer_mode sd = (if ho_shared_stage ho then SHARED_STAGE else MANAGED)"
    and c: "ob_last_ack (ss_outbox (sd_session sd)) \<le> ho_committed_through ho"
      "ho_committed_through ho < ob_next_id (ss_outbox (sd_session sd))"
    and sends: "list_all id sends" "length (ob_queue (ss_outbox (sd_session sd))) \<le> length sends"
  defines "rest \<equiv> filter (\<lambda>e. ho_committed_through ho < e_id e) (ob_queue (ss_outbox (sd_session sd)))"
  shows "\<exists>sd'. connect_locked (Some (HelloOk ho)) True sends now sd = (True, map e_payload rest, sd') \<and>
    ob_queue (ss_outbox (sd_session sd')) = rest \<and> ob_next_unsent (ss_outbox (sd_session sd')) = length rest \<and>
    sd_sock sd' \<noteq> None"
proof -
  define ob where "ob = ss_outbox (sd_session sd)"
  define c where "c = ho_committed_through ho"
  define k where "k = nat (c - ob_last_ack ob)"
  have nrec: "ss_phase (sd_session sd) \<noteq> RecoveryRequired"
    using inv idle by (simp add: sender_inv_def failure_ok_def)
  have obi: "ob_inv (ob_mark_unsent ob)" using inv by (simp add: sender_inv_def link_ok_def ss_inv_def ob_def ob_inv_simple)
  have pop: "pop_through c (ob_queue ob) = (k, sum_list (map e_events (take k (ob_queue ob))), drop k (ob_queue ob))"
    "k \<le> length (ob_queue ob)"
    using ob_acknowledge_queue [OF obi, of c] assms(7,8) by (simp_all add: ob_mark_unsent_def ob_def c_def k_def)
  have ids: "map e_id (drop k (ob_queue ob)) = [c + 1 .. ob_next_id ob - 1]"
    using obi assms(7,8) drop_map [of k e_id "ob_queue ob"]
    by (simp add: ob_inv_def ob_mark_unsent_def drop_upto k_def c_def ob_def add.commute)
  have dw: "dropWhile (\<lambda>e. e_id e \<le> c) (ob_queue ob) = drop k (ob_queue ob)" using pop(1) by (simp add: pop_through_spec)
  have "filter (\<lambda>e. c < e_id e) (takeWhile (\<lambda>e. e_id e \<le> c) (ob_queue ob)) = []"
    by (auto simp: filter_empty_conv dest: set_takeWhileD)
  moreover have "filter (\<lambda>e. c < e_id e) (drop k (ob_queue ob)) = drop k (ob_queue ob)"
  proof -
    have "c < e_id e" if "e \<in> set (drop k (ob_queue ob))" for e
    proof -
      have "e_id e \<in> set (map e_id (drop k (ob_queue ob)))" using that by simp
      then show ?thesis unfolding ids by simp
    qed
    then show ?thesis by (simp add: filter_id_conv)
  qed
  ultimately have rest: "rest = drop k (ob_queue ob)"
    unfolding rest_def c_def [symmetric] ob_def [symmetric]
    by (metis append_Nil takeWhile_dropWhile_id dw filter_append)
  define s2 where "s2 = (sd_session sd)\<lparr>ss_generation := ss_generation (sd_session sd) + 1,
    ss_outbox := ob_acknowledge c (ob_mark_unsent ob), ss_phase := Ready\<rparr>"
  have bc: "begin_connection (sd_session sd) = (Some (ss_generation (sd_session sd) + 1),
      (sd_session sd)\<lparr>ss_generation := ss_generation (sd_session sd) + 1, ss_outbox := ob_mark_unsent ob, ss_phase := AwaitingHello\<rparr>)"
    using nrec by (simp add: begin_connection_def ob_def)
  have ah: "accept_hello (ss_generation (sd_session sd) + 1) c ((sd_session sd)\<lparr>ss_generation := ss_generation (sd_session sd) + 1,
      ss_outbox := ob_mark_unsent ob, ss_phase := AwaitingHello\<rparr>) = (Accepted, s2)"
    using assms(7,8) by (simp add: accept_hello_def require_phase_def take_highwater_def validate_highwater_def s2_def
        ob_mark_unsent_def ob_def c_def)
  have q: "ob_queue (ss_outbox s2) = rest" "ob_next_unsent (ss_outbox s2) = 0" "ss_phase s2 = Ready"
    using pop rest by (simp_all add: s2_def ob_acknowledge_def ob_mark_unsent_def)
  have "length rest \<le> length sends" using sends(2) rest by (simp add: ob_def)
  from replay_all [OF q(3), of "length rest" sends] q sends(1) this obtain s3 where
    rp: "replay_outbox sends s2 = (True, map e_payload rest, s3)" "ob_queue (ss_outbox s3) = rest" "ob_next_unsent (ss_outbox s3) = length rest"
    by auto
  show ?thesis using idle fg mode nrec bc ah rp
    by (simp add: connect_locked_def recovery_required_def accept_handshake_response_def Let_def c_def)
qed

section \<open>A concrete run\<close>

definition demo_events :: "event list" where
  "demo_events = [[(''k'', PStr K_SET_VISIBILITY), (''prim'', PStr ''/a''), (''visible'', PBool True)]]"

definition demo_encode :: "event list \<Rightarrow> string \<Rightarrow> int \<Rightarrow> bytes res" where
  "demo_encode evs layer_key i = Inr (map (\<lambda>_. 7) layer_key)"

definition demo_hello :: hello_ok where
  "demo_hello = \<lparr>ho_server_instance = ''srv'', ho_shared_stage = False, ho_committed_through = 0,
     ho_token = [], ho_metadata = []\<rparr>"

definition demo_sender :: sender where
  "demo_sender = (case sender_init ''emitter'' MANAGED ''s1'' 4 False None of Inr sd \<Rightarrow> sd)"

text \<open>Connected, one transaction sent, that one rejected as stale, and repaired.\<close>

definition demo_connected :: sender where
  "demo_connected = snd (snd (connect_locked (Some (HelloOk demo_hello)) True [] 0 demo_sender))"

definition demo_sent :: sender where
  "demo_sent = snd (send_events slash_lib demo_encode demo_events ''L'' True demo_connected)"

definition demo_rejected :: sender where
  "demo_rejected = accept_result 1 (RejectedResult StaleLayerGraph ''stale'' 0) 1 demo_sent"

definition demo_repaired :: sender where
  "demo_repaired = snd (repair_rejected_transaction slash_lib demo_encode demo_events ''LL'' demo_rejected)"

lemma demo_init: "sender_init ''emitter'' MANAGED ''s1'' 4 False None = Inr demo_sender"
  by (simp add: demo_sender_def sender_init_def valid_session_id_def)

lemma demo_valid: "validate_events slash_lib (Some MANAGED) (PList (map PDict demo_events)) = Inr ()"
proof -
  have "validate_event_or_raise slash_lib (Some MANAGED) (PDict (hd demo_events)) = Inr ()"
    unfolding validate_event_or_raise_iff demo_events_def
    by (simp add: py_get_def spec_validate_def EVENT_KIND_INFO_def kind_info_def slash_lib_def empty_lib_def
        posix_isabs_def pathless_kinds_def require_prim_path_def sdf_path_def validate_visibility_def require_bool_def
        require_optional_time_def require_res_def require_def first_error.simps)
  then show ?thesis by (simp add: demo_events_def validate_events_def require_def first_error.simps)
qed

lemmas demo_defs = demo_sender_def sender_init_def valid_session_id_def new_session_def new_outbox_def
  connect_locked_def recovery_required_def begin_connection_def accept_handshake_response_def accept_hello_def
  require_phase_def take_highwater_def validate_highwater_def ob_acknowledge_def ob_mark_unsent_def
  claim_next_unsent_def ob_claim_def demo_hello_def

lemma demo_connected_eq:
  "demo_connected = demo_sender\<lparr>sd_sock := Some 0, sd_next_sock := 1, sd_generation := 1, sd_server_instance := ''srv'',
     sd_session := (new_session 4)\<lparr>ss_phase := Ready, ss_generation := 1\<rparr>\<rparr>"
  by (simp add: demo_connected_def demo_defs Let_def)

lemma demo_sent_eq:
  "demo_sent = demo_connected\<lparr>sd_session := (sd_session demo_connected)\<lparr>ss_outbox :=
     ob_append 1 [7] 1 ''L'' (new_outbox 4)\<rparr>\<rparr>"
proof -
  have "sd_layer_mode demo_connected = MANAGED" by (simp add: demo_connected_eq demo_defs)
  with demo_valid show ?thesis
    by (simp add: demo_sent_def send_events_def demo_connected_eq demo_sender_def sender_init_def valid_session_id_def
        demo_events_def new_session_def session_can_append_def ob_can_append_def new_outbox_def demo_encode_def
        session_append_def require_phase_def Let_def)
qed

lemma demo_rejected_eq:
  "demo_rejected = sender_close (Some 0) (record_session_failure
     \<lparr>tf_txn_id = 1, tf_code = StaleLayerGraph, tf_reason = ''stale'', tf_expected_txn_id = 0\<rparr>
     (demo_sent\<lparr>sd_session := enter_recovery 1 RecoverableConflict (sd_session demo_sent)\<rparr>))"
  by (simp add: demo_rejected_def accept_result_def demo_sent_eq demo_connected_eq session_reject_def require_phase_def
      new_session_def ob_contains_def ob_append_def failure_disposition_def Let_def)

lemma demo_run:
  "(sender_step slash_lib demo_encode)\<^sup>*\<^sup>* demo_sender demo_rejected"
  "(sender_step slash_lib demo_encode)\<^sup>*\<^sup>* demo_sender demo_repaired"
  "(sender_step slash_lib demo_encode)\<^sup>*\<^sup>* demo_sender demo_sent"
proof -
  have c: "sender_step slash_lib demo_encode demo_sender demo_connected"
    unfolding demo_connected_def by (rule sender_step.connect)
  have s: "sender_step slash_lib demo_encode demo_connected demo_sent"
    unfolding demo_sent_def by (rule sender_step.send)
  from c s show "(sender_step slash_lib demo_encode)\<^sup>*\<^sup>* demo_sender demo_sent"
    by (meson converse_rtranclp_into_rtranclp rtranclp.rtrancl_refl)
  have r: "sender_step slash_lib demo_encode demo_sent demo_rejected"
    unfolding demo_rejected_def by (rule sender_step.result)
  from c s r show run: "(sender_step slash_lib demo_encode)\<^sup>*\<^sup>* demo_sender demo_rejected"
    by (meson converse_rtranclp_into_rtranclp rtranclp.rtrancl_refl)
  have "sender_step slash_lib demo_encode demo_rejected demo_repaired"
    unfolding demo_repaired_def by (rule sender_step.repair)
  with run show "(sender_step slash_lib demo_encode)\<^sup>*\<^sup>* demo_sender demo_repaired" by (rule rtranclp.rtrancl_into_rtrancl)
qed

lemma demo_rejected_fields:
  "sd_failure demo_rejected = Some \<lparr>tf_txn_id = 1, tf_code = StaleLayerGraph, tf_reason = ''stale'', tf_expected_txn_id = 0\<rparr>"
  "sd_layer_mode demo_rejected = MANAGED"
  "map e_id (ob_queue (ss_outbox (sd_session demo_rejected))) = [1]"
  by (simp_all add: demo_rejected_eq sender_close_def record_session_failure_def Let_def disconnect_fields
      demo_sent_eq demo_connected_eq demo_sender_def sender_init_def valid_session_id_def enter_recovery_def
      new_session_def ob_mark_unsent_def ob_append_def new_outbox_def)

section \<open>Properties\<close>

text \<open>C28. Recovery state is coherent in every sender the operations can reach: a failure is recorded
  exactly when the native session refuses to go on, with the evidence and the incident of the
  whole unacknowledged outbox of this session; a socket is published exactly while the session is
  ready, under its generation; and the retry delay is 1, 2, 4 or 8 seconds.\<close>

theorem sender_recovery_coherent:
  assumes "sender_init role mode session_id max_pending background token = Inr sd0"
    and "(sender_step lib encode)\<^sup>*\<^sup>* sd0 sd"
  shows "(recovery_required sd \<longleftrightarrow> sd_failure sd \<noteq> None) \<and>
    (\<forall>f. sd_failure sd = Some f \<longrightarrow>
       (let a = \<lparr>ra_session_id = sd_session_id sd, ra_failure = f, ra_transactions = ob_queue (ss_outbox (sd_session sd))\<rparr>
        in sd_artifact sd = Some a \<and> sd_incident sd = Some (make_recovery_incident a))) \<and>
    (sd_failure sd = None \<longrightarrow> sd_artifact sd = None \<and> sd_incident sd = None) \<and>
    (sd_sock sd \<noteq> None \<longleftrightarrow> ss_phase (sd_session sd) = Ready) \<and>
    (sd_sock sd \<noteq> None \<longrightarrow> sd_generation sd = ss_generation (sd_session sd)) \<and>
    sd_retry_delay sd \<in> {1, 2, 4, 8}"
  by (rule sender_inv_coherent [OF sn.reach_invar [OF assms(2) sender_init_inv [OF assms(1)]]])

theorem sender_recovery_coherent_witness:
  "recovery_required demo_rejected \<and> sd_sock demo_rejected = None \<and> sd_retry_delay demo_rejected \<in> {1, 2, 4, 8}"
  using sender_recovery_coherent [OF demo_init demo_run(1)] by (auto simp: demo_rejected_fields(1) recovery_required_def)

text \<open>C29. A recoverable rejection can be repaired: with valid replacement events that encode, the
  repair succeeds, returns the rejected id, replaces exactly that transaction in the outbox,
  leaves every other one and the order as they are, and clears the failure.\<close>

theorem repair_replaces_rejected:
  assumes "sender_init role mode session_id max_pending background token = Inr sd0"
    and "(sender_step lib encode)\<^sup>*\<^sup>* sd0 sd"
    and "sd_failure sd = Some f" "failure_disposition f = RecoverableConflict"
    and "evs \<noteq> []" "validate_events lib (Some (sd_layer_mode sd)) (PList (map PDict evs)) = Inr u"
    and "encode evs layer_key (tf_txn_id f) = Inr payload"
  shows "\<exists>sd'. repair_rejected_transaction lib encode evs layer_key sd = (Inr (tf_txn_id f), sd') \<and>
    tf_txn_id f \<in> e_id ` set (ob_queue (ss_outbox (sd_session sd))) \<and>
    ob_queue (ss_outbox (sd_session sd')) =
      map (\<lambda>e. if e_id e = tf_txn_id f
               then \<lparr>e_id = tf_txn_id f, e_payload = payload, e_events = length evs, e_layer = layer_key\<rparr> else e)
        (ob_queue (ss_outbox (sd_session sd))) \<and>
    sd_failure sd' = None \<and> \<not> recovery_required sd' \<and> sd_sock sd' = None"
  by (rule repair_spec [where encode = encode, OF sn.reach_invar [OF assms(2) sender_init_inv [OF assms(1)]] assms(3-7)])

theorem repair_replaces_rejected_witness:
  "fst (repair_rejected_transaction slash_lib demo_encode demo_events ''LL'' demo_rejected) = Inr 1 \<and>
   sd_failure demo_repaired = None"
  using repair_replaces_rejected [OF demo_init demo_run(1) demo_rejected_fields(1), of demo_events "()" "''LL''" "[7, 7]"]
    demo_valid demo_rejected_fields(2)
  by (auto simp: failure_disposition_def demo_repaired_def demo_encode_def demo_events_def)



end
