(* ===== verification/Delivery.thy ===== *)
theory Delivery
  imports Commit
begin

text \<open>
  Publication of committed records to receivers: the parts of \<open>UsdSyncServer\<close>
  (\<open>openusdconnect/server/state.py\<close>) that commit and publish, admit a receiver at the boundary
  between replay and live delivery, run the broadcast thread and resynchronize after the history
  is replaced.

  A receiver is its handler's number. What reaches a receiver is a list of messages; framing them
  into bytes is a separate component. A handler that holds its send lock for its replay has the
  messages still to be sent in \<open>hb_replay\<close>. A queued broadcast keeps the receivers that were
  captured when it was queued, those it still has to be sent to and those whose send failed.

  Committing and queueing happen under the transaction barrier, so admitting a receiver and
  replacing the history, which hold it exclusively, see either both or neither. Producer
  transactions are written through, so the drain of the realtime queue has nothing to do here.
  Setting children of a loaded payload active, event listeners and metrics are left out.
\<close>

section \<open>State\<close>

datatype down = Rec bytes | Resync string | ReplayComplete int int | HelloOk int | Control

datatype audience = AudienceAll | AudienceFlat | AudienceLayered

record 'spec hub =
  hb_server :: "'spec server"
  hb_receivers :: "nat list"
  hb_queue :: "(down list \<times> nat list \<times> nat list) list"
  hb_replay :: "nat \<Rightarrow> down list option"
  hb_sent :: "nat \<Rightarrow> down list"
  hb_layered :: "nat \<Rightarrow> bool"
  hb_origin :: "nat \<Rightarrow> string"
  hb_next :: nat
  hb_failed :: "nat list"
  hb_base :: "nat \<Rightarrow> bytes list"

text \<open>\<open>hb_failed\<close> and \<open>hb_base\<close> are for the proofs: handlers whose send failed, and the records a
  receiver holds when it is admitted.\<close>

definition new_hub :: "'spec server \<Rightarrow> 'spec hub" where
  "new_hub sv = \<lparr>hb_server = sv, hb_receivers = [], hb_queue = [], hb_replay = (\<lambda>_. None), hb_sent = (\<lambda>_. []),
     hb_layered = (\<lambda>_. False), hb_origin = (\<lambda>_. []), hb_next = 0, hb_failed = [], hb_base = (\<lambda>_. [])\<rparr>"

section \<open>Queueing\<close>

definition receiver_targets :: "string option \<Rightarrow> audience \<Rightarrow> 'spec hub \<Rightarrow> nat list" where
  "receiver_targets exclude_origin audience hb =
     filter (\<lambda>h. \<not> (audience = AudienceLayered \<and> \<not> hb_layered hb h) \<and> \<not> (audience = AudienceFlat \<and> hb_layered hb h) \<and>
         \<not> (exclude_origin \<notin> {None, Some []} \<and> Some (hb_origin hb h) = exclude_origin)) (hb_receivers hb)"

definition enqueue_broadcast :: "down list \<Rightarrow> string option \<Rightarrow> audience \<Rightarrow> 'spec hub \<Rightarrow> 'spec hub" where
  "enqueue_broadcast payload exclude_origin audience hb =
     (let targets = receiver_targets exclude_origin audience hb
      in if targets \<noteq> [] then hb\<lparr>hb_queue := hb_queue hb @ [(payload, targets, [])]\<rparr> else hb)"

definition broadcast_transaction_group_views :: "(event_record \<times> bytes) list list \<Rightarrow> 'spec hub \<Rightarrow> 'spec hub" where
  "broadcast_transaction_group_views transactions hb =
     (let all_records = concat transactions
      in if all_records \<noteq> [] then enqueue_broadcast (map (Rec \<circ> snd) all_records) None AudienceAll hb else hb)"

definition broadcast_message :: "string option \<Rightarrow> audience \<Rightarrow> 'spec hub \<Rightarrow> 'spec hub" where
  "broadcast_message exclude_origin audience hb = enqueue_broadcast [Control] exclude_origin audience hb"

section \<open>Committing and publishing\<close>

text \<open>
  \<open>replay_children_after_load\<close>: \<open>children\<close> is the reduction of the stored child edits
  (\<open>child_replay_records\<close>). The records are numbered and encoded, appended and queued.
\<close>

fun encode_children :: "encoder \<Rightarrow> event_record list \<Rightarrow> encoded_events \<Rightarrow> journal \<Rightarrow> encoded_events res \<times> journal" where
  "encode_children encode [] acc j = (Inr acc, j)"
| "encode_children encode (r # rs) acc j =
     (case assign_and_encode_event encode (rec_event r) None (rec_origin r) None (rec_layer_key r) j of
        (Inl e, j') \<Rightarrow> (Inl e, j')
      | (Inr (record, bin), j') \<Rightarrow> encode_children encode rs (encoded_append record bin acc) j')"

definition persist_children :: "'spec env \<Rightarrow> event_record list \<Rightarrow> 'spec server \<Rightarrow> encoded_events res \<times> 'spec server" where
  "persist_children env records =
     srv_reserve (\<lambda>s. case encode_children (env_encode env) records no_events (srv_journal s) of
        (Inl e, j) \<Rightarrow> (Inl e, s\<lparr>srv_journal := j\<rparr>)
      | (Inr enc, j) \<Rightarrow>
          (case srv_append env (ee_store_rows enc) [] (s\<lparr>srv_journal := j\<rparr>) of
             (Inl e, s1) \<Rightarrow> (Inl e, s1) | (Inr _, s1) \<Rightarrow> (Inr enc, s1)))"

definition replay_children_after_load ::
  "'spec env \<Rightarrow> (store \<Rightarrow> string \<Rightarrow> event_record list) \<Rightarrow> string \<Rightarrow> 'spec hub \<Rightarrow> unit res \<times> 'spec hub" where
  "replay_children_after_load env children prim_path hb =
     (case persist_children env (children (jstore (srv_journal (hb_server hb))) prim_path) (hb_server hb) of
        (Inl e, sv) \<Rightarrow> (Inl e, hb\<lparr>hb_server := sv\<rparr>)
      | (Inr enc, sv) \<Rightarrow> (Inr (), broadcast_transaction_group_views [ee_records enc] (hb\<lparr>hb_server := sv\<rparr>)))"

text \<open>The loop over the loaded payloads; an exception ends it and is logged.\<close>

fun replay_loads :: "'spec env \<Rightarrow> (store \<Rightarrow> string \<Rightarrow> event_record list) \<Rightarrow> string list \<Rightarrow> 'spec hub \<Rightarrow> 'spec hub" where
  "replay_loads env children [] hb = hb"
| "replay_loads env children (p # ps) hb =
     (case replay_children_after_load env children p hb of
        (Inl e, hb1) \<Rightarrow> hb1 | (Inr _, hb1) \<Rightarrow> replay_loads env children ps hb1)"

definition publish_commit ::
  "'spec env \<Rightarrow> (store \<Rightarrow> string \<Rightarrow> event_record list) \<Rightarrow> transaction_request \<Rightarrow> transaction_commit \<Rightarrow> 'spec hub \<Rightarrow> 'spec hub" where
  "publish_commit env children r c hb =
     replay_loads env children (payload_load_paths r) (broadcast_transaction_group_views [tc_records c] hb)"

definition commit_and_publish ::
  "'spec env \<Rightarrow> (store \<Rightarrow> string \<Rightarrow> event_record list) \<Rightarrow> transaction_request \<Rightarrow> 'spec hub \<Rightarrow> outcome \<times> 'spec hub" where
  "commit_and_publish env children r hb =
     (case commit env r (hb_server hb) of
        (Inl e, sv) \<Rightarrow> (Inl e, hb\<lparr>hb_server := sv\<rparr>)
      | (Inr c, sv) \<Rightarrow>
          (Inr c, if tc_status c \<noteq> Committed then hb\<lparr>hb_server := sv\<rparr>
                  else publish_commit env children r c (hb\<lparr>hb_server := sv\<rparr>)))"

text \<open>\<open>_publish_batch\<close>: the batches to send together, and the request that loads payloads.\<close>

fun split_batch ::
  "(transaction_request \<times> outcome) list \<Rightarrow> (event_record \<times> bytes) list list \<times> (transaction_request \<times> transaction_commit) option" where
  "split_batch [] = ([], None)"
| "split_batch ((r, out) # rest) =
     (let (batches, replay) = split_batch rest
      in case out of
           Inl e \<Rightarrow> (batches, replay)
         | Inr c \<Rightarrow>
             if tc_status c \<noteq> Committed \<or> tc_records c = [] then (batches, replay)
             else if payload_load_paths r \<noteq> [] then (batches, Some (case replay of None \<Rightarrow> (r, c) | Some p \<Rightarrow> p))
             else (tc_records c # batches, replay))"

definition publish_batch ::
  "'spec env \<Rightarrow> (store \<Rightarrow> string \<Rightarrow> event_record list) \<Rightarrow> transaction_request list \<Rightarrow> outcome list \<Rightarrow> 'spec hub \<Rightarrow> 'spec hub" where
  "publish_batch env children rs outs hb =
     (let (batches, replay) = split_batch (zip rs outs);
          hb1 = broadcast_transaction_group_views batches hb
      in case replay of None \<Rightarrow> hb1 | Some (r, c) \<Rightarrow> publish_commit env children r c hb1)"

definition commit_and_publish_batch ::
  "'spec env \<Rightarrow> (store \<Rightarrow> string \<Rightarrow> event_record list) \<Rightarrow> transaction_request list \<Rightarrow> 'spec hub \<Rightarrow> outcome list res \<times> 'spec hub" where
  "commit_and_publish_batch env children rs hb =
     (case commit_group env rs (hb_server hb) of
        (Inl e, sv) \<Rightarrow> (Inl e, hb\<lparr>hb_server := sv\<rparr>)
      | (Inr outs, sv) \<Rightarrow> (Inr outs, publish_batch env children rs outs (hb\<lparr>hb_server := sv\<rparr>)))"

section \<open>Admitting a receiver\<close>

record receiver_hello =
  rh_sync_from :: int
  rh_server_instance :: "string option"
  rh_epoch :: "int option"
  rh_layered :: bool
  rh_origin :: string

definition resync_reason :: "string \<Rightarrow> receiver_hello \<Rightarrow> journal \<Rightarrow> string option" where
  "resync_reason server_instance rh j =
     (let replay_end = get_max_seq (jstore j); epoch = fst (replay_token j);
          resume_identity_changed = (rh_sync_from rh > 1 \<and> rh_server_instance rh \<noteq> None \<and>
            (rh_server_instance rh \<noteq> Some server_instance \<or> rh_epoch rh \<noteq> Some epoch));
          cursor_out_of_range = (rh_sync_from rh > replay_end + 1)
      in if resume_identity_changed then Some ''replay_identity_changed''
         else if cursor_out_of_range then Some ''seq_overflow'' else None)"

text \<open>The messages of the replay window, from the hello reply to the completion marker.\<close>

definition replay_messages :: "string \<Rightarrow> receiver_hello \<Rightarrow> journal \<Rightarrow> down list" where
  "replay_messages server_instance rh j =
     (let replay_end = get_max_seq (jstore j); epoch = fst (replay_token j);
          reason = resync_reason server_instance rh j;
          sync_from = (if reason \<noteq> None then 1 else rh_sync_from rh)
      in HelloOk epoch # (case reason of None \<Rightarrow> [] | Some r \<Rightarrow> [Resync r]) @ [Control] @
         (if rh_layered rh then [Control] else []) @
         map Rec (get_from_seq_bin sync_from (Some replay_end) (jstore j)) @ [ReplayComplete replay_end epoch])"

definition receiver_replay_window :: "string \<Rightarrow> receiver_hello \<Rightarrow> bytes list \<Rightarrow> 'spec hub \<Rightarrow> 'spec hub" where
  "receiver_replay_window server_instance rh held hb =
     (let h = hb_next hb
      in hb\<lparr>hb_receivers := hb_receivers hb @ [h], hb_next := h + 1,
            hb_replay := (hb_replay hb)(h := Some (replay_messages server_instance rh (srv_journal (hb_server hb)))),
            hb_layered := (hb_layered hb)(h := rh_layered rh), hb_origin := (hb_origin hb)(h := rh_origin rh),
            hb_base := (hb_base hb)(h := held)\<rparr>)"

definition discard_receivers :: "nat list \<Rightarrow> 'spec hub \<Rightarrow> 'spec hub" where
  "discard_receivers hs hb = hb\<lparr>hb_receivers := filter (\<lambda>h. h \<notin> set hs) (hb_receivers hb)\<rparr>"

text \<open>The handler sends its replay and releases its send lock; a failed send ends the connection.\<close>

definition deliver_replay :: "bool \<Rightarrow> nat \<Rightarrow> 'spec hub \<Rightarrow> 'spec hub" where
  "deliver_replay sent h hb =
     (case hb_replay hb h of
        None \<Rightarrow> hb
      | Some messages \<Rightarrow>
          if sent then hb\<lparr>hb_sent := (hb_sent hb)(h := hb_sent hb h @ messages), hb_replay := (hb_replay hb)(h := None)\<rparr>
          else discard_receivers [h] (hb\<lparr>hb_replay := (hb_replay hb)(h := None), hb_failed := h # hb_failed hb\<rparr>))"

section \<open>The broadcast thread\<close>

text \<open>One send of the item at the head of the queue; the receiver's send lock is free.\<close>

definition send_next :: "bool \<Rightarrow> 'spec hub \<Rightarrow> 'spec hub" where
  "send_next sent hb =
     (case hb_queue hb of
        (payload, h # targets, dead) # rest \<Rightarrow>
          if hb_replay hb h \<noteq> None then hb
          else if sent then hb\<lparr>hb_sent := (hb_sent hb)(h := hb_sent hb h @ payload), hb_queue := (payload, targets, dead) # rest\<rparr>
          else hb\<lparr>hb_failed := h # hb_failed hb, hb_queue := (payload, targets, h # dead) # rest\<rparr>
      | _ \<Rightarrow> hb)"

text \<open>The item is done: dead receivers are discarded and, when one led the playback, announced.\<close>

definition finish_item :: "bool \<Rightarrow> 'spec hub \<Rightarrow> 'spec hub" where
  "finish_item released hb =
     (case hb_queue hb of
        (payload, [], dead) # rest \<Rightarrow>
          (let hb1 = discard_receivers dead (hb\<lparr>hb_queue := rest\<rparr>)
           in if dead \<noteq> [] \<and> released then broadcast_message None AudienceAll hb1 else hb1)
      | _ \<Rightarrow> hb)"

definition send_ping :: "'spec hub \<Rightarrow> 'spec hub" where
  "send_ping hb = (if hb_queue hb = [] then hb\<lparr>hb_queue := [([Control], hb_receivers hb, [])]\<rparr> else hb)"

section \<open>Replacing the history\<close>

definition number_rows :: "event_row list \<Rightarrow> event_row list" where
  "number_rows rows = map2 (\<lambda>i r. r\<lparr>row_seq := i\<rparr>) [1..int (length rows)] rows"

definition replace_history :: "'spec env \<Rightarrow> event_row list \<Rightarrow> 'spec hub \<Rightarrow> bool \<times> 'spec hub" where
  "replace_history env rows hb =
     (let sv = hb_server hb; (r, j) = rewrite_history (env_db env (srv_writes sv)) (number_rows rows) (srv_journal sv)
      in (\<not> isl r, hb\<lparr>hb_server := sv\<lparr>srv_journal := j, srv_writes := srv_writes sv + 1\<rparr>\<rparr>))"

text \<open>What a resync sends to one receiver. It waits for the receiver's send lock, so after a
  replay that is still being sent.\<close>

definition resync_messages :: "bool \<Rightarrow> journal \<Rightarrow> down list" where
  "resync_messages layered j =
     (let (replay_epoch, replay_head) = replay_token j
      in Resync [] # (if layered then [Control] else []) @
         (if replay_head \<noteq> 0 then map Rec (get_from_seq_bin 1 (Some replay_head) (jstore j)) else []) @
         [ReplayComplete replay_head replay_epoch])"

definition send_locked :: "nat \<Rightarrow> down list \<Rightarrow> 'spec hub \<Rightarrow> 'spec hub" where
  "send_locked h messages hb =
     (case hb_replay hb h of
        None \<Rightarrow> hb\<lparr>hb_sent := (hb_sent hb)(h := hb_sent hb h @ messages)\<rparr>
      | Some replay \<Rightarrow> hb\<lparr>hb_replay := (hb_replay hb)(h := Some (replay @ messages))\<rparr>)"

fun resync_each :: "(nat \<Rightarrow> bool) \<Rightarrow> nat list \<Rightarrow> 'spec hub \<Rightarrow> nat list \<times> 'spec hub" where
  "resync_each sent [] hb = ([], hb)"
| "resync_each sent (h # hs) hb =
     (let hb1 = (if sent h then send_locked h (resync_messages (hb_layered hb h) (srv_journal (hb_server hb))) hb
                 else hb\<lparr>hb_failed := h # hb_failed hb\<rparr>);
          (disconnected, hb2) = resync_each sent hs hb1
      in (if sent h then disconnected else h # disconnected, hb2))"

definition resync_receivers :: "(nat \<Rightarrow> bool) \<Rightarrow> 'spec hub \<Rightarrow> 'spec hub" where
  "resync_receivers sent hb =
     (let (disconnected, hb1) = resync_each sent (hb_receivers hb) hb in discard_receivers disconnected hb1)"

definition compact_log :: "'spec env \<Rightarrow> event_row list \<Rightarrow> (nat \<Rightarrow> bool) \<Rightarrow> 'spec hub \<Rightarrow> 'spec hub" where
  "compact_log env rows sent hb =
     (let (done, hb1) = replace_history env rows hb in if done then resync_receivers sent hb1 else hb1)"

definition publish_snapshot :: "bytes list \<Rightarrow> 'spec hub \<Rightarrow> 'spec hub" where
  "publish_snapshot records hb =
     (let (replay_epoch, replay_head) = replay_token (srv_journal (hb_server hb))
      in enqueue_broadcast ([Resync ''vfs-write''] @ map Rec records @ [ReplayComplete replay_head replay_epoch])
           None AudienceAll hb)"

definition replace_from_snapshot :: "'spec env \<Rightarrow> event_row list \<Rightarrow> 'spec hub \<Rightarrow> 'spec hub" where
  "replace_from_snapshot env rows hb =
     (let (done, hb1) = replace_history env rows hb in if done then publish_snapshot (map row_bin rows) hb1 else hb1)"

section \<open>Steps\<close>

text \<open>The records of a history in order, and the records a receiver has after some messages.\<close>

definition stored_bins :: "'spec hub \<Rightarrow> bytes list" where
  "stored_bins hb = map snd (get_all_asc (jstore (srv_journal (hb_server hb))))"

fun view :: "bytes list \<Rightarrow> down list \<Rightarrow> bytes list" where
  "view bs [] = bs"
| "view bs (Rec b # ms) = view (bs @ [b]) ms"
| "view bs (Resync reason # ms) = view [] ms"
| "view bs (m # ms) = view bs ms"

text \<open>
  A receiver that resumes holds the records below its cursor, unless the server tells it to start
  over. Rewrites wait until both queues are empty.
\<close>

inductive hub_step ::
  "'spec env \<Rightarrow> (store \<Rightarrow> string \<Rightarrow> event_record list) \<Rightarrow> string \<Rightarrow> 'spec hub \<Rightarrow> 'spec hub \<Rightarrow> bool"
  for env children server_instance where
  commit: "hub_step env children server_instance hb (snd (commit_and_publish env children r hb))"
| commit_batch: "\<forall>r \<in> set (butlast rs). payload_load_paths r = [] \<Longrightarrow>
    hub_step env children server_instance hb (snd (commit_and_publish_batch env children rs hb))"
| message: "hub_step env children server_instance hb (broadcast_message exclude_origin audience hb)"
| join: "(resync_reason server_instance rh (srv_journal (hb_server hb)) = None \<Longrightarrow>
      held = map snd (filter (\<lambda>p. fst p < rh_sync_from rh) (get_all_asc (jstore (srv_journal (hb_server hb)))))) \<Longrightarrow>
    hub_step env children server_instance hb (receiver_replay_window server_instance rh held hb)"
| deliver: "hub_step env children server_instance hb (deliver_replay sent h hb)"
| leave: "hb_replay hb h = None \<Longrightarrow> hub_step env children server_instance hb (discard_receivers [h] hb)"
| send: "hub_step env children server_instance hb (send_next sent hb)"
| finish: "hub_step env children server_instance hb (finish_item released hb)"
| ping: "hub_step env children server_instance hb (send_ping hb)"
| compact: "hb_queue hb = [] \<Longrightarrow> jqueue (srv_journal (hb_server hb)) = [] \<Longrightarrow>
    hub_step env children server_instance hb (compact_log env rows sent_to hb)"
| snapshot: "hb_queue hb = [] \<Longrightarrow> jqueue (srv_journal (hb_server hb)) = [] \<Longrightarrow>
    hub_step env children server_instance hb (replace_from_snapshot env rows hb)"

section \<open>What a receiver is still to get\<close>

lemma view_append: "view bs (xs @ ys) = view (view bs xs) ys"
  by (induction bs xs rule: view.induct) auto

lemma view_recs [simp]: "view bs (map Rec xs) = bs @ xs"
  by (induction xs arbitrary: bs) auto

lemma view_recs_map [simp]: "view bs (map (\<lambda>x. Rec (f x)) xs) = bs @ map f xs"
  by (induction xs arbitrary: bs) auto

lemma view_recs_comp [simp]: "view bs (map (Rec \<circ> f) xs) = bs @ map f xs"
  by (simp flip: map_map)

definition queued_for :: "nat \<Rightarrow> 'spec hub \<Rightarrow> down list" where
  "queued_for h hb = concat (map (\<lambda>(payload, targets, dead). if h \<in> set targets then payload else []) (hb_queue hb))"

definition unsent_replay :: "nat \<Rightarrow> 'spec hub \<Rightarrow> down list" where
  "unsent_replay h hb = (case hb_replay hb h of None \<Rightarrow> [] | Some messages \<Rightarrow> messages)"

definition final_view :: "'spec hub \<Rightarrow> nat \<Rightarrow> bytes list" where
  "final_view hb h = view (hb_base hb h) (hb_sent hb h @ unsent_replay h hb @ queued_for h hb)"

definition shape_inv :: "'spec hub \<Rightarrow> bool" where
  "shape_inv hb \<longleftrightarrow> srv_inv (hb_server hb) \<and> distinct (hb_receivers hb) \<and> (\<forall>h \<in> set (hb_receivers hb). h < hb_next hb) \<and>
     (\<forall>(payload, targets, dead) \<in> set (hb_queue hb). distinct targets \<and> (\<forall>h \<in> set targets. h < hb_next hb)) \<and>
     (\<forall>h. hb_next hb \<le> h \<longrightarrow> hb_sent hb h = [] \<and> hb_replay hb h = None)"

text \<open>Every live receiver ends up with the history but for the records \<open>xs\<close> at its end.\<close>

definition lag :: "bytes list \<Rightarrow> 'spec hub \<Rightarrow> bool" where
  "lag xs hb \<longleftrightarrow> shape_inv hb \<and>
     (\<forall>h \<in> set (hb_receivers hb) - set (hb_failed hb). final_view hb h @ xs = stored_bins hb)"

lemma stored_bins_fields [simp]:
  "stored_bins (hb\<lparr>hb_queue := q\<rparr>) = stored_bins hb" "stored_bins (hb\<lparr>hb_receivers := rs\<rparr>) = stored_bins hb"
  "stored_bins (hb\<lparr>hb_sent := st\<rparr>) = stored_bins hb" "stored_bins (hb\<lparr>hb_failed := fl\<rparr>) = stored_bins hb"
  "stored_bins (hb\<lparr>hb_replay := rp\<rparr>) = stored_bins hb"
  by (simp_all add: stored_bins_def)

lemma queued_for_fields [simp]:
  "queued_for h (hb\<lparr>hb_receivers := rs\<rparr>) = queued_for h hb" "queued_for h (hb\<lparr>hb_sent := st\<rparr>) = queued_for h hb"
  "queued_for h (hb\<lparr>hb_failed := fl\<rparr>) = queued_for h hb" "queued_for h (hb\<lparr>hb_replay := rp\<rparr>) = queued_for h hb"
  "queued_for h (hb\<lparr>hb_server := sv\<rparr>) = queued_for h hb"
  by (simp_all add: queued_for_def)

lemma unsent_replay_fields [simp]:
  "unsent_replay h (hb\<lparr>hb_queue := q\<rparr>) = unsent_replay h hb" "unsent_replay h (hb\<lparr>hb_receivers := rs\<rparr>) = unsent_replay h hb"
  "unsent_replay h (hb\<lparr>hb_sent := st\<rparr>) = unsent_replay h hb" "unsent_replay h (hb\<lparr>hb_failed := fl\<rparr>) = unsent_replay h hb"
  "unsent_replay h (hb\<lparr>hb_server := sv\<rparr>) = unsent_replay h hb"
  by (simp_all add: unsent_replay_def)

lemma receiver_targets_set: "set (receiver_targets ex aud hb) \<subseteq> set (hb_receivers hb)"
  by (auto simp: receiver_targets_def)

lemma receiver_targets_all [simp]: "receiver_targets None AudienceAll hb = hb_receivers hb"
  by (simp add: receiver_targets_def)

lemma queued_for_enqueue:
  "queued_for h (enqueue_broadcast payload ex aud hb) =
     queued_for h hb @ (if h \<in> set (receiver_targets ex aud hb) then payload else [])"
  by (simp add: enqueue_broadcast_def queued_for_def Let_def)

lemma enqueue_fields [simp]:
  "hb_receivers (enqueue_broadcast payload ex aud hb) = hb_receivers hb"
  "hb_failed (enqueue_broadcast payload ex aud hb) = hb_failed hb"
  "hb_server (enqueue_broadcast payload ex aud hb) = hb_server hb"
  "hb_base (enqueue_broadcast payload ex aud hb) = hb_base hb"
  "hb_sent (enqueue_broadcast payload ex aud hb) = hb_sent hb"
  "unsent_replay h (enqueue_broadcast payload ex aud hb) = unsent_replay h hb"
  "stored_bins (enqueue_broadcast payload ex aud hb) = stored_bins hb"
  by (simp_all add: enqueue_broadcast_def Let_def)

lemma enqueue_shape: "shape_inv hb \<Longrightarrow> shape_inv (enqueue_broadcast payload ex aud hb)"
  using receiver_targets_set [of ex aud hb]
  by (auto simp: enqueue_broadcast_def Let_def shape_inv_def receiver_targets_def)

lemma enqueue_view:
  "h \<in> set (hb_receivers hb) \<Longrightarrow> final_view (enqueue_broadcast payload None AudienceAll hb) h = view (final_view hb h) payload"
  by (simp add: final_view_def queued_for_enqueue view_append)

lemma broadcast_views_lag:
  assumes "lag (map snd (concat transactions) @ ys) hb"
  shows "lag ys (broadcast_transaction_group_views transactions hb)"
  using assms enqueue_shape [of hb]
  by (auto simp: broadcast_transaction_group_views_def Let_def lag_def enqueue_view simp del: concat_eq_Nil_conv)

lemma broadcast_message_lag:
  assumes "lag xs hb"
  shows "lag xs (broadcast_message ex aud hb)"
  using assms enqueue_shape [of hb]
  by (auto simp: broadcast_message_def lag_def final_view_def queued_for_enqueue view_append)

section \<open>Commits\<close>

lemma bins_append:
  assumes "log_inv j" "events (jstore j') = events (jstore j) @ rows" "map row_seq rows = [next_seq j .. n - 1]"
  shows "map snd (get_all_asc (jstore j')) = map snd (get_all_asc (jstore j)) @ map row_bin rows"
proof -
  have "fresh_rows (get_max_seq (jstore j)) rows"
    using upto_fresh(2) [OF assms(3)] head_below_next [OF assms(1)]
    unfolding fresh_rows_def assms(3) by (force simp: strict_sorted_iff)
  from sort_key_fresh [OF this] assms(2) show ?thesis
    by (simp add: get_all_asc_eq row_pair_def o_def)
qed

lemma served_bins:
  assumes "served rs outs s s'" "srv_inv s"
  shows "map snd (get_all_asc (jstore (srv_journal s'))) =
    map snd (get_all_asc (jstore (srv_journal s))) @ map snd (concat (map published outs))"
proof -
  obtain rows where rows: "events (jstore (srv_journal s')) = events (jstore (srv_journal s)) @ rows"
    "map row_pair rows = concat (map published outs)"
    "map row_seq rows = [next_seq (srv_journal s) .. next_seq (srv_journal s') - 1]"
    using assms(1) unfolding served_def by blast
  have "map row_bin rows = map snd (concat (map published outs))"
    unfolding rows(2) [symmetric] by (simp add: row_pair_def o_def)
  with bins_append [OF _ rows(1,3)] assms(2) show ?thesis by (simp add: srv_inv_def)
qed

lemma lag_commit:
  assumes "lag [] hb" "srv_inv sv" "map snd (get_all_asc (jstore (srv_journal sv))) = stored_bins hb @ xs"
  shows "lag xs (hb\<lparr>hb_server := sv\<rparr>)"
  using assms by (auto simp: lag_def shape_inv_def final_view_def stored_bins_def)

lemma published_snd: "map snd (published out) = (case out of Inl _ \<Rightarrow> [] | Inr c \<Rightarrow> map snd (tc_records c))"
  by (auto simp: published_def o_def case_prod_beta split: sum.splits)

lemma encode_children_frame:
  "encode_children encode rs acc j = (res, j') \<Longrightarrow>
     next_seq j \<le> next_seq j' \<and> j' = j\<lparr>next_seq := next_seq j', jmetrics := jmetrics j'\<rparr>"
proof (induction rs arbitrary: acc j)
  case (Cons r rs)
  obtain res1 j1 where first: "assign_and_encode_event encode (rec_event r) None (rec_origin r) None (rec_layer_key r) j = (res1, j1)"
    by fastforce
  have frame: "j1 = j\<lparr>next_seq := next_seq j + 1, jmetrics := jmetrics j1\<rparr>"
    using first by (rule assign_and_encode_event_frame)
  show ?case
  proof (cases res1)
    case (Inl e)
    with Cons.prems first frame show ?thesis by (cases j1, cases j) auto
  next
    case (Inr rb)
    obtain rc bin where "rb = (rc, bin)" by (cases rb)
    with Cons.prems Inr first have "encode_children encode rs (encoded_append rc bin acc) j1 = (res, j')" by simp
    from Cons.IH [OF this] frame show ?thesis by (cases j', cases j1, cases j) auto
  qed
qed auto

lemma encode_children_ok:
  "encode_children encode rs acc j = (Inr enc, j') \<Longrightarrow>
     (\<exists>recs. ee_records enc = ee_records acc @ recs \<and>
        ee_store_rows enc = ee_store_rows acc @ map (\<lambda>(r, bin). store_row r bin) recs \<and>
        map (rec_seq \<circ> fst) recs = [next_seq j .. next_seq j' - 1]) \<and> next_seq j \<le> next_seq j'"
proof (induction rs arbitrary: acc j)
  case (Cons r rs)
  from Cons.prems obtain rc bin j1 where
    first: "assign_and_encode_event encode (rec_event r) None (rec_origin r) None (rec_layer_key r) j = (Inr (rc, bin), j1)"
    and rest: "encode_children encode rs (encoded_append rc bin acc) j1 = (Inr enc, j')"
    by (auto split: prod.splits sum.splits)
  have n1: "next_seq j1 = next_seq j + 1"
    using assign_and_encode_event_frame [OF first] by (cases j1, cases j) auto
  have seq: "rec_seq rc = next_seq j"
    using encode_event_record_fields [OF assign_and_encode_event_ok [OF first]] by simp
  from Cons.IH [OF rest] obtain recs where recs:
    "ee_records enc = ee_records acc @ (rc, bin) # recs"
    "ee_store_rows enc = ee_store_rows acc @ map (\<lambda>(r, bin). store_row r bin) ((rc, bin) # recs)"
    "map (rec_seq \<circ> fst) recs = [next_seq j1 .. next_seq j' - 1]" "next_seq j1 \<le> next_seq j'"
    by (auto simp: encoded_append_def o_def)
  have "map (rec_seq \<circ> fst) ((rc, bin) # recs) = [next_seq j .. next_seq j' - 1]"
    using recs(3,4) seq n1 by (simp add: upto_rec1)
  with recs n1 show ?case by (intro conjI exI [of _ "(rc, bin) # recs"]) (auto simp: o_def)
qed (auto simp: no_events_def)

lemma persist_children_spec:
  assumes inv: "srv_inv s" and run: "persist_children env records s = (res, s')"
  shows "srv_inv s' \<and> map snd (get_all_asc (jstore (srv_journal s'))) =
    map snd (get_all_asc (jstore (srv_journal s))) @ (case res of Inl e \<Rightarrow> [] | Inr enc \<Rightarrow> map snd (ee_records enc))"
proof -
  define j where "j = srv_journal s"
  have j: "log_inv j" "cache_ok j" using inv by (simp_all add: srv_inv_def j_def)
  obtain r1 j1 where enc: "encode_children (env_encode env) records no_events j = (r1, j1)" by fastforce
  note fr = encode_children_frame [OF enc]
  have keep: "j1\<lparr>next_seq := next_seq j\<rparr> = j\<lparr>jmetrics := jmetrics j1\<rparr>" using fr by (cases j1, cases j) auto
  have st: "jstore j1 = jstore j" using fr by (cases j1, cases j) auto
  show ?thesis
  proof (cases r1)
    case (Inl e)
    then have "res = Inl e" "s' = s\<lparr>srv_journal := j1\<lparr>next_seq := next_seq j\<rparr>\<rparr>"
      using run enc by (simp_all add: persist_children_def srv_reserve_def j_def)
    with inv show ?thesis unfolding keep by (simp add: srv_inv_def j_def cache_ok_def)
  next
    case (Inr e)
    obtain r2 s2 where app: "srv_append env (ee_store_rows e) [] (s\<lparr>srv_journal := j1\<rparr>) = (r2, s2)" by fastforce
    show ?thesis
    proof (cases r2)
      case (Inl x)
      then have "srv_journal s2 = j1" using app journal_append_batch_error
        by (auto simp: srv_append_def split: prod.splits)
      moreover have "res = Inl x" "s' = s2\<lparr>srv_journal := (srv_journal s2)\<lparr>next_seq := next_seq j\<rparr>\<rparr>"
        using run enc app Inl \<open>r1 = Inr e\<close> by (simp_all add: persist_children_def srv_reserve_def j_def)
      ultimately have "res = Inl x" "srv_journal s' = j\<lparr>jmetrics := jmetrics j1\<rparr>" using keep by simp_all
      with inv show ?thesis by (simp add: srv_inv_def j_def cache_ok_def)
    next
      case (Inr u)
      have res: "res = Inr e" "s' = s2" using run enc app Inr \<open>r1 = Inr e\<close>
        by (simp_all add: persist_children_def srv_reserve_def j_def)
      define j2 where "j2 = srv_journal s2"
      have ap: "journal_append_batch (env_db env (srv_writes s)) (ee_store_rows e) [] [] True j1 = (Inr (), j2)"
        using app Inr by (auto simp: srv_append_def j2_def split: prod.splits)
      obtain recs where recs: "ee_records e = recs" "ee_store_rows e = map (\<lambda>(r, bin). store_row r bin) recs"
        "map (rec_seq \<circ> fst) recs = [next_seq j .. next_seq j1 - 1]"
        using encode_children_ok [of "env_encode env" records no_events j e j1] enc \<open>r1 = Inr e\<close> by (auto simp: no_events_def)
      have seqs: "map row_seq (ee_store_rows e) = [next_seq j .. next_seq j1 - 1]"
        unfolding recs(2) recs(3) [symmetric] by (simp add: store_row_def case_prod_beta)
      have li: "log_inv (j1\<lparr>next_seq := next_seq j\<rparr>)" unfolding keep using j by simp
      have "\<not> can_queue True [] [] j1" by (simp add: can_queue_def)
      from ap this obtain st' where st': "append_batch (env_db env (srv_writes s)) (ee_store_rows e) [] [] (jstore j1) = (Inr (), st')"
        "j2 = j1\<lparr>jstore := st', event_count := event_count j1 + int (length (ee_store_rows e))\<rparr>"
        by (rule journal_append_batch_durable)
      have ev: "events (jstore j2) = events (jstore j) @ ee_store_rows e"
        using append_batch_events [OF st'(1)] st by (simp add: st'(2))
      have "stored_marks (jstore j2) = stored_marks (jstore j)"
        using sqlite.append_progress [OF st'(1)] by (simp add: st'(2) stored_marks_def fun_eq_iff marks_def st)
      moreover have "cache_ok j1" using j(2) keep by (metis cache_ok_frame(1,2))
      ultimately have "srv_inv s'"
        using inv journal_append_log_inv [OF li seqs _ ap] fr cache_ok_append_no_progress [OF _ ap]
        by (simp add: srv_inv_def res(2) j2_def [symmetric] j_def [symmetric])
      moreover have "map row_bin (ee_store_rows e) = map snd recs"
        by (simp add: recs(2) store_row_def case_prod_beta)
      ultimately show ?thesis using bins_append [OF j(1) ev seqs] by (simp add: res recs(1) j2_def [symmetric] j_def [symmetric])
    qed
  qed
qed

lemma lag_srv_inv: "lag xs hb \<Longrightarrow> srv_inv (hb_server hb)"
  by (simp add: lag_def shape_inv_def)

lemma replay_children_lag:
  assumes "lag [] hb" "replay_children_after_load env children p hb = (res, hb')"
  shows "lag [] hb'"
proof -
  define sv where "sv = hb_server hb"
  obtain r sv' where run: "persist_children env (children (jstore (srv_journal sv)) p) sv = (r, sv')" by fastforce
  note spec = persist_children_spec [OF lag_srv_inv [OF assms(1)] run [unfolded sv_def]]
  show ?thesis
  proof (cases r)
    case (Inl e)
    with assms run spec lag_commit [OF assms(1), of sv' "[]"] show ?thesis
      by (auto simp: replay_children_after_load_def sv_def [symmetric] stored_bins_def)
  next
    case (Inr enc)
    with spec have "lag (map snd (ee_records enc)) (hb\<lparr>hb_server := sv'\<rparr>)"
      by (intro lag_commit [OF assms(1)]) (simp_all add: stored_bins_def)
    then have "lag [] (broadcast_transaction_group_views [ee_records enc] (hb\<lparr>hb_server := sv'\<rparr>))"
      by (intro broadcast_views_lag) simp
    with assms(2) run Inr show ?thesis by (simp add: replay_children_after_load_def sv_def)
  qed
qed

lemma replay_loads_lag: "lag [] hb \<Longrightarrow> lag [] (replay_loads env children ps hb)"
  by (induction env children ps hb rule: replay_loads.induct)
    (auto split: prod.splits sum.splits dest: replay_children_lag)

lemma publish_commit_lag: "lag (map snd (tc_records c)) hb \<Longrightarrow> lag [] (publish_commit env children r c hb)"
  unfolding publish_commit_def by (intro replay_loads_lag broadcast_views_lag) simp

lemma served_duplicate_records:
  assumes "serves ros m m'" "(r, Inr c) \<in> set ros" "tc_status c \<noteq> Committed"
  shows "tc_records c = []"
  using assms
proof (induction ros m m' rule: serves.induct)
  case (2 r out rest m m')
  then show ?case
    by (auto simp: serves.simps(2) Let_def committed_def simp del: fun_upd_apply split: if_splits sum.splits)
qed simp

lemma commit_and_publish_lag:
  assumes "lag [] hb"
  shows "lag [] (snd (commit_and_publish env children r hb))"
proof -
  obtain out sv where run: "commit env r (hb_server hb) = (out, sv)" by fastforce
  have sv: "served [r] [out] (hb_server hb) sv" by (rule commit_served [OF lag_srv_inv [OF assms] run])
  have new: "lag (map snd (published out)) (hb\<lparr>hb_server := sv\<rparr>)"
    using served_bins [OF sv lag_srv_inv [OF assms]] sv
    by (intro lag_commit [OF assms]) (simp_all add: stored_bins_def served_def)
  have dup: "tc_records c = []" if "out = Inr c" "tc_status c \<noteq> Committed" for c
    using served_duplicate_records [of "[(r, out)]"] sv that unfolding served_def by fastforce
  show ?thesis using run new dup publish_commit_lag
    by (auto simp: commit_and_publish_def published_snd split: sum.splits)
qed

lemma split_batch_bins:
  assumes "split_batch (zip rs outs) = (batches, replay)" "length outs = length rs"
    "\<forall>r \<in> set (butlast rs). payload_load_paths r = []"
    "\<And>r c. (r, Inr c) \<in> set (zip rs outs) \<Longrightarrow> tc_status c \<noteq> Committed \<Longrightarrow> tc_records c = []"
  shows "map snd (concat (map published outs)) =
    map snd (concat batches) @ (case replay of None \<Rightarrow> [] | Some (r, c) \<Rightarrow> map snd (tc_records c))"
  using assms
proof (induction rs arbitrary: outs batches replay)
  case (Cons r rs)
  then obtain out outs' where outs: "outs = out # outs'" by (cases outs) auto
  obtain bs rp where sp: "split_batch (zip rs outs') = (bs, rp)" by fastforce
  have IH: "map snd (concat (map published outs')) =
      map snd (concat bs) @ (case rp of None \<Rightarrow> [] | Some (r, c) \<Rightarrow> map snd (tc_records c))"
    using Cons.IH [OF sp] Cons.prems outs by (auto split: if_splits)
  show ?case
  proof (cases out)
    case (Inl e)
    with Cons.prems outs sp IH show ?thesis by (simp add: published_snd)
  next
    case (Inr c)
    consider (skip) "tc_status c \<noteq> Committed \<or> tc_records c = []"
      | (load) "tc_status c = Committed" "tc_records c \<noteq> []" "payload_load_paths r \<noteq> []"
      | (plain) "tc_status c = Committed" "tc_records c \<noteq> []" "payload_load_paths r = []" by blast
    then show ?thesis
    proof cases
      case skip
      then have "tc_records c = []" using Cons.prems(4) [of r c] outs Inr by auto
      with skip Inr Cons.prems(1) outs sp IH show ?thesis by (auto simp: published_snd)
    next
      case load
      then have "rs = []" using Cons.prems(3) by (cases rs) auto
      with load Inr Cons.prems(1,2) outs show ?thesis by (auto simp: published_snd)
    next
      case plain
      with Inr Cons.prems(1) outs sp IH show ?thesis by (auto simp: published_snd)
    qed
  qed
qed simp

lemma commit_and_publish_batch_lag:
  assumes "lag [] hb" "\<forall>r \<in> set (butlast rs). payload_load_paths r = []"
  shows "lag [] (snd (commit_and_publish_batch env children rs hb))"
proof -
  obtain res sv where run: "commit_group env rs (hb_server hb) = (res, sv)" by fastforce
  note spec = commit_group_served [OF lag_srv_inv [OF assms(1)] run]
  show ?thesis
  proof (cases res)
    case (Inl e)
    then have "lag [] (hb\<lparr>hb_server := sv\<rparr>)" using spec
      by (intro lag_commit [OF assms(1)]) (simp_all add: stored_bins_def)
    with run Inl show ?thesis by (simp add: commit_and_publish_batch_def)
  next
    case (Inr outs)
    with spec have sv: "served rs outs (hb_server hb) sv" by simp
    obtain batches replay where sp: "split_batch (zip rs outs) = (batches, replay)" by fastforce
    have "lag (map snd (concat (map published outs))) (hb\<lparr>hb_server := sv\<rparr>)"
      using served_bins [OF sv lag_srv_inv [OF assms(1)]] sv
      by (intro lag_commit [OF assms(1)]) (simp_all add: stored_bins_def served_def)
    moreover have "map snd (concat (map published outs)) =
        map snd (concat batches) @ (case replay of None \<Rightarrow> [] | Some (r, c) \<Rightarrow> map snd (tc_records c))"
      using split_batch_bins [OF sp _ assms(2)] served_duplicate_records sv unfolding served_def by blast
    ultimately have "lag (case replay of None \<Rightarrow> [] | Some (r, c) \<Rightarrow> map snd (tc_records c))
        (broadcast_transaction_group_views batches (hb\<lparr>hb_server := sv\<rparr>))"
      using broadcast_views_lag by metis
    with run Inr sp publish_commit_lag show ?thesis
      by (auto simp: commit_and_publish_batch_def publish_batch_def split: option.splits)
  qed
qed

section \<open>Delivery\<close>

lemma discard_lag: "lag xs hb \<Longrightarrow> lag xs (discard_receivers hs hb)"
  by (auto simp: discard_receivers_def lag_def shape_inv_def final_view_def)

lemma filter_split: "sorted_wrt (\<lambda>x y. P y \<longrightarrow> P x) xs \<Longrightarrow> filter P xs @ filter (\<lambda>x. \<not> P x) xs = xs"
proof (induction xs)
  case (Cons x xs)
  then show ?case
  proof (cases "P x")
    case False
    with Cons.prems have "filter P xs = []" "filter (\<lambda>x. \<not> P x) xs = xs"
      by (auto simp: filter_empty_conv filter_id_conv)
    with False show ?thesis by simp
  qed auto
qed simp

text \<open>A receiver that holds the records below its cursor has the whole history after its replay.\<close>

lemma replay_completes:
  assumes "log_inv j" "resync_reason inst rh j = None \<Longrightarrow> held = map snd (filter (\<lambda>p. fst p < rh_sync_from rh) (get_all_asc (jstore j)))"
  shows "view held (replay_messages inst rh j) = map snd (get_all_asc (jstore j))"
proof -
  define rows where "rows = sort_key row_seq (events (jstore j))"
  have all: "get_all_asc (jstore j) = map row_pair rows" by (simp add: get_all_asc_eq rows_def)
  have bin: "get_from_seq_bin n (Some (get_max_seq (jstore j))) (jstore j) = map row_bin (filter (\<lambda>r. n \<le> row_seq r) rows)" for n
    using get_max_seq_ge [of _ "jstore j"]
    by (auto simp: get_from_seq_bin_def rows_def filter_sort intro!: arg_cong [of _ _ "\<lambda>x. map row_bin (sort_key row_seq x)"] filter_cong)
  have "sorted (map row_seq rows)" by (simp add: rows_def)
  then have srt: "sorted_wrt (\<lambda>x y. row_seq y < n \<longrightarrow> row_seq x < n) rows" for n
    by (auto simp: sorted_wrt_map elim: sorted_wrt_mono_rel [rotated])
  show ?thesis
  proof (cases "resync_reason inst rh j")
    case None
    have "filter (\<lambda>r. row_seq r < rh_sync_from rh) rows @ filter (\<lambda>r. \<not> row_seq r < rh_sync_from rh) rows = rows"
      by (rule filter_split [OF srt])
    then have "map row_bin (filter (\<lambda>r. row_seq r < rh_sync_from rh) rows) @ map row_bin (filter (\<lambda>r. \<not> row_seq r < rh_sync_from rh) rows)
        = map row_bin rows" by (metis map_append)
    with None assms(2) show ?thesis
      by (simp add: replay_messages_def Let_def view_append all bin filter_map row_pair_def o_def not_less)
  next
    case (Some reason)
    have "\<forall>r \<in> set rows. 1 \<le> row_seq r" using assms(1) by (auto simp: log_inv_def rows_def)
    then have "filter (\<lambda>r. 1 \<le> row_seq r) rows = rows" by (simp add: filter_id_conv)
    with Some show ?thesis
      by (simp add: replay_messages_def Let_def view_append all bin row_pair_def o_def)
  qed
qed

lemma join_lag:
  assumes "lag [] hb" "resync_reason inst rh (srv_journal (hb_server hb)) = None \<Longrightarrow>
      held = map snd (filter (\<lambda>p. fst p < rh_sync_from rh) (get_all_asc (jstore (srv_journal (hb_server hb)))))"
  shows "lag [] (receiver_replay_window inst rh held hb)"
proof -
  define hb' where "hb' = receiver_replay_window inst rh held hb"
  define n where "n = hb_next hb"
  have sh: "shape_inv hb" using assms(1) by (simp add: lag_def)
  have fresh: "n \<notin> set (hb_receivers hb)" "hb_sent hb n = []"
    using sh by (auto simp: shape_inv_def n_def)
  have "\<forall>item \<in> set (hb_queue hb). n \<notin> set (fst (snd item))"
    using sh by (fastforce simp: shape_inv_def n_def)
  then have q: "queued_for n hb = []" by (fastforce simp: queued_for_def)
  have li: "log_inv (srv_journal (hb_server hb))" using sh by (simp add: shape_inv_def srv_inv_def)
  have same: "stored_bins hb' = stored_bins hb" "queued_for h hb' = queued_for h hb" for h
    by (simp_all add: hb'_def receiver_replay_window_def stored_bins_def queued_for_def Let_def)
  have new: "hb_base hb' n = held" "hb_sent hb' n = []" "unsent_replay n hb' = replay_messages inst rh (srv_journal (hb_server hb))"
    using fresh(2) by (simp_all add: hb'_def receiver_replay_window_def Let_def unsent_replay_def n_def)
  have "final_view hb' n = stored_bins hb"
    using replay_completes [where inst = inst, OF li assms(2)] by (simp add: final_view_def same new q stored_bins_def)
  moreover have "final_view hb' h = final_view hb h" if "h \<noteq> n" for h
    using that by (simp add: final_view_def same) (simp add: hb'_def receiver_replay_window_def Let_def unsent_replay_def n_def)
  moreover have "shape_inv hb'" using sh fresh
    by (auto simp: shape_inv_def hb'_def receiver_replay_window_def Let_def n_def less_Suc_eq)
  moreover have "set (hb_receivers hb') = insert n (set (hb_receivers hb))" "hb_failed hb' = hb_failed hb"
    by (simp_all add: hb'_def receiver_replay_window_def Let_def n_def)
  ultimately have "\<forall>h \<in> set (hb_receivers hb') - set (hb_failed hb'). final_view hb' h = stored_bins hb'"
    using assms(1) unfolding lag_def same by (metis Diff_iff append_Nil2 insertE)
  with \<open>shape_inv hb'\<close> show ?thesis by (simp add: lag_def hb'_def)
qed

lemma deliver_lag:
  assumes "lag [] hb"
  shows "lag [] (deliver_replay sent h hb)"
proof (cases "hb_replay hb h")
  case (Some messages)
  show ?thesis
  proof (cases sent)
    case True
    have "final_view (deliver_replay sent h hb) g = final_view hb g" for g
      using Some True by (simp add: deliver_replay_def final_view_def unsent_replay_def queued_for_def)
    moreover have "shape_inv (deliver_replay sent h hb)"
      using assms Some True by (auto simp: deliver_replay_def lag_def shape_inv_def)
    ultimately show ?thesis using assms Some True by (simp add: lag_def deliver_replay_def)
  next
    case False
    have "lag [] (hb\<lparr>hb_replay := (hb_replay hb)(h := None), hb_failed := h # hb_failed hb\<rparr>)"
      using assms by (auto simp: lag_def shape_inv_def final_view_def unsent_replay_def queued_for_def stored_bins_def)
    with Some False show ?thesis by (simp add: deliver_replay_def discard_lag)
  qed
qed (simp add: deliver_replay_def assms)

lemma send_next_lag:
  assumes "lag [] hb"
  shows "lag [] (send_next sent hb)"
proof (cases "\<exists>payload h targets dead rest. hb_queue hb = (payload, h # targets, dead) # rest \<and> hb_replay hb h = None")
  case True
  then obtain payload h targets dead rest where q: "hb_queue hb = (payload, h # targets, dead) # rest" "hb_replay hb h = None" by blast
  have sh: "shape_inv hb" using assms by (simp add: lag_def)
  then have h: "h \<notin> set targets" "h < hb_next hb" using q(1) by (auto simp: shape_inv_def)
  show ?thesis
  proof (cases sent)
    case True
    have "final_view (send_next sent hb) g = final_view hb g" for g
      using q True h by (simp add: send_next_def final_view_def unsent_replay_def queued_for_def)
    moreover have "shape_inv (send_next sent hb)" using sh q True h
      by (auto simp: send_next_def shape_inv_def)
    ultimately show ?thesis using assms q True by (simp add: lag_def send_next_def)
  next
    case False
    have "final_view (send_next sent hb) g = final_view hb g" if "g \<noteq> h" for g
      using q False that by (simp add: send_next_def final_view_def unsent_replay_def queued_for_def)
    moreover have "shape_inv (send_next sent hb)" using sh q False h
      by (auto simp: send_next_def shape_inv_def)
    ultimately show ?thesis using assms q False by (auto simp: lag_def send_next_def stored_bins_def)
  qed
next
  case False
  then have "send_next sent hb = hb" by (auto simp: send_next_def split: list.splits)
  with assms show ?thesis by simp
qed

lemma finish_item_lag:
  assumes "lag [] hb"
  shows "lag [] (finish_item released hb)"
proof (cases "\<exists>payload dead rest. hb_queue hb = (payload, [], dead) # rest")
  case True
  then obtain payload dead rest where q: "hb_queue hb = (payload, [], dead) # rest" by blast
  have "lag [] (hb\<lparr>hb_queue := rest\<rparr>)"
    using assms q by (auto simp: lag_def shape_inv_def final_view_def queued_for_def)
  with q show ?thesis by (simp add: finish_item_def Let_def discard_lag broadcast_message_lag)
next
  case False
  then have "finish_item released hb = hb" by (auto simp: finish_item_def split: list.splits)
  with assms show ?thesis by simp
qed

lemma send_ping_lag: "lag [] hb \<Longrightarrow> lag [] (send_ping hb)"
  by (auto simp: send_ping_def lag_def shape_inv_def final_view_def queued_for_def view_append)

section \<open>History replacement\<close>

lemma number_rows_seq: "map row_seq (number_rows rows) = [1..int (length rows)]"
  "map row_bin (number_rows rows) = map row_bin rows" "length (number_rows rows) = length rows"
proof -
  have "map row_seq (map2 (\<lambda>i r. r\<lparr>row_seq := i\<rparr>) ns rows) = ns \<and> map row_bin (map2 (\<lambda>i r. r\<lparr>row_seq := i\<rparr>) ns rows) = map row_bin rows"
    if "length ns = length rows" for ns :: "int list"
    using that by (induction ns rows rule: list_induct2) auto
  from this [of "[1..int (length rows)]"] show "map row_seq (number_rows rows) = [1..int (length rows)]"
    "map row_bin (number_rows rows) = map row_bin rows" "length (number_rows rows) = length rows"
    by (simp_all add: number_rows_def)
qed

lemma replace_history_spec:
  assumes inv: "srv_inv (hb_server hb)" "jqueue (srv_journal (hb_server hb)) = []" and run: "replace_history env rows hb = (done1, hb')"
  shows "hb' = hb\<lparr>hb_server := hb_server hb'\<rparr>" "srv_inv (hb_server hb')" "\<not> done1 \<Longrightarrow> stored_bins hb' = stored_bins hb"
    "done1 \<Longrightarrow> events (jstore (srv_journal (hb_server hb'))) = number_rows rows \<and>
       next_seq (srv_journal (hb_server hb')) = int (length rows) + 1"
proof -
  define j where "j = srv_journal (hb_server hb)"
  obtain r j' where rw: "rewrite_history (env_db env (srv_writes (hb_server hb))) (number_rows rows) j = (r, j')" by fastforce
  have hb': "hb' = hb\<lparr>hb_server := (hb_server hb)\<lparr>srv_journal := j', srv_writes := srv_writes (hb_server hb) + 1\<rparr>\<rparr>" "done1 = (\<not> isl r)"
    using run rw by (auto simp: replace_history_def Let_def j_def)
  then show "hb' = hb\<lparr>hb_server := hb_server hb'\<rparr>" by simp
  have seqs: "map row_seq (number_rows rows) = [1..int (length (number_rows rows))]" by (simp add: number_rows_seq)
  have "log_inv j' \<and> cache_ok j'"
    using rewrite_history_inv [OF _ _ _ seqs rw] inv by (simp add: srv_inv_def j_def)
  moreover have "stored_marks (jstore j') = stored_marks (jstore j)"
    using rw by (cases rule: rewrite_history_cases)
      (auto simp: stored_marks_def reset_history_def get_producer_progress_def fun_eq_iff)
  ultimately show "srv_inv (hb_server hb')" using inv by (simp add: hb' srv_inv_def j_def)
  show "stored_bins hb' = stored_bins hb" if "\<not> done1"
    using rw that hb'(2) by (cases rule: rewrite_history_cases) (auto simp: hb'(1) stored_bins_def j_def)
  show "events (jstore (srv_journal (hb_server hb'))) = number_rows rows \<and>
      next_seq (srv_journal (hb_server hb')) = int (length rows) + 1" if "done1"
    using rw that hb'(2) by (cases rule: rewrite_history_cases) (auto simp: hb'(1) reset_history_def number_rows_seq)
qed

lemma numbered_bins:
  assumes "events st = number_rows rows"
  shows "map snd (get_all_asc st) = map row_bin rows"
    "get_from_seq_bin 1 (Some (int (length rows))) st = map row_bin rows"
proof -
  have seqs: "map row_seq (number_rows rows) = [1..int (length rows)]" by (rule number_rows_seq)
  then have sk: "sort_key row_seq (number_rows rows) = number_rows rows"
    by (intro sort_key_id_if_sorted) simp
  then show "map snd (get_all_asc st) = map row_bin rows"
    by (simp add: get_all_asc_eq assms row_pair_def o_def number_rows_seq)
  have "1 \<le> row_seq r \<and> row_seq r \<le> int (length rows)" if "r \<in> set (number_rows rows)" for r
  proof -
    have "row_seq r \<in> set (map row_seq (number_rows rows))" using that by simp
    then show ?thesis unfolding seqs by simp
  qed
  then have "filter (\<lambda>r. 1 \<le> row_seq r \<and> row_seq r \<le> int (length rows)) (number_rows rows) = number_rows rows"
    by (simp add: filter_id_conv)
  with sk show "get_from_seq_bin 1 (Some (int (length rows))) st = map row_bin rows"
    by (simp add: get_from_seq_bin_def assms number_rows_seq)
qed

lemma resync_each_spec:
  assumes "distinct hs" "hb_queue hb = []" "resync_each sent hs hb = (disconnected, hb')"
  shows "hb_receivers hb' = hb_receivers hb \<and> hb_server hb' = hb_server hb \<and> hb_next hb' = hb_next hb \<and> hb_queue hb' = [] \<and>
    hb_layered hb' = hb_layered hb \<and> hb_base hb' = hb_base hb \<and>
    set disconnected = {h \<in> set hs. \<not> sent h} \<and> set (hb_failed hb') = set (hb_failed hb) \<union> {h \<in> set hs. \<not> sent h} \<and>
    (\<forall>h. h \<notin> set hs \<longrightarrow> hb_sent hb' h = hb_sent hb h \<and> hb_replay hb' h = hb_replay hb h) \<and>
    (\<forall>h \<in> set hs. sent h \<longrightarrow> final_view hb' h = view (final_view hb h) (resync_messages (hb_layered hb h) (srv_journal (hb_server hb))))"
  using assms
proof (induction hs arbitrary: hb disconnected)
  case (Cons h hs)
  define hb1 where "hb1 = (if sent h then send_locked h (resync_messages (hb_layered hb h) (srv_journal (hb_server hb))) hb
    else hb\<lparr>hb_failed := h # hb_failed hb\<rparr>)"
  obtain d where rest: "resync_each sent hs hb1 = (d, hb')" "disconnected = (if sent h then d else h # d)"
    using Cons.prems(3) by (auto simp: hb1_def split: prod.splits)
  have f: "hb_receivers hb1 = hb_receivers hb" "hb_server hb1 = hb_server hb" "hb_next hb1 = hb_next hb" "hb_queue hb1 = []"
    "hb_layered hb1 = hb_layered hb" "hb_base hb1 = hb_base hb" "hb_failed hb1 = (if sent h then hb_failed hb else h # hb_failed hb)"
    "g \<noteq> h \<Longrightarrow> hb_sent hb1 g = hb_sent hb g \<and> hb_replay hb1 g = hb_replay hb g" for g
    using Cons.prems(2) by (auto simp: hb1_def send_locked_def split: option.splits)
  have other: "final_view hb1 g = final_view hb g" if "g \<noteq> h" for g
    using f(4,6) f(8) [OF that] Cons.prems(2) by (simp add: final_view_def unsent_replay_def queued_for_def)
  have this_h: "final_view hb1 h = view (final_view hb h) (resync_messages (hb_layered hb h) (srv_journal (hb_server hb)))" if "sent h"
    using that Cons.prems(2)
    by (auto simp: hb1_def send_locked_def final_view_def unsent_replay_def queued_for_def view_append split: option.splits)
  have hd: "distinct hs" "h \<notin> set hs" using Cons.prems(1) by simp_all
  note IH = Cons.IH [OF hd(1) f(4) rest(1)]
  have "final_view hb' h = final_view hb1 h"
    using IH hd(2) f(4) by (simp add: final_view_def unsent_replay_def queued_for_def)
  with this_h have "sent h \<Longrightarrow> final_view hb' h = view (final_view hb h) (resync_messages (hb_layered hb h) (srv_journal (hb_server hb)))"
    by simp
  moreover have "\<forall>g \<in> set hs. sent g \<longrightarrow>
      final_view hb' g = view (final_view hb g) (resync_messages (hb_layered hb g) (srv_journal (hb_server hb)))"
    using IH other f(2,5) hd(2) by metis
  moreover have "\<forall>g. g \<notin> set (h # hs) \<longrightarrow> hb_sent hb' g = hb_sent hb g \<and> hb_replay hb' g = hb_replay hb g"
    using IH f(8) by (metis list.set_intros(1) set_subset_Cons subsetD)
  ultimately show ?case using IH f(1-7) rest(2) by (auto split: if_splits)
qed (simp add: final_view_def)

lemma resync_view:
  assumes "events (jstore j) = number_rows rows" "next_seq j = int (length rows) + 1"
  shows "view bs (resync_messages layered j) = map row_bin rows"
  using numbered_bins [OF assms(1)] assms(2)
  by (auto simp: resync_messages_def replay_token_def view_append)

lemma compact_lag:
  assumes "lag [] hb" "hb_queue hb = []" "jqueue (srv_journal (hb_server hb)) = []"
  shows "lag [] (compact_log env rows sent hb)"
proof -
  obtain d hb1 where run: "replace_history env rows hb = (d, hb1)" by fastforce
  have sh: "shape_inv hb" using assms(1) by (simp add: lag_def)
  note spec = replace_history_spec [OF lag_srv_inv [OF assms(1)] assms(3) run]
  show ?thesis
  proof (cases d)
    case False
    have "lag [] (hb\<lparr>hb_server := hb_server hb1\<rparr>)"
      using lag_commit [OF assms(1) spec(2)] spec(3) [OF False] by (simp add: stored_bins_def)
    with False run show ?thesis unfolding spec(1) [symmetric] by (simp add: compact_log_def)
  next
    case True
    obtain sv1 where hb1: "hb1 = hb\<lparr>hb_server := sv1\<rparr>" using spec(1) by blast
    obtain dis hb2 where rs: "resync_each sent (hb_receivers hb1) hb1 = (dis, hb2)" by fastforce
    have same: "hb_receivers hb1 = hb_receivers hb" "hb_queue hb1 = []" "hb_next hb1 = hb_next hb"
      "hb_sent hb1 = hb_sent hb" "hb_replay hb1 = hb_replay hb"
      using assms(2) by (simp_all add: hb1)
    have dist: "distinct (hb_receivers hb1)" using sh same(1) by (simp add: shape_inv_def)
    note each = resync_each_spec [OF dist same(2) rs]
    define bins where "bins = map row_bin rows"
    have "final_view hb2 h = bins" if "h \<in> set (hb_receivers hb1)" "sent h" for h
      using each that resync_view spec(4) [OF True] unfolding bins_def by metis
    moreover have "stored_bins hb2 = bins"
      using each spec(4) [OF True] numbered_bins by (simp add: stored_bins_def bins_def)
    moreover have "shape_inv hb2"
    proof -
      have "h \<notin> set (hb_receivers hb)" if "hb_next hb \<le> h" for h using sh that by (auto simp: shape_inv_def)
      with each same sh spec(2) show ?thesis by (simp add: shape_inv_def)
    qed
    ultimately have "lag [] hb2" using each by (auto simp: lag_def)
    with discard_lag run rs True show ?thesis by (simp add: compact_log_def resync_receivers_def)
  qed
qed

lemma snapshot_lag:
  assumes "lag [] hb" "hb_queue hb = []" "jqueue (srv_journal (hb_server hb)) = []"
  shows "lag [] (replace_from_snapshot env rows hb)"
proof -
  obtain d hb1 where run: "replace_history env rows hb = (d, hb1)" by fastforce
  have sh: "shape_inv hb" using assms(1) by (simp add: lag_def)
  note spec = replace_history_spec [OF lag_srv_inv [OF assms(1)] assms(3) run]
  obtain sv1 where "hb1 = hb\<lparr>hb_server := sv1\<rparr>" using spec(1) by blast
  then have sh1: "shape_inv hb1" using sh spec(2) by (simp add: shape_inv_def)
  show ?thesis
  proof (cases d)
    case False
    have "lag [] (hb\<lparr>hb_server := hb_server hb1\<rparr>)"
      using lag_commit [OF assms(1) spec(2)] spec(3) [OF False] by (simp add: stored_bins_def)
    with False run show ?thesis unfolding spec(1) [symmetric] by (simp add: replace_from_snapshot_def)
  next
    case True
    have "stored_bins hb1 = map row_bin rows" using spec(4) [OF True] numbered_bins by (simp add: stored_bins_def)
    with sh1 have "lag [] (publish_snapshot (map row_bin rows) hb1)"
      by (auto simp: publish_snapshot_def lag_def enqueue_shape enqueue_view view_append split: prod.splits)
    with run True show ?thesis by (simp add: replace_from_snapshot_def)
  qed
qed

lemma hub_step_lag: "hub_step env children inst hb hb' \<Longrightarrow> lag [] hb \<Longrightarrow> lag [] hb'"
  by (induction rule: hub_step.induct)
    (auto intro: commit_and_publish_lag commit_and_publish_batch_lag broadcast_message_lag join_lag deliver_lag discard_lag
      send_next_lag finish_item_lag send_ping_lag compact_lag snapshot_lag)

interpretation hs: invariant_system "hub_step env children inst" "lag []"
  for env :: "'spec env" and children inst
  by unfold_locales (rule hub_step_lag)

lemma new_hub_lag: "srv_inv sv \<Longrightarrow> lag [] (new_hub sv)"
  by (simp add: new_hub_def lag_def shape_inv_def)

section \<open>Properties\<close>

text \<open>C4. Receivers converge on the server's history. Whatever the interleaving of commits and group
  commits, payload replays, admissions, partial deliveries, failed sends, disconnections,
  control messages, compactions and snapshot replacements, a receiver whose sends have not failed
  gets every stored record exactly once and in order: what it was sent, what its replay still has
  to send and what is queued for it add up to the stored history, on top of the records it held
  when it was admitted; so once nothing is pending for it, it has the history.\<close>

theorem receivers_converge:
  assumes "srv_inv sv" "(hub_step env children server_instance)\<^sup>*\<^sup>* (new_hub sv) hb"
    and "h \<in> set (hb_receivers hb)" "h \<notin> set (hb_failed hb)"
  shows "view (hb_base hb h) (hb_sent hb h @ unsent_replay h hb @ queued_for h hb) = stored_bins hb \<and>
    (hb_replay hb h = None \<longrightarrow> hb_queue hb = [] \<longrightarrow> view (hb_base hb h) (hb_sent hb h) = stored_bins hb)"
proof -
  have "lag [] hb" by (rule hs.reach_invar [OF assms(2) new_hub_lag [OF assms(1)]])
  with assms(3,4) have "final_view hb h = stored_bins hb" by (simp add: lag_def)
  then show ?thesis by (auto simp: final_view_def unsent_replay_def queued_for_def)
qed

text \<open>A receiver joins an empty server, gets its replay, then a commit reaches it.\<close>

definition demo_hello :: receiver_hello where
  "demo_hello = \<lparr>rh_sync_from = 1, rh_server_instance = None, rh_epoch = None, rh_layered = False, rh_origin = []\<rparr>"

definition demo_hub :: "unit hub" where
  "demo_hub = send_next True (snd (commit_and_publish (plain_env (\<lambda>_. True)) (\<lambda>_ _. []) (plain_request 1)
     (deliver_replay True 0 (receiver_replay_window ''srv'' demo_hello [] (new_hub plain_server)))))"

theorem receivers_converge_witness:
  "view (hb_base demo_hub 0) (hb_sent demo_hub 0 @ unsent_replay 0 demo_hub @ queued_for 0 demo_hub) = stored_bins demo_hub \<and>
   length (stored_bins demo_hub) = 1 \<and> length (hb_sent demo_hub 0) = 4"
proof -
  define step where "step = hub_step (plain_env (\<lambda>_. True)) (\<lambda>_ _. []) ''srv''"
  define hb1 where "hb1 = receiver_replay_window ''srv'' demo_hello [] (new_hub plain_server)"
  define hb2 where "hb2 = deliver_replay True 0 hb1"
  define hb3 where "hb3 = snd (commit_and_publish (plain_env (\<lambda>_. True)) (\<lambda>_ _. []) (plain_request 1) hb2)"
  have "get_all_asc (jstore (srv_journal plain_server)) = []"
    by (simp add: plain_server_def journal_init_def empty_store_def get_all_asc_def)
  then have "step (new_hub plain_server) hb1" unfolding step_def hb1_def
    by (intro hub_step.join) (simp add: new_hub_def)
  moreover have "step hb1 hb2" unfolding step_def hb2_def by (rule hub_step.deliver)
  moreover have "step hb2 hb3" unfolding step_def hb3_def by (rule hub_step.commit)
  moreover have "step hb3 demo_hub"
    unfolding step_def demo_hub_def hb3_def hb2_def hb1_def by (rule hub_step.send)
  ultimately have run: "step\<^sup>*\<^sup>* (new_hub plain_server) demo_hub"
    by (meson converse_rtranclp_into_rtranclp rtranclp.rtrancl_refl)
  have "0 \<in> set (hb_receivers demo_hub)" "0 \<notin> set (hb_failed demo_hub)" by code_simp+
  from receivers_converge [OF plain_server_inv run [unfolded step_def] this]
  have "view (hb_base demo_hub 0) (hb_sent demo_hub 0 @ unsent_replay 0 demo_hub @ queued_for 0 demo_hub) = stored_bins demo_hub" by blast
  moreover have "length (stored_bins demo_hub) = 1" "length (hb_sent demo_hub 0) = 4" by code_simp+
  ultimately show ?thesis by blast
qed

end
