(* ===== verification/Coalescing.thy ===== *)
theory Coalescing
  imports Protocol "HOL-Library.AList"
begin

text \<open>
  Client-side coalescing of transform events (\<open>openusdconnect/coalescing.py\<close>) and the applier of
  such an event (\<open>_apply_set_xform_trs\<close> of \<open>openusdconnect/event_apply.py\<close>), which says what a
  merged batch has to preserve.

  \<open>merge_latest_transform_events\<close> updates dictionaries that the pending list holds; a candidate is
  the index of its event in that list. The fields of a transform are read with \<open>event["t"]\<close> and
  so on, which raises \<open>KeyError\<close> when it is missing.
\<close>

section \<open>Merging\<close>

text \<open>Python's equality of numbers as dictionary keys: \<open>1\<close>, \<open>1.0\<close> and \<open>True\<close> are one key.\<close>

definition num_key :: "pyval \<Rightarrow> pyval" where
  "num_key v = (case v of PInt n \<Rightarrow> PReal (of_int n) | PBool b \<Rightarrow> PReal (of_bool b) | v \<Rightarrow> v)"

type_synonym trs_key = "string \<times> pyval"

definition trs_key :: "event \<Rightarrow> trs_key" where
  "trs_key ev = (ev_prim ev, num_key (ev_time ev))"

fun copy_fields :: "string list \<Rightarrow> event \<Rightarrow> event \<Rightarrow> event res" where
  "copy_fields [] ev prev = Inr prev"
| "copy_fields (f # fs) ev prev =
     (case map_of ev f of None \<Rightarrow> Inl (KeyError f) | Some v \<Rightarrow> copy_fields fs ev (AList.update f v prev))"

definition merge_transform :: "event \<Rightarrow> event \<Rightarrow> event res" where
  "merge_transform prev ev =
     (let previous_fields = ev_strings ''fields'' prev;
          incoming_fields = ev_strings ''fields'' ev;
          merged = filter (\<lambda>f. f \<in> set previous_fields \<or> f \<in> set incoming_fields) TRS_FIELDS
      in copy_fields (remdups incoming_fields) ev (AList.update ''fields'' (PList (map PStr merged)) prev))"

definition is_xform :: "event \<Rightarrow> bool" where
  "is_xform ev \<longleftrightarrow> map_of ev ''k'' = Some (PStr K_SET_XFORM_TRS)"

fun scan_pending :: "nat \<Rightarrow> event list \<Rightarrow> (trs_key \<rightharpoonup> nat) \<Rightarrow> (trs_key \<rightharpoonup> nat)" where
  "scan_pending i [] candidates = candidates"
| "scan_pending i (ev # evs) candidates =
     scan_pending (i + 1) evs (if is_xform ev then candidates(trs_key ev \<mapsto> i) else Map.empty)"

fun merge_incoming :: "event list \<Rightarrow> event list \<Rightarrow> (trs_key \<rightharpoonup> nat) \<Rightarrow> event list res" where
  "merge_incoming [] pending candidates = Inr pending"
| "merge_incoming (ev # incoming) pending candidates =
     (if \<not> is_xform ev then merge_incoming incoming (pending @ [ev]) Map.empty
      else case candidates (trs_key ev) of
        None \<Rightarrow> merge_incoming incoming (pending @ [ev]) (candidates(trs_key ev \<mapsto> length pending))
      | Some i \<Rightarrow>
          (case merge_transform (pending ! i) ev of
             Inl e \<Rightarrow> Inl e
           | Inr merged \<Rightarrow> merge_incoming incoming (pending[i := merged]) candidates))"

definition merge_latest_transform_events :: "event list \<Rightarrow> event list \<Rightarrow> event list res" where
  "merge_latest_transform_events pending incoming =
     merge_incoming incoming pending (scan_pending 0 pending Map.empty)"

definition is_transform_only :: "event list \<Rightarrow> bool" where
  "is_transform_only evs \<longleftrightarrow> evs \<noteq> [] \<and> list_all is_xform evs"

section \<open>The coalescing window\<close>

record coalescing_window =
  cw_seconds :: real
  cw_deadline :: "real option"

definition new_window :: "real option \<Rightarrow> coalescing_window res" where
  "new_window seconds =
     (case seconds of
        None \<Rightarrow> Inl (ValueError ''transform_coalesce_seconds must be finite and non-negative'')
      | Some s \<Rightarrow> if s < 0 then Inl (ValueError ''transform_coalesce_seconds must be finite and non-negative'')
                  else Inr \<lparr>cw_seconds = s, cw_deadline = None\<rparr>)"

definition buffering :: "coalescing_window \<Rightarrow> bool" where
  "buffering w \<longleftrightarrow> cw_deadline w \<noteq> None"

text \<open>\<open>evs\<close> is what the emitter prepares; the clock is read only for a transform-only batch.\<close>

definition window_prepare :: "event list \<Rightarrow> real \<Rightarrow> coalescing_window \<Rightarrow> event list \<times> coalescing_window" where
  "window_prepare evs now w =
     (if cw_seconds w = 0 then (evs, w)
      else if evs = [] \<or> \<not> is_transform_only evs then (evs, w\<lparr>cw_deadline := None\<rparr>)
      else case cw_deadline w of
        None \<Rightarrow> ([], w\<lparr>cw_deadline := Some (now + cw_seconds w)\<rparr>)
      | Some d \<Rightarrow> (if now \<ge> d then evs else [], w))"

definition mark_submitted :: "coalescing_window \<Rightarrow> coalescing_window" where
  "mark_submitted w = w\<lparr>cw_deadline := None\<rparr>"

section \<open>Applying a transform\<close>

text \<open>
  The parts of a stage a transform event reads and writes: which prims exist, which lie beneath
  an instance, which canonical ops a prim has, and the authored values by prim, op and time code
  (\<open>None\<close> is the default time). The op handle cache returns the handles the lookup would.
\<close>

record xform_stage =
  xs_prim :: "string \<Rightarrow> bool"
  xs_proxy :: "string \<Rightarrow> bool"
  xs_op :: "string \<Rightarrow> string \<Rightarrow> bool"
  xs_value :: "string \<times> string \<times> pyval \<rightharpoonup> pyval"

definition set_op :: "event \<Rightarrow> string \<Rightarrow> xform_stage \<Rightarrow> xform_stage" where
  "set_op ev f st =
     (if f \<in> set (ev_strings ''fields'' ev) \<and> xs_op st (ev_prim ev) f
      then st\<lparr>xs_value := (xs_value st)((ev_prim ev, f, num_key (ev_time ev)) := map_of ev f)\<rparr> else st)"

definition apply_set_xform_trs :: "event \<Rightarrow> xform_stage \<Rightarrow> xform_stage" where
  "apply_set_xform_trs ev st =
     (if \<not> xs_prim st (ev_prim ev) then st
      else set_op ev ''s'' (set_op ev ''r'' (set_op ev ''t'' st)))"

text \<open>One event of a batch: what other events do is the argument \<open>other\<close>.\<close>

definition apply_value_event :: "(event \<Rightarrow> xform_stage \<Rightarrow> xform_stage) \<Rightarrow> event \<Rightarrow> xform_stage \<Rightarrow> xform_stage" where
  "apply_value_event other ev st =
     (if \<not> is_xform ev then other ev st
      else if xs_proxy st (ev_prim ev) then st else apply_set_xform_trs ev st)"

section \<open>Writes that absorb each other\<close>

text \<open>
  Events of one key are absorbed by a merge; events of different keys commute. Then merging an
  event into an earlier one of its key past events of other keys changes nothing.
\<close>

locale keyed_writes =
  fixes key :: "'e \<Rightarrow> 'k" and is_write :: "'e \<Rightarrow> bool" and combine :: "'e \<Rightarrow> 'e \<Rightarrow> 'e"
    and run :: "'e \<Rightarrow> 's \<Rightarrow> 's"
  assumes combine_write: "is_write x \<Longrightarrow> is_write y \<Longrightarrow> key x = key y \<Longrightarrow>
      is_write (combine x y) \<and> key (combine x y) = key x"
    and combine_run: "is_write x \<Longrightarrow> is_write y \<Longrightarrow> key x = key y \<Longrightarrow> run (combine x y) s = run y (run x s)"
    and writes_commute: "is_write x \<Longrightarrow> is_write y \<Longrightarrow> key x \<noteq> key y \<Longrightarrow> run x (run y s) = run y (run x s)"
begin

lemma run_past:
  "is_write e \<Longrightarrow> list_all (\<lambda>x. is_write x \<and> key x \<noteq> key e) xs \<Longrightarrow>
     fold run xs (run e s) = run e (fold run xs s)"
proof (induction xs arbitrary: s)
  case (Cons x xs)
  then have "run x (run e s) = run e (run x s)" using writes_commute by simp
  with Cons show ?case by simp
qed simp

lemma combine_into:
  assumes "is_write p" "is_write e" "key p = key e" "list_all (\<lambda>x. is_write x \<and> key x \<noteq> key e) after"
  shows "fold run (before @ combine p e # after) s = fold run (before @ p # after @ [e]) s"
  using assms combine_run run_past by simp

end

section \<open>Transforms are keyed writes\<close>

text \<open>A transform that validation accepts: its fields are transform fields it carries.\<close>

definition wf_xform :: "event \<Rightarrow> bool" where
  "wf_xform ev \<longleftrightarrow> is_xform ev \<and>
     list_all (\<lambda>f. f \<in> set TRS_FIELDS \<and> map_of ev f \<noteq> None) (ev_strings ''fields'' ev)"

definition combine_transform :: "event \<Rightarrow> event \<Rightarrow> event" where
  "combine_transform x y = (case merge_transform x y of Inr m \<Rightarrow> m | Inl e \<Rightarrow> x)"

definition xform_writes :: "event \<Rightarrow> xform_stage \<Rightarrow> string \<times> string \<times> pyval \<Rightarrow> bool" where
  "xform_writes ev st = (\<lambda>(p, f, t). p = ev_prim ev \<and> t = num_key (ev_time ev) \<and> f \<in> set TRS_FIELDS \<and>
     f \<in> set (ev_strings ''fields'' ev) \<and> xs_op st p f \<and> xs_prim st p \<and> \<not> xs_proxy st p)"

lemma xform_writes_value [simp]: "xform_writes ev (st\<lparr>xs_value := v\<rparr>) = xform_writes ev st"
  by (simp add: xform_writes_def)

lemma apply_xform_spec:
  assumes "is_xform ev"
  shows "apply_value_event other ev st =
    st\<lparr>xs_value := (\<lambda>c. if xform_writes ev st c then map_of ev (fst (snd c)) else xs_value st c)\<rparr>"
proof -
  have val: "xs_value (apply_value_event other ev st) c =
      (if xform_writes ev st c then map_of ev (fst (snd c)) else xs_value st c)" for c
    using assms by (cases c)
      (auto simp: apply_value_event_def apply_set_xform_trs_def set_op_def xform_writes_def TRS_FIELDS_def)
  have "\<exists>v. apply_value_event other ev st = st\<lparr>xs_value := v\<rparr>"
    using assms by (auto simp: apply_value_event_def apply_set_xform_trs_def set_op_def intro: exI [of _ "xs_value st"])
  then obtain v where v: "apply_value_event other ev st = st\<lparr>xs_value := v\<rparr>" by blast
  have "v = (\<lambda>c. if xform_writes ev st c then map_of ev (fst (snd c)) else xs_value st c)"
    using val by (simp add: v fun_eq_iff)
  with v show ?thesis by simp
qed

lemma copy_fields_ok:
  "list_all (\<lambda>f. map_of ev f \<noteq> None) fs \<Longrightarrow>
     \<exists>m. copy_fields fs ev prev = Inr m \<and> map_of m = (\<lambda>k. if k \<in> set fs then map_of ev k else map_of prev k)"
proof (induction fs arbitrary: prev)
  case (Cons f fs)
  then obtain v where v: "map_of ev f = Some v" by auto
  from Cons obtain m where m: "copy_fields fs ev (AList.update f v prev) = Inr m"
    "map_of m = (\<lambda>k. if k \<in> set fs then map_of ev k else map_of (AList.update f v prev) k)" by auto
  moreover have "map_of m = (\<lambda>k. if k \<in> set (f # fs) then map_of ev k else map_of prev k)"
    unfolding m(2) using v by (auto simp: update_conv')
  ultimately show ?case using v by simp
qed simp

lemma merge_transform_ok:
  assumes "wf_xform x" "wf_xform y"
  shows "merge_transform x y = Inr (combine_transform x y)"
    "map_of (combine_transform x y) = (\<lambda>k. if k \<in> set (ev_strings ''fields'' y) then map_of y k
       else if k = ''fields'' then Some (PList (map PStr (filter (\<lambda>f. f \<in> set (ev_strings ''fields'' x) \<or> f \<in> set (ev_strings ''fields'' y)) TRS_FIELDS)))
       else map_of x k)"
proof -
  define prev where "prev = AList.update ''fields'' (PList (map PStr (filter (\<lambda>f. f \<in> set (ev_strings ''fields'' x) \<or> f \<in> set (ev_strings ''fields'' y)) TRS_FIELDS))) x"
  have "list_all (\<lambda>f. map_of y f \<noteq> None) (remdups (ev_strings ''fields'' y))"
    using assms(2) by (auto simp: wf_xform_def list_all_iff)
  from copy_fields_ok [OF this, of prev] obtain m where m: "merge_transform x y = Inr m"
    "map_of m = (\<lambda>k. if k \<in> set (ev_strings ''fields'' y) then map_of y k else map_of prev k)"
    by (auto simp: merge_transform_def prev_def Let_def)
  then show "merge_transform x y = Inr (combine_transform x y)" by (simp add: combine_transform_def)
  show "map_of (combine_transform x y) = (\<lambda>k. if k \<in> set (ev_strings ''fields'' y) then map_of y k
       else if k = ''fields'' then Some (PList (map PStr (filter (\<lambda>f. f \<in> set (ev_strings ''fields'' x) \<or> f \<in> set (ev_strings ''fields'' y)) TRS_FIELDS)))
       else map_of x k)"
    using m by (auto simp: combine_transform_def prev_def update_conv')
qed

lemma ev_strings_PStr: "map_of ev key = Some (PList (map PStr xs)) \<Longrightarrow> ev_strings key ev = xs"
proof -
  have "concat (map (\<lambda>v. case v of PStr s \<Rightarrow> [s] | _ \<Rightarrow> []) (map PStr xs)) = xs" by (induction xs) simp_all
  then show "map_of ev key = Some (PList (map PStr xs)) \<Longrightarrow> ev_strings key ev = xs" by (simp add: ev_strings_def)
qed

lemma combine_fields:
  assumes "wf_xform x" "wf_xform y"
  shows "set (ev_strings ''fields'' (combine_transform x y)) = set (ev_strings ''fields'' x) \<union> set (ev_strings ''fields'' y)"
    "f \<in> set (ev_strings ''fields'' y) \<Longrightarrow> map_of (combine_transform x y) f = map_of y f"
    "f \<in> set TRS_FIELDS \<Longrightarrow> f \<notin> set (ev_strings ''fields'' y) \<Longrightarrow> map_of (combine_transform x y) f = map_of x f"
    "wf_xform (combine_transform x y)" "trs_key (combine_transform x y) = trs_key x"
proof -
  have sub: "set (ev_strings ''fields'' x) \<subseteq> set TRS_FIELDS" "set (ev_strings ''fields'' y) \<subseteq> set TRS_FIELDS"
    using assms by (auto simp: wf_xform_def list_all_iff)
  have keys: "k \<notin> set TRS_FIELDS \<Longrightarrow> k \<noteq> ''fields'' \<Longrightarrow> map_of (combine_transform x y) k = map_of x k" for k
    using sub by (auto simp: merge_transform_ok(2) [OF assms])
  have fields: "''fields'' \<notin> set TRS_FIELDS" by (simp add: TRS_FIELDS_def)
  have nf: "''fields'' \<notin> set (ev_strings ''fields'' y)" using sub fields by blast
  have ev: "ev_strings ''fields'' (combine_transform x y) =
      filter (\<lambda>f. f \<in> set (ev_strings ''fields'' x) \<or> f \<in> set (ev_strings ''fields'' y)) TRS_FIELDS"
    by (rule ev_strings_PStr) (simp add: merge_transform_ok(2) [OF assms] nf)
  then show set: "set (ev_strings ''fields'' (combine_transform x y)) = set (ev_strings ''fields'' x) \<union> set (ev_strings ''fields'' y)"
    using sub by auto
  show y: "map_of (combine_transform x y) f = map_of y f" if "f \<in> set (ev_strings ''fields'' y)" for f
    using that by (simp add: merge_transform_ok(2) [OF assms])
  show x: "map_of (combine_transform x y) f = map_of x f" if "f \<in> set TRS_FIELDS" "f \<notin> set (ev_strings ''fields'' y)" for f
    using that fields by (auto simp: merge_transform_ok(2) [OF assms])
  have "map_of (combine_transform x y) f \<noteq> None \<and> f \<in> set TRS_FIELDS" if "f \<in> set (ev_strings ''fields'' (combine_transform x y))" for f
    using that assms sub x [of f] y [of f] unfolding set by (cases "f \<in> set (ev_strings ''fields'' y)") (auto simp: wf_xform_def list_all_iff)
  then show "wf_xform (combine_transform x y)"
    using keys [of "''k''"] assms by (auto simp: wf_xform_def list_all_iff is_xform_def TRS_FIELDS_def)
  show "trs_key (combine_transform x y) = trs_key x"
    using keys [of "''prim''"] keys [of "''time''"] by (simp add: trs_key_def ev_prim_def ev_str_def ev_time_def TRS_FIELDS_def)
qed

interpretation tw: keyed_writes trs_key wf_xform combine_transform "apply_value_event other"
  for other
proof
  fix x y st
  assume xy: "wf_xform x" "wf_xform y"
  show "trs_key x = trs_key y \<Longrightarrow> wf_xform (combine_transform x y) \<and> trs_key (combine_transform x y) = trs_key x"
    using combine_fields [OF xy] by simp
  have xf: "is_xform x" "is_xform y" using xy by (simp_all add: wf_xform_def)
  show "apply_value_event other (combine_transform x y) st = apply_value_event other y (apply_value_event other x st)"
    if key: "trs_key x = trs_key y"
  proof -
    have c: "is_xform (combine_transform x y)" using combine_fields(4) [OF xy] by (simp add: wf_xform_def)
    have pt: "ev_prim (combine_transform x y) = ev_prim x" "ev_prim y = ev_prim x"
      "num_key (ev_time (combine_transform x y)) = num_key (ev_time x)" "num_key (ev_time y) = num_key (ev_time x)"
      using combine_fields(5) [OF xy] key by (simp_all add: trs_key_def)
    have "(if xform_writes (combine_transform x y) st c then map_of (combine_transform x y) (fst (snd c)) else xs_value st c) =
        (if xform_writes y st c then map_of y (fst (snd c))
         else if xform_writes x st c then map_of x (fst (snd c)) else xs_value st c)" for c
      by (cases c) (auto simp: xform_writes_def pt combine_fields(1-3) [OF xy])
    then show ?thesis by (simp add: apply_xform_spec c xf cong: if_cong)
  qed
  show "apply_value_event other x (apply_value_event other y st) = apply_value_event other y (apply_value_event other x st)"
    if "trs_key x \<noteq> trs_key y"
  proof -
    have "\<not> (xform_writes x st c \<and> xform_writes y st c)" for c
      using that by (cases c) (auto simp: xform_writes_def trs_key_def)
    then have "(if xform_writes x st c then map_of x (fst (snd c)) else if xform_writes y st c then map_of y (fst (snd c)) else xs_value st c) =
        (if xform_writes y st c then map_of y (fst (snd c)) else if xform_writes x st c then map_of x (fst (snd c)) else xs_value st c)" for c
      by auto
    then show ?thesis by (simp add: apply_xform_spec xf cong: if_cong)
  qed
qed

section \<open>The merge keeps the effect of the batch\<close>

text \<open>Every candidate is the last event of its key, with only transforms after it.\<close>

definition candidates_ok :: "event list \<Rightarrow> (trs_key \<rightharpoonup> nat) \<Rightarrow> bool" where
  "candidates_ok pending candidates \<longleftrightarrow>
     (\<forall>k i. candidates k = Some i \<longrightarrow> i < length pending \<and> wf_xform (pending ! i) \<and> trs_key (pending ! i) = k \<and>
        list_all (\<lambda>x. wf_xform x \<and> trs_key x \<noteq> k) (drop (Suc i) pending))"

lemma candidates_okD:
  assumes "candidates_ok pending candidates" "candidates k = Some i"
  shows "i < length pending" "wf_xform (pending ! i)" "trs_key (pending ! i) = k"
    "list_all (\<lambda>x. wf_xform x \<and> trs_key x \<noteq> k) (drop (Suc i) pending)"
  using assms unfolding candidates_ok_def by blast+

lemma candidates_empty [simp]: "candidates_ok pending Map.empty"
  by (simp add: candidates_ok_def)

lemma candidates_append:
  assumes "candidates_ok pending candidates" "wf_xform ev"
  shows "candidates_ok (pending @ [ev]) (candidates(trs_key ev \<mapsto> length pending))"
  unfolding candidates_ok_def
proof (intro allI impI)
  fix k i
  assume ki: "(candidates(trs_key ev \<mapsto> length pending)) k = Some i"
  show "i < length (pending @ [ev]) \<and> wf_xform ((pending @ [ev]) ! i) \<and> trs_key ((pending @ [ev]) ! i) = k \<and>
      list_all (\<lambda>x. wf_xform x \<and> trs_key x \<noteq> k) (drop (Suc i) (pending @ [ev]))"
  proof (cases "k = trs_key ev")
    case False
    with ki have "candidates k = Some i" by simp
    note i = candidates_okD [OF assms(1) this]
    then have "drop (Suc i) (pending @ [ev]) = drop (Suc i) pending @ [ev]" by simp
    with i assms(2) False show ?thesis by (simp add: nth_append)
  qed (use ki assms(2) in auto)
qed

lemma scan_pending_ok:
  assumes "candidates_ok before candidates" "list_all (\<lambda>ev. is_xform ev \<longrightarrow> wf_xform ev) evs"
  shows "candidates_ok (before @ evs) (scan_pending (length before) evs candidates)"
  using assms
proof (induction evs arbitrary: before candidates)
  case (Cons ev evs)
  then have "candidates_ok (before @ [ev]) (if is_xform ev then candidates(trs_key ev \<mapsto> length before) else Map.empty)"
    using candidates_append by simp
  from Cons.IH [OF this] Cons.prems show ?case by simp
qed simp

lemma candidates_update:
  assumes ok: "candidates_ok pending candidates" and i: "candidates (trs_key ev) = Some i" and ev: "wf_xform ev"
  shows "candidates_ok (pending[i := combine_transform (pending ! i) ev]) candidates"
  unfolding candidates_ok_def
proof (intro allI impI)
  fix k j
  assume j: "candidates k = Some j"
  define pending' where "pending' = pending[i := combine_transform (pending ! i) ev]"
  note pi = candidates_okD [OF ok i] and pj = candidates_okD [OF ok j]
  note c = combine_fields(4,5) [OF pi(2) ev]
  have same: "wf_xform (pending' ! l) \<and> trs_key (pending' ! l) = trs_key (pending ! l)" if "l < length pending" "wf_xform (pending ! l)" for l
    using that c pi by (cases "l = i") (auto simp: pending'_def)
  have "wf_xform (pending' ! l) \<and> trs_key (pending' ! l) \<noteq> k" if l: "Suc j \<le> l" "l < length pending" for l
  proof -
    have "wf_xform (pending ! l) \<and> trs_key (pending ! l) \<noteq> k"
      using pj(4) l by (auto simp: list_all_length dest: spec [of _ "l - Suc j"])
    with same [of l] l show ?thesis by simp
  qed
  then have "list_all (\<lambda>x. wf_xform x \<and> trs_key x \<noteq> k) (drop (Suc j) pending')"
    by (simp add: list_all_length pending'_def)
  with same [OF pj(1,2)] pj(1,3) show "j < length pending' \<and> wf_xform (pending' ! j) \<and> trs_key (pending' ! j) = k \<and>
      list_all (\<lambda>x. wf_xform x \<and> trs_key x \<noteq> k) (drop (Suc j) pending')"
    by (simp add: pending'_def)
qed

lemma merge_step_effect:
  assumes "candidates_ok pending candidates" "candidates (trs_key ev) = Some i" "wf_xform ev"
  shows "fold (apply_value_event other) (pending[i := combine_transform (pending ! i) ev]) st =
    fold (apply_value_event other) (pending @ [ev]) st"
proof -
  note i = candidates_okD [OF assms(1,2)]
  have "pending[i := combine_transform (pending ! i) ev] = take i pending @ combine_transform (pending ! i) ev # drop (Suc i) pending"
    using i(1) by (rule upd_conv_take_nth_drop)
  moreover have "pending @ [ev] = take i pending @ pending ! i # drop (Suc i) pending @ [ev]"
    using id_take_nth_drop [OF i(1)] by simp
  ultimately show ?thesis using tw.combine_into [OF i(2) assms(3) i(3,4)] by metis
qed

lemma merge_incoming_effect:
  assumes "candidates_ok pending candidates" "list_all (\<lambda>ev. is_xform ev \<longrightarrow> wf_xform ev) incoming"
  shows "\<exists>merged. merge_incoming incoming pending candidates = Inr merged \<and>
    (\<forall>other st. fold (apply_value_event other) merged st = fold (apply_value_event other) (pending @ incoming) st) \<and>
    length merged \<le> length pending + length incoming"
  using assms
proof (induction incoming arbitrary: pending candidates)
  case (Cons ev incoming)
  have wf: "list_all (\<lambda>ev. is_xform ev \<longrightarrow> wf_xform ev) incoming" using Cons.prems(2) by simp
  consider (other) "\<not> is_xform ev" | (new) "wf_xform ev" "is_xform ev" "candidates (trs_key ev) = None"
    | (merge) i where "wf_xform ev" "is_xform ev" "candidates (trs_key ev) = Some i"
    using Cons.prems(2) by (cases "candidates (trs_key ev)") auto
  then show ?case
  proof cases
    case other
    then show ?thesis using Cons.IH [OF candidates_empty wf, of "pending @ [ev]"] by auto
  next
    case new
    then show ?thesis using Cons.IH [OF candidates_append [OF Cons.prems(1)] wf, of ev] by (auto simp del: fun_upd_apply)
  next
    case merge
    note m = merge_transform_ok(1) [OF candidates_okD(2) [OF Cons.prems(1) merge(3)] merge(1)]
    from Cons.IH [OF candidates_update [OF Cons.prems(1) merge(3,1)] wf] obtain merged where
      "merge_incoming incoming (pending[i := combine_transform (pending ! i) ev]) candidates = Inr merged"
      "\<And>other st. fold (apply_value_event other) merged st =
         fold (apply_value_event other) (pending[i := combine_transform (pending ! i) ev] @ incoming) st"
      "length merged \<le> length pending + length incoming" by auto
    with merge m merge_step_effect [OF Cons.prems(1) merge(3,1)] show ?thesis by auto
  qed
qed simp

section \<open>Properties\<close>


text \<open>Two transforms of one prim merge past another prim's; a rename in between keeps them apart.\<close>

definition demo_xform :: "string \<Rightarrow> string \<Rightarrow> int \<Rightarrow> event" where
  "demo_xform prim f x = [(''k'', PStr K_SET_XFORM_TRS), (''prim'', PStr prim), (''fields'', PList [PStr f]), (f, PInt x)]"


text \<open>
  A window holds a batch for at most its length: a transform-only batch first seen at \<open>t0\<close> is
  buffered until \<open>t0\<close> plus the window and then returned; any other batch is never held.
\<close>

lemma window_bounds_delay:
  assumes "new_window (Some seconds) = Inr w0" "0 < seconds" "is_transform_only evs"
    and "window_prepare evs t0 w0 = (out0, w1)"
  shows "out0 = []" "buffering w1" "mark_submitted w1 = w0"
    "is_transform_only evs' \<Longrightarrow> window_prepare evs' t w1 = (if t \<ge> t0 + seconds then evs' else [], w1)"
    "\<not> is_transform_only evs' \<Longrightarrow> window_prepare evs' t w1 = (evs', w0)"
  using assms by (auto simp: new_window_def window_prepare_def buffering_def mark_submitted_def is_transform_only_def
      split: if_splits)

end
