(* ===== verification/Receiver_Inbox.thy ===== *)
theory Receiver_Inbox
  imports Prelude
begin

text \<open>
  The receiver's ordered inbox, which \<open>ReceiverThread\<close> owns
  (\<open>OrderedReceiverSession\<close> in
  \<open>native/client_core/include/openusdconnect/client/receiver_session.h\<close>). Every method holds the
  session's mutex, so each is one atomic operation here. Sequence numbers are signed 32-bit and
  generations and serials unsigned 64-bit counters in the source; they are an \<open>int\<close> and naturals
  here, so histories are assumed to stay below \<open>2^31\<close> records.
\<close>

datatype message_kind = EventKind | LayerGraphKind | ResyncKind | OtherKind

datatype accept_result = AcceptedFrame | StaleConnection | QueueFull | DuplicateFrame | SequenceGap | InvalidSequence

record replay_state =
  rs_generation :: nat
  rs_head :: int
  rs_epoch :: int
  rs_serial :: nat

record 'p inbox =
  ib_frames :: "'p list"
  ib_requested :: "int option"
  ib_pending :: "replay_state option"
  ib_max :: nat
  ib_contiguous :: bool
  ib_generation :: nat
  ib_incoming :: nat
  ib_drained :: nat
  ib_received :: int
  ib_applied :: int
  ib_head :: int
  ib_epoch :: int
  ib_synchronized :: bool
  ib_overflowed :: bool

definition new_inbox :: "int \<Rightarrow> nat \<Rightarrow> bool \<Rightarrow> 'p inbox res" where
  "new_inbox initial_sync_from max_messages require_contiguous =
     (if initial_sync_from < 1 \<or> max_messages = 0
      then Inl (ValueError ''initial_sync_from must be positive and max_messages must be non-zero'')
      else Inr \<lparr>ib_frames = [], ib_requested = None, ib_pending = None, ib_max = max_messages,
        ib_contiguous = require_contiguous, ib_generation = 0, ib_incoming = 0, ib_drained = 0,
        ib_received = initial_sync_from - 1, ib_applied = initial_sync_from - 1, ib_head = 0, ib_epoch = 0,
        ib_synchronized = False, ib_overflowed = False\<rparr>)"

definition reset_synchronization :: "'p inbox \<Rightarrow> 'p inbox" where
  "reset_synchronization ib = ib\<lparr>ib_synchronized := False, ib_pending := None\<rparr>"

text \<open>The result is the new generation and the sequence to replay from.\<close>

definition ib_begin_connection :: "'p inbox \<Rightarrow> (nat \<times> int) \<times> 'p inbox" where
  "ib_begin_connection ib =
     (let ib1 = reset_synchronization (ib\<lparr>ib_generation := ib_generation ib + 1\<rparr>);
          sync_from = (case ib_requested ib1 of None \<Rightarrow> ib_received ib1 + 1 | Some s \<Rightarrow> s)
      in ((ib_generation ib1, sync_from), ib1\<lparr>ib_requested := None\<rparr>))"

definition ib_disconnect :: "nat \<Rightarrow> 'p inbox \<Rightarrow> 'p inbox" where
  "ib_disconnect generation ib = (if generation = ib_generation ib then reset_synchronization ib else ib)"

definition sequenced_kind :: "message_kind \<Rightarrow> bool" where
  "sequenced_kind kind \<longleftrightarrow> kind \<in> {EventKind, LayerGraphKind}"

definition ib_accept :: "nat \<Rightarrow> message_kind \<Rightarrow> int \<Rightarrow> 'p \<Rightarrow> 'p inbox \<Rightarrow> accept_result \<times> 'p inbox" where
  "ib_accept generation kind sequence payload ib =
     (if sequenced_kind kind \<and> sequence < 1 then (InvalidSequence, ib)
      else if generation \<noteq> ib_generation ib then (StaleConnection, ib)
      else if ib_contiguous ib \<and> sequenced_kind kind \<and> sequence \<le> ib_received ib then (DuplicateFrame, ib)
      else if ib_contiguous ib \<and> sequenced_kind kind \<and> sequence \<noteq> ib_received ib + 1 then (SequenceGap, ib)
      else if length (ib_frames ib) = ib_max ib then (QueueFull, ib\<lparr>ib_overflowed := True\<rparr>)
      else
        let ib1 = (if kind = ResyncKind then reset_synchronization (ib\<lparr>ib_received := 0\<rparr>)
                   else if sequenced_kind kind then ib\<lparr>ib_received := max (ib_received ib) sequence\<rparr>
                   else ib)
        in (AcceptedFrame, ib1\<lparr>ib_frames := ib_frames ib1 @ [payload], ib_incoming := ib_incoming ib1 + 1\<rparr>))"

definition ib_accept_replay_complete :: "nat \<Rightarrow> int \<Rightarrow> int \<Rightarrow> 'p inbox \<Rightarrow> accept_result \<times> 'p inbox" where
  "ib_accept_replay_complete generation head_seq epoch ib =
     (if head_seq < 0 then (InvalidSequence, ib)
      else if generation \<noteq> ib_generation ib then (StaleConnection, ib)
      else (AcceptedFrame, ib\<lparr>ib_pending := Some \<lparr>rs_generation = generation, rs_head = head_seq, rs_epoch = epoch,
              rs_serial = ib_incoming ib\<rparr>\<rparr>))"

text \<open>\<open>None\<close> drains everything; the bindings refuse a limit of zero.\<close>

definition ib_drain :: "nat option \<Rightarrow> 'p inbox \<Rightarrow> 'p list \<times> 'p inbox" where
  "ib_drain max_messages ib =
     (let n = min (case max_messages of None \<Rightarrow> length (ib_frames ib) | Some m \<Rightarrow> m) (length (ib_frames ib))
      in (take n (ib_frames ib), ib\<lparr>ib_frames := drop n (ib_frames ib), ib_drained := ib_drained ib + n\<rparr>))"

definition ib_try_pop :: "'p inbox \<Rightarrow> 'p option \<times> 'p inbox" where
  "ib_try_pop ib =
     (case ib_frames ib of
        [] \<Rightarrow> (None, ib)
      | payload # rest \<Rightarrow> (Some payload, ib\<lparr>ib_frames := rest, ib_drained := ib_drained ib + 1\<rparr>))"

definition ib_mark_applied_through :: "nat \<Rightarrow> int \<Rightarrow> 'p inbox \<Rightarrow> bool \<times> 'p inbox" where
  "ib_mark_applied_through generation sequence ib =
     (if generation \<noteq> ib_generation ib \<or> sequence < ib_applied ib \<or> sequence > ib_received ib then (False, ib)
      else (True, ib\<lparr>ib_applied := sequence\<rparr>))"

definition ib_mark_replay_applied :: "'p inbox \<Rightarrow> bool \<times> 'p inbox" where
  "ib_mark_replay_applied ib =
     (case ib_pending ib of
        None \<Rightarrow> (False, ib)
      | Some marker \<Rightarrow>
          if rs_generation marker \<noteq> ib_generation ib \<or> ib_drained ib < rs_serial marker then (False, ib)
          else (True, ib\<lparr>ib_applied := max (ib_applied ib) (rs_head marker), ib_head := rs_head marker,
                 ib_epoch := rs_epoch marker, ib_synchronized := True, ib_pending := None\<rparr>))"

definition ib_try_mark_replay_applied :: "'p inbox \<Rightarrow> bool \<times> 'p inbox" where
  "ib_try_mark_replay_applied ib =
     (case ib_pending ib of
        None \<Rightarrow> (False, ib)
      | Some marker \<Rightarrow>
          if rs_generation marker \<noteq> ib_generation ib \<or> ib_drained ib < rs_serial marker \<or> ib_applied ib < rs_head marker
          then (False, ib)
          else (True, ib\<lparr>ib_head := rs_head marker, ib_epoch := rs_epoch marker, ib_synchronized := True,
                 ib_pending := None\<rparr>))"

definition ib_request_replay_from :: "int \<Rightarrow> 'p inbox \<Rightarrow> bool \<times> 'p inbox" where
  "ib_request_replay_from sequence ib =
     (if sequence < 1 then (False, ib)
      else (True, reset_synchronization (ib\<lparr>ib_generation := ib_generation ib + 1, ib_requested := Some sequence,
              ib_received := sequence - 1, ib_applied := sequence - 1, ib_frames := [],
              ib_drained := ib_incoming ib, ib_overflowed := False\<rparr>)))"

definition ib_reset_applied_progress :: "'p inbox \<Rightarrow> 'p inbox" where
  "ib_reset_applied_progress ib = ib\<lparr>ib_applied := 0, ib_synchronized := False\<rparr>"

definition ib_clear_overflow :: "'p inbox \<Rightarrow> 'p inbox" where
  "ib_clear_overflow ib = ib\<lparr>ib_overflowed := False\<rparr>"

section \<open>The inbox invariant\<close>

text \<open>
  The serials count the frames in the queue, the queue is bounded, a pending completion marker
  belongs to this generation and to a frame that was received, and synchronization needs a
  connection.
\<close>

definition ib_inv :: "'p inbox \<Rightarrow> bool" where
  "ib_inv ib \<longleftrightarrow> ib_incoming ib = ib_drained ib + length (ib_frames ib) \<and> length (ib_frames ib) \<le> ib_max ib \<and>
     0 < ib_max ib \<and> 0 \<le> ib_received ib \<and> 0 \<le> ib_applied ib \<and>
     (case ib_pending ib of None \<Rightarrow> True
      | Some marker \<Rightarrow> rs_generation marker = ib_generation ib \<and> rs_serial marker \<le> ib_incoming ib \<and> 0 \<le> rs_head marker) \<and>
     (case ib_requested ib of None \<Rightarrow> True | Some s \<Rightarrow> s = ib_received ib + 1)"

lemma new_inbox_inv: "new_inbox s m c = Inr ib \<Longrightarrow> ib_inv ib"
  by (auto simp: new_inbox_def ib_inv_def split: if_splits)

lemma reset_synchronization_fields [simp]:
  "ib_frames (reset_synchronization ib) = ib_frames ib" "ib_received (reset_synchronization ib) = ib_received ib"
  "ib_generation (reset_synchronization ib) = ib_generation ib" "ib_incoming (reset_synchronization ib) = ib_incoming ib"
  "ib_drained (reset_synchronization ib) = ib_drained ib" "ib_max (reset_synchronization ib) = ib_max ib"
  "ib_contiguous (reset_synchronization ib) = ib_contiguous ib" "ib_pending (reset_synchronization ib) = None"
  "ib_requested (reset_synchronization ib) = ib_requested ib" "ib_applied (reset_synchronization ib) = ib_applied ib"
  "ib_overflowed (reset_synchronization ib) = ib_overflowed ib" "\<not> ib_synchronized (reset_synchronization ib)"
  "ib_head (reset_synchronization ib) = ib_head ib" "ib_epoch (reset_synchronization ib) = ib_epoch ib"
  by (simp_all add: reset_synchronization_def)

lemma ib_inv_operations [inv_intros]:
  assumes "ib_inv ib"
  shows "ib_inv (ib_disconnect g ib)" "ib_inv (snd (ib_begin_connection ib))"
    "ib_requested ib = None \<Longrightarrow> ib_inv (snd (ib_accept g kind s p ib))"
    "ib_inv (snd (ib_accept_replay_complete g head epoch ib))"
    "ib_inv (snd (ib_drain m ib))" "ib_inv (snd (ib_mark_replay_applied ib))"
    "ib_inv (snd (ib_request_replay_from s ib))" "ib_inv (ib_clear_overflow ib)"
    "ib_inv (snd (ib_try_pop ib))" "ib_inv (snd (ib_mark_applied_through g s ib))"
    "ib_inv (snd (ib_try_mark_replay_applied ib))" "ib_inv (ib_reset_applied_progress ib)"
  using assms
  by (auto simp: ib_inv_def ib_disconnect_def ib_begin_connection_def ib_accept_def ib_accept_replay_complete_def
      ib_drain_def ib_mark_replay_applied_def ib_request_replay_from_def ib_clear_overflow_def
      ib_try_pop_def ib_mark_applied_through_def ib_try_mark_replay_applied_def ib_reset_applied_progress_def Let_def
      split: option.splits list.splits)

text \<open>Popping frame by frame is draining by the same number.\<close>

lemma try_pop_drains:
  "ib_try_pop ib = (case ib_drain (Some 1) ib of ([], ib') \<Rightarrow> (None, ib) | (p # _, ib') \<Rightarrow> (Some p, ib'))"
  by (cases "ib_frames ib") (simp_all add: ib_try_pop_def ib_drain_def Let_def)

end
