(* ===== verification/Receiver.thy ===== *)
theory Receiver
  imports Receiver_Inbox Protocol Framing
begin

text \<open>
  The receiver thread (\<open>openusdconnect/receiver.py\<close>), the decoding of a drained batch
  (\<open>decode_messages\<close> in \<open>openusdconnect/codec.py\<close>) and the consumer's cursor
  (\<open>EventDispatcher.drain_and_apply\<close> in \<open>openusdconnect/dispatcher.py\<close>).

  A message is what the envelope of its FlatBuffers frame says; the body of a record stays in its
  bytes until the consumer decodes it, and the decoder is an argument. Each function is a section
  of the code under the replay lock or without shared state; the network, timeouts and the
  interleaving with the consumer are steps of the protocol theory. Callbacks and logging have no
  effect on the receiver's state.
\<close>

section \<open>Messages\<close>

record hello_ok =
  ho_server_instance :: string
  ho_replay_identity :: bool
  ho_replay_epoch :: "int option"
  ho_layer_mode :: layer_mode
  ho_layered_replay :: bool
  ho_token :: string
  ho_stage_metadata :: "(string \<times> pyval) list"

datatype server_msg =
    SHelloOk hello_ok | SAuthRejected string | SHelloRejected int string
  | SPing | SPlayback | SReplayComplete int int | SResync
  | SEvent int bytes | SGraph int bytes | SStack bytes | SRateLimited real | SOther bytes | SMalformed

text \<open>\<open>payload_type_and_sequence\<close>, which reads the header of the frame only.\<close>

fun msg_sequence :: "server_msg \<Rightarrow> int" where
  "msg_sequence (SEvent s b) = s"
| "msg_sequence (SGraph s b) = s"
| "msg_sequence m = 0"

fun msg_kind :: "server_msg \<Rightarrow> message_kind" where
  "msg_kind (SEvent s b) = EventKind"
| "msg_kind (SGraph s b) = LayerGraphKind"
| "msg_kind SResync = ResyncKind"
| "msg_kind m = OtherKind"

type_synonym identity = "string \<times> int"

record receiver =
  rc_inbox :: "server_msg inbox"
  rc_connected :: bool
  rc_synchronized :: bool
  rc_handshake :: bool
  rc_received_id :: "identity option"
  rc_initial_id :: "identity option"
  rc_connection_instance :: string
  rc_identity_supported :: bool
  rc_hello_sent :: bool
  rc_validate_prefix :: bool
  rc_prefix_proven :: bool
  rc_reset_on_hello :: bool
  rc_replay_head :: int
  rc_replay_epoch :: int
  rc_server_instance :: string
  rc_auth_rejected :: bool
  rc_hello_rejected :: bool
  rc_rejection :: "int \<times> string"
  rc_token :: "string option"
  rc_layered :: bool
  rc_layered_active :: bool
  rc_mode :: layer_mode
  rc_mode_active :: layer_mode
  rc_metadata :: "(string \<times> pyval) list"
  rc_reconnect :: bool
  rc_stopped :: bool

definition new_receiver ::
  "int \<Rightarrow> nat \<Rightarrow> bool \<Rightarrow> string option \<Rightarrow> bool \<Rightarrow> layer_mode \<Rightarrow> receiver res" where
  "new_receiver sync_from max_queue reconnect token layered mode =
     (case new_inbox sync_from max_queue False of
        Inl e \<Rightarrow> Inl e
      | Inr ib \<Rightarrow> Inr \<lparr>rc_inbox = ib, rc_connected = False, rc_synchronized = False, rc_handshake = False,
          rc_received_id = None, rc_initial_id = None, rc_connection_instance = [], rc_identity_supported = False,
          rc_hello_sent = False, rc_validate_prefix = False, rc_prefix_proven = False, rc_reset_on_hello = False,
          rc_replay_head = 0, rc_replay_epoch = 0, rc_server_instance = [], rc_auth_rejected = False,
          rc_hello_rejected = False, rc_rejection = (0, []), rc_token = token, rc_layered = layered,
          rc_layered_active = False, rc_mode = mode, rc_mode_active = MANAGED, rc_metadata = [],
          rc_reconnect = reconnect, rc_stopped = False\<rparr>)"

section \<open>Connection state\<close>

definition set_connected :: "bool \<Rightarrow> receiver \<Rightarrow> receiver" where
  "set_connected value rc =
     (if value then rc\<lparr>rc_connected := True\<rparr>
      else rc\<lparr>rc_connected := False, rc_synchronized := False,
              rc_inbox := ib_disconnect (ib_generation (rc_inbox rc)) (rc_inbox rc)\<rparr>)"

definition synchronized :: "receiver \<Rightarrow> bool" where
  "synchronized rc \<longleftrightarrow> rc_connected rc \<and> rc_synchronized rc"

definition mark_replay_applied :: "receiver \<Rightarrow> bool \<times> receiver" where
  "mark_replay_applied rc =
     (case ib_mark_replay_applied (rc_inbox rc) of
        (False, ib) \<Rightarrow> (False, rc\<lparr>rc_inbox := ib\<rparr>)
      | (True, ib) \<Rightarrow> (True, rc\<lparr>rc_inbox := ib, rc_replay_head := ib_head ib, rc_replay_epoch := ib_epoch ib,
           rc_server_instance := (case rc_received_id rc of None \<Rightarrow> [] | Some i \<Rightarrow> fst i),
           rc_synchronized := True\<rparr>))"

definition request_replay_from :: "int \<Rightarrow> receiver \<Rightarrow> unit res \<times> receiver" where
  "request_replay_from seq_start rc =
     (if seq_start < 1 then (Inl (ValueError ''replay sequence must be at least 1''), rc)
      else (Inr (), rc\<lparr>rc_inbox := snd (ib_request_replay_from seq_start (rc_inbox rc)), rc_synchronized := False,
              rc_received_id := None, rc_initial_id := None,
              rc_reset_on_hello := (rc_reset_on_hello rc \<or> seq_start = 1)\<rparr>))"

record replay_hello =
  rq_sync_from :: int
  rq_server_instance :: "string option"
  rq_epoch :: "int option"
  rq_layered :: bool
  rq_mode :: layer_mode
  rq_token :: "string option"

text \<open>
  \<open>_connect_and_recv\<close> up to the hello: the generation of the connection, its cursor and the hello
  it sends. \<open>provided\<close> is the answer of the token provider, when there is one.
\<close>

definition connect_and_hello :: "string option option \<Rightarrow> receiver \<Rightarrow> (nat \<times> int \<times> replay_hello) \<times> receiver" where
  "connect_and_hello provided rc =
     (let ((generation, sync_from), ib) = ib_begin_connection (rc_inbox rc);
          prefix_identity = rc_received_id rc;
          token = (case provided of None \<Rightarrow> rc_token rc | Some t \<Rightarrow> t);
          validate = rc_hello_sent rc;
          hello = \<lparr>rq_sync_from = sync_from,
            rq_server_instance = (if validate then Some (case prefix_identity of None \<Rightarrow> [] | Some i \<Rightarrow> fst i) else None),
            rq_epoch = (if validate then map_option snd prefix_identity else None),
            rq_layered = rc_layered rc, rq_mode = rc_mode rc, rq_token = token\<rparr>
      in ((generation, sync_from, hello),
          rc\<lparr>rc_inbox := ib, rc_synchronized := False, rc_token := token, rc_validate_prefix := validate,
             rc_hello_sent := True, rc_handshake := False, rc_auth_rejected := False, rc_hello_rejected := False,
             rc_rejection := (0, [])\<rparr>))"

definition reject_hello :: "int \<Rightarrow> string \<Rightarrow> receiver \<Rightarrow> receiver" where
  "reject_hello code reason rc =
     rc\<lparr>rc_hello_rejected := True, rc_rejection := (code, reason), rc_handshake := True\<rparr>"

definition connection_replay_identity :: "int option \<Rightarrow> receiver \<Rightarrow> identity option" where
  "connection_replay_identity epoch rc =
     (if \<not> rc_identity_supported rc \<or> rc_connection_instance rc = [] then None
      else case epoch of None \<Rightarrow> None | Some e \<Rightarrow> Some (rc_connection_instance rc, e))"

section \<open>Messages of a connection\<close>

text \<open>\<open>_handle_control_message\<close>: \<open>None\<close> when the message is data.\<close>

definition handle_control_message :: "nat \<Rightarrow> server_msg \<Rightarrow> receiver \<Rightarrow> bool option \<times> receiver" where
  "handle_control_message generation m rc =
     (case m of
        SPing \<Rightarrow> (Some True, rc)
      | SReplayComplete head epoch \<Rightarrow>
          (let (result, ib) = ib_accept_replay_complete generation head epoch (rc_inbox rc);
               rc1 = rc\<lparr>rc_inbox := ib\<rparr>
           in if result = AcceptedFrame
              then (Some True, rc1\<lparr>rc_initial_id := None,
                     rc_received_id := (if rc_prefix_proven rc1 then connection_replay_identity (Some epoch) rc1 else None)\<rparr>)
              else (Some False, rc1))
      | SPlayback \<Rightarrow> (Some True, rc)
      | _ \<Rightarrow> (None, rc))"

text \<open>
  \<open>_handle_data_message\<close>: whether the connection goes on. A malformed frame, a completion marker
  with a negative head and a sequenced message without a positive sequence raise, which ends the
  connection as well.
\<close>

definition handle_data_message :: "nat \<Rightarrow> server_msg \<Rightarrow> receiver \<Rightarrow> bool \<times> receiver" where
  "handle_data_message generation m rc =
     (if m = SMalformed then (False, rc)
      else case handle_control_message generation m rc of
        (Some handled, rc1) \<Rightarrow> (handled, rc1)
      | (None, rc1) \<Rightarrow>
          (let (result, ib) = ib_accept generation (msg_kind m) (msg_sequence m) m (rc_inbox rc1);
               rc2 = rc1\<lparr>rc_inbox := ib\<rparr>;
               rc3 = (if msg_kind m = ResyncKind \<and> result = AcceptedFrame
                      then rc2\<lparr>rc_synchronized := False, rc_received_id := rc_initial_id rc2, rc_initial_id := None,
                               rc_prefix_proven := True\<rparr>
                      else rc2)
           in case result of
                AcceptedFrame \<Rightarrow> (True, rc3)
              | DuplicateFrame \<Rightarrow> (True, rc3)
              | StaleConnection \<Rightarrow> (False, rc3)
              | QueueFull \<Rightarrow> (False, rc3)
              | InvalidSequence \<Rightarrow> (False, rc3)
              | SequenceGap \<Rightarrow> (False, snd (request_replay_from (ib_applied (rc_inbox rc3) + 1) rc3))))"

text \<open>
  \<open>_handle_handshake_message\<close> on a hello reply: the negotiation, which may refuse it, and the part
  under the replay lock.
\<close>

definition negotiate :: "hello_ok \<Rightarrow> int \<Rightarrow> receiver \<Rightarrow> bool \<times> receiver" where
  "negotiate h sync_from rc =
     (let rc1 = rc\<lparr>rc_connection_instance := ho_server_instance h, rc_identity_supported := ho_replay_identity h,
            rc_prefix_proven := (sync_from = 1 \<or> rc_validate_prefix rc), rc_mode_active := ho_layer_mode h\<rparr>
      in if ho_layer_mode h \<noteq> rc_mode rc1
         then (False, reject_hello 2 ''server did not negotiate requested layer mode'' rc1)
         else let rc2 = rc1\<lparr>rc_layered_active := (rc_layered rc1 \<and> ho_layered_replay h)\<rparr>
         in if rc_layered rc2 \<and> \<not> rc_layered_active rc2
            then (False, reject_hello 1 ''server did not negotiate requested layered replay'' rc2)
            else
              let rc3 = (if ho_token h \<noteq> [] then rc2\<lparr>rc_token := Some (ho_token h)\<rparr> else rc2)
              in (True, if ho_stage_metadata h \<noteq> [] then rc3\<lparr>rc_metadata := ho_stage_metadata h\<rparr> else rc3))"

definition begin_replay :: "hello_ok \<Rightarrow> int \<Rightarrow> nat \<Rightarrow> receiver \<Rightarrow> bool \<times> receiver" where
  "begin_replay h sync_from generation rc =
     (if generation \<noteq> ib_generation (rc_inbox rc) then (False, rc)
      else
        let identity = connection_replay_identity (ho_replay_epoch h) rc;
            rc1 = rc\<lparr>rc_initial_id := identity, rc_received_id := (if identity = None then None else rc_received_id rc)\<rparr>;
            (go_on, rc2) = (if rc_reset_on_hello rc1 then handle_data_message generation SResync rc1 else (True, rc1))
        in if \<not> go_on then (False, rc2)
           else
             let rc3 = rc2\<lparr>rc_reset_on_hello := False\<rparr>;
                 prefix_matches = (rc_validate_prefix rc3 \<and> rc_received_id rc3 = identity);
                 rc4 = (if identity \<noteq> None \<and> (sync_from = 1 \<or> prefix_matches)
                        then rc3\<lparr>rc_received_id := identity\<rparr> else rc3)
             in (True, (set_connected True rc4)\<lparr>rc_handshake := True\<rparr>))"

definition handle_handshake_message :: "server_msg \<Rightarrow> int \<Rightarrow> nat \<Rightarrow> receiver \<Rightarrow> bool \<times> receiver" where
  "handle_handshake_message m sync_from generation rc =
     (case m of
        SMalformed \<Rightarrow> (False, rc)
      | SAuthRejected reason \<Rightarrow>
          (False, rc\<lparr>rc_auth_rejected := True, rc_rejection := (fst (rc_rejection rc), reason), rc_handshake := True\<rparr>)
      | SHelloRejected code reason \<Rightarrow> (False, reject_hello code reason rc)
      | SHelloOk h \<Rightarrow>
          (case negotiate h sync_from rc of
             (False, rc1) \<Rightarrow> (False, rc1)
           | (True, rc1) \<Rightarrow> begin_replay h sync_from generation rc1)
      | _ \<Rightarrow> (True, rc))"

text \<open>One message of the read loop, after the check of the connection's generation.\<close>

definition receive_message :: "nat \<Rightarrow> int \<Rightarrow> server_msg \<Rightarrow> receiver \<Rightarrow> bool \<times> receiver" where
  "receive_message generation sync_from m rc =
     (if generation \<noteq> ib_generation (rc_inbox rc) then (False, rc)
      else if \<not> rc_connected rc then handle_handshake_message m sync_from generation rc
      else handle_data_message generation m rc)"

text \<open>The end of a connection in \<open>run\<close>, and what the loop does next.\<close>

definition end_connection :: "receiver \<Rightarrow> receiver" where
  "end_connection rc = set_connected False rc"

definition should_stop_reconnecting :: "receiver \<Rightarrow> bool" where
  "should_stop_reconnecting rc \<longleftrightarrow> \<not> rc_reconnect rc \<or> rc_stopped rc \<or> rc_auth_rejected rc \<or> rc_hello_rejected rc"

datatype run_action = StopRun | WaitForDrain | WaitDelay real

definition run_after_connection :: "real \<Rightarrow> real \<Rightarrow> real \<Rightarrow> receiver \<Rightarrow> (run_action \<times> real) \<times> receiver" where
  "run_after_connection base_delay max_delay delay rc =
     (let was_connected = rc_connected rc; rc1 = end_connection rc
      in if should_stop_reconnecting rc1 then ((StopRun, delay), rc1\<lparr>rc_handshake := True\<rparr>)
         else
           let rc2 = rc1\<lparr>rc_handshake := False\<rparr>; delay1 = (if was_connected then base_delay else delay)
           in if ib_overflowed (rc_inbox rc2)
              then ((WaitForDrain, base_delay), rc2\<lparr>rc_inbox := ib_clear_overflow (rc_inbox rc2)\<rparr>)
              else ((WaitDelay delay1, min (delay1 * 2) max_delay), rc2))"

definition stop_receiver :: "receiver \<Rightarrow> receiver" where
  "stop_receiver rc = rc\<lparr>rc_stopped := True, rc_handshake := True\<rparr>"

text \<open>
  \<open>_wait_for_queue_drain\<close>: poll \<open>n\<close> finds a queue size, whether the thread was stopped during the
  wait, and the clock after it.
\<close>

partial_function (option) wait_for_queue_drain ::
  "(nat \<Rightarrow> nat) \<Rightarrow> (nat \<Rightarrow> bool) \<Rightarrow> (nat \<Rightarrow> real) \<Rightarrow> real \<Rightarrow> nat \<Rightarrow> nat option" where
  "wait_for_queue_drain size_at stopped_at clock deadline n =
     (if size_at n = 0 \<or> stopped_at n then Some n
      else if clock n \<ge> deadline then Some n
      else wait_for_queue_drain size_at stopped_at clock deadline (n + 1))"

definition drain_queue :: "nat option \<Rightarrow> receiver \<Rightarrow> server_msg list res \<times> receiver" where
  "drain_queue max_messages rc =
     (if max_messages = Some 0 then (Inl (ValueError ''max_messages must be a positive integer or None''), rc)
      else let (frames, ib) = ib_drain max_messages (rc_inbox rc) in (Inr frames, rc\<lparr>rc_inbox := ib\<rparr>))"

section \<open>Decoding a batch\<close>

record 'r decode_result =
  dr_received :: "'r list"
  dr_stacks :: "'r list"
  dr_graphs :: "'r list"
  dr_last_seq :: int
  dr_resync :: bool
  dr_retry_after :: "real option"
  dr_replay_complete :: "(int \<times> int) option"
  dr_errors :: "py_exn list"

text \<open>
  The decoder of a body: what it raises, or the record, which is \<open>None\<close> for a broadcast without an
  event. The switches \<open>clear_on_resync\<close> and \<open>require_contiguous\<close> are on, as both consumers call it.
\<close>

type_synonym 'r decoder = "bytes \<Rightarrow> 'r option res"

definition add_sequenced :: "int \<Rightarrow> 'r option \<Rightarrow> bool \<Rightarrow> 'r decode_result \<Rightarrow> 'r decode_result res" where
  "add_sequenced seq r graph dr =
     (if seq \<noteq> 0 \<and> seq \<le> dr_last_seq dr then Inr dr
      else if seq \<noteq> 0 \<and> seq \<noteq> dr_last_seq dr + 1 then Inl (ValueError ''sequence gap'')
      else
        let dr1 = (if seq \<noteq> 0 then dr\<lparr>dr_last_seq := seq\<rparr> else dr)
        in Inr (case r of None \<Rightarrow> dr1
             | Some r \<Rightarrow> if graph then dr1\<lparr>dr_graphs := dr_graphs dr1 @ [r]\<rparr>
                         else dr1\<lparr>dr_received := dr_received dr1 @ [r]\<rparr>))"

definition decode_one :: "'r decoder \<Rightarrow> server_msg \<Rightarrow> 'r decode_result \<Rightarrow> 'r decode_result res" where
  "decode_one dec m dr =
     (case m of
        SMalformed \<Rightarrow> Inl (ValueError ''malformed message'')
      | SResync \<Rightarrow> Inr (dr\<lparr>dr_last_seq := 0, dr_resync := True, dr_received := [], dr_stacks := [], dr_graphs := []\<rparr>)
      | SStack b \<Rightarrow> (case dec b of Inl e \<Rightarrow> Inl e
           | Inr r \<Rightarrow> Inr (case r of None \<Rightarrow> dr | Some r \<Rightarrow> dr\<lparr>dr_stacks := dr_stacks dr @ [r]\<rparr>))
      | SRateLimited t \<Rightarrow> Inr (dr\<lparr>dr_retry_after := Some t\<rparr>)
      | SReplayComplete head epoch \<Rightarrow> Inr (dr\<lparr>dr_replay_complete := Some (head, epoch)\<rparr>)
      | SEvent seq b \<Rightarrow> (case dec b of Inl e \<Rightarrow> Inl e | Inr r \<Rightarrow> add_sequenced seq r False dr)
      | SGraph seq b \<Rightarrow> (case dec b of Inl e \<Rightarrow> Inl e | Inr r \<Rightarrow> add_sequenced seq r True dr)
      | SOther b \<Rightarrow> (case dec b of Inl e \<Rightarrow> Inl e | Inr r \<Rightarrow> Inr dr)
      | _ \<Rightarrow> Inr dr)"

fun decode_loop :: "'r decoder \<Rightarrow> server_msg list \<Rightarrow> 'r decode_result \<Rightarrow> 'r decode_result" where
  "decode_loop dec [] dr = dr"
| "decode_loop dec (m # ms) dr =
     (case decode_one dec m dr of
        Inl e \<Rightarrow> dr\<lparr>dr_errors := dr_errors dr @ [e]\<rparr>
      | Inr dr1 \<Rightarrow> decode_loop dec ms dr1)"

definition decode_messages :: "'r decoder \<Rightarrow> server_msg list \<Rightarrow> int \<Rightarrow> 'r decode_result" where
  "decode_messages dec ms last_seq =
     decode_loop dec ms \<lparr>dr_received = [], dr_stacks = [], dr_graphs = [], dr_last_seq = last_seq, dr_resync = False,
       dr_retry_after = None, dr_replay_complete = None, dr_errors = []\<rparr>"

section \<open>The consumer\<close>

text \<open>
  \<open>dp_scene\<close> is the records the scene holds since it was last reset. The apply pipeline either
  takes the whole batch (\<open>None\<close>) or raises and leaves the scene in some state.
\<close>

record 'r dispatcher =
  dp_last_seq :: int
  dp_drained :: nat
  dp_scene :: "'r list"

definition new_dispatcher :: "int \<Rightarrow> 'r dispatcher" where
  "new_dispatcher sync_from = \<lparr>dp_last_seq = sync_from - 1, dp_drained = 0, dp_scene = []\<rparr>"

text \<open>\<open>drain_and_apply\<close> from the drained buffers on; the flag says whether the pipeline raised.\<close>

definition apply_drained ::
  "'r decoder \<Rightarrow> 'r list option \<Rightarrow> server_msg list \<Rightarrow> 'r dispatcher \<Rightarrow> receiver \<Rightarrow> bool \<times> 'r dispatcher \<times> receiver" where
  "apply_drained dec raised bufs dp rc =
     (let dp1 = dp\<lparr>dp_drained := length bufs\<rparr>
      in if bufs = [] then (False, dp1, snd (mark_replay_applied rc))
         else
           let result = decode_messages dec bufs (dp_last_seq dp1);
               recovery_seq = (if dr_resync result then 0 else dp_last_seq dp1)
           in case raised of
                Some scene \<Rightarrow> (True, dp1\<lparr>dp_last_seq := recovery_seq, dp_scene := scene\<rparr>,
                                snd (request_replay_from (recovery_seq + 1) rc))
              | None \<Rightarrow>
                  let dp2 = dp1\<lparr>dp_last_seq := dr_last_seq result,
                        dp_scene := (if dr_resync result then [] else dp_scene dp1) @ dr_received result\<rparr>
                  in (False, dp2, if dr_errors result \<noteq> [] then snd (request_replay_from (dp_last_seq dp2 + 1) rc)
                                  else snd (mark_replay_applied rc)))"

definition drain_and_apply ::
  "'r decoder \<Rightarrow> 'r list option \<Rightarrow> nat option \<Rightarrow> 'r dispatcher \<Rightarrow> receiver \<Rightarrow> bool res \<times> 'r dispatcher \<times> receiver" where
  "drain_and_apply dec raised max_messages dp rc =
     (case drain_queue max_messages rc of
        (Inl e, rc1) \<Rightarrow> (Inl e, dp, rc1)
      | (Inr bufs, rc1) \<Rightarrow> let (failed, dp2, rc2) = apply_drained dec raised bufs dp rc1 in (Inr failed, dp2, rc2))"

section \<open>The drain wait\<close>

lemma drain_wait_steps:
  assumes "\<And>k. n \<le> k \<Longrightarrow> start + 0.1 * (real k + 1) \<le> clock k" "0 \<le> max_delay"
    and "10 * max_delay \<le> real n + real d + 1"
  shows "\<exists>k. wait_for_queue_drain size_at stopped_at clock (start + max_delay) n = Some k \<and> n \<le> k \<and> k \<le> n + d"
  using assms(1,3)
proof (induction d arbitrary: n)
  case 0
  then have "start + max_delay \<le> start + 0.1 * (real n + 1)" by simp
  also have "\<dots> \<le> clock n" by (rule "0.prems"(1)) simp
  finally show ?case by (subst wait_for_queue_drain.simps) auto
next
  case (Suc d)
  have "\<exists>k. wait_for_queue_drain size_at stopped_at clock (start + max_delay) (n + 1) = Some k \<and> n + 1 \<le> k \<and> k \<le> n + 1 + d"
    using Suc.prems by (intro Suc.IH) auto
  then show ?case by (subst wait_for_queue_drain.simps) auto
qed

text \<open>A stopped receiver does not reconnect, and its waiters are released.\<close>

lemma stop_ends_run:
  "fst (fst (run_after_connection base_delay max_delay delay (stop_receiver rc))) = StopRun"
  "rc_handshake (snd (run_after_connection base_delay max_delay delay (stop_receiver rc)))"
  by (simp_all add: run_after_connection_def stop_receiver_def end_connection_def set_connected_def
      should_stop_reconnecting_def Let_def)

section \<open>Property\<close>

text \<open>The wait for the consumer before reconnecting ends: whatever the queue does and even when
  the thread is never stopped, with polls of a tenth of a second the loop returns, after at most
  ten polls for each second of the longest delay.\<close>

theorem drain_wait_terminates:
  assumes "0 \<le> max_delay" "\<And>k. start + 0.1 * (real k + 1) \<le> clock k"
  shows "\<exists>k. wait_for_queue_drain size_at stopped_at clock (start + max_delay) 0 = Some k \<and> real k \<le> 10 * max_delay"
proof -
  have le: "10 * max_delay \<le> real 0 + real (nat \<lfloor>10 * max_delay\<rfloor>) + 1" "real (nat \<lfloor>10 * max_delay\<rfloor>) \<le> 10 * max_delay"
    using assms(1) by linarith+
  from drain_wait_steps [OF assms(2,1) le(1)]
  obtain k where "wait_for_queue_drain size_at stopped_at clock (start + max_delay) 0 = Some k"
    and "k \<le> nat \<lfloor>10 * max_delay\<rfloor>" by auto
  with le(2) show ?thesis by (metis of_nat_le_iff order_trans)
qed

theorem drain_wait_terminates_witness:
  "\<exists>k. wait_for_queue_drain (\<lambda>_. 1) (\<lambda>_. False) (\<lambda>k. 5 + 0.1 * (real k + 1)) (5 + 30) 0 = Some k \<and> real k \<le> 10 * 30"
  by (rule drain_wait_terminates) auto

end
