(* ===== verification/Receiver_Protocol.thy ===== *)
theory Receiver_Protocol
  imports Receiver "HOL-Library.Sublist"
begin

text \<open>
  One receiver against a server whose history grows, is rewritten and restarts, over connections
  that break anywhere: the receiver thread, its inbox and the consumer's cursor run interleaved.

  The server is specified by what it puts on a connection: the reply of
  \<open>receiver_replay_window\<close> and of the handler (\<open>server/state.py\<close>, \<open>server/connection.py\<close>), then
  every record as it is committed, and after a rewrite a resync with the whole new history.
\<close>

section \<open>Histories and views\<close>

fun sequenced :: "server_msg \<Rightarrow> bool" where
  "sequenced (SEvent s b) = True"
| "sequenced (SGraph s b) = True"
| "sequenced m = False"

fun plain :: "server_msg \<Rightarrow> bool" where
  "plain SPing = True"
| "plain SPlayback = True"
| "plain (SStack b) = True"
| "plain (SRateLimited t) = True"
| "plain (SOther b) = True"
| "plain m = False"

definition numbered :: "server_msg list \<Rightarrow> bool" where
  "numbered ms \<longleftrightarrow> (\<forall>i < length ms. sequenced (ms ! i) \<and> msg_sequence (ms ! i) = int i + 1)"

text \<open>The records held after some frames, and frames that continue a cursor without a gap.\<close>

fun held_after :: "server_msg list \<Rightarrow> server_msg list \<Rightarrow> server_msg list" where
  "held_after r [] = r"
| "held_after r (m # ms) = held_after (if m = SResync then [] else if sequenced m then r @ [m] else r) ms"

fun linked :: "int \<Rightarrow> server_msg list \<Rightarrow> bool" where
  "linked c [] = True"
| "linked c (m # ms) =
     (if m = SResync then linked 0 ms
      else if sequenced m then msg_sequence m = c + 1 \<and> linked (c + 1) ms else linked c ms)"

text \<open>The records the decoder makes of a history.\<close>

definition decoded :: "'r decoder \<Rightarrow> server_msg list \<Rightarrow> 'r list" where
  "decoded dec ms = concat (map (\<lambda>m. case m of SEvent s b \<Rightarrow> (case dec b of Inr (Some r) \<Rightarrow> [r] | _ \<Rightarrow> []) | _ \<Rightarrow> []) ms)"

section \<open>The world\<close>

record link =
  lk_generation :: nat
  lk_sync_from :: int
  lk_wire :: "server_msg list"
  lk_open :: bool
  lk_instance :: string

text \<open>\<open>w_held\<close> and \<open>w_dirty\<close> are for the proofs: the records behind the consumer's cursor, and
  whether the apply pipeline has failed since the scene was last reset.\<close>

record 'r world =
  w_instance :: string
  w_epoch :: int
  w_ids :: "identity list"
  w_hist :: "identity \<Rightarrow> server_msg list"
  w_link :: "link option"
  w_rx :: receiver
  w_dp :: "'r dispatcher"
  w_hand :: "server_msg list option"
  w_held :: "server_msg list"
  w_dirty :: bool

abbreviation w_identity :: "'r world \<Rightarrow> identity" where
  "w_identity w \<equiv> (w_instance w, w_epoch w)"

definition new_world :: "identity \<Rightarrow> server_msg list \<Rightarrow> receiver \<Rightarrow> 'r world" where
  "new_world i ms rc = \<lparr>w_instance = fst i, w_epoch = snd i, w_ids = [i], w_hist = (\<lambda>_. [])(i := ms), w_link = None,
     w_rx = rc, w_dp = new_dispatcher 1, w_hand = None, w_held = [], w_dirty = False\<rparr>"

text \<open>What the server adds to the open connection.\<close>

definition send_wire :: "server_msg list \<Rightarrow> 'r world \<Rightarrow> 'r world" where
  "send_wire ms w = w\<lparr>w_link := map_option (\<lambda>lk. if lk_open lk then lk\<lparr>lk_wire := lk_wire lk @ ms\<rparr> else lk) (w_link w)\<rparr>"

definition needs_resync :: "identity \<Rightarrow> int \<Rightarrow> replay_hello \<Rightarrow> bool" where
  "needs_resync i replay_end h \<longleftrightarrow>
     rq_sync_from h > 1 \<and> rq_server_instance h \<noteq> None \<and>
       (rq_server_instance h \<noteq> Some (fst i) \<or> rq_epoch h \<noteq> Some (snd i)) \<or>
     rq_sync_from h > replay_end + 1"

definition hello_wire :: "identity \<Rightarrow> server_msg list \<Rightarrow> hello_ok \<Rightarrow> server_msg list \<Rightarrow> replay_hello \<Rightarrow> server_msg list" where
  "hello_wire i hist ho controls h =
     (let resync = needs_resync i (int (length hist)) h;
          sync_from = (if resync then 1 else rq_sync_from h)
      in SHelloOk (ho\<lparr>ho_server_instance := fst i, ho_replay_identity := True, ho_replay_epoch := Some (snd i)\<rparr>) #
         (if resync then [SResync] else []) @ controls @ drop (nat (sync_from - 1)) hist @
         [SReplayComplete (int (length hist)) (snd i)])"

definition hang_up :: "real \<Rightarrow> real \<Rightarrow> real \<Rightarrow> 'r world \<Rightarrow> 'r world" where
  "hang_up base_delay max_delay delay w =
     w\<lparr>w_link := None, w_rx := snd (run_after_connection base_delay max_delay delay (w_rx w))\<rparr>"

text \<open>The frames of a batch before the one that does not decode.\<close>

fun accepted_prefix :: "'r decoder \<Rightarrow> server_msg list \<Rightarrow> 'r decode_result \<Rightarrow> server_msg list" where
  "accepted_prefix dec [] dr = []"
| "accepted_prefix dec (m # ms) dr =
     (case decode_one dec m dr of Inl e \<Rightarrow> [] | Inr dr1 \<Rightarrow> m # accepted_prefix dec ms dr1)"

definition fresh_result :: "int \<Rightarrow> 'r decode_result" where
  "fresh_result last_seq = \<lparr>dr_received = [], dr_stacks = [], dr_graphs = [], dr_last_seq = last_seq, dr_resync = False,
     dr_retry_after = None, dr_replay_complete = None, dr_errors = []\<rparr>"

definition finish_batch :: "'r decoder \<Rightarrow> 'r list option \<Rightarrow> server_msg list \<Rightarrow> 'r world \<Rightarrow> 'r world" where
  "finish_batch dec raised bufs w =
     (let (failed, dp, rc) = apply_drained dec raised bufs (w_dp w) (w_rx w);
          resync = dr_resync (decode_messages dec bufs (dp_last_seq (w_dp w)))
      in w\<lparr>w_dp := dp, w_hand := None,
           w_held := (if failed then if resync then [] else w_held w
                      else held_after (w_held w) (accepted_prefix dec bufs (fresh_result (dp_last_seq (w_dp w))))),
           w_dirty := (failed \<or> w_dirty w \<and> \<not> resync), w_rx := rc\<rparr>)"

text \<open>
  The steps. The server commits, rewrites its history or restarts with another; it sends messages
  that carry no record. The receiver connects and is answered, refused or not answered; the wire
  may lose what is on it from some point on; the thread reads a message or gives the connection
  up. The consumer drains a part of the queue, later finishes that batch, and may ask for a replay.
\<close>

inductive world_step :: "'r decoder \<Rightarrow> 'r world \<Rightarrow> 'r world \<Rightarrow> bool" for dec where
  commit: "numbered (w_hist w (w_identity w) @ ms) \<Longrightarrow>
    world_step dec w (send_wire ms (w\<lparr>w_hist := (w_hist w)(w_identity w := w_hist w (w_identity w) @ ms)\<rparr>))"
| rewrite: "numbered ms \<Longrightarrow> list_all plain controls \<Longrightarrow> i = (w_instance w, w_epoch w + 1) \<Longrightarrow>
    world_step dec w (send_wire (SResync # controls @ ms @ [SReplayComplete (int (length ms)) (snd i)])
      (w\<lparr>w_epoch := snd i, w_ids := i # w_ids w, w_hist := (w_hist w)(i := ms)\<rparr>))"
| restart: "numbered ms \<Longrightarrow> fst i \<notin> fst ` set (w_ids w) \<Longrightarrow> fst i \<noteq> [] \<Longrightarrow>
    world_step dec w (w\<lparr>w_instance := fst i, w_epoch := snd i, w_ids := i # w_ids w, w_hist := (w_hist w)(i := ms),
      w_link := map_option (lk_open_update (\<lambda>_. False)) (w_link w)\<rparr>)"
| control: "plain m \<Longrightarrow> world_step dec w (send_wire [m] w)"
| connect: "w_link w = None \<Longrightarrow> connect_and_hello provided (w_rx w) = ((generation, sync_from, h), rc) \<Longrightarrow>
    list_all plain controls \<Longrightarrow>
    world_step dec w (w\<lparr>w_rx := rc, w_link := Some \<lparr>lk_generation = generation, lk_sync_from = sync_from,
      lk_wire = hello_wire (w_identity w) (w_hist w (w_identity w)) ho controls h, lk_open = True,
      lk_instance = w_instance w\<rparr>\<rparr>)"
| refused: "w_link w = None \<Longrightarrow> connect_and_hello provided (w_rx w) = ((generation, sync_from, h), rc) \<Longrightarrow>
    ms \<in> {[], [SAuthRejected reason], [SHelloRejected code reason]} \<Longrightarrow>
    world_step dec w (w\<lparr>w_rx := rc, w_link := Some \<lparr>lk_generation = generation, lk_sync_from = sync_from,
      lk_wire = ms, lk_open = False, lk_instance = w_instance w\<rparr>\<rparr>)"
| cut: "w_link w = Some lk \<Longrightarrow> world_step dec w (w\<lparr>w_link := Some (lk\<lparr>lk_wire := take n (lk_wire lk), lk_open := False\<rparr>)\<rparr>)"
| receive: "w_link w = Some lk \<Longrightarrow> lk_wire lk = m # ms \<Longrightarrow>
    receive_message (lk_generation lk) (lk_sync_from lk) m (w_rx w) = (True, rc) \<Longrightarrow>
    world_step dec w (w\<lparr>w_rx := rc, w_link := Some (lk\<lparr>lk_wire := ms\<rparr>)\<rparr>)"
| receive_end: "w_link w = Some lk \<Longrightarrow> lk_wire lk = m # ms \<Longrightarrow>
    receive_message (lk_generation lk) (lk_sync_from lk) m (w_rx w) = (False, rc) \<Longrightarrow>
    world_step dec w (hang_up base_delay max_delay delay (w\<lparr>w_rx := rc\<rparr>))"
| give_up: "w_link w = Some lk \<Longrightarrow> world_step dec w (hang_up base_delay max_delay delay w)"
| drain: "w_hand w = None \<Longrightarrow> drain_queue max_messages (w_rx w) = (Inr bufs, rc) \<Longrightarrow>
    world_step dec w (w\<lparr>w_rx := rc, w_hand := Some bufs\<rparr>)"
| finish: "w_hand w = Some bufs \<Longrightarrow> world_step dec w (finish_batch dec raised bufs w)"
| request: "w_hand w = None \<Longrightarrow>
    world_step dec w (w\<lparr>w_rx := snd (request_replay_from (dp_last_seq (w_dp w) + 1) (w_rx w))\<rparr>)"

inductive_cases world_stepE: "world_step dec w w'"

section \<open>Views\<close>

lemma held_after_append [simp]: "held_after r (xs @ ys) = held_after (held_after r xs) ys"
  by (induction r xs rule: held_after.induct) auto

lemma linked_append:
  "linked (int (length r)) (xs @ ys) \<longleftrightarrow> linked (int (length r)) xs \<and> linked (int (length (held_after r xs))) ys"
proof (induction xs arbitrary: r)
  case (Cons m xs)
  show ?case using Cons.IH [of "[]"] Cons.IH [of "r @ [m]"] Cons.IH [of r] by (auto simp: algebra_simps)
qed simp

lemma held_after_resync: "SResync \<in> set ms \<Longrightarrow> held_after r ms = held_after r' ms"
  by (induction ms arbitrary: r r') auto

lemma held_after_filter: "SResync \<notin> set ms \<Longrightarrow> held_after r ms = r @ filter sequenced ms"
  by (induction ms arbitrary: r) auto

lemma sequenced_not_resync [simp]: "\<not> sequenced SResync" "plain m \<Longrightarrow> \<not> sequenced m" "plain m \<Longrightarrow> m \<noteq> SResync"
  by (auto elim: plain.elims)

lemma decoded_append [simp]: "decoded dec (xs @ ys) = decoded dec xs @ decoded dec ys"
  by (simp add: decoded_def)

lemma decoded_Nil [simp]: "decoded dec [] = []"
  by (simp add: decoded_def)

lemma numbered_nth: "numbered ms \<Longrightarrow> i < length ms \<Longrightarrow> sequenced (ms ! i) \<and> msg_sequence (ms ! i) = int i + 1"
  by (simp add: numbered_def)

lemma numbered_Nil [simp]: "numbered []"
  by (simp add: numbered_def)

lemma numbered_no_resync: "numbered ms \<Longrightarrow> m \<in> set ms \<Longrightarrow> sequenced m"
  by (auto simp: numbered_def in_set_conv_nth)

text \<open>Decoding linked frames: the cursor and the scene follow the frames that decode.\<close>

definition scene_after :: "'r list \<Rightarrow> 'r decode_result \<Rightarrow> 'r list" where
  "scene_after scene dr = (if dr_resync dr then [] else scene) @ dr_received dr"

lemma decode_loop_spec:
  assumes "linked (int (length r)) ms" "dr_last_seq dr = int (length r)"
    and "\<not> dirty \<or> dr_resync dr \<Longrightarrow> scene_after scene dr = decoded dec r"
  defines "res \<equiv> decode_loop dec ms dr" and "pre \<equiv> accepted_prefix dec ms dr"
  shows "\<exists>post. ms = pre @ post \<and> (dr_errors res = [] \<longrightarrow> post = [] \<and> dr_errors dr = []) \<and>
    dr_last_seq res = int (length (held_after r pre)) \<and> (dr_resync res \<longleftrightarrow> dr_resync dr \<or> SResync \<in> set pre) \<and>
    (\<not> dirty \<or> dr_resync res \<longrightarrow> scene_after scene res = decoded dec (held_after r pre))"
  using assms(1-3) unfolding res_def pre_def
proof (induction ms arbitrary: r dr)
  case (Cons m ms)
  show ?case
  proof (cases "decode_one dec m dr")
    case (Inl e)
    with Cons.prems show ?thesis by (auto simp: scene_after_def)
  next
    case (Inr dr1)
    define r1 where "r1 = (if m = SResync then [] else if sequenced m then r @ [m] else r)"
    have step: "dr_last_seq dr1 = int (length r1)" "dr_errors dr1 = dr_errors dr"
      "dr_resync dr1 \<longleftrightarrow> dr_resync dr \<or> m = SResync"
      "\<not> dirty \<or> dr_resync dr1 \<Longrightarrow> scene_after scene dr1 = decoded dec r1"
      using Inr Cons.prems
      by (auto simp: r1_def decode_one_def add_sequenced_def scene_after_def decoded_def Let_def
          split: server_msg.splits sum.splits option.splits if_splits)
    have "linked (int (length r1)) ms" using Cons.prems(1) by (auto simp: r1_def algebra_simps split: if_splits)
    from Cons.IH [OF this step(1) step(4)] Inr step(2,3) show ?thesis by (auto simp flip: r1_def)
  qed
qed simp

lemma decode_spec:
  assumes "linked (int (length r)) ms" "\<not> dirty \<Longrightarrow> scene = decoded dec r"
  defines "res \<equiv> decode_messages dec ms (int (length r))" and "pre \<equiv> accepted_prefix dec ms (fresh_result (int (length r)))"
  shows "\<exists>post. ms = pre @ post \<and> (dr_errors res = [] \<longrightarrow> post = []) \<and>
    dr_last_seq res = int (length (held_after r pre)) \<and> (dr_resync res \<longleftrightarrow> SResync \<in> set pre) \<and>
    (\<not> dirty \<or> dr_resync res \<longrightarrow> scene_after scene res = decoded dec (held_after r pre))"
  using decode_loop_spec [OF assms(1), of "fresh_result (int (length r))" dirty scene dec] assms(2)
  by (auto simp: res_def pre_def decode_messages_def fresh_result_def scene_after_def)

section \<open>What is on a connection\<close>

text \<open>
  A connection to an instance with the histories \<open>H\<close> of its epochs. \<open>Stale\<close>: the hello is read and
  a resync comes first; \<open>Replaying\<close>: the next record is number \<open>p + 1\<close> of the epoch, and its
  completion marker is still to come; \<open>Live\<close>: it has come.
\<close>

datatype phase = Stale int | Replaying int nat | Live int nat

inductive follows :: "(int \<Rightarrow> server_msg list) \<Rightarrow> phase \<Rightarrow> server_msg list \<Rightarrow> phase \<Rightarrow> bool" for H where
  nil: "follows H ph [] ph"
| other: "plain m \<Longrightarrow> follows H ph ms ph' \<Longrightarrow> follows H ph (m # ms) ph'"
| stale_resync: "follows H (Replaying e 0) ms ph' \<Longrightarrow> follows H (Stale e) (SResync # ms) ph'"
| replayed: "p < length (H e) \<Longrightarrow> follows H (Replaying e (p + 1)) ms ph' \<Longrightarrow> follows H (Replaying e p) (H e ! p # ms) ph'"
| complete: "follows H (Live e p) ms ph' \<Longrightarrow> follows H (Replaying e p) (SReplayComplete (int p) e # ms) ph'"
| live: "p < length (H e) \<Longrightarrow> follows H (Live e (p + 1)) ms ph' \<Longrightarrow> follows H (Live e p) (H e ! p # ms) ph'"
| live_resync: "follows H (Replaying e' 0) ms ph' \<Longrightarrow> follows H (Live e p) (SResync # ms) ph'"

lemma follows_append: "follows H ph xs ph1 \<Longrightarrow> follows H ph1 ys ph2 \<Longrightarrow> follows H ph (xs @ ys) ph2"
  by (induction rule: follows.induct) (auto intro: follows.intros)

lemma follows_mono:
  assumes "follows H ph ms ph'" "\<And>e. prefix (H e) (H' e)"
  shows "follows H' ph ms ph'"
  using assms(1)
proof (induction rule: follows.induct)
  case (replayed p e ms ph')
  have "p < length (H' e)" "H e ! p = H' e ! p"
    using assms(2) [of e] replayed.hyps(1) by (auto simp: prefix_def nth_append)
  with replayed show ?case by (simp add: follows.replayed)
next
  case (live p e ms ph')
  have "p < length (H' e)" "H e ! p = H' e ! p"
    using assms(2) [of e] live.hyps(1) by (auto simp: prefix_def nth_append)
  with live show ?case by (simp add: follows.live)
qed (auto intro: follows.intros)

lemma take_follows:
  assumes "\<And>k. \<exists>q. follows H ph1 (take k ms) q" "\<And>zs q. follows H ph1 zs q \<Longrightarrow> follows H ph (m # zs) q"
  shows "\<exists>q. follows H ph (take n (m # ms)) q"
proof (cases n)
  case 0
  then show ?thesis using follows.nil by auto
next
  case (Suc k)
  with assms show ?thesis by (metis take_Suc_Cons)
qed

lemma follows_take: "follows H ph ms ph' \<Longrightarrow> \<exists>ph1. follows H ph (take n ms) ph1"
proof (induction arbitrary: n rule: follows.induct)
  case (nil ph) then show ?case by (auto intro: follows.nil)
next
  case (other m ph ms ph') show ?case by (rule take_follows [OF other.IH follows.other [OF other.hyps(1)]])
next
  case (stale_resync e ms ph') show ?case by (rule take_follows [OF stale_resync.IH follows.stale_resync])
next
  case (replayed p e ms ph') show ?case by (rule take_follows [OF replayed.IH follows.replayed [where H = H and e = e and p = p, OF replayed.hyps(1)]])
next
  case (complete e p ms ph') show ?case by (rule take_follows [OF complete.IH follows.complete])
next
  case (live p e ms ph') show ?case by (rule take_follows [OF live.IH follows.live [where H = H and e = e and p = p, OF live.hyps(1)]])
next
  case (live_resync e' ms ph' e p) show ?case by (rule take_follows [OF live_resync.IH follows.live_resync])
qed

lemma follows_plain: "list_all plain ms \<Longrightarrow> follows H ph ms ph"
  by (induction ms) (auto intro: follows.intros)

lemma follows_replay:
  "p \<le> length (H e) \<Longrightarrow> follows H (Replaying e p) (drop p (H e)) (Replaying e (length (H e)))"
proof (induction "length (H e) - p" arbitrary: p)
  case (Suc n)
  then have "p < length (H e)" by simp
  with Suc follows.replayed [of p H e "drop (p + 1) (H e)"] show ?case by (simp add: Cons_nth_drop_Suc)
qed (auto intro: follows.nil)

lemma follows_live:
  "H e = xs @ ms \<Longrightarrow> follows H (Live e (length xs)) ms (Live e (length (H e)))"
proof (induction ms arbitrary: xs)
  case (Cons m ms)
  then have "follows H (Live e (length (xs @ [m]))) ms (Live e (length (H e)))" by (intro Cons.IH) simp
  with Cons.prems follows.live [of "length xs" H e ms] show ?case by simp
qed (auto intro: follows.nil)

section \<open>The invariant\<close>

definition frames :: "'r world \<Rightarrow> server_msg list" where
  "frames w = (case w_hand w of None \<Rightarrow> [] | Some bufs \<Rightarrow> bufs) @ ib_frames (rc_inbox (w_rx w))"

abbreviation received :: "'r world \<Rightarrow> int" where
  "received w \<equiv> ib_received (rc_inbox (w_rx w))"

abbreviation epochs :: "'r world \<Rightarrow> string \<Rightarrow> int \<Rightarrow> server_msg list" where
  "epochs w i \<equiv> (\<lambda>e. w_hist w (i, e))"

text \<open>The frames received so far are a prefix of this history, and a failed scene is reset on the way.\<close>

definition good :: "'r world \<Rightarrow> identity \<Rightarrow> bool" where
  "good w i \<longleftrightarrow> held_after (w_held w) (frames w) = take (nat (received w)) (w_hist w i) \<and>
     (w_dirty w \<longrightarrow> SResync \<in> set (frames w))"

definition server_inv :: "'r world \<Rightarrow> bool" where
  "server_inv w \<longleftrightarrow> (\<forall>i. numbered (w_hist w i)) \<and> (\<forall>i. i \<notin> set (w_ids w) \<longrightarrow> w_hist w i = []) \<and>
     (\<forall>i \<in> set (w_ids w). fst i = w_instance w \<longrightarrow> snd i \<le> w_epoch w) \<and> w_identity w \<in> set (w_ids w) \<and> w_instance w \<noteq> []"

definition cursor_inv :: "'r decoder \<Rightarrow> 'r world \<Rightarrow> bool" where
  "cursor_inv dec w \<longleftrightarrow> linked (int (length (w_held w))) (frames w) \<and> dp_last_seq (w_dp w) = int (length (w_held w)) \<and>
     received w = int (length (held_after (w_held w) (frames w))) \<and>
     (\<not> w_dirty w \<longrightarrow> dp_scene (w_dp w) = decoded dec (w_held w))"

definition rx_core :: "'r world \<Rightarrow> bool" where
  "rx_core w \<longleftrightarrow> (let rc = w_rx w; ib = rc_inbox rc in
     ib_inv ib \<and> \<not> ib_contiguous ib \<and>
     (\<forall>i. rc_received_id rc = Some i \<longrightarrow> good w i) \<and>
     (w_dirty w \<and> SResync \<notin> set (frames w) \<and> received w = 0 \<longrightarrow> rc_reset_on_hello rc) \<and>
     (rc_reset_on_hello rc \<longrightarrow> frames w = [] \<and> w_held w = []) \<and> (\<not> rc_hello_sent rc \<longrightarrow> frames w = [] \<and> w_held w = []))"

definition rx_inv :: "'r world \<Rightarrow> bool" where
  "rx_inv w \<longleftrightarrow> rx_core w \<and> (w_link w = None \<longrightarrow> \<not> rc_connected (w_rx w)) \<and>
     (\<not> rc_connected (w_rx w) \<longrightarrow> \<not> rc_synchronized (w_rx w) \<and> ib_pending (rc_inbox (w_rx w)) = None)"

text \<open>Frames after the completion marker only add records, at most as many as were received since.\<close>

definition pending_inv :: "'r world \<Rightarrow> bool" where
  "pending_inv w \<longleftrightarrow> (let rc = w_rx w; ib = rc_inbox rc in
     case ib_pending ib of None \<Rightarrow> True
     | Some marker \<Rightarrow>
         (let later = drop (length (ib_frames ib) - (ib_incoming ib - rs_serial marker)) (ib_frames ib) in
          (\<exists>i. rc_received_id rc = Some (i, rs_epoch marker)) \<and> SResync \<notin> set later \<and>
          int (length (filter sequenced later)) \<le> ib_received ib - rs_head marker))"

definition sync_inv :: "'r world \<Rightarrow> bool" where
  "sync_inv w \<longleftrightarrow> (let rc = w_rx w in
     rc_synchronized rc \<longrightarrow> SResync \<notin> set (frames w) \<and> \<not> w_dirty w \<and> rc_replay_head rc \<le> dp_last_seq (w_dp w) \<and>
       rc_received_id rc = Some (rc_server_instance rc, rc_replay_epoch rc))"

definition phase_inv :: "'r world \<Rightarrow> string \<Rightarrow> phase \<Rightarrow> bool" where
  "phase_inv w i ph \<longleftrightarrow> (let rc = w_rx w in
     case ph of
       Stale e \<Rightarrow> rc_initial_id rc = Some (i, e) \<and> \<not> rc_synchronized rc \<and> ib_pending (rc_inbox rc) = None
     | Replaying e p \<Rightarrow> received w = int p \<and> good w (i, e) \<and> rc_received_id rc \<in> {None, Some (i, e)} \<and>
         rc_initial_id rc \<in> {None, Some (i, e)} \<and> \<not> rc_synchronized rc \<and> ib_pending (rc_inbox rc) = None
     | Live e p \<Rightarrow> received w = int p \<and> good w (i, e) \<and> rc_received_id rc \<in> {None, Some (i, e)} \<and>
         rc_initial_id rc = None)"

definition at_head :: "'r world \<Rightarrow> link \<Rightarrow> phase \<Rightarrow> bool" where
  "at_head w lk ph \<longleftrightarrow> (lk_open lk \<longrightarrow> lk_instance lk = w_instance w \<and>
     ph = Live (w_epoch w) (length (w_hist w (w_identity w))))"

definition awaiting_inv :: "'r world \<Rightarrow> link \<Rightarrow> bool" where
  "awaiting_inv w lk \<longleftrightarrow> (let rc = w_rx w in
     lk_sync_from lk = received w + 1 \<and> rc_hello_sent rc \<and> (rc_validate_prefix rc \<or> received w = 0) \<and>
     (\<not> lk_open lk \<and> (lk_wire lk = [] \<or> (\<exists>reason code. lk_wire lk \<in> {[SAuthRejected reason], [SHelloRejected code reason]})) \<or>
      (\<exists>ho e ms ph ph'. lk_wire lk = SHelloOk ho # ms \<and> ho_server_instance ho = lk_instance lk \<and> ho_replay_identity ho \<and>
         ho_replay_epoch ho = Some e \<and> lk_instance lk \<noteq> [] \<and>
         follows (epochs w (lk_instance lk)) ph ms ph' \<and> at_head w lk ph' \<and>
         (ph = Stale e \<and> received w \<noteq> 0 \<or>
          ph = Replaying e (nat (received w)) \<and> (received w = 0 \<or> rc_received_id rc = Some (lk_instance lk, e))))))"

definition connected_inv :: "'r world \<Rightarrow> link \<Rightarrow> bool" where
  "connected_inv w lk \<longleftrightarrow> (let rc = w_rx w in
     rc_connection_instance rc = lk_instance lk \<and> lk_instance lk \<noteq> [] \<and> rc_identity_supported rc \<and> rc_prefix_proven rc \<and>
     \<not> rc_reset_on_hello rc \<and> rc_hello_sent rc \<and>
     (\<exists>ph ph'. follows (epochs w (lk_instance lk)) ph (lk_wire lk) ph' \<and> at_head w lk ph' \<and> phase_inv w (lk_instance lk) ph))"

definition link_inv :: "'r world \<Rightarrow> bool" where
  "link_inv w \<longleftrightarrow> (case w_link w of None \<Rightarrow> True
     | Some lk \<Rightarrow> lk_generation lk \<le> ib_generation (rc_inbox (w_rx w)) \<and>
         (lk_generation lk = ib_generation (rc_inbox (w_rx w)) \<longrightarrow>
         ib_requested (rc_inbox (w_rx w)) = None \<and>
         (if rc_connected (w_rx w) then connected_inv w lk else awaiting_inv w lk)))"

definition world_inv :: "'r decoder \<Rightarrow> 'r world \<Rightarrow> bool" where
  "world_inv dec w \<longleftrightarrow> server_inv w \<and> cursor_inv dec w \<and> rx_inv w \<and> pending_inv w \<and> sync_inv w \<and> link_inv w"

section \<open>Steps of the server\<close>

definition same_client :: "'r world \<Rightarrow> 'r world \<Rightarrow> bool" where
  "same_client w w' \<longleftrightarrow> w_rx w' = w_rx w \<and> w_dp w' = w_dp w \<and> w_hand w' = w_hand w \<and> w_held w' = w_held w \<and>
     w_dirty w' = w_dirty w"

lemma same_client_frames: "same_client w w' \<Longrightarrow> frames w' = frames w"
  by (simp add: same_client_def frames_def)

lemma received_bound:
  assumes "cursor_inv dec w" "good w i"
  shows "nat (received w) \<le> length (w_hist w i)"
proof -
  have "length (held_after (w_held w) (frames w)) = nat (received w)" using assms(1) by (simp add: cursor_inv_def)
  with assms(2) show ?thesis by (simp add: good_def)
qed

lemma good_mono:
  assumes "cursor_inv dec w" "good w i" "same_client w w'" "prefix (w_hist w i) (w_hist w' i)"
  shows "good w' i"
  using assms received_bound [OF assms(1,2)] same_client_frames [OF assms(3)]
  by (auto simp: good_def same_client_def prefix_def)

lemma phase_mono:
  assumes "cursor_inv dec w" "same_client w w'" "\<And>i. prefix (w_hist w i) (w_hist w' i)" "phase_inv w i ph"
  shows "phase_inv w' i ph"
  using assms(4) good_mono [OF assms(1) _ assms(2,3)] assms(2)
  by (auto simp: phase_inv_def same_client_def Let_def split: phase.splits)

text \<open>A link is extended when what follows it, up to the head, is.\<close>

definition extends :: "'r world \<Rightarrow> link \<Rightarrow> 'r world \<Rightarrow> link \<Rightarrow> server_msg list \<Rightarrow> bool" where
  "extends w lk w' lk' ext \<longleftrightarrow> lk_generation lk' = lk_generation lk \<and> lk_sync_from lk' = lk_sync_from lk \<and>
     lk_instance lk' = lk_instance lk \<and> lk_wire lk' = lk_wire lk @ ext \<and> (\<not> lk_open lk \<longrightarrow> \<not> lk_open lk' \<and> ext = []) \<and>
     (\<forall>ph. at_head w lk ph \<longrightarrow> (\<exists>ph'. follows (epochs w' (lk_instance lk)) ph ext ph' \<and> at_head w' lk' ph'))"

lemma link_inv_extends:
  assumes "world_inv dec w" "same_client w w'" "\<And>i. prefix (w_hist w i) (w_hist w' i)"
    and "w_link w = Some lk" "w_link w' = Some lk'" "extends w lk w' lk' ext"
  shows "link_inv w'"
proof -
  have longer: "\<exists>ph2. follows (epochs w' (lk_instance lk)) ph (ms @ ext) ph2 \<and> at_head w' lk' ph2"
    if "follows (epochs w (lk_instance lk)) ph ms ph1" "at_head w lk ph1" for ph ms ph1
  proof -
    from that(2) assms(6) obtain ph2 where "follows (epochs w' (lk_instance lk)) ph1 ext ph2" "at_head w' lk' ph2"
      unfolding extends_def by blast
    with follows_append [OF follows_mono [OF that(1), of "epochs w' (lk_instance lk)"]] assms(3) show ?thesis by blast
  qed
  have connected: "connected_inv w' lk'" if "connected_inv w lk"
    using that assms(2,6) longer phase_mono [of dec w w'] assms(1-3)
    unfolding connected_inv_def extends_def same_client_def world_inv_def Let_def by metis
  have awaiting: "awaiting_inv w' lk'" if aw: "awaiting_inv w lk"
  proof (cases "\<exists>ho ms. lk_wire lk = SHelloOk ho # ms")
    case False
    with aw have closed: "\<not> lk_open lk" "ext = []" "\<not> lk_open lk'"
      using assms(6) unfolding awaiting_inv_def extends_def Let_def by blast+
    with aw False assms(2,6) show ?thesis
      unfolding awaiting_inv_def extends_def same_client_def Let_def by auto
  next
    case True
    with aw obtain ho e ms ph ph1 where wire: "lk_wire lk = SHelloOk ho # ms" "ho_server_instance ho = lk_instance lk"
      "ho_replay_identity ho" "ho_replay_epoch ho = Some e" "lk_instance lk \<noteq> []"
      and fol: "follows (epochs w (lk_instance lk)) ph ms ph1" "at_head w lk ph1"
      and ph: "ph = Stale e \<and> received w \<noteq> 0 \<or>
        ph = Replaying e (nat (received w)) \<and> (received w = 0 \<or> rc_received_id (w_rx w) = Some (lk_instance lk, e))"
      unfolding awaiting_inv_def Let_def by (auto simp: insert_iff)
    from longer [OF fol] obtain ph2 where "follows (epochs w' (lk_instance lk)) ph (ms @ ext) ph2" "at_head w' lk' ph2"
      by blast
    with aw wire ph assms(2,6) show ?thesis
      unfolding awaiting_inv_def extends_def same_client_def Let_def by auto
  qed
  from assms(1) connected awaiting assms(2,4-6) show ?thesis
    by (auto simp: world_inv_def link_inv_def same_client_def extends_def)
qed

lemma server_change:
  assumes inv: "world_inv dec w" and same: "same_client w w'" and pre: "\<And>i. prefix (w_hist w i) (w_hist w' i)"
    and "server_inv w'" "link_inv w'" "w_link w = None \<longleftrightarrow> w_link w' = None"
  shows "world_inv dec w'"
proof -
  note fr = same_client_frames [OF same]
  have "cursor_inv dec w" using inv by (simp add: world_inv_def)
  note good = good_mono [OF this _ same pre]
  have "rx_inv w'" using inv same fr good assms(6) by (auto simp: world_inv_def rx_inv_def rx_core_def same_client_def Let_def)
  moreover have "cursor_inv dec w'" "pending_inv w'" "sync_inv w'"
    using inv same fr
    by (auto simp: world_inv_def cursor_inv_def same_client_def pending_inv_def sync_inv_def Let_def split: option.splits)
  ultimately show ?thesis using assms(4,5) by (simp add: world_inv_def)
qed

lemma send_wire_simps [simp]:
  "w_hist (send_wire ms w) = w_hist w" "w_instance (send_wire ms w) = w_instance w" "w_epoch (send_wire ms w) = w_epoch w"
  "w_ids (send_wire ms w) = w_ids w" "same_client w' (send_wire ms w) \<longleftrightarrow> same_client w' w"
  "server_inv (send_wire ms w) \<longleftrightarrow> server_inv w" "w_link (send_wire ms w) = None \<longleftrightarrow> w_link w = None"
  by (simp_all add: send_wire_def same_client_def server_inv_def)

text \<open>The server changes its state and sends what follows from the old head to the new one.\<close>

lemma server_sends:
  assumes inv: "world_inv dec w" and same: "same_client w w'" and pre: "\<And>i. prefix (w_hist w i) (w_hist w' i)"
    and srv: "server_inv w'" "w_link w' = w_link w" "w_instance w' = w_instance w"
    and fol: "follows (epochs w' (w_instance w)) (Live (w_epoch w) (length (w_hist w (w_identity w)))) ms
      (Live (w_epoch w') (length (w_hist w' (w_identity w'))))"
  shows "world_inv dec (send_wire ms w')"
proof -
  have "link_inv (send_wire ms w')"
  proof (cases "w_link w")
    case None
    with srv(2) show ?thesis by (simp add: link_inv_def send_wire_def)
  next
    case (Some lk)
    define lk' where "lk' = (if lk_open lk then lk\<lparr>lk_wire := lk_wire lk @ ms\<rparr> else lk)"
    have "extends w lk (send_wire ms w') lk' (if lk_open lk then ms else [])"
      using fol srv(3) by (auto simp: extends_def lk'_def at_head_def intro: follows.nil)
    moreover have "w_link (send_wire ms w') = Some lk'" by (simp add: send_wire_def srv(2) Some lk'_def)
    ultimately show ?thesis
      using link_inv_extends [OF inv, of "send_wire ms w'"] same pre Some by simp
  qed
  with server_change [OF inv, of "send_wire ms w'"] same pre srv show ?thesis by simp
qed

lemma commit_inv:
  assumes inv: "world_inv dec w" and num: "numbered (w_hist w (w_identity w) @ ms)"
  shows "world_inv dec (send_wire ms (w\<lparr>w_hist := (w_hist w)(w_identity w := w_hist w (w_identity w) @ ms)\<rparr>))"
proof (rule server_sends [OF inv])
  show "server_inv (w\<lparr>w_hist := (w_hist w)(w_identity w := w_hist w (w_identity w) @ ms)\<rparr>)"
    using inv num by (auto simp: world_inv_def server_inv_def)
  show "follows (epochs (w\<lparr>w_hist := (w_hist w)(w_identity w := w_hist w (w_identity w) @ ms)\<rparr>) (w_instance w))
      (Live (w_epoch w) (length (w_hist w (w_identity w)))) ms
      (Live (w_epoch (w\<lparr>w_hist := (w_hist w)(w_identity w := w_hist w (w_identity w) @ ms)\<rparr>))
        (length (w_hist (w\<lparr>w_hist := (w_hist w)(w_identity w := w_hist w (w_identity w) @ ms)\<rparr>)
          (w_identity (w\<lparr>w_hist := (w_hist w)(w_identity w := w_hist w (w_identity w) @ ms)\<rparr>)))))"
    using follows_live [of "epochs (w\<lparr>w_hist := (w_hist w)(w_identity w := w_hist w (w_identity w) @ ms)\<rparr>) (w_instance w)"
        "w_epoch w" "w_hist w (w_identity w)" ms] by simp
qed (auto simp: same_client_def)

lemma rewrite_inv:
  assumes inv: "world_inv dec w" and num: "numbered ms" and con: "list_all plain controls" and i: "i = (w_instance w, w_epoch w + 1)"
  shows "world_inv dec (send_wire (SResync # controls @ ms @ [SReplayComplete (int (length ms)) (snd i)])
    (w\<lparr>w_epoch := snd i, w_ids := i # w_ids w, w_hist := (w_hist w)(i := ms)\<rparr>))"
proof -
  define w' where "w' = w\<lparr>w_epoch := snd i, w_ids := i # w_ids w, w_hist := (w_hist w)(i := ms)\<rparr>"
  have new: "w_hist w i = []" using inv i by (force simp: world_inv_def server_inv_def)
  have "follows (epochs w' (w_instance w)) (Replaying (snd i) 0) (drop 0 (epochs w' (w_instance w) (snd i)))
      (Replaying (snd i) (length (epochs w' (w_instance w) (snd i))))"
    by (rule follows_replay) simp
  then have "follows (epochs w' (w_instance w)) (Replaying (snd i) 0) (ms @ [SReplayComplete (int (length ms)) (snd i)])
      (Live (snd i) (length ms))"
    using follows_append follows.complete [OF follows.nil] by (fastforce simp: w'_def i)
  then have "follows (epochs w' (w_instance w)) (Live (w_epoch w) (length (w_hist w (w_identity w))))
      (SResync # controls @ ms @ [SReplayComplete (int (length ms)) (snd i)]) (Live (snd i) (length ms))"
    by (intro follows.live_resync follows_append [OF follows_plain [OF con]])
  moreover have "server_inv w'"
    using inv num i by (auto simp: world_inv_def server_inv_def w'_def)
  ultimately have "world_inv dec (send_wire (SResync # controls @ ms @ [SReplayComplete (int (length ms)) (snd i)]) w')"
    using new by (intro server_sends [OF inv]) (auto simp: same_client_def w'_def i)
  then show ?thesis by (simp add: w'_def)
qed

lemma control_inv:
  assumes inv: "world_inv dec w" and "plain m"
  shows "world_inv dec (send_wire [m] w)"
  using assms by (intro server_sends [OF inv]) (auto simp: same_client_def world_inv_def intro: follows.intros)

lemma restart_inv:
  assumes inv: "world_inv dec w" and num: "numbered ms" and i: "fst i \<notin> fst ` set (w_ids w)" "fst i \<noteq> []"
  shows "world_inv dec (w\<lparr>w_instance := fst i, w_epoch := snd i, w_ids := i # w_ids w, w_hist := (w_hist w)(i := ms),
    w_link := map_option (lk_open_update (\<lambda>_. False)) (w_link w)\<rparr>)" (is "world_inv dec ?w'")
proof -
  from i(1) have "i \<notin> set (w_ids w)" by blast
  then have new: "w_hist w i = []" using inv unfolding world_inv_def server_inv_def by blast
  have same: "same_client w ?w'" by (simp add: same_client_def)
  have pre: "prefix (w_hist w j) (w_hist ?w' j)" for j using new by simp
  have "link_inv ?w'"
  proof (cases "w_link w")
    case (Some lk)
    have "extends w lk ?w' (lk\<lparr>lk_open := False\<rparr>) []" by (auto simp: extends_def at_head_def intro: follows.nil)
    with link_inv_extends [OF inv same pre Some] Some show ?thesis by simp
  qed (simp add: link_inv_def)
  moreover have "server_inv ?w'"
    using inv num i unfolding world_inv_def server_inv_def by (auto simp: image_iff)
  ultimately show ?thesis using server_change [OF inv same pre] by simp
qed

lemma cut_inv:
  assumes inv: "world_inv dec w" and lk: "w_link w = Some lk"
  shows "world_inv dec (w\<lparr>w_link := Some (lk\<lparr>lk_wire := take n (lk_wire lk), lk_open := False\<rparr>)\<rparr>)" (is "world_inv dec ?w'")
proof -
  let ?lk = "lk\<lparr>lk_wire := take n (lk_wire lk), lk_open := False\<rparr>"
  have same: "same_client w ?w'" and pre: "prefix (w_hist w j) (w_hist ?w' j)" for j by (simp_all add: same_client_def)
  have head: "at_head ?w' ?lk ph" for ph by (simp add: at_head_def)
  have "connected_inv ?w' ?lk" if con: "connected_inv w lk"
  proof -
    from con obtain ph ph1 where fol: "follows (epochs w (lk_instance lk)) ph (lk_wire lk) ph1" and ph: "phase_inv w (lk_instance lk) ph"
      unfolding connected_inv_def Let_def by blast
    from follows_take [OF fol, of n] obtain ph2 where "follows (epochs w (lk_instance lk)) ph (take n (lk_wire lk)) ph2" by blast
    moreover have "phase_inv ?w' (lk_instance lk) ph" using phase_mono [of dec, OF _ same pre ph] inv by (simp add: world_inv_def)
    ultimately show ?thesis using con head [of ph2] unfolding connected_inv_def Let_def by auto
  qed
  moreover have "awaiting_inv ?w' ?lk" if aw: "awaiting_inv w lk"
  proof (cases "\<exists>ho ms. lk_wire lk = SHelloOk ho # ms \<and> n \<noteq> 0")
    case True
    then obtain ho ms k where wire: "lk_wire lk = SHelloOk ho # ms" "n = Suc k" by (cases n) auto
    with aw obtain e ph ph1 where fol: "follows (epochs w (lk_instance lk)) ph ms ph1" "ho_server_instance ho = lk_instance lk"
      "ho_replay_identity ho" "ho_replay_epoch ho = Some e" "lk_instance lk \<noteq> []"
      and ph: "ph = Stale e \<and> received w \<noteq> 0 \<or>
        ph = Replaying e (nat (received w)) \<and> (received w = 0 \<or> rc_received_id (w_rx w) = Some (lk_instance lk, e))"
      unfolding awaiting_inv_def Let_def by auto
    from follows_take [OF fol(1), of k] obtain ph2 where "follows (epochs w (lk_instance lk)) ph (take k ms) ph2" by blast
    with aw fol ph head [of ph2] wire show ?thesis unfolding awaiting_inv_def Let_def by auto
  next
    case False
    with aw show ?thesis unfolding awaiting_inv_def Let_def by (cases n) auto
  qed
  ultimately have "link_inv ?w'" using inv lk by (auto simp: world_inv_def link_inv_def)
  moreover have "server_inv ?w'" using inv by (simp add: world_inv_def server_inv_def)
  ultimately show ?thesis using server_change [OF inv same pre] lk by simp
qed

section \<open>Connecting\<close>

lemma connect_fields:
  assumes "connect_and_hello provided rc = ((g, s, h), rc')" "ib_inv (rc_inbox rc)"
  shows "s = ib_received (rc_inbox rc) + 1" "g = ib_generation (rc_inbox rc')" "ib_requested (rc_inbox rc') = None"
    "rq_sync_from h = s" "ib_inv (rc_inbox rc')" "ib_frames (rc_inbox rc') = ib_frames (rc_inbox rc)"
    "ib_received (rc_inbox rc') = ib_received (rc_inbox rc)" "ib_contiguous (rc_inbox rc') = ib_contiguous (rc_inbox rc)"
    "ib_pending (rc_inbox rc') = None" "\<not> rc_synchronized rc'" "rc_received_id rc' = rc_received_id rc"
    "rc_connected rc' = rc_connected rc" "rc_reset_on_hello rc' = rc_reset_on_hello rc" "rc_hello_sent rc'"
    "rc_validate_prefix rc' = rc_hello_sent rc"
    "rc_hello_sent rc \<Longrightarrow> rq_server_instance h = Some (case rc_received_id rc of None \<Rightarrow> [] | Some i \<Rightarrow> fst i)"
    "rc_hello_sent rc \<Longrightarrow> rq_epoch h = map_option snd (rc_received_id rc)"
proof -
  define ib where "ib = snd (ib_begin_connection (rc_inbox rc))"
  have start: "ib_begin_connection (rc_inbox rc) = ((ib_generation ib, ib_received (rc_inbox rc) + 1), ib)"
    using assms(2) by (auto simp: ib_def ib_begin_connection_def ib_inv_def Let_def split: option.splits)
  have ib: "ib_inv ib" "ib_requested ib = None" "ib_frames ib = ib_frames (rc_inbox rc)" "ib_received ib = ib_received (rc_inbox rc)"
    "ib_contiguous ib = ib_contiguous (rc_inbox rc)" "ib_pending ib = None"
    using ib_inv_operations(2) [OF assms(2)] by (simp_all add: ib_def) (simp_all add: ib_begin_connection_def Let_def)
  have run: "g = ib_generation ib \<and> s = ib_received (rc_inbox rc) + 1 \<and>
      h = \<lparr>rq_sync_from = s, rq_server_instance =
        (if rc_hello_sent rc then Some (case rc_received_id rc of None \<Rightarrow> [] | Some i \<Rightarrow> fst i) else None),
        rq_epoch = (if rc_hello_sent rc then map_option snd (rc_received_id rc) else None),
        rq_layered = rc_layered rc, rq_mode = rc_mode rc, rq_token = rq_token h\<rparr> \<and>
      rc' = rc\<lparr>rc_inbox := ib, rc_synchronized := False, rc_token := rq_token h, rc_validate_prefix := rc_hello_sent rc,
        rc_hello_sent := True, rc_handshake := False, rc_auth_rejected := False, rc_hello_rejected := False,
        rc_rejection := (0, [])\<rparr>"
    using assms(1) unfolding connect_and_hello_def start by (auto simp: Let_def)
  note rc' = run [THEN conjunct2, THEN conjunct2, THEN conjunct2] and h = run [THEN conjunct2, THEN conjunct2, THEN conjunct1]
  show "s = ib_received (rc_inbox rc) + 1" "g = ib_generation (rc_inbox rc')" using run rc' by simp_all
  show "rq_sync_from h = s" by (subst h) simp
  show "rq_server_instance h = Some (case rc_received_id rc of None \<Rightarrow> [] | Some i \<Rightarrow> fst i)"
    "rq_epoch h = map_option snd (rc_received_id rc)" if "rc_hello_sent rc" using that by (subst h, simp)+
  show "ib_requested (rc_inbox rc') = None" "ib_inv (rc_inbox rc')" "ib_frames (rc_inbox rc') = ib_frames (rc_inbox rc)"
    "ib_received (rc_inbox rc') = ib_received (rc_inbox rc)" "ib_contiguous (rc_inbox rc') = ib_contiguous (rc_inbox rc)"
    "ib_pending (rc_inbox rc') = None" using ib by (simp_all add: rc')
  show "\<not> rc_synchronized rc'" "rc_received_id rc' = rc_received_id rc" "rc_connected rc' = rc_connected rc"
    "rc_reset_on_hello rc' = rc_reset_on_hello rc" "rc_hello_sent rc'" "rc_validate_prefix rc' = rc_hello_sent rc"
    by (simp_all add: rc')
qed

text \<open>A connection starts with the receiver's data untouched; only its link is new.\<close>

lemma connect_frame:
  assumes inv: "world_inv dec w" and w: "w_link w = None" "connect_and_hello provided (w_rx w) = ((g, s, h), rc)"
    and w': "w' = w\<lparr>w_rx := rc, w_link := Some lk\<rparr>" and lk: "lk_generation lk = g" "lk_sync_from lk = s" "awaiting_inv w' lk"
  shows "world_inv dec w'"
proof -
  from inv have rx: "rx_inv w" by (simp add: world_inv_def)
  then have ib: "ib_inv (rc_inbox (w_rx w))" by (simp add: rx_inv_def rx_core_def Let_def)
  note f = connect_fields [OF w(2) ib]
  have fr: "frames w' = frames w" by (simp add: w' frames_def f)
  have good: "good w' i = good w i" for i by (simp add: good_def fr) (simp add: w' f)
  have con: "\<not> rc_connected rc" using rx w(1) by (simp add: f rx_inv_def rx_core_def Let_def)
  have "rx_inv w'" using rx f con good by (simp add: rx_inv_def rx_core_def Let_def fr) (simp add: w')
  moreover have "cursor_inv dec w'" using inv f by (simp add: world_inv_def cursor_inv_def fr) (simp add: w')
  moreover have "link_inv w'" using lk f con by (simp add: link_inv_def w')
  moreover have "server_inv w'" using inv by (simp add: world_inv_def server_inv_def w')
  moreover have "pending_inv w'" "sync_inv w'" using f by (simp_all add: pending_inv_def sync_inv_def w')
  ultimately show ?thesis by (simp add: world_inv_def)
qed

lemma hello_wire_follows:
  assumes "p \<le> length (H e)" "list_all plain controls"
  shows "follows H (Replaying e p) (controls @ drop p (H e) @ [SReplayComplete (int (length (H e))) e]) (Live e (length (H e)))"
  by (intro follows_append [OF follows_plain] follows_append [OF follows_replay] follows.complete follows.nil assms)

lemma world_connect_inv:
  assumes inv: "world_inv dec w" and w: "w_link w = None" "connect_and_hello provided (w_rx w) = ((g, s, h), rc)"
    and con: "list_all plain controls"
  shows "world_inv dec (w\<lparr>w_rx := rc, w_link := Some \<lparr>lk_generation = g, lk_sync_from = s,
      lk_wire = hello_wire (w_identity w) (w_hist w (w_identity w)) ho controls h, lk_open = True, lk_instance = w_instance w\<rparr>\<rparr>)"
    (is "world_inv dec ?w'")
proof (rule connect_frame [OF inv w refl])
  let ?lk = "\<lparr>lk_generation = g, lk_sync_from = s,
      lk_wire = hello_wire (w_identity w) (w_hist w (w_identity w)) ho controls h, lk_open = True, lk_instance = w_instance w\<rparr>"
  let ?H = "epochs w (w_instance w)" and ?n = "length (w_hist w (w_identity w))"
  define resync where "resync = needs_resync (w_identity w) (int ?n) h"
  from inv have rx: "rx_inv w" and inst: "w_instance w \<noteq> []" by (simp_all add: world_inv_def server_inv_def)
  then have ib: "ib_inv (rc_inbox (w_rx w))" by (simp add: rx_inv_def rx_core_def Let_def)
  note f = connect_fields [OF w(2) ib]
  have nonneg: "0 \<le> received w" using ib by (simp add: ib_inv_def)
  have validate: "rc_hello_sent (w_rx w)" if "received w \<noteq> 0"
    using rx that inv by (auto simp: rx_inv_def rx_core_def world_inv_def cursor_inv_def Let_def)
  define ph where "ph = (if resync then Stale (w_epoch w) else Replaying (w_epoch w) (nat (received w)))"
  have range: "nat (received w) \<le> ?n" if "\<not> resync" using that nonneg by (auto simp: resync_def needs_resync_def f(1,4))
  have fol: "follows ?H ph ((if resync then [SResync] else []) @ controls @ drop (nat ((if resync then 1 else s) - 1)) (?H (w_epoch w)) @
      [SReplayComplete (int ?n) (w_epoch w)]) (Live (w_epoch w) ?n)"
    using hello_wire_follows [of 0 ?H "w_epoch w", OF _ con] hello_wire_follows [of "nat (received w)" ?H "w_epoch w", OF _ con] range
    by (auto simp: ph_def f(1) intro: follows.stale_resync)
  have held: "rc_received_id (w_rx w) = Some (w_identity w)" if "\<not> resync" "received w \<noteq> 0"
    using that validate f(1,4,16,17) nonneg inst
    by (auto simp: resync_def needs_resync_def split: option.splits)
  have "received w \<noteq> 0" if resync
    using that nonneg by (auto simp: resync_def needs_resync_def f(1,4))
  with fol held f validate inst show "awaiting_inv ?w' ?lk"
    by (auto simp: awaiting_inv_def at_head_def hello_wire_def Let_def ph_def resync_def)
qed simp_all

lemma refused_inv:
  assumes inv: "world_inv dec w" and w: "w_link w = None" "connect_and_hello provided (w_rx w) = ((g, s, h), rc)"
    and ms: "ms \<in> {[], [SAuthRejected reason], [SHelloRejected code reason]}"
  shows "world_inv dec (w\<lparr>w_rx := rc, w_link := Some \<lparr>lk_generation = g, lk_sync_from = s, lk_wire = ms, lk_open = False,
    lk_instance = w_instance w\<rparr>\<rparr>)"
proof (rule connect_frame [OF inv w refl])
  from inv have rx: "rx_inv w" by (simp add: world_inv_def)
  then have ib: "ib_inv (rc_inbox (w_rx w))" by (simp add: rx_inv_def rx_core_def Let_def)
  note f = connect_fields [OF w(2) ib]
  have "received w = 0" if "\<not> rc_hello_sent (w_rx w)"
    using rx that inv by (simp add: rx_inv_def rx_core_def world_inv_def cursor_inv_def Let_def)
  with ms f show "awaiting_inv (w\<lparr>w_rx := rc, w_link := Some \<lparr>lk_generation = g,
      lk_sync_from = s, lk_wire = ms, lk_open = False, lk_instance = w_instance w\<rparr>\<rparr>)
      \<lparr>lk_generation = g, lk_sync_from = s, lk_wire = ms, lk_open = False, lk_instance = w_instance w\<rparr>"
    by (auto simp: awaiting_inv_def Let_def)
qed simp_all

section \<open>Reading a message\<close>

definition put :: "server_msg \<Rightarrow> server_msg inbox \<Rightarrow> server_msg inbox" where
  "put m ib = ib\<lparr>ib_frames := ib_frames ib @ [m], ib_incoming := ib_incoming ib + 1\<rparr>"

definition overflow :: "receiver \<Rightarrow> receiver" where
  "overflow rc = rc\<lparr>rc_inbox := (rc_inbox rc)\<lparr>ib_overflowed := True\<rparr>\<rparr>"

definition full :: "receiver \<Rightarrow> bool" where
  "full rc \<longleftrightarrow> length (ib_frames (rc_inbox rc)) = ib_max (rc_inbox rc)"

definition take_resync :: "receiver \<Rightarrow> receiver" where
  "take_resync rc = rc\<lparr>rc_inbox := put SResync (reset_synchronization ((rc_inbox rc)\<lparr>ib_received := 0\<rparr>)),
     rc_synchronized := False, rc_received_id := rc_initial_id rc, rc_initial_id := None, rc_prefix_proven := True\<rparr>"

lemma kind_of_sequenced: "sequenced m \<Longrightarrow> sequenced_kind (msg_kind m) \<and> msg_kind m \<noteq> ResyncKind"
  by (cases m) (auto simp: sequenced_kind_def)

lemma data_sequenced:
  assumes "sequenced m" "msg_sequence m = ib_received (rc_inbox rc) + 1" "0 \<le> ib_received (rc_inbox rc)"
    and "\<not> ib_contiguous (rc_inbox rc)" "g = ib_generation (rc_inbox rc)"
  shows "handle_data_message g m rc =
    (if full rc then (False, overflow rc)
     else (True, rc\<lparr>rc_inbox := put m ((rc_inbox rc)\<lparr>ib_received := ib_received (rc_inbox rc) + 1\<rparr>)\<rparr>))"
proof -
  have "m \<noteq> SMalformed" "handle_control_message g m rc = (None, rc)"
    using assms(1) by (cases m; simp add: handle_control_message_def)+
  with assms kind_of_sequenced [OF assms(1)] show ?thesis
    by (simp add: handle_data_message_def ib_accept_def put_def overflow_def full_def max_def Let_def)
qed

lemma data_resync:
  assumes "g = ib_generation (rc_inbox rc)"
  shows "handle_data_message g SResync rc = (if full rc then (False, overflow rc) else (True, take_resync rc))"
  using assms
  by (simp add: handle_data_message_def handle_control_message_def ib_accept_def sequenced_kind_def put_def overflow_def full_def
      take_resync_def reset_synchronization_def Let_def)

lemma data_plain:
  assumes "plain m" "g = ib_generation (rc_inbox rc)"
  shows "handle_data_message g m rc = (True, rc) \<or>
    handle_data_message g m rc = (if full rc then (False, overflow rc) else (True, rc\<lparr>rc_inbox := put m (rc_inbox rc)\<rparr>))"
  using assms
  by (cases m) (simp_all add: handle_data_message_def handle_control_message_def ib_accept_def sequenced_kind_def put_def
      overflow_def full_def Let_def)

lemma data_complete:
  assumes "g = ib_generation (rc_inbox rc)" "rc_prefix_proven rc" "rc_identity_supported rc" "rc_connection_instance rc \<noteq> []"
  shows "handle_data_message g (SReplayComplete (int p) e) rc =
    (True, rc\<lparr>rc_inbox := (rc_inbox rc)\<lparr>ib_pending := Some \<lparr>rs_generation = g, rs_head = int p, rs_epoch = e,
        rs_serial = ib_incoming (rc_inbox rc)\<rparr>\<rparr>, rc_initial_id := None,
      rc_received_id := Some (rc_connection_instance rc, e)\<rparr>)"
  using assms
  by (simp add: handle_data_message_def handle_control_message_def ib_accept_replay_complete_def connection_replay_identity_def Let_def)

lemma put_simps [simp]:
  "ib_frames (put m ib) = ib_frames ib @ [m]" "ib_incoming (put m ib) = ib_incoming ib + 1"
  "ib_received (put m ib) = ib_received ib" "ib_generation (put m ib) = ib_generation ib" "ib_pending (put m ib) = ib_pending ib"
  "ib_requested (put m ib) = ib_requested ib" "ib_contiguous (put m ib) = ib_contiguous ib" "ib_drained (put m ib) = ib_drained ib"
  "ib_max (put m ib) = ib_max ib" "ib_applied (put m ib) = ib_applied ib"
  by (simp_all add: put_def)

lemma put_inv:
  assumes "ib_inv ib" "length (ib_frames ib) \<noteq> ib_max ib"
  shows "ib_inv (put m ib)"
  using assms by (auto simp: ib_inv_def put_def split: option.splits)

lemma frames_put:
  "frames (w\<lparr>w_rx := rc, w_link := l\<rparr>) = frames w @ [m]" if "ib_frames (rc_inbox rc) = ib_frames (rc_inbox (w_rx w)) @ [m]"
  using that by (simp add: frames_def)

text \<open>The end of a connection keeps what was received.\<close>

lemma hang_up_inv:
  assumes "server_inv w" "cursor_inv dec w" "rx_core w"
  shows "world_inv dec (hang_up b mx d w)"
proof -
  define rc where "rc = snd (run_after_connection b mx d (w_rx w))"
  have rc: "\<not> rc_connected rc" "\<not> rc_synchronized rc" "ib_pending (rc_inbox rc) = None" "rc_received_id rc = rc_received_id (w_rx w)"
    "rc_reset_on_hello rc = rc_reset_on_hello (w_rx w)" "rc_hello_sent rc = rc_hello_sent (w_rx w)"
    by (simp_all add: rc_def run_after_connection_def end_connection_def set_connected_def ib_disconnect_def ib_clear_overflow_def Let_def)
  have ib: "ib_frames (rc_inbox rc) = ib_frames (rc_inbox (w_rx w))" "ib_received (rc_inbox rc) = received w"
    "ib_contiguous (rc_inbox rc) = ib_contiguous (rc_inbox (w_rx w))"
    by (simp_all add: rc_def run_after_connection_def end_connection_def set_connected_def ib_disconnect_def ib_clear_overflow_def Let_def)
  have "ib_inv (rc_inbox (w_rx w))" using assms(3) by (simp add: rx_core_def Let_def)
  then have inv: "ib_inv (rc_inbox rc)"
    by (auto simp: rc_def run_after_connection_def end_connection_def set_connected_def Let_def intro!: ib_inv_operations)
  let ?w = "w\<lparr>w_link := None, w_rx := rc\<rparr>"
  have fr: "frames ?w = frames w" by (simp add: frames_def ib)
  have good: "good ?w i = good w i" for i unfolding good_def fr by (simp add: ib)
  have "rx_inv ?w" using assms(3) rc inv good by (simp add: rx_inv_def rx_core_def Let_def fr) (simp add: ib)
  moreover have "cursor_inv dec ?w" using assms(2) unfolding cursor_inv_def fr by (simp add: ib)
  moreover have "pending_inv ?w" "sync_inv ?w" "link_inv ?w" "server_inv ?w"
    using assms(1) rc by (simp_all add: pending_inv_def sync_inv_def link_inv_def server_inv_def)
  ultimately show ?thesis by (simp add: world_inv_def hang_up_def rc_def)
qed

text \<open>A receiver whose data is unchanged keeps the core of the invariant.\<close>

definition same_data :: "receiver \<Rightarrow> receiver \<Rightarrow> bool" where
  "same_data rc rc' \<longleftrightarrow> ib_frames (rc_inbox rc') = ib_frames (rc_inbox rc) \<and> ib_received (rc_inbox rc') = ib_received (rc_inbox rc) \<and>
     ib_contiguous (rc_inbox rc') = ib_contiguous (rc_inbox rc) \<and> ib_inv (rc_inbox rc') \<and> rc_received_id rc' = rc_received_id rc \<and>
     rc_reset_on_hello rc' = rc_reset_on_hello rc \<and> rc_hello_sent rc' = rc_hello_sent rc"

lemma same_data_core:
  assumes "same_data (w_rx w) rc" "server_inv w" "cursor_inv dec w" "rx_core w"
  shows "server_inv (w\<lparr>w_rx := rc\<rparr>)" "cursor_inv dec (w\<lparr>w_rx := rc\<rparr>)" "rx_core (w\<lparr>w_rx := rc\<rparr>)"
proof -
  let ?w = "w\<lparr>w_rx := rc\<rparr>"
  have fr: "frames ?w = frames w" using assms(1) by (simp add: frames_def same_data_def)
  have good: "good ?w i = good w i" for i using assms(1) unfolding good_def fr by (simp add: same_data_def)
  show "server_inv ?w" using assms(2) by (simp add: server_inv_def)
  show "cursor_inv dec ?w" using assms(1,3) unfolding cursor_inv_def fr by (simp add: same_data_def)
  show "rx_core ?w" using assms(1,4) good by (simp add: rx_core_def Let_def fr) (simp add: same_data_def)
qed

lemma hang_up_same_data:
  assumes "world_inv dec w" "same_data (w_rx w) rc"
  shows "world_inv dec (hang_up b mx d (w\<lparr>w_rx := rc\<rparr>))"
  using same_data_core [OF assms(2)] assms(1) by (intro hang_up_inv) (auto simp: world_inv_def rx_inv_def)

lemma overflow_same_data: "ib_inv (rc_inbox rc) \<Longrightarrow> same_data rc (overflow rc)"
  by (auto simp: same_data_def overflow_def ib_inv_def split: option.splits)

text \<open>
  One accepted frame. The data of the receiver changes as the frame says; what the connection
  carries goes on from the next phase.
\<close>

lemma enter_phase:
  assumes "server_inv w" "w_link w = Some lk" "lk_instance lk \<noteq> []"
    and rc: "ib_generation (rc_inbox rc) = lk_generation lk" "ib_requested (rc_inbox rc) = None" "rc_connected rc"
      "rc_connection_instance rc = lk_instance lk" "rc_identity_supported rc" "rc_prefix_proven rc" "\<not> rc_reset_on_hello rc" "rc_hello_sent rc"
    and w': "w' = w\<lparr>w_rx := rc, w_link := Some (lk\<lparr>lk_wire := ms\<rparr>)\<rparr>"
    and data: "cursor_inv dec w'" "rx_core w'" "pending_inv w'" "sync_inv w'"
    and fol: "follows (epochs w (lk_instance lk)) ph ms ph'" "at_head w lk ph'" "phase_inv w' (lk_instance lk) ph"
  shows "world_inv dec w'"
proof -
  have "server_inv w'" using assms(1) by (simp add: server_inv_def w')
  moreover have "rx_inv w'" using data(2) rc(3) by (simp add: rx_inv_def w')
  moreover have "at_head w' (lk\<lparr>lk_wire := ms\<rparr>) ph'" using fol(2) by (simp add: at_head_def w')
  then have "connected_inv w' (lk\<lparr>lk_wire := ms\<rparr>)"
    using assms(3) rc fol unfolding connected_inv_def Let_def by (auto simp: w')
  then have "link_inv w'" using rc by (simp add: link_inv_def w')
  ultimately show ?thesis using data by (simp add: world_inv_def)
qed

lemma receive_frame:
  assumes "world_inv dec w" "w_link w = Some lk" "connected_inv w lk"
    and "ib_generation (rc_inbox rc) = lk_generation lk" "ib_requested (rc_inbox rc) = None" "rc_connected rc"
      "rc_connection_instance rc = lk_instance lk" "rc_identity_supported rc" "rc_prefix_proven rc" "\<not> rc_reset_on_hello rc" "rc_hello_sent rc"
    and "w' = w\<lparr>w_rx := rc, w_link := Some (lk\<lparr>lk_wire := ms\<rparr>)\<rparr>"
    and "cursor_inv dec w'" "rx_core w'" "pending_inv w'" "sync_inv w'"
    and "follows (epochs w (lk_instance lk)) ph ms ph'" "at_head w lk ph'" "phase_inv w' (lk_instance lk) ph"
  shows "world_inv dec w'"
  by (rule enter_phase [OF _ assms(2) _ assms(4-)]) (use assms(1,3) in \<open>simp_all add: world_inv_def connected_inv_def Let_def\<close>)

lemma later_put:
  assumes "s \<le> n"
  shows "drop (Suc (length q) - (Suc n - s)) (q @ [m]) = drop (length q - (n - s)) q @ [m]"
  using assms by (simp add: Suc_diff_le)

lemma sequenced_frame:
  assumes inv: "world_inv dec w" and lk: "w_link w = Some lk" "connected_inv w lk" "lk_generation lk = ib_generation (rc_inbox (w_rx w))"
    and con: "rc_connected (w_rx w)" and notfull: "\<not> full (w_rx w)" and req: "ib_requested (rc_inbox (w_rx w)) = None"
    and m: "p < length (w_hist w (lk_instance lk, e))" "m = w_hist w (lk_instance lk, e) ! p"
    and ph: "ph = Replaying e p \<and> ph1 = Replaying e (p + 1) \<or> ph = Live e p \<and> ph1 = Live e (p + 1)"
      "phase_inv w (lk_instance lk) ph"
    and fol: "follows (epochs w (lk_instance lk)) ph1 ms ph'" "at_head w lk ph'"
    and rc: "rc = (w_rx w)\<lparr>rc_inbox := put m ((rc_inbox (w_rx w))\<lparr>ib_received := received w + 1\<rparr>)\<rparr>"
  shows "world_inv dec (w\<lparr>w_rx := rc, w_link := Some (lk\<lparr>lk_wire := ms\<rparr>)\<rparr>)" (is "world_inv dec ?w")
proof -
  let ?i = "(lk_instance lk, e)" and ?ib = "rc_inbox (w_rx w)"
  from inv have core: "rx_core w" and cur: "cursor_inv dec w" and pend: "pending_inv w" and syn: "sync_inv w"
    and num: "numbered (w_hist w ?i)" by (auto simp: world_inv_def rx_inv_def server_inv_def)
  from ph have L: "received w = int p" and good: "good w ?i" and rid: "rc_received_id (w_rx w) \<in> {None, Some ?i}"
    and quiet: "ph = Replaying e p \<longrightarrow> \<not> rc_synchronized (w_rx w) \<and> ib_pending ?ib = None"
    by (auto simp: phase_inv_def Let_def)
  have seq: "sequenced m" "msg_sequence m = int p + 1" using numbered_nth [OF num m(1)] by (simp_all add: m(2))
  have not: "m \<noteq> SResync" using seq(1) by auto
  have fr: "frames ?w = frames w @ [m]" by (rule frames_put) (simp add: rc)
  have cur': "cursor_inv dec ?w"
    using cur seq not L unfolding cursor_inv_def fr linked_append by (simp add: rc)
  have good': "good ?w ?i"
    using good seq(1) not m L unfolding good_def fr by (simp add: rc take_Suc_conv_app_nth nat_add_distrib)
  have ib: "ib_inv ?ib" using core by (simp add: rx_core_def Let_def)
  then have "ib_inv (?ib\<lparr>ib_received := received w + 1\<rparr>)" using req by (auto simp: ib_inv_def split: option.splits)
  then have ib': "ib_inv (rc_inbox rc)" using notfull by (simp add: rc full_def put_inv)
  have reset: "\<not> rc_reset_on_hello (w_rx w)" "rc_hello_sent (w_rx w)" using lk(2) by (simp_all add: connected_inv_def Let_def)
  have core': "rx_core ?w"
    using core good' rid reset ib' not L unfolding rx_core_def Let_def fr by (auto simp: rc)
  have pend': "pending_inv ?w"
  proof (cases "ib_pending ?ib")
    case (Some marker)
    have "rs_serial marker \<le> ib_incoming ?ib" using ib Some by (simp add: ib_inv_def)
    note later_put [OF this, of "ib_frames ?ib" m]
    with pend Some seq(1) not show ?thesis by (simp add: pending_inv_def Let_def rc)
  qed (simp add: pending_inv_def rc)
  have "sync_inv ?w" using syn not unfolding sync_inv_def fr by (simp add: rc Let_def)
  moreover have "phase_inv ?w (lk_instance lk) ph1"
    using ph(1,2) good' L quiet by (auto simp: phase_inv_def rc Let_def)
  ultimately show ?thesis
    using receive_frame [OF inv lk(1,2) _ _ _ _ _ _ _ _ refl cur' core' pend' _ fol] lk con req
    by (simp add: rc connected_inv_def Let_def)
qed

lemma plain_frame:
  assumes inv: "world_inv dec w" and lk: "w_link w = Some lk" "connected_inv w lk" "lk_generation lk = ib_generation (rc_inbox (w_rx w))"
    and con: "rc_connected (w_rx w)" and notfull: "\<not> full (w_rx w)" and req: "ib_requested (rc_inbox (w_rx w)) = None"
    and m: "plain m"
    and ph: "phase_inv w (lk_instance lk) ph"
    and fol: "follows (epochs w (lk_instance lk)) ph ms ph'" "at_head w lk ph'"
    and rc: "rc = (w_rx w)\<lparr>rc_inbox := put m (rc_inbox (w_rx w))\<rparr>"
  shows "world_inv dec (w\<lparr>w_rx := rc, w_link := Some (lk\<lparr>lk_wire := ms\<rparr>)\<rparr>)" (is "world_inv dec ?w")
proof -
  let ?ib = "rc_inbox (w_rx w)"
  from inv have core: "rx_core w" and cur: "cursor_inv dec w" and pend: "pending_inv w" and syn: "sync_inv w"
    by (auto simp: world_inv_def rx_inv_def)
  have not: "m \<noteq> SResync" "\<not> sequenced m" using m by simp_all
  have fr: "frames ?w = frames w @ [m]" by (rule frames_put) (simp add: rc)
  have cur': "cursor_inv dec ?w" using cur not unfolding cursor_inv_def fr linked_append by (simp add: rc)
  have good: "good ?w i = good w i" for i using not unfolding good_def fr by (auto simp add: rc)
  have ib: "ib_inv ?ib" using core by (simp add: rx_core_def Let_def)
  have core': "rx_core ?w"
    using core good put_inv [OF ib, of m] notfull not lk(2) unfolding rx_core_def connected_inv_def Let_def fr by (simp add: rc full_def)
  have pend': "pending_inv ?w"
  proof (cases "ib_pending ?ib")
    case (Some marker)
    have "rs_serial marker \<le> ib_incoming ?ib" using ib Some by (simp add: ib_inv_def)
    note later_put [OF this, of "ib_frames ?ib" m]
    with pend Some not show ?thesis by (simp add: pending_inv_def Let_def rc)
  qed (simp add: pending_inv_def rc)
  have "sync_inv ?w" using syn not unfolding sync_inv_def fr by (simp add: rc Let_def)
  moreover have "phase_inv ?w (lk_instance lk) ph"
    using ph good by (auto simp: phase_inv_def rc Let_def split: phase.splits)
  ultimately show ?thesis
    using receive_frame [OF inv lk(1,2) _ _ _ _ _ _ _ _ refl cur' core' pend' _ fol] lk con req
    by (simp add: rc connected_inv_def Let_def)
qed

lemma take_resync_simps [simp]:
  "rc_inbox (take_resync rc) = put SResync (reset_synchronization ((rc_inbox rc)\<lparr>ib_received := 0\<rparr>))"
  "\<not> rc_synchronized (take_resync rc)" "rc_received_id (take_resync rc) = rc_initial_id rc" "rc_initial_id (take_resync rc) = None"
  "rc_prefix_proven (take_resync rc)" "rc_connected (take_resync rc) = rc_connected rc"
  "rc_connection_instance (take_resync rc) = rc_connection_instance rc" "rc_identity_supported (take_resync rc) = rc_identity_supported rc"
  "rc_reset_on_hello (take_resync rc) = rc_reset_on_hello rc" "rc_hello_sent (take_resync rc) = rc_hello_sent rc"
  "rc_validate_prefix (take_resync rc) = rc_validate_prefix rc"
  by (simp_all add: take_resync_def)

text \<open>After a resync the received view is empty, so it is a prefix of every history.\<close>

lemma resync_data:
  assumes core: "rx_core w" and cur: "cursor_inv dec w" and notfull: "\<not> full (w_rx w)" and req: "ib_requested (rc_inbox (w_rx w)) = None"
    and rc: "rc_inbox rc = put SResync (reset_synchronization ((rc_inbox (w_rx w))\<lparr>ib_received := 0\<rparr>))" "\<not> rc_synchronized rc"
      "rc_hello_sent rc" "\<not> rc_reset_on_hello rc"
  shows "cursor_inv dec (w\<lparr>w_rx := rc, w_link := l\<rparr>)" "rx_core (w\<lparr>w_rx := rc, w_link := l\<rparr>)" "good (w\<lparr>w_rx := rc, w_link := l\<rparr>) i"
    "pending_inv (w\<lparr>w_rx := rc, w_link := l\<rparr>)" "sync_inv (w\<lparr>w_rx := rc, w_link := l\<rparr>)"
proof -
  let ?w = "w\<lparr>w_rx := rc, w_link := l\<rparr>"
  have fr: "frames ?w = frames w @ [SResync]" by (rule frames_put) (simp add: rc)
  show good: "good ?w i" for i unfolding good_def fr by (simp add: rc)
  show "cursor_inv dec ?w" using cur unfolding cursor_inv_def fr linked_append by (simp add: rc)
  have "ib_inv (rc_inbox (w_rx w))" using core by (simp add: rx_core_def Let_def)
  then have "ib_inv (reset_synchronization ((rc_inbox (w_rx w))\<lparr>ib_received := 0\<rparr>))" using req by (simp add: ib_inv_def)
  with notfull have "ib_inv (rc_inbox rc)" by (simp add: rc full_def put_inv)
  with core good rc show "rx_core ?w" unfolding rx_core_def Let_def fr by simp
  show "pending_inv ?w" "sync_inv ?w" using rc by (simp_all add: pending_inv_def sync_inv_def)
qed

lemma resync_frame:
  assumes inv: "world_inv dec w" and lk: "w_link w = Some lk" "connected_inv w lk" "lk_generation lk = ib_generation (rc_inbox (w_rx w))"
    and con: "rc_connected (w_rx w)" and notfull: "\<not> full (w_rx w)" and req: "ib_requested (rc_inbox (w_rx w)) = None"
    and ph: "rc_initial_id (w_rx w) \<in> {None, Some (lk_instance lk, e)}"
    and fol: "follows (epochs w (lk_instance lk)) (Replaying e 0) ms ph'" "at_head w lk ph'"
  shows "world_inv dec (w\<lparr>w_rx := take_resync (w_rx w), w_link := Some (lk\<lparr>lk_wire := ms\<rparr>)\<rparr>)" (is "world_inv dec ?w")
proof -
  from inv have core: "rx_core w" "cursor_inv dec w" by (auto simp: world_inv_def rx_inv_def)
  from lk(2) have sent: "rc_hello_sent (take_resync (w_rx w))" "\<not> rc_reset_on_hello (take_resync (w_rx w))"
    by (simp_all add: connected_inv_def Let_def)
  note data = resync_data [OF core notfull req _ _ sent, of "Some (lk\<lparr>lk_wire := ms\<rparr>)"]
  have "phase_inv ?w (lk_instance lk) (Replaying e 0)"
    using ph data(3) by (auto simp: phase_inv_def Let_def)
  then show ?thesis
    using receive_frame [OF inv lk(1,2) _ _ _ _ _ _ _ _ refl _ _ _ _ fol] lk con req data
    by (simp add: connected_inv_def Let_def)
qed

lemma complete_frame:
  assumes inv: "world_inv dec w" and lk: "w_link w = Some lk" "connected_inv w lk" "lk_generation lk = ib_generation (rc_inbox (w_rx w))"
    and con: "rc_connected (w_rx w)" and req: "ib_requested (rc_inbox (w_rx w)) = None"
    and ph: "phase_inv w (lk_instance lk) (Replaying e p)"
    and fol: "follows (epochs w (lk_instance lk)) (Live e p) ms ph'" "at_head w lk ph'"
    and rc: "rc = (w_rx w)\<lparr>rc_inbox := (rc_inbox (w_rx w))\<lparr>ib_pending := Some \<lparr>rs_generation = lk_generation lk, rs_head = int p,
        rs_epoch = e, rs_serial = ib_incoming (rc_inbox (w_rx w))\<rparr>\<rparr>, rc_initial_id := None,
      rc_received_id := Some (lk_instance lk, e)\<rparr>"
  shows "world_inv dec (w\<lparr>w_rx := rc, w_link := Some (lk\<lparr>lk_wire := ms\<rparr>)\<rparr>)" (is "world_inv dec ?w")
proof -
  from inv have core: "rx_core w" and cur: "cursor_inv dec w" by (auto simp: world_inv_def rx_inv_def)
  from ph have L: "received w = int p" and good: "good w (lk_instance lk, e)" and quiet: "\<not> rc_synchronized (w_rx w)"
    by (auto simp: phase_inv_def Let_def)
  have fr: "frames ?w = frames w" by (simp add: frames_def rc)
  have good': "good ?w i = good w i" for i unfolding good_def fr by (simp add: rc)
  have cur': "cursor_inv dec ?w" using cur unfolding cursor_inv_def fr by (simp add: rc)
  have "ib_inv (rc_inbox rc)" using core lk(3) unfolding rx_core_def Let_def by (auto simp: rc ib_inv_def split: option.splits)
  then have core': "rx_core ?w" using core good good' unfolding rx_core_def Let_def fr by (simp add: rc)
  have pend': "pending_inv ?w" using L by (simp add: pending_inv_def rc Let_def)
  have "sync_inv ?w" using quiet by (simp add: sync_inv_def rc)
  moreover have "phase_inv ?w (lk_instance lk) (Live e p)" using L good good' by (simp add: phase_inv_def rc Let_def)
  ultimately show ?thesis
    using receive_frame [OF inv lk(1,2) _ _ _ _ _ _ _ _ refl cur' core' pend' _ fol] lk con req
    by (simp add: rc connected_inv_def Let_def)
qed

lemma skip_frame:
  assumes inv: "world_inv dec w" and lk: "w_link w = Some lk" "connected_inv w lk" "lk_generation lk = ib_generation (rc_inbox (w_rx w))"
    and con: "rc_connected (w_rx w)" and req: "ib_requested (rc_inbox (w_rx w)) = None" and ph: "phase_inv w (lk_instance lk) ph"
    and fol: "follows (epochs w (lk_instance lk)) ph ms ph'" "at_head w lk ph'"
  shows "world_inv dec (w\<lparr>w_rx := w_rx w, w_link := Some (lk\<lparr>lk_wire := ms\<rparr>)\<rparr>)" (is "world_inv dec ?w")
proof -
  have fr: "frames ?w = frames w" by (simp add: frames_def)
  have good: "good ?w i = good w i" for i unfolding good_def fr by simp
  have parts: "cursor_inv dec w" "rx_core w" "pending_inv w" "sync_inv w" using inv by (auto simp: world_inv_def rx_inv_def)
  have "cursor_inv dec ?w" using parts(1) unfolding cursor_inv_def fr by simp
  moreover have "rx_core ?w" using parts(2) good unfolding rx_core_def fr by simp
  moreover have "pending_inv ?w" using parts(3) by (simp add: pending_inv_def)
  moreover have "sync_inv ?w" using parts(4) unfolding sync_inv_def fr by simp
  moreover have "phase_inv ?w (lk_instance lk) ph" using ph good by (cases ph) (simp_all add: phase_inv_def)
  ultimately show ?thesis
    using receive_frame [where rc = "w_rx w", OF inv lk(1,2) _ _ _ _ _ _ _ _ refl _ _ _ _ fol] lk con req
    by (simp add: connected_inv_def Let_def)
qed

lemma connected_receive:
  assumes inv: "world_inv dec w" and lk: "w_link w = Some lk" "lk_wire lk = m # ms" "lk_generation lk = ib_generation (rc_inbox (w_rx w))"
    and con: "rc_connected (w_rx w)"
  shows "case handle_data_message (lk_generation lk) m (w_rx w) of (go_on, rc) \<Rightarrow>
    if go_on then world_inv dec (w\<lparr>w_rx := rc, w_link := Some (lk\<lparr>lk_wire := ms\<rparr>)\<rparr>) else same_data (w_rx w) rc"
proof -
  from inv lk con have cinv: "connected_inv w lk" and req: "ib_requested (rc_inbox (w_rx w)) = None"
    by (auto simp: world_inv_def link_inv_def)
  then obtain ph ph' where fol: "follows (epochs w (lk_instance lk)) ph (m # ms) ph'" and head: "at_head w lk ph'"
    and ph: "phase_inv w (lk_instance lk) ph" by (auto simp: connected_inv_def Let_def lk(2))
  have core: "ib_inv (rc_inbox (w_rx w))" "\<not> ib_contiguous (rc_inbox (w_rx w))"
    using inv by (auto simp: world_inv_def rx_inv_def rx_core_def Let_def)
  have num: "numbered (w_hist w i)" for i using inv unfolding world_inv_def server_inv_def by blast
  note over = overflow_same_data [OF core(1)]
  note base = inv lk(1) cinv lk(3) con
  have rec: ?thesis
    if "p < length (w_hist w (lk_instance lk, e))" "m = w_hist w (lk_instance lk, e) ! p"
      "ph = Replaying e p \<and> ph1 = Replaying e (p + 1) \<or> ph = Live e p \<and> ph1 = Live e (p + 1)"
      "follows (epochs w (lk_instance lk)) ph1 ms ph'" for e p ph1
  proof -
    have L: "received w = int p" using ph that(3) by (auto simp: phase_inv_def Let_def)
    have "sequenced m" "msg_sequence m = int p + 1" using numbered_nth [OF num that(1)] by (simp_all add: that(2))
    with data_sequenced [OF this(1), of "w_rx w"] core(2) lk(3) L over
      sequenced_frame [OF base _ req that(1-3) ph that(4) head refl] show ?thesis by auto
  qed
  have resync: ?thesis if "m = SResync" "rc_initial_id (w_rx w) \<in> {None, Some (lk_instance lk, e)}"
      "follows (epochs w (lk_instance lk)) (Replaying e 0) ms ph'" for e
    using data_resync [OF lk(3)] resync_frame [OF base _ req that(2,3) head] over that(1) by auto
  from fol show ?thesis
  proof (cases rule: follows.cases)
    case other
    then have m: "plain m" and ms: "follows (epochs w (lk_instance lk)) ph ms ph'" by simp_all
    note skip = skip_frame [OF base req ph ms head] and store = plain_frame [OF base _ req m ph ms head refl]
    from data_plain [OF m lk(3)] show ?thesis
    proof
      assume "handle_data_message (lk_generation lk) m (w_rx w) = (True, w_rx w)"
      then show ?thesis unfolding split if_True using skip by simp
    next
      assume "handle_data_message (lk_generation lk) m (w_rx w) = (if full (w_rx w) then (False, overflow (w_rx w))
        else (True, (w_rx w)\<lparr>rc_inbox := put m (rc_inbox (w_rx w))\<rparr>))"
      with store over show ?thesis by (cases "full (w_rx w)") simp_all
    qed
  next
    case (stale_resync e)
    with ph resync [of e] show ?thesis by (simp add: phase_inv_def Let_def)
  next
    case (replayed p e)
    with rec [of p e] show ?thesis by simp
  next
    case (complete e p)
    note c = cinv [unfolded connected_inv_def Let_def]
    have "handle_data_message (lk_generation lk) m (w_rx w) = (True, (w_rx w)\<lparr>rc_inbox := (rc_inbox (w_rx w))\<lparr>ib_pending :=
        Some \<lparr>rs_generation = lk_generation lk, rs_head = int p, rs_epoch = e, rs_serial = ib_incoming (rc_inbox (w_rx w))\<rparr>\<rparr>,
        rc_initial_id := None, rc_received_id := Some (lk_instance lk, e)\<rparr>)"
      using data_complete [OF lk(3)] c complete by simp
    with complete_frame [OF base req _ _ head refl] ph complete show ?thesis by simp
  next
    case (live p e)
    with rec [of p e] show ?thesis by simp
  next
    case (live_resync e' e p)
    with ph resync [of e'] show ?thesis by (simp add: phase_inv_def Let_def)
  qed
qed

section \<open>The handshake\<close>

text \<open>
  What a hello reply of a server with replay identities does, when it is not refused: the
  connection's identity is recorded, a pending reset is queued, and the prefix is taken over when
  it is empty or proven.
\<close>

lemma negotiate_cases:
  assumes "negotiate ho s rc = (go_on, rc')" "ho_replay_identity ho" "ib_inv (rc_inbox rc)"
  shows "same_data rc rc'" "rc_inbox rc' = rc_inbox rc" "rc_connection_instance rc' = ho_server_instance ho" "rc_identity_supported rc'"
    "rc_prefix_proven rc' \<longleftrightarrow> s = 1 \<or> rc_validate_prefix rc" "rc_validate_prefix rc' = rc_validate_prefix rc"
    "rc_synchronized rc' = rc_synchronized rc"
  using assms by (auto simp: negotiate_def reject_hello_def same_data_def Let_def split: if_splits)

lemma begin_replay_reset:
  assumes "g = ib_generation (rc_inbox rc)" "connection_replay_identity (ho_replay_epoch ho) rc = Some i" "rc_reset_on_hello rc"
  shows "begin_replay ho s g rc = (if full rc then (False, overflow (rc\<lparr>rc_initial_id := Some i\<rparr>))
    else (True, (take_resync (rc\<lparr>rc_initial_id := Some i\<rparr>))\<lparr>rc_reset_on_hello := False, rc_connected := True, rc_handshake := True\<rparr>))"
proof -
  have "full (rc\<lparr>rc_initial_id := Some i\<rparr>) = full rc" by (simp add: full_def)
  with assms show ?thesis
    by (simp add: begin_replay_def data_resync set_connected_def take_resync_def Let_def)
qed

lemma begin_replay_plain:
  assumes "g = ib_generation (rc_inbox rc)" "connection_replay_identity (ho_replay_epoch ho) rc = Some i" "\<not> rc_reset_on_hello rc"
  shows "begin_replay ho s g rc = (True, rc\<lparr>rc_initial_id := Some i,
    rc_received_id := (if s = 1 then Some i else rc_received_id rc), rc_connected := True, rc_handshake := True\<rparr>)"
  using assms by (auto simp add: begin_replay_def set_connected_def Let_def)

lemma hello_start:
  assumes inv: "world_inv dec w" and lk: "w_link w = Some lk" "lk_generation lk = ib_generation (rc_inbox (w_rx w))"
    and con: "\<not> rc_connected (w_rx w)" and wire: "lk_wire lk = SHelloOk ho # ms"
    and neg: "negotiate ho (lk_sync_from lk) (w_rx w) = (True, rc)"
  shows "case begin_replay ho (lk_sync_from lk) (lk_generation lk) rc of (go_on, rc') \<Rightarrow>
    if go_on then world_inv dec (w\<lparr>w_rx := rc', w_link := Some (lk\<lparr>lk_wire := ms\<rparr>)\<rparr>) else same_data (w_rx w) rc'"
proof -
  let ?g = "lk_generation lk" and ?s = "lk_sync_from lk" and ?inst = "lk_instance lk"
  let ?l = "Some (lk\<lparr>lk_wire := ms\<rparr>)"
  from inv have srv: "server_inv w" and cur: "cursor_inv dec w" and core: "rx_core w"
    and quiet: "\<not> rc_synchronized (w_rx w)" "ib_pending (rc_inbox (w_rx w)) = None"
    using con by (auto simp: world_inv_def rx_inv_def)
  from inv lk con have aw: "awaiting_inv w lk" and req: "ib_requested (rc_inbox (w_rx w)) = None"
    by (auto simp: world_inv_def link_inv_def)
  from aw wire obtain e ph ph' where ho: "ho_server_instance ho = ?inst" "ho_replay_identity ho" "ho_replay_epoch ho = Some e"
      "?inst \<noteq> []" and fol: "follows (epochs w ?inst) ph ms ph'" "at_head w lk ph'"
    and ph: "ph = Stale e \<and> received w \<noteq> 0 \<or>
      ph = Replaying e (nat (received w)) \<and> (received w = 0 \<or> rc_received_id (w_rx w) = Some (?inst, e))"
    and s: "?s = received w + 1" "rc_validate_prefix (w_rx w) \<or> received w = 0" and sent: "rc_hello_sent (w_rx w)"
    by (auto simp: awaiting_inv_def Let_def)
  have ib: "ib_inv (rc_inbox (w_rx w))" using core by (simp add: rx_core_def Let_def)
  then have nonneg: "0 \<le> received w" by (simp add: ib_inv_def)
  note n = negotiate_cases [OF neg ho(2) ib]
  have same: "rc_received_id rc = rc_received_id (w_rx w)" "rc_reset_on_hello rc = rc_reset_on_hello (w_rx w)"
    "rc_hello_sent rc = rc_hello_sent (w_rx w)" using n(1) by (simp_all add: same_data_def)
  have gen: "?g = ib_generation (rc_inbox rc)" using lk(2) n(2) by simp
  have id: "connection_replay_identity (ho_replay_epoch ho) rc = Some (?inst, e)"
    using n(3,4) ho by (simp add: connection_replay_identity_def)
  have proven: "?s = 1 \<or> rc_validate_prefix (w_rx w)" using s by auto
  show ?thesis
  proof (cases "rc_reset_on_hello (w_rx w)")
    case True
    then have zero: "received w = 0" using core cur by (simp add: rx_core_def cursor_inv_def Let_def)
    define rc' where "rc' = (take_resync (rc\<lparr>rc_initial_id := Some (?inst, e)\<rparr>))\<lparr>rc_reset_on_hello := False, rc_connected := True, rc_handshake := True\<rparr>"
    have f: "full rc = full (w_rx w)" by (simp add: full_def n(2))
    have over: "same_data (w_rx w) (overflow (rc\<lparr>rc_initial_id := Some (?inst, e)\<rparr>))"
      using n(1) ib by (auto simp: same_data_def overflow_def ib_inv_def n(2) split: option.splits)
    have start: "world_inv dec (w\<lparr>w_rx := rc', w_link := ?l\<rparr>)" if "\<not> full (w_rx w)"
    proof (rule enter_phase [OF srv lk(1) ho(4)])
      have rc': "rc_inbox rc' = put SResync (reset_synchronization ((rc_inbox (w_rx w))\<lparr>ib_received := 0\<rparr>))"
        "\<not> rc_synchronized rc'" "rc_hello_sent rc'" "\<not> rc_reset_on_hello rc'" by (simp_all add: rc'_def n(2) same sent)
      note data = resync_data [OF core cur that req rc', of ?l]
      then show "cursor_inv dec (w\<lparr>w_rx := rc', w_link := ?l\<rparr>)" "rx_core (w\<lparr>w_rx := rc', w_link := ?l\<rparr>)"
        "pending_inv (w\<lparr>w_rx := rc', w_link := ?l\<rparr>)" "sync_inv (w\<lparr>w_rx := rc', w_link := ?l\<rparr>)" by simp_all
      show "phase_inv (w\<lparr>w_rx := rc', w_link := ?l\<rparr>) ?inst ph"
        using ph zero data(3) by (simp add: phase_inv_def Let_def) (simp add: rc'_def)
    qed (use fol n lk(2) req sent in \<open>simp_all add: rc'_def same ho(1)\<close>)
    from begin_replay_reset [OF gen id, of ?s] True same(2) f over start show ?thesis by (simp add: rc'_def)
  next
    case False
    define rc' where "rc' = rc\<lparr>rc_initial_id := Some (?inst, e),
      rc_received_id := (if ?s = 1 then Some (?inst, e) else rc_received_id rc), rc_connected := True, rc_handshake := True\<rparr>"
    let ?w = "w\<lparr>w_rx := rc', w_link := ?l\<rparr>"
    have ib': "rc_inbox rc' = rc_inbox (w_rx w)" by (simp add: rc'_def n(2))
    have fr: "frames ?w = frames w" by (simp add: frames_def ib')
    have good: "good ?w i = good w i" for i unfolding good_def fr by (simp add: ib')
    have empty: "good w i" if "received w = 0" for i
      using that cur core False by (auto simp: good_def cursor_inv_def rx_core_def Let_def)
    have held: "good w i" if "rc_received_id (w_rx w) = Some i" for i using core that unfolding rx_core_def Let_def by blast
    have "world_inv dec ?w"
    proof (rule enter_phase [OF srv lk(1) ho(4)])
      show "cursor_inv dec ?w" using cur unfolding cursor_inv_def fr by (simp add: ib')
      have "good w i" if "rc_received_id rc' = Some i" for i
        using that empty held s(1) by (auto simp: rc'_def same split: if_splits)
      moreover have "rc_reset_on_hello rc' = rc_reset_on_hello (w_rx w)" "rc_hello_sent rc' = rc_hello_sent (w_rx w)"
        by (simp_all add: rc'_def same)
      ultimately show "rx_core ?w" using core good unfolding rx_core_def Let_def fr by (simp add: ib')
      have init: "rc_initial_id rc' = Some (?inst, e)" "rc_received_id rc' = (if ?s = 1 then Some (?inst, e) else rc_received_id (w_rx w))"
        "\<not> rc_synchronized rc'" using quiet by (simp_all add: rc'_def same n(7))
      then show "pending_inv ?w" "sync_inv ?w" using quiet by (simp_all add: pending_inv_def sync_inv_def ib')
      from init show "phase_inv ?w ?inst ph"
        using ph good empty held s(1) nonneg quiet by (auto simp: phase_inv_def ib' Let_def)
    qed (use fol n lk(2) req sent proven False in \<open>simp_all add: ib' rc'_def same ho(1)\<close>)
    with begin_replay_plain [OF gen id, of ?s] False same(2) show ?thesis by (simp add: rc'_def)
  qed
qed

lemma handshake_receive:
  assumes inv: "world_inv dec w" and lk: "w_link w = Some lk" "lk_wire lk = m # ms" "lk_generation lk = ib_generation (rc_inbox (w_rx w))"
    and con: "\<not> rc_connected (w_rx w)"
  shows "case handle_handshake_message m (lk_sync_from lk) (lk_generation lk) (w_rx w) of (go_on, rc) \<Rightarrow>
    if go_on then world_inv dec (w\<lparr>w_rx := rc, w_link := Some (lk\<lparr>lk_wire := ms\<rparr>)\<rparr>) else same_data (w_rx w) rc"
proof -
  have ib: "ib_inv (rc_inbox (w_rx w))" using inv by (simp add: world_inv_def rx_inv_def rx_core_def Let_def)
  from inv lk con have "awaiting_inv w lk" by (auto simp: world_inv_def link_inv_def)
  with lk(2) consider ho where "m = SHelloOk ho" "ho_replay_identity ho" | reason where "m = SAuthRejected reason"
    | code reason where "m = SHelloRejected code reason" by (auto simp: awaiting_inv_def Let_def)
  then show ?thesis
  proof cases
    case 1
    obtain go_on rc where neg: "negotiate ho (lk_sync_from lk) (w_rx w) = (go_on, rc)" by fastforce
    show ?thesis
    proof (cases go_on)
      case True
      with neg have neg: "negotiate ho (lk_sync_from lk) (w_rx w) = (True, rc)" by simp
      with hello_start [OF inv lk(1,3) con _ neg] lk(2) 1(1) show ?thesis
        by (simp add: handle_handshake_message_def)
    next
      case False
      with negotiate_cases(1) [OF neg 1(2) ib] neg 1(1) show ?thesis by (simp add: handle_handshake_message_def)
    qed
  qed (use ib in \<open>simp_all add: handle_handshake_message_def reject_hello_def same_data_def\<close>)
qed

section \<open>The consumer\<close>

text \<open>A replay request from the consumer's cursor drops what was queued and the identity.\<close>

lemma request_inv:
  assumes "server_inv w" "ib_inv (rc_inbox (w_rx w))" "w_hand w = None"
    and cur: "dp_last_seq (w_dp w) = int (length (w_held w))" "\<not> w_dirty w \<longrightarrow> dp_scene (w_dp w) = decoded dec (w_held w)"
    and core: "rc_reset_on_hello (w_rx w) \<longrightarrow> w_held w = []" "\<not> rc_hello_sent (w_rx w) \<longrightarrow> w_held w = []"
      "\<not> ib_contiguous (rc_inbox (w_rx w))"
    and link: "w_link w = None \<longrightarrow> \<not> rc_connected (w_rx w)" "\<And>lk. w_link w = Some lk \<Longrightarrow> lk_generation lk \<le> ib_generation (rc_inbox (w_rx w))"
    and w': "w' = w\<lparr>w_rx := snd (request_replay_from (dp_last_seq (w_dp w) + 1) (w_rx w))\<rparr>"
  shows "world_inv dec w'"
proof -
  define rc where "rc = snd (request_replay_from (dp_last_seq (w_dp w) + 1) (w_rx w))"
  have rc: "ib_frames (rc_inbox rc) = []" "ib_received (rc_inbox rc) = int (length (w_held w))" "\<not> rc_synchronized rc"
    "rc_received_id rc = None" "rc_connected rc = rc_connected (w_rx w)" "rc_hello_sent rc = rc_hello_sent (w_rx w)"
    "rc_reset_on_hello rc \<longleftrightarrow> rc_reset_on_hello (w_rx w) \<or> w_held w = []" "ib_contiguous (rc_inbox rc) = ib_contiguous (rc_inbox (w_rx w))"
    "ib_generation (rc_inbox rc) = ib_generation (rc_inbox (w_rx w)) + 1" "ib_pending (rc_inbox rc) = None"
    by (auto simp: rc_def cur(1) request_replay_from_def ib_request_replay_from_def)
  have ib: "ib_inv (rc_inbox rc)"
    using ib_inv_operations(7) [OF assms(2), of "int (length (w_held w)) + 1"]
    by (simp add: rc_def cur(1) request_replay_from_def)
  have w': "w' = w\<lparr>w_rx := rc\<rparr>" by (simp add: w' rc_def)
  have fr: "frames w' = []" by (simp add: frames_def w' assms(3) rc)
  have "cursor_inv dec w'" using cur unfolding cursor_inv_def fr by (simp add: w' rc)
  moreover have "rx_core w'" using ib rc core unfolding rx_core_def Let_def fr by (simp add: w')
  moreover have "rx_inv w'" if "rx_core w'" using that link(1) rc by (simp add: rx_inv_def w')
  moreover have "server_inv w'" using assms(1) by (simp add: server_inv_def w')
  moreover have "pending_inv w'" "sync_inv w'" using rc by (simp_all add: pending_inv_def sync_inv_def w')
  moreover have "link_inv w'" using link(2) rc(9) by (force simp: link_inv_def w' split: option.splits)
  ultimately show ?thesis by (simp add: world_inv_def)
qed

lemma link_generation:
  assumes "world_inv dec w"
  shows "w_link w = None \<longrightarrow> \<not> rc_connected (w_rx w)" "w_link w = Some lk \<Longrightarrow> lk_generation lk \<le> ib_generation (rc_inbox (w_rx w))"
  using assms by (auto simp: world_inv_def rx_inv_def link_inv_def)

text \<open>Changes that keep the view of the frames and the receiver's connection keep the link.\<close>

lemma link_inv_view:
  assumes "link_inv w" and eq: "w_link w' = w_link w" "w_hist w' = w_hist w" "w_instance w' = w_instance w" "w_epoch w' = w_epoch w"
    and rc: "ib_generation (rc_inbox (w_rx w')) = ib_generation (rc_inbox (w_rx w))" "ib_requested (rc_inbox (w_rx w')) = ib_requested (rc_inbox (w_rx w))"
      "received w' = received w" "rc_connected (w_rx w') = rc_connected (w_rx w)" "rc_received_id (w_rx w') = rc_received_id (w_rx w)"
      "rc_initial_id (w_rx w') = rc_initial_id (w_rx w)" "rc_connection_instance (w_rx w') = rc_connection_instance (w_rx w)"
      "rc_identity_supported (w_rx w') = rc_identity_supported (w_rx w)" "rc_prefix_proven (w_rx w') = rc_prefix_proven (w_rx w)"
      "rc_reset_on_hello (w_rx w') = rc_reset_on_hello (w_rx w)" "rc_hello_sent (w_rx w') = rc_hello_sent (w_rx w)"
      "rc_validate_prefix (w_rx w') = rc_validate_prefix (w_rx w)"
    and sync: "rc_synchronized (w_rx w') \<and> \<not> rc_synchronized (w_rx w) \<longrightarrow> ib_pending (rc_inbox (w_rx w)) \<noteq> None"
      "ib_pending (rc_inbox (w_rx w)) = None \<longrightarrow> ib_pending (rc_inbox (w_rx w')) = None"
    and good: "\<And>i. good w i \<Longrightarrow> good w' i"
  shows "link_inv w'"
proof -
  have phase: "phase_inv w' i ph" if "phase_inv w i ph" for i ph
    using that sync good rc by (cases ph) (auto simp: phase_inv_def Let_def)
  have head: "at_head w' lk ph = at_head w lk ph" for lk ph by (simp add: at_head_def eq)
  have "connected_inv w' lk" if "connected_inv w lk" for lk
    using that phase unfolding connected_inv_def Let_def rc eq head by blast
  moreover have "awaiting_inv w' lk" if "awaiting_inv w lk" for lk
    using that unfolding awaiting_inv_def Let_def rc eq head by blast
  ultimately show ?thesis using assms(1) by (auto simp: link_inv_def eq rc split: option.splits)
qed

lemma drop_later: "a \<le> b \<Longrightarrow> \<exists>xs. drop a q = xs @ drop b q"
  by (metis append_take_drop_id drop_drop le_add_diff_inverse2)

lemma drained_inv:
  assumes inv: "world_inv dec w" and "w_hand w = None" "drain_queue n (w_rx w) = (Inr bufs, rc)"
  shows "world_inv dec (w\<lparr>w_rx := rc, w_hand := Some bufs\<rparr>)" (is "world_inv dec ?w")
proof -
  let ?ib = "rc_inbox (w_rx w)"
  define k where "k = min (case n of None \<Rightarrow> length (ib_frames ?ib) | Some m \<Rightarrow> m) (length (ib_frames ?ib))"
  have k: "k \<le> length (ib_frames ?ib)" "bufs = take k (ib_frames ?ib)"
    and rc: "rc = (w_rx w)\<lparr>rc_inbox := ?ib\<lparr>ib_frames := drop k (ib_frames ?ib), ib_drained := ib_drained ?ib + k\<rparr>\<rparr>"
    using assms(3) by (auto simp: k_def drain_queue_def ib_drain_def Let_def split: if_splits)
  have fr: "frames ?w = frames w" by (simp add: frames_def assms(2) k(2) rc)
  have good: "good ?w i = good w i" for i unfolding good_def fr by (simp add: rc)
  from inv have parts: "server_inv w" "cursor_inv dec w" "rx_inv w" "pending_inv w" "sync_inv w" "link_inv w"
    by (simp_all add: world_inv_def)
  have "ib_inv ?ib" using parts(3) by (simp add: rx_inv_def rx_core_def Let_def)
  then have ib: "ib_inv (rc_inbox rc)" using k(1) by (auto simp: rc ib_inv_def split: option.splits)
  have "server_inv ?w" using parts(1) by (simp add: server_inv_def)
  moreover have "cursor_inv dec ?w" using parts(2) unfolding cursor_inv_def fr by (simp add: rc)
  moreover have "rx_inv ?w"
    using parts(3) ib good unfolding rx_inv_def rx_core_def Let_def fr by (simp add: rc)
  moreover have "sync_inv ?w" using parts(5) unfolding sync_inv_def Let_def fr by (simp add: rc)
  moreover have "link_inv ?w" by (rule link_inv_view [OF parts(6)]) (use good in blast | simp add: rc)+
  moreover have "pending_inv ?w"
  proof (cases "ib_pending ?ib")
    case (Some marker)
    let ?n = "ib_incoming ?ib - rs_serial marker" and ?q = "ib_frames ?ib"
    have "\<exists>xs. drop (length ?q - ?n) ?q = xs @ drop (k + (length ?q - k - ?n)) ?q" by (rule drop_later) linarith
    then obtain xs where "drop (length ?q - ?n) ?q = xs @ drop (length (drop k ?q) - ?n) (drop k ?q)" by (auto simp: add.commute)
    with parts(4) Some show ?thesis by (auto simp: pending_inv_def Let_def rc)
  qed (simp add: pending_inv_def rc)
  ultimately show ?thesis by (simp add: world_inv_def)
qed

lemma mark_inv:
  assumes inv: "world_inv dec w" and hand: "w_hand w = None"
  shows "world_inv dec (w\<lparr>w_rx := snd (mark_replay_applied (w_rx w))\<rparr>)" (is "world_inv dec ?w")
proof (cases "fst (ib_mark_replay_applied (rc_inbox (w_rx w)))")
  case False
  then have "snd (mark_replay_applied (w_rx w)) = w_rx w"
    by (auto simp: mark_replay_applied_def ib_mark_replay_applied_def split: option.splits prod.splits)
  with inv show ?thesis by simp
next
  case True
  let ?ib = "rc_inbox (w_rx w)"
  from True obtain marker where mk: "ib_pending ?ib = Some marker" "rs_serial marker \<le> ib_drained ?ib"
    by (auto simp: ib_mark_replay_applied_def split: option.splits if_splits)
  from inv have parts: "server_inv w" "cursor_inv dec w" "rx_inv w" "pending_inv w" "link_inv w" by (simp_all add: world_inv_def)
  have ib: "ib_inv ?ib" and held: "\<And>i. rc_received_id (w_rx w) = Some i \<Longrightarrow> good w i"
    using parts(3) unfolding rx_inv_def rx_core_def Let_def by blast+
  from ib mk(2) have "length (ib_frames ?ib) - (ib_incoming ?ib - rs_serial marker) = 0" by (simp add: ib_inv_def)
  with parts(4) mk(1) obtain i where id: "rc_received_id (w_rx w) = Some (i, rs_epoch marker)"
    and later: "SResync \<notin> set (frames w)" "int (length (filter sequenced (frames w))) \<le> received w - rs_head marker"
    by (auto simp: pending_inv_def Let_def frames_def hand)
  define rc where "rc = (w_rx w)\<lparr>rc_inbox := snd (ib_mark_replay_applied ?ib), rc_replay_head := rs_head marker,
    rc_replay_epoch := rs_epoch marker, rc_server_instance := i, rc_synchronized := True\<rparr>"
  have rc: "snd (mark_replay_applied (w_rx w)) = rc"
    using True mk by (auto simp: rc_def mark_replay_applied_def ib_mark_replay_applied_def id split: if_splits)
  have ib': "ib_inv (rc_inbox rc)" "ib_frames (rc_inbox rc) = ib_frames ?ib" "ib_received (rc_inbox rc) = ib_received ?ib"
    "ib_pending (rc_inbox rc) = None" "ib_generation (rc_inbox rc) = ib_generation ?ib" "ib_requested (rc_inbox rc) = ib_requested ?ib"
    "ib_contiguous (rc_inbox rc) = ib_contiguous ?ib"
    using True ib_inv_operations(6) [OF ib] mk by (auto simp: rc_def ib_mark_replay_applied_def split: if_splits)
  have fr: "frames ?w = frames w" by (simp add: frames_def rc ib')
  have good: "good ?w j = good w j" for j unfolding good_def fr by (simp add: rc ib')
  have con: "rc_connected (w_rx w)" using parts(3) mk(1) by (auto simp: rx_inv_def)
  have "rc_received_id rc = rc_received_id (w_rx w)" "rc_reset_on_hello rc = rc_reset_on_hello (w_rx w)"
    "rc_hello_sent rc = rc_hello_sent (w_rx w)" "rc_connected rc" using con by (simp_all add: rc_def)
  then have "rx_inv ?w" using parts(3) ib' good con unfolding rx_inv_def rx_core_def Let_def fr by (simp add: rc)
  moreover have "server_inv ?w" using parts(1) by (simp add: server_inv_def)
  moreover have "cursor_inv dec ?w" using parts(2) unfolding cursor_inv_def fr by (simp add: rc ib')
  moreover have "pending_inv ?w" by (simp add: pending_inv_def rc ib')
  moreover have "rs_head marker \<le> dp_last_seq (w_dp w)"
    using later parts(2) by (simp add: cursor_inv_def held_after_filter)
  then have "sync_inv ?w"
    using held [OF id] later(1) id unfolding sync_inv_def Let_def fr by (simp add: rc rc_def good_def)
  moreover have "link_inv ?w"
    by (rule link_inv_view [OF parts(5)]) (use good in blast | simp add: rc ib' mk | simp add: rc_def)+
  ultimately show ?thesis by (simp add: world_inv_def)
qed

text \<open>A batch that was applied whole leaves the consumer behind the frames still queued.\<close>

lemma applied_inv:
  assumes inv: "world_inv dec w" and hand: "w_hand w = Some bufs"
    and dp: "dp_last_seq dp = int (length (held_after (w_held w) bufs))"
      "\<not> w_dirty w \<or> SResync \<in> set bufs \<longrightarrow> dp_scene dp = decoded dec (held_after (w_held w) bufs)"
    and w': "w' = w\<lparr>w_dp := dp, w_hand := None, w_held := held_after (w_held w) bufs, w_dirty := (w_dirty w \<and> SResync \<notin> set bufs)\<rparr>"
  shows "world_inv dec w'"
proof -
  let ?q = "ib_frames (rc_inbox (w_rx w))"
  have fr: "frames w = bufs @ ?q" "frames w' = ?q" by (simp_all add: frames_def hand w')
  have good: "good w' i" if "good w i" for i using that unfolding good_def fr by (auto simp: w')
  from inv have parts: "server_inv w" "cursor_inv dec w" "rx_inv w" "pending_inv w" "sync_inv w" "link_inv w"
    by (simp_all add: world_inv_def)
  have "server_inv w'" using parts(1) by (simp add: server_inv_def w')
  moreover have "cursor_inv dec w'"
    using parts(2) dp unfolding cursor_inv_def fr linked_append by (simp add: w')
  moreover have "rx_core w'"
  proof -
    have core: "rx_core w" using parts(3) by (simp add: rx_inv_def)
    have f: "w_rx w' = w_rx w" "w_dirty w' = (w_dirty w \<and> SResync \<notin> set bufs)" "w_held w' = held_after (w_held w) bufs"
      by (simp_all add: w')
    have "\<forall>i. rc_received_id (w_rx w) = Some i \<longrightarrow> good w' i" using good core unfolding rx_core_def Let_def by blast
    moreover have "w_dirty w' \<and> SResync \<notin> set ?q \<and> received w = 0 \<longrightarrow> rc_reset_on_hello (w_rx w)"
      using core unfolding rx_core_def Let_def fr f set_append by blast
    moreover have "bufs = []" if "rc_reset_on_hello (w_rx w) \<or> \<not> rc_hello_sent (w_rx w)"
      using core that unfolding rx_core_def Let_def fr append_is_Nil_conv by blast
    ultimately show ?thesis using core unfolding rx_core_def Let_def fr f(1,3) append_is_Nil_conv
      by (metis held_after.simps(1))
  qed
  moreover have "rx_inv w'" if "rx_core w'" using parts(3) that by (simp add: rx_inv_def w')
  moreover have "pending_inv w'" using parts(4) by (simp add: pending_inv_def w')
  moreover have "dp_last_seq (w_dp w) \<le> dp_last_seq dp" if "SResync \<notin> set bufs"
    using that parts(2) dp(1) by (simp add: cursor_inv_def held_after_filter)
  then have "sync_inv w'"
    using parts(5) unfolding sync_inv_def Let_def fr by (auto simp: w' intro: order_trans)
  moreover have "link_inv w'" by (rule link_inv_view [OF parts(6)]) (use good in blast | simp add: w')+
  ultimately show ?thesis by (simp add: world_inv_def)
qed

lemma finish_inv:
  assumes inv: "world_inv dec w" and hand: "w_hand w = Some bufs"
  shows "world_inv dec (finish_batch dec raised bufs w)"
proof -
  let ?dp = "(w_dp w)\<lparr>dp_drained := length bufs\<rparr>"
  define res where "res = decode_messages dec bufs (dp_last_seq (w_dp w))"
  define pre where "pre = accepted_prefix dec bufs (fresh_result (dp_last_seq (w_dp w)))"
  from inv have srv: "server_inv w" and cur: "cursor_inv dec w" and core: "rx_core w" by (simp_all add: world_inv_def rx_inv_def)
  have fr: "frames w = bufs @ ib_frames (rc_inbox (w_rx w))" by (simp add: frames_def hand)
  from cur have c: "dp_last_seq (w_dp w) = int (length (w_held w))" and lin: "linked (int (length (w_held w))) bufs"
    and scene: "\<not> w_dirty w \<Longrightarrow> dp_scene (w_dp w) = decoded dec (w_held w)"
    unfolding cursor_inv_def fr linked_append by simp_all
  from decode_spec [OF lin, of "w_dirty w" "dp_scene (w_dp w)" dec] scene obtain post where spec: "bufs = pre @ post"
    "dr_errors res = [] \<longrightarrow> post = []" "dr_last_seq res = int (length (held_after (w_held w) pre))"
    "dr_resync res \<longleftrightarrow> SResync \<in> set pre"
    "\<not> w_dirty w \<or> dr_resync res \<longrightarrow> scene_after (dp_scene (w_dp w)) res = decoded dec (held_after (w_held w) pre)"
    unfolding res_def pre_def c by blast
  note link = link_generation [OF inv]
  have rx: "ib_inv (rc_inbox (w_rx w))" "\<not> ib_contiguous (rc_inbox (w_rx w))"
    "bufs \<noteq> [] \<Longrightarrow> \<not> rc_reset_on_hello (w_rx w)" "bufs \<noteq> [] \<Longrightarrow> rc_hello_sent (w_rx w)"
    using core by (auto simp: rx_core_def Let_def fr)
  show ?thesis
  proof (cases "bufs = []")
    case True
    have "world_inv dec (w\<lparr>w_dp := ?dp, w_hand := None, w_held := held_after (w_held w) bufs,
        w_dirty := (w_dirty w \<and> SResync \<notin> set bufs)\<rparr>)"
      by (rule applied_inv [OF inv hand _ _ refl]) (use True c scene in auto)
    from mark_inv [OF this] True show ?thesis
      by (simp add: finish_batch_def apply_drained_def decode_messages_def Let_def)
  next
    case False
    show ?thesis
    proof (cases raised)
      case (Some sc)
      let ?w = "w\<lparr>w_dp := ?dp\<lparr>dp_last_seq := if dr_resync res then 0 else dp_last_seq (w_dp w), dp_scene := sc\<rparr>, w_hand := None,
        w_held := if dr_resync res then [] else w_held w, w_dirty := True\<rparr>"
      have "world_inv dec (?w\<lparr>w_rx := snd (request_replay_from (dp_last_seq (w_dp ?w) + 1) (w_rx ?w))\<rparr>)"
        by (rule request_inv [OF _ _ _ _ _ _ _ _ _ _ refl]) (use False srv rx c link in \<open>auto simp: server_inv_def\<close>)
      with Some False show ?thesis
        by (cases "dr_resync res") (simp_all add: finish_batch_def apply_drained_def Let_def flip: res_def)
    next
      case None
      let ?dp2 = "?dp\<lparr>dp_last_seq := dr_last_seq res, dp_scene := (if dr_resync res then [] else dp_scene (w_dp w)) @ dr_received res\<rparr>"
      let ?w = "w\<lparr>w_dp := ?dp2, w_hand := None, w_held := held_after (w_held w) pre, w_dirty := (w_dirty w \<and> SResync \<notin> set pre)\<rparr>"
      show ?thesis
      proof (cases "dr_errors res = []")
        case True
        with spec(1,2) have whole: "bufs = pre" by simp
        have "world_inv dec ?w"
          by (rule applied_inv [OF inv hand _ _ refl [THEN trans]]) (use spec whole in \<open>auto simp: scene_after_def\<close>)
        from mark_inv [OF this] None False True spec(4) show ?thesis
          by (cases "SResync \<in> set pre") (simp_all add: finish_batch_def apply_drained_def Let_def flip: res_def pre_def)
      next
        case err: False
        have "world_inv dec (?w\<lparr>w_rx := snd (request_replay_from (dp_last_seq (w_dp ?w) + 1) (w_rx ?w))\<rparr>)"
          by (rule request_inv [OF _ _ _ _ _ _ _ _ _ _ refl])
            (use False srv rx spec link in \<open>auto simp: server_inv_def scene_after_def\<close>)
        with None False err spec(4) show ?thesis
          by (cases "SResync \<in> set pre") (simp_all add: finish_batch_def apply_drained_def Let_def flip: res_def pre_def)
      qed
    qed
  qed
qed

section \<open>Every run\<close>

lemma receive_step_inv:
  assumes inv: "world_inv dec w" and lk: "w_link w = Some lk" "lk_wire lk = m # ms"
    and res: "receive_message (lk_generation lk) (lk_sync_from lk) m (w_rx w) = (go_on, rc)"
  shows "if go_on then world_inv dec (w\<lparr>w_rx := rc, w_link := Some (lk\<lparr>lk_wire := ms\<rparr>)\<rparr>) else same_data (w_rx w) rc"
proof (cases "lk_generation lk = ib_generation (rc_inbox (w_rx w))")
  case True
  with res handshake_receive [OF inv lk True] connected_receive [OF inv lk True] show ?thesis
    by (cases "rc_connected (w_rx w)") (simp_all add: receive_message_def)
next
  case False
  moreover have "ib_inv (rc_inbox (w_rx w))" using inv by (simp add: world_inv_def rx_inv_def rx_core_def Let_def)
  ultimately show ?thesis using res by (auto simp: receive_message_def same_data_def)
qed

lemma world_step_inv: "world_step dec w w' \<Longrightarrow> world_inv dec w \<Longrightarrow> world_inv dec w'"
proof (induction rule: world_step.induct)
  case (rewrite ms controls i w)
  show ?case by (rule rewrite_inv [OF rewrite.prems rewrite.hyps])
next
  case (receive w lk m ms rc)
  then show ?case using receive_step_inv [OF receive.prems receive.hyps] by simp
next
  case (receive_end w lk m ms rc)
  then show ?case using receive_step_inv [OF receive_end.prems receive_end.hyps] by (simp add: hang_up_same_data)
next
  case (give_up w lk)
  then show ?case by (intro hang_up_inv) (auto simp: world_inv_def rx_inv_def)
next
  case (request w)
  then have core: "rx_core w" and cur: "cursor_inv dec w" and srv: "server_inv w" by (simp_all add: world_inv_def rx_inv_def)
  from core have rx: "ib_inv (rc_inbox (w_rx w))" "rc_reset_on_hello (w_rx w) \<longrightarrow> w_held w = []"
    "\<not> rc_hello_sent (w_rx w) \<longrightarrow> w_held w = []" "\<not> ib_contiguous (rc_inbox (w_rx w))"
    unfolding rx_core_def Let_def by blast+
  from cur have "dp_last_seq (w_dp w) = int (length (w_held w))" "\<not> w_dirty w \<longrightarrow> dp_scene (w_dp w) = decoded dec (w_held w)"
    by (simp_all add: cursor_inv_def)
  from request_inv [OF srv rx(1) request.hyps this rx(2-4) link_generation [OF request.prems] refl] show ?case .
qed (auto intro: commit_inv restart_inv control_inv world_connect_inv refused_inv cut_inv drained_inv finish_inv)

interpretation wp: invariant_system "world_step dec" "world_inv dec"
  by unfold_locales (rule world_step_inv)

lemma new_world_inv:
  assumes "new_receiver 1 q reconnect token layered mode = Inr rc" "fst i \<noteq> []" "numbered ms"
  shows "world_inv dec (new_world i ms rc)"
proof -
  obtain ib :: "server_msg inbox" where ib: "new_inbox 1 q False = Inr ib" using assms(1) by (auto simp: new_receiver_def split: sum.splits)
  have rc: "rc_inbox rc = ib" "\<not> rc_connected rc" "\<not> rc_synchronized rc" "rc_received_id rc = None" "\<not> rc_reset_on_hello rc"
    using assms(1) ib by (auto simp: new_receiver_def)
  have ib': "ib_inv ib" "ib_frames ib = []" "ib_received ib = 0" "\<not> ib_contiguous ib" "ib_pending ib = None"
    using new_inbox_inv [OF ib] ib by (auto simp: new_inbox_def split: if_splits)
  have fr: "frames (new_world i ms rc) = []" by (simp add: frames_def new_world_def rc ib')
  have "server_inv (new_world i ms rc)" using assms(2,3) by (simp add: server_inv_def new_world_def)
  moreover have "cursor_inv dec (new_world i ms rc)"
    unfolding cursor_inv_def fr by (simp add: new_world_def new_dispatcher_def rc ib')
  moreover have "rx_inv (new_world i ms rc)"
    unfolding rx_inv_def rx_core_def Let_def fr by (simp add: new_world_def rc ib')
  ultimately show ?thesis by (simp add: world_inv_def pending_inv_def sync_inv_def link_inv_def new_world_def rc ib')
qed

text \<open>The receiver is settled on its connection: everything sent has been read, drained and applied.\<close>

definition settled :: "'r world \<Rightarrow> bool" where
  "settled w \<longleftrightarrow> (case w_link w of None \<Rightarrow> False
     | Some lk \<Rightarrow> lk_open lk \<and> lk_wire lk = [] \<and> lk_generation lk = ib_generation (rc_inbox (w_rx w))) \<and>
     rc_connected (w_rx w) \<and> w_hand w = None \<and> ib_frames (rc_inbox (w_rx w)) = []"

lemma held_prefix:
  assumes "r @ xs = take n h"
  shows "r = take (length r) h" "length r \<le> length h"
proof -
  have "length r \<le> n" "length r \<le> length h" using arg_cong [OF assms, of length] by simp_all
  then show "r = take (length r) h" "length r \<le> length h"
    using arg_cong [OF assms, of "take (length r)"] by (simp_all add: min_def split: if_splits)
qed

text \<open>C3. The receiver's replica is right. A receiver that starts empty, against a server whose
  history grows, is compacted or replaced and which may restart, over connections that break at
  any byte, with a bounded queue, frames that do not decode and an apply pipeline that may raise
  half way: whenever the receiver reports that it is synchronized, its scene is exactly the replay
  of the first \<open>last_seq\<close> records of the history it names by server instance and epoch, and it
  covers the advertised head; and when everything the server has sent has been applied, the scene
  is the replay of the server's current history.\<close>

theorem receiver_replica_correct:
  assumes "new_receiver 1 max_queue reconnect token layered mode = Inr rc" "fst i \<noteq> []" "numbered ms"
    and "(world_step dec)\<^sup>*\<^sup>* (new_world i ms rc) w"
  shows "(synchronized (w_rx w) \<longrightarrow>
      (let h = w_hist w (rc_server_instance (w_rx w), rc_replay_epoch (w_rx w)); k = dp_last_seq (w_dp w)
       in dp_scene (w_dp w) = decoded dec (take (nat k) h) \<and> rc_replay_head (w_rx w) \<le> k \<and> k \<le> int (length h))) \<and>
    (settled w \<longrightarrow> dp_scene (w_dp w) = decoded dec (w_hist w (w_identity w)) \<and>
      dp_last_seq (w_dp w) = int (length (w_hist w (w_identity w))))"
proof -
  have inv: "world_inv dec w" by (rule wp.reach_invar [OF assms(4) new_world_inv [OF assms(1-3)]])
  then have cur: "cursor_inv dec w" and syn: "sync_inv w" and rx: "rx_core w" and lnk: "link_inv w"
    by (simp_all add: world_inv_def rx_inv_def)
  have c: "dp_last_seq (w_dp w) = int (length (w_held w))" using cur by (simp add: cursor_inv_def)
  have first: "let h = w_hist w (rc_server_instance (w_rx w), rc_replay_epoch (w_rx w)); k = dp_last_seq (w_dp w)
      in dp_scene (w_dp w) = decoded dec (take (nat k) h) \<and> rc_replay_head (w_rx w) \<le> k \<and> k \<le> int (length h)"
    if "synchronized (w_rx w)"
  proof -
    let ?i = "(rc_server_instance (w_rx w), rc_replay_epoch (w_rx w))"
    from that syn have s: "SResync \<notin> set (frames w)" "\<not> w_dirty w" "rc_replay_head (w_rx w) \<le> dp_last_seq (w_dp w)"
      "rc_received_id (w_rx w) = Some ?i" by (simp_all add: sync_inv_def synchronized_def Let_def)
    from s(4) rx have "good w ?i" unfolding rx_core_def Let_def by blast
    with s(1) have "w_held w @ filter sequenced (frames w) = take (nat (received w)) (w_hist w ?i)"
      by (simp add: good_def held_after_filter)
    note held = held_prefix [OF this]
    from cur s(2) have "dp_scene (w_dp w) = decoded dec (w_held w)" by (simp add: cursor_inv_def)
    also have "\<dots> = decoded dec (take (length (w_held w)) (w_hist w ?i))" using held(1) by (rule arg_cong)
    finally show ?thesis using s(3) held(2) by (simp add: c Let_def)
  qed
  have "dp_scene (w_dp w) = decoded dec (w_hist w (w_identity w)) \<and> dp_last_seq (w_dp w) = int (length (w_hist w (w_identity w)))"
    if set: "settled w"
  proof -
    from set obtain lk where lk: "w_link w = Some lk" "lk_open lk" "lk_wire lk = []" "lk_generation lk = ib_generation (rc_inbox (w_rx w))"
      and fr: "frames w = []" and con: "rc_connected (w_rx w)"
      by (auto simp: settled_def frames_def split: option.splits)
    from lnk lk con obtain ph where "follows (epochs w (lk_instance lk)) ph [] ph" "at_head w lk ph" "phase_inv w (lk_instance lk) ph"
      unfolding link_inv_def connected_inv_def Let_def by (auto elim: follows.cases)
    with lk(2) have L: "received w = int (length (w_hist w (w_identity w)))" and good: "good w (w_identity w)"
      by (simp_all add: at_head_def phase_inv_def Let_def)
    from good fr L have "w_held w = w_hist w (w_identity w)" "\<not> w_dirty w" by (simp_all add: good_def)
    with cur c show ?thesis by (simp add: cursor_inv_def)
  qed
  with first show ?thesis by blast
qed

lemma world_run: "(world_step dec)\<^sup>*\<^sup>* a b \<Longrightarrow> world_step dec b c \<Longrightarrow> (world_step dec)\<^sup>*\<^sup>* a c"
  by (rule rtranclp.rtrancl_into_rtrancl)

text \<open>A receiver reads a history of two records, with a queue of three frames, and applies it in two
  batches.\<close>

definition demo_read :: "bytes world \<Rightarrow> bytes world" where
  "demo_read w = (let lk = the (w_link w) in
     w\<lparr>w_rx := snd (receive_message (lk_generation lk) (lk_sync_from lk) (hd (lk_wire lk)) (w_rx w)),
       w_link := Some (lk\<lparr>lk_wire := tl (lk_wire lk)\<rparr>)\<rparr>)"

definition can_read :: "bytes world \<Rightarrow> bool" where
  "can_read w \<longleftrightarrow> (case w_link w of None \<Rightarrow> False
     | Some lk \<Rightarrow> lk_wire lk \<noteq> [] \<and> fst (receive_message (lk_generation lk) (lk_sync_from lk) (hd (lk_wire lk)) (w_rx w)))"

lemma demo_read_step: "can_read w \<Longrightarrow> world_step dec w (demo_read w)"
proof -
  assume "can_read w"
  then obtain lk m ms rc where "w_link w = Some lk" "lk_wire lk = m # ms"
    "receive_message (lk_generation lk) (lk_sync_from lk) m (w_rx w) = (True, rc)"
    by (auto simp: can_read_def neq_Nil_conv split: option.splits) (metis prod.collapse)
  from world_step.receive [OF this] this show ?thesis by (simp add: demo_read_def)
qed

definition demo_drain :: "nat \<Rightarrow> bytes world \<Rightarrow> bytes world" where
  "demo_drain n w = (let (r, rc) = drain_queue (Some n) (w_rx w)
     in w\<lparr>w_rx := rc, w_hand := (case r of Inr bufs \<Rightarrow> Some bufs | Inl e \<Rightarrow> None)\<rparr>)"

lemma demo_drain_step: "w_hand w = None \<Longrightarrow> n \<noteq> 0 \<Longrightarrow> world_step dec w (demo_drain n w)"
proof -
  assume "w_hand w = None" "n \<noteq> 0"
  moreover obtain bufs rc where "drain_queue (Some n) (w_rx w) = (Inr bufs, rc)"
    using \<open>n \<noteq> 0\<close> by (simp add: drain_queue_def split_beta)
  ultimately show ?thesis using world_step.drain [of w "Some n" bufs rc] by (simp add: demo_drain_def)
qed

definition demo_dec :: "bytes decoder" where
  "demo_dec b = Inr (Some b)"

definition demo_finish :: "bytes world \<Rightarrow> bytes world" where
  "demo_finish w = (case w_hand w of None \<Rightarrow> w | Some bufs \<Rightarrow> finish_batch demo_dec None bufs w)"

lemma demo_finish_step: "w_hand w \<noteq> None \<Longrightarrow> world_step demo_dec w (demo_finish w)"
  by (auto simp: demo_finish_def intro: world_step.finish)

definition demo_rx :: receiver where
  "demo_rx = (case new_receiver 1 3 True None False MANAGED of Inr rc \<Rightarrow> rc)"

definition demo_ok :: hello_ok where
  "demo_ok = \<lparr>ho_server_instance = [], ho_replay_identity = False, ho_replay_epoch = None, ho_layer_mode = MANAGED,
     ho_layered_replay = False, ho_token = [], ho_stage_metadata = []\<rparr>"

definition demo_start :: "bytes world" where
  "demo_start = new_world (''s'', 4) [SEvent 1 [7], SEvent 2 [8]] demo_rx"

definition demo_connected :: "bytes world" where
  "demo_connected = (let ((g, s, h), rc) = connect_and_hello None demo_rx in
     demo_start\<lparr>w_rx := rc, w_link := Some \<lparr>lk_generation = g, lk_sync_from = s,
       lk_wire = hello_wire (''s'', 4) [SEvent 1 [7], SEvent 2 [8]] demo_ok [SPlayback] h, lk_open = True, lk_instance = ''s''\<rparr>\<rparr>)"

lemma demo_connect_step: "world_step demo_dec demo_start demo_connected"
proof -
  obtain g s h rc where "connect_and_hello None demo_rx = ((g, s, h), rc)" by (metis prod_cases3 surj_pair)
  then show ?thesis
    using world_step.connect [of demo_start None g s h rc "[SPlayback]" demo_dec demo_ok]
    by (simp add: demo_connected_def demo_start_def new_world_def)
qed

definition demo_end :: "bytes world" where
  "demo_end = demo_finish (demo_drain 5 (demo_read (demo_finish (demo_drain 1 (demo_read (demo_read (demo_read (demo_read demo_connected))))))))"

theorem receiver_replica_correct_witness:
  "synchronized (w_rx demo_end) \<and> dp_scene (w_dp demo_end) = [[7], [8]] \<and> dp_last_seq (w_dp demo_end) = 2 \<and>
   dp_scene (w_dp demo_end) = decoded demo_dec (w_hist demo_end (w_identity demo_end))"
proof -
  have rc: "new_receiver 1 3 True None False MANAGED = Inr demo_rx" by (simp add: demo_rx_def new_receiver_def new_inbox_def)
  have num: "numbered [SEvent 1 [7], SEvent 2 [8]]" by (simp add: numbered_def nth_Cons split: nat.splits)
  have can: "can_read demo_connected" "can_read (demo_read demo_connected)" "can_read (demo_read (demo_read demo_connected))"
    "can_read (demo_read (demo_read (demo_read demo_connected)))" by code_simp+
  have more: "w_hand (demo_read (demo_read (demo_read (demo_read demo_connected)))) = None"
    "w_hand (demo_drain 1 (demo_read (demo_read (demo_read (demo_read demo_connected))))) \<noteq> None"
    "can_read (demo_finish (demo_drain 1 (demo_read (demo_read (demo_read (demo_read demo_connected))))))"
    "w_hand (demo_read (demo_finish (demo_drain 1 (demo_read (demo_read (demo_read (demo_read demo_connected))))))) = None"
    "w_hand (demo_drain 5 (demo_read (demo_finish (demo_drain 1 (demo_read (demo_read (demo_read (demo_read demo_connected)))))))) \<noteq> None"
    by code_simp+
  note steps = demo_connect_step demo_read_step [OF can(1)] demo_read_step [OF can(2)] demo_read_step [OF can(3)] demo_read_step [OF can(4)]
    demo_drain_step [of _ 1, OF more(1) one_neq_zero] demo_finish_step [OF more(2)] demo_read_step [OF more(3)] demo_drain_step [of _ 5, OF more(4) zero_neq_numeral [symmetric]] demo_finish_step [OF more(5)]
  note run1 = world_run [OF world_run [OF world_run [OF rtranclp.rtrancl_refl steps(1)] steps(2)] steps(3)]
  note run2 = world_run [OF world_run [OF world_run [OF run1 steps(4)] steps(5)] steps(6)]
  note run3 = world_run [OF world_run [OF world_run [OF run2 steps(7)] steps(8)] steps(9)]
  from world_run [OF run3 steps(10)] have "(world_step demo_dec)\<^sup>*\<^sup>* demo_start demo_end" by (simp add: demo_end_def)
  note done_right = receiver_replica_correct [OF rc _ num this [unfolded demo_start_def], simplified]
  have "settled demo_end" "synchronized (w_rx demo_end)" "dp_scene (w_dp demo_end) = [[7], [8]]" "dp_last_seq (w_dp demo_end) = 2"
    by code_simp+
  with done_right show ?thesis by blast
qed

end
