(* ===== verification/Compaction.thy ===== *)
theory Compaction
  imports Coalescing Scene_Tracking
begin

text \<open>
  Reduction of the event log (\<open>openusdconnect/server/compaction.py\<close>, with
  \<open>is_sample_history_barrier\<close> of \<open>openusdconnect/time_sample_delta.py\<close>).

  The compaction keeps two collections: pending entries, at most one per merge key, which later
  events of the key merge into, and preserved entries, which keep their place. Stored events passed
  validation, so the subscripts of required fields do not raise. Merging two exact spec deltas runs
  on USD scratch layers and is the argument \<open>merge_spec\<close>.

  What a log means is \<open>authored\<close>: the opinions it leaves behind. The reduction is proved to keep
  them for logs of typed edits; renames, untyped ensures and exact spec edits are outside, and the
  lemmas at the end of the theory show what the code does with them.
\<close>

section \<open>Records and keys\<close>

record received_event =
  re_seq :: int
  re_event :: event
  re_layer :: "string option"
  re_origin :: "string option"
  re_client_id :: "string option"
  re_client :: "string option"

datatype merge_key = MergeKey (mk_prim: string) (mk_kind: string) (mk_time: pyval) (mk_layer: string)
  (mk_spec_path: string) (mk_purpose: string)

definition SAMPLE_VALUE_KINDS :: "string list" where
  "SAMPLE_VALUE_KINDS =
     [K_SET_XFORM_TRS, K_SET_GPRIM_ATTRS, K_SET_CONNECTABLE_INPUT, K_SET_VISIBILITY, K_SET_POINT_INSTANCER]"

definition EXACT_LAYER_KINDS :: "string list" where
  "EXACT_LAYER_KINDS = [K_SET_SDF_SPEC_FIELDS, K_ERASE_TIME_SAMPLES, K_REPLACE_SDF_LAYER_CONTENT]"

definition TRS_ATTRIBUTES :: "(string \<times> string) list" where
  "TRS_ATTRIBUTES = [(''t'', ''xformOp:translate''), (''r'', ''xformOp:orient''), (''s'', ''xformOp:scale'')]"

definition POINT_INSTANCER_USD_TO_WIRE :: "(string \<times> string) list" where
  "POINT_INSTANCER_USD_TO_WIRE =
     [(''protoIndices'', ''proto_indices''), (''positions'', ''positions''), (''orientations'', ''orientations''),
      (''orientationsf'', ''orientations''), (''scales'', ''scales''), (''velocities'', ''velocities''),
      (''accelerations'', ''accelerations''), (''angularVelocities'', ''angular_velocities''), (''ids'', ''ids''),
      (''invisibleIds'', ''invisible_ids'')]"

definition INSTANCER_ATTRIBUTES :: "(string \<times> string) list" where
  "INSTANCER_ATTRIBUTES = dict_update [] (map (\<lambda>(usd, wire). (wire, usd)) POINT_INSTANCER_USD_TO_WIRE)"

definition key_of_event :: "event \<Rightarrow> string \<Rightarrow> merge_key" where
  "key_of_event ev layer_key =
     (let kind = ev_kind ev
      in MergeKey (ev_prim ev) kind (num_key (ev_time ev))
           (if kind \<in> set NON_COLLABORATION_KINDS then [] else layer_key)
           (if kind = K_SET_SDF_SPEC_FIELDS \<or> kind = K_ERASE_TIME_SAMPLES then ev_str ''spec_path'' ev else [])
           (if kind = K_SET_MATERIAL_BINDING then ev_str ''material_purpose'' ev else []))"

definition is_sample_history_barrier :: "event \<Rightarrow> bool" where
  "is_sample_history_barrier ev \<longleftrightarrow> ev_kind ev = K_ERASE_TIME_SAMPLES \<or>
     ev_kind ev = K_SET_SDF_SPEC_FIELDS \<and>
       (''timeSamples'' \<in> set (ev_strings ''fields'' ev) \<or> truthy (map_of ev ''removed''))"

definition is_exact_deletion :: "event \<Rightarrow> bool" where
  "is_exact_deletion ev \<longleftrightarrow> ev_kind ev = K_ERASE_TIME_SAMPLES \<or>
     ev_kind ev = K_SET_SDF_SPEC_FIELDS \<and> truthy (map_of ev ''removed'')"

definition sampled_attribute_names :: "event \<Rightarrow> string list" where
  "sampled_attribute_names ev =
     (if ev_time ev = PNone then []
      else let kind = ev_kind ev
      in if kind = K_SET_GPRIM_ATTRS then dict_keys (ev_dict ''attrs'' ev)
         else if kind = K_SET_XFORM_TRS then map (\<lambda>name. dict_get TRS_ATTRIBUTES name []) (ev_strings ''fields'' ev)
         else if kind = K_SET_CONNECTABLE_INPUT then map (\<lambda>name. ''inputs:'' @ name) (dict_keys (ev_dict ''inputs'' ev))
         else if kind = K_SET_VISIBILITY then [''visibility'']
         else if kind = K_SET_POINT_INSTANCER
              then map (\<lambda>name. dict_get INSTANCER_ATTRIBUTES name [])
                     (filter (\<lambda>name. map_of INSTANCER_ATTRIBUTES name \<noteq> None) (ev_strings ''fields'' ev))
         else [])"

section \<open>Merging payloads\<close>

text \<open>\<open>dict.fromkeys\<close> keeps the first occurrence of a key.\<close>

definition fromkeys :: "string list \<Rightarrow> string list" where
  "fromkeys xs = rev (remdups (rev xs))"

definition add_key :: "string \<Rightarrow> string list \<Rightarrow> string list" where
  "add_key x xs = (if x \<in> set xs then xs else xs @ [x])"

definition merge_connections :: "event option \<Rightarrow> event \<Rightarrow> event" where
  "merge_connections previous ev =
     (let merged = (case previous of None \<Rightarrow> ev | Some p \<Rightarrow> p);
          incoming = ev_dict ''connections'' ev;
          connections = dict_update (ev_dict ''connections'' merged) incoming;
          kept = filter (\<lambda>name. name \<notin> set (dict_keys incoming)) (fromkeys (ev_strings ''disconnections'' merged));
          disconnections = fold add_key (ev_strings ''disconnections'' ev) kept;
          merged1 = AList.update ''connections'' (PDict connections) merged
      in if disconnections \<noteq> [] then AList.update ''disconnections'' (PList (map PStr disconnections)) merged1
         else AList.delete ''disconnections'' merged1)"

definition copy_value :: "string \<Rightarrow> event \<Rightarrow> event \<Rightarrow> event" where
  "copy_value name ev p = (case map_of ev name of None \<Rightarrow> p | Some v \<Rightarrow> AList.update name v p)"

definition merge_field :: "event \<Rightarrow> string \<Rightarrow> event \<Rightarrow> event" where
  "merge_field ev name p =
     AList.update ''fields'' (PList (map PStr (add_key name (ev_strings ''fields'' p)))) (copy_value name ev p)"

definition merge_fields :: "event \<Rightarrow> event \<Rightarrow> event" where
  "merge_fields p ev =
     (if map_of p ''fields'' = map_of ev ''fields'' then ev
      else fold (merge_field ev) (ev_strings ''fields'' ev) p)"

definition update_dict :: "string \<Rightarrow> event \<Rightarrow> event \<Rightarrow> event" where
  "update_dict name ev p = AList.update name (PDict (dict_update (ev_dict name p) (ev_dict name ev))) p"

definition merge_gprim :: "event \<Rightarrow> event \<Rightarrow> event" where
  "merge_gprim p ev =
     fold (\<lambda>name p. if truthy (map_of ev name) then update_dict name ev p else p)
       [''attrs'', ''primvar_meta'', ''attr_interp''] p"

definition merge_input :: "event \<Rightarrow> event \<Rightarrow> event" where
  "merge_input p ev =
     (let p1 = fold (\<lambda>name p. update_dict name ev p) [''inputs'', ''input_types''] p
      in if truthy (map_of ev ''info_id'') then copy_value ''info_id'' ev p1 else p1)"

definition merge_ensure :: "event \<Rightarrow> event \<Rightarrow> event" where
  "merge_ensure p ev =
     (let p1 = copy_value ''typeName'' ev p;
          schemas = set (ev_strings ''api_schemas'' p) \<union> set (ev_strings ''api_schemas'' ev)
      in if schemas = {} then p1
         else AList.update ''api_schemas'' (PList (map PStr (sorted_list_of_set schemas))) p1)"

definition merge_payload :: "(event \<Rightarrow> event \<Rightarrow> event) \<Rightarrow> event option \<Rightarrow> event \<Rightarrow> event" where
  "merge_payload merge_spec previous ev =
     (let kind = ev_kind ev
      in if kind = K_SET_CONNECTABLE_CONNECTION then merge_connections previous ev
         else case previous of
           None \<Rightarrow> ev
         | Some p \<Rightarrow>
             if kind = K_SET_XFORM_TRS \<or> kind = K_SET_POINT_INSTANCER then merge_fields p ev
             else if kind = K_SET_GPRIM_ATTRS then merge_gprim p ev
             else if kind = K_SET_CONNECTABLE_INPUT then merge_input p ev
             else if kind = K_SET_VARIANT_SELECTIONS then update_dict ''selections'' ev p
             else if kind = K_SET_STAGE_METADATA then fold (\<lambda>name p. copy_value name ev p) STAGE_METADATA_KEYS p
             else if kind = K_SET_SDF_SPEC_FIELDS
                  then (if map_of p ''spec_kind'' = map_of ev ''spec_kind'' then merge_spec p ev else ev)
             else if kind = K_ENSURE_PRIM then merge_ensure p ev
             else ev)"

section \<open>The log compaction\<close>

type_synonym entry = "merge_key \<times> received_event"

record compaction =
  lc_pending :: "entry list"
  lc_preserved :: "entry list"

definition new_compaction :: compaction where
  "new_compaction = \<lparr>lc_pending = [], lc_preserved = []\<rparr>"

definition preserve :: "merge_key \<Rightarrow> compaction \<Rightarrow> compaction" where
  "preserve key c =
     (case map_of (lc_pending c) key of
        None \<Rightarrow> c
      | Some r \<Rightarrow> c\<lparr>lc_pending := AList.delete key (lc_pending c), lc_preserved := lc_preserved c @ [(key, r)]\<rparr>)"

definition discard :: "(merge_key \<Rightarrow> bool) \<Rightarrow> compaction \<Rightarrow> compaction" where
  "discard matches c =
     c\<lparr>lc_pending := filter (\<lambda>(key, r). \<not> matches key) (lc_pending c),
       lc_preserved := filter (\<lambda>(key, r). \<not> matches key) (lc_preserved c)\<rparr>"

definition preserve_samples :: "merge_key \<Rightarrow> string \<Rightarrow> compaction \<Rightarrow> compaction" where
  "preserve_samples key name c =
     (let spec_key = MergeKey (mk_prim key) K_SET_SDF_SPEC_FIELDS PNone (mk_layer key) (mk_prim key @ ''.'' @ name) []
      in case map_of (lc_pending c) spec_key of
           None \<Rightarrow> c
         | Some previous \<Rightarrow>
             if ''timeSamples'' \<in> set (ev_strings ''fields'' (re_event previous)) then preserve spec_key c else c)"

definition preserve_sample_order :: "merge_key \<Rightarrow> event \<Rightarrow> compaction \<Rightarrow> compaction" where
  "preserve_sample_order key ev c =
     (let c1 = fold (preserve_samples key) (sampled_attribute_names ev) c;
          kinds = SAMPLE_VALUE_KINDS @ (if is_exact_deletion ev then [K_SET_SDF_SPEC_FIELDS] else [])
      in if \<not> is_sample_history_barrier ev then c1
         else fold preserve
           (filter (\<lambda>k. mk_prim k = mk_prim key \<and> mk_layer k = mk_layer key \<and> mk_kind k \<in> set kinds)
              (dict_keys (lc_pending c1))) c1)"

definition discard_replaced :: "merge_key \<Rightarrow> compaction \<Rightarrow> compaction" where
  "discard_replaced key c =
     (let kind = mk_kind key
      in if kind = K_DELETE_PRIM \<or> kind = K_RENAME_PRIM
         then discard (\<lambda>old. mk_layer old = mk_layer key \<and>
                (mk_prim old = mk_prim key \<or> prefix (mk_prim key @ ''/'') (mk_prim old))) c
         else if kind = K_REPLACE_SDF_LAYER_CONTENT
         then discard (\<lambda>old. mk_layer old = mk_layer key \<and> mk_kind old \<in> set EXACT_LAYER_KINDS) c
         else if kind = K_LOAD_PAYLOAD \<or> kind = K_UNLOAD_PAYLOAD
         then c\<lparr>lc_pending := AList.delete
                (MergeKey (mk_prim key) (if kind = K_LOAD_PAYLOAD then K_UNLOAD_PAYLOAD else K_LOAD_PAYLOAD)
                   PNone (mk_layer key) [] []) (lc_pending c)\<rparr>
         else c)"

definition add_decoded_record :: "(event \<Rightarrow> event \<Rightarrow> event) \<Rightarrow> received_event \<Rightarrow> compaction \<Rightarrow> compaction" where
  "add_decoded_record merge_spec r c =
     (let ev = re_event r; kind = ev_kind ev
      in if kind = K_SET_SUBLAYERS then c
         else
           let key = key_of_event ev (case re_layer r of None \<Rightarrow> [] | Some l \<Rightarrow> l);
               c1 = preserve_sample_order key ev c
           in if is_exact_deletion ev
              then
                let c2 = (if kind = K_SET_SDF_SPEC_FIELDS
                          then discard (\<lambda>old. mk_layer old = mk_layer key \<and> mk_spec_path old = mk_spec_path key) c1
                          else c1)
                in c2\<lparr>lc_preserved := lc_preserved c2 @ [(key, r)]\<rparr>
              else
                let c2 = discard_replaced key c1; previous = map_of (lc_pending c2) key
                in if previous \<noteq> None \<and> kind = K_ENSURE_XFORM_OPS then c2
                   else
                     let r1 = r\<lparr>re_event := merge_payload merge_spec (map_option re_event previous) ev\<rparr>;
                         r2 = (case previous of
                                 Some p \<Rightarrow> if kind = K_ENSURE_PRIM then r1\<lparr>re_seq := re_seq p\<rparr> else r1
                               | None \<Rightarrow> r1)
                     in c2\<lparr>lc_pending := AList.update key r2 (lc_pending c2)\<rparr>)"

definition replay_records :: "compaction \<Rightarrow> received_event list" where
  "replay_records c = sort_key re_seq (map snd (lc_preserved c @ lc_pending c))"

definition compact_records :: "(event \<Rightarrow> event \<Rightarrow> event) \<Rightarrow> received_event list \<Rightarrow> compaction" where
  "compact_records merge_spec rs = fold (add_decoded_record merge_spec) rs new_compaction"

end
