(* ===== verification/Compaction_Correct.thy ===== *)
theory Compaction_Correct
  imports Compaction "HOL-Library.Multiset"
begin

text \<open>
  The opinions of a log and the proof that compaction keeps them.

  A record of a typed edit is a partial map from opinions to values: it authors some, clears others
  and leaves the rest. A log is the override of its records in order, so that dropping a record is
  right when a later one covers it, and moving a record is right when it is disjoint from the
  records it passes. Declaration context that rides along with values (primvar metadata,
  interpolation, input types, shader ids) is not an opinion here.
\<close>

section \<open>Opinions\<close>

datatype slot =
    Definition | Schema string | XformOps | Attribute string pyval | Relation string | Variant string
  | Connection string | StageMetadata string | Loaded | Whole string string

type_synonym position = "string \<times> string \<times> slot"

definition value_of :: "string \<Rightarrow> event \<Rightarrow> pyval" where
  "value_of name ev = (case map_of ev name of None \<Rightarrow> PNone | Some v \<Rightarrow> v)"

definition field_slot :: "pyval \<Rightarrow> string \<Rightarrow> slot" where
  "field_slot t name =
     (case map_of TRS_ATTRIBUTES name of
        Some a \<Rightarrow> Attribute a t
      | None \<Rightarrow> (case map_of INSTANCER_ATTRIBUTES name of Some a \<Rightarrow> Attribute a t | None \<Rightarrow> Relation name))"

definition slot_writes :: "event \<Rightarrow> (slot \<times> pyval) list" where
  "slot_writes ev =
     (let kind = ev_kind ev; t = num_key (ev_time ev)
      in if kind = K_ENSURE_PRIM
         then (Definition, value_of ''typeName'' ev) # map (\<lambda>n. (Schema n, PNone)) (ev_strings ''api_schemas'' ev)
         else if kind = K_ENSURE_XFORM_OPS then [(XformOps, PNone)]
         else if kind = K_SET_XFORM_TRS \<or> kind = K_SET_POINT_INSTANCER
         then map (\<lambda>n. (field_slot t n, value_of n ev)) (ev_strings ''fields'' ev)
         else if kind = K_SET_GPRIM_ATTRS then map (\<lambda>(n, v). (Attribute n t, v)) (ev_dict ''attrs'' ev)
         else if kind = K_SET_CONNECTABLE_INPUT then map (\<lambda>(n, v). (Attribute (''inputs:'' @ n) t, v)) (ev_dict ''inputs'' ev)
         else if kind = K_SET_VISIBILITY then [(Attribute ''visibility'' t, value_of ''visible'' ev)]
         else if kind = K_SET_VARIANT_SELECTIONS then map (\<lambda>(n, v). (Variant n, v)) (ev_dict ''selections'' ev)
         else if kind = K_SET_STAGE_METADATA
         then map (\<lambda>n. (StageMetadata n, value_of n ev)) (filter (\<lambda>n. map_of ev n \<noteq> None) STAGE_METADATA_KEYS)
         else if kind = K_SET_CONNECTABLE_CONNECTION
         then map (\<lambda>n. (Connection n, PNone)) (ev_strings ''disconnections'' ev) @
              map (\<lambda>(n, v). (Connection n, v)) (ev_dict ''connections'' ev)
         else if kind = K_LOAD_PAYLOAD \<or> kind = K_UNLOAD_PAYLOAD then [(Loaded, PBool (kind = K_LOAD_PAYLOAD))]
         else [(Whole kind (mk_purpose (key_of_event ev [])), PDict ev)])"

definition record_key :: "received_event \<Rightarrow> merge_key" where
  "record_key r = key_of_event (re_event r) (case re_layer r of None \<Rightarrow> [] | Some l \<Rightarrow> l)"

definition erases :: "event \<Rightarrow> slot \<Rightarrow> bool" where
  "erases ev s = (case s of
     Attribute name t \<Rightarrow> t \<noteq> PNone \<and> ev_str ''spec_path'' ev = ev_prim ev @ ''.'' @ name \<and>
       t \<in> num_key ` (case map_of ev ''times'' of Some (PList ts) \<Rightarrow> set ts | _ \<Rightarrow> {})
   | _ \<Rightarrow> False)"

definition effect :: "received_event \<Rightarrow> position \<rightharpoonup> pyval option" where
  "effect r = (\<lambda>(l, p, s).
     let ev = re_event r; key = record_key r
     in if l \<noteq> mk_layer key then None
        else if ev_kind ev = K_DELETE_PRIM then (if in_subtree (ev_prim ev) p then Some None else None)
        else if p \<noteq> ev_prim ev then None
        else if ev_kind ev = K_ERASE_TIME_SAMPLES then (if erases ev s then Some None else None)
        else map_option Some (map_of (slot_writes ev) s))"

text \<open>The opinions a log leaves: \<open>Some None\<close> is an opinion that was cleared and not authored since.\<close>

definition authored :: "received_event list \<Rightarrow> position \<rightharpoonup> pyval option" where
  "authored rs = fold (\<lambda>r m. m ++ effect r) rs Map.empty"

section \<open>Typed edits\<close>

text \<open>Which kind writes an attribute.\<close>

definition attribute_owner :: "string \<Rightarrow> string" where
  "attribute_owner name =
     (if name \<in> set (dict_values TRS_ATTRIBUTES) then K_SET_XFORM_TRS
      else if name \<in> set (dict_values INSTANCER_ATTRIBUTES) then K_SET_POINT_INSTANCER
      else if name = ''visibility'' then K_SET_VISIBILITY
      else if prefix ''inputs:'' name then K_SET_CONNECTABLE_INPUT
      else K_SET_GPRIM_ATTRS)"

definition dict_ok :: "string \<Rightarrow> event \<Rightarrow> bool" where
  "dict_ok name ev = (case map_of ev name of None \<Rightarrow> True | Some (PDict d) \<Rightarrow> wf_dict d | _ \<Rightarrow> False)"

definition fields_ok :: "string list \<Rightarrow> event \<Rightarrow> bool" where
  "fields_ok names ev \<longleftrightarrow> map_of ev ''fields'' = Some (PList (map PStr (ev_strings ''fields'' ev))) \<and>
     list_all (\<lambda>n. n \<in> set names \<and> map_of ev n \<noteq> None) (ev_strings ''fields'' ev)"

definition INSTANCER_FIELDS :: "string list" where
  "INSTANCER_FIELDS = dict_keys INSTANCER_ATTRIBUTES"

definition typed_event :: "event \<Rightarrow> bool" where
  "typed_event ev \<longleftrightarrow>
     (let kind = ev_kind ev
      in kind \<notin> {K_RENAME_PRIM, K_SET_SDF_SPEC_FIELDS, K_REPLACE_SDF_LAYER_CONTENT, K_SET_SUBLAYERS} \<and>
         (kind \<notin> set SAMPLE_VALUE_KINDS \<longrightarrow> ev_time ev = PNone) \<and>
         (kind = K_ENSURE_PRIM \<longrightarrow> ev_str ''typeName'' ev \<noteq> []) \<and>
         (kind = K_SET_XFORM_TRS \<longrightarrow> fields_ok TRS_FIELDS ev) \<and>
         (kind = K_SET_POINT_INSTANCER \<longrightarrow>
            fields_ok (INSTANCER_FIELDS @ (if ev_time ev = PNone then [''prototypes'', ''inactive_ids''] else [])) ev) \<and>
         (kind = K_SET_GPRIM_ATTRS \<longrightarrow> dict_ok ''attrs'' ev \<and>
            list_all (\<lambda>n. attribute_owner n = K_SET_GPRIM_ATTRS) (dict_keys (ev_dict ''attrs'' ev))) \<and>
         (kind = K_SET_CONNECTABLE_INPUT \<longrightarrow> dict_ok ''inputs'' ev) \<and>
         (kind = K_SET_VARIANT_SELECTIONS \<longrightarrow> dict_ok ''selections'' ev) \<and>
         (kind = K_SET_CONNECTABLE_CONNECTION \<longrightarrow> dict_ok ''connections'' ev))"

section \<open>Overriding\<close>

lemma map_add_absorb: "dom a \<subseteq> dom b \<Longrightarrow> a ++ b = b"
  by (auto simp: map_add_def fun_eq_iff split: option.splits)

lemma authored_acc: "fold (\<lambda>r m. m ++ effect r) rs m = m ++ authored rs"
proof (induction rs arbitrary: m)
  case (Cons r rs)
  have "authored (r # rs) = effect r ++ authored rs" using Cons.IH [of "effect r"] by (simp add: authored_def)
  then show ?case using Cons.IH [of "m ++ effect r"] by simp
qed (simp add: authored_def)

lemma authored_simps [simp]:
  "authored [] = Map.empty" "authored (r # rs) = effect r ++ authored rs"
  "authored (rs @ rs') = authored rs ++ authored rs'"
  using authored_acc [of rs "effect r"] authored_acc [of rs' "authored rs"] by (simp_all add: authored_def)

lemma dom_authored: "dom (authored rs) = (\<Union>r \<in> set rs. dom (effect r))"
  by (induction rs) auto

text \<open>A record moves past records it is disjoint from; dropped records are covered by a later one.\<close>

lemma authored_past:
  assumes "\<And>y. y \<in> set ys \<Longrightarrow> dom m \<inter> dom (effect y) = {}"
  shows "m ++ authored ys = authored ys ++ m"
  using assms by (intro map_add_comm) (auto simp: dom_authored)

lemma authored_drop:
  assumes "\<And>x. x \<in> set rs \<Longrightarrow> \<not> keep x \<Longrightarrow> dom (effect x) \<subseteq> dom m"
  shows "authored (filter keep rs) ++ m = authored rs ++ m"
  using assms
proof (induction rs arbitrary: m rule: rev_induct)
  case (snoc x rs)
  show ?case
  proof (cases "keep x")
    case True
    have "authored (filter keep rs) ++ (effect x ++ m) = authored rs ++ (effect x ++ m)"
      using snoc.prems by (intro snoc.IH) auto
    with True show ?thesis by simp
  next
    case False
    then have "effect x ++ m = m" using snoc.prems by (intro map_add_absorb) simp
    then have "(authored rs ++ effect x) ++ m = authored rs ++ m" by (simp flip: map_add_assoc)
    with False snoc show ?thesis by simp
  qed
qed simp

section \<open>What a key can write\<close>

definition destructive :: "merge_key \<Rightarrow> bool" where
  "destructive key \<longleftrightarrow> mk_kind key \<in> {K_DELETE_PRIM, K_ERASE_TIME_SAMPLES}"

definition slot_kind :: "slot \<Rightarrow> string" where
  "slot_kind s = (case s of
     Definition \<Rightarrow> K_ENSURE_PRIM | Schema n \<Rightarrow> K_ENSURE_PRIM | XformOps \<Rightarrow> K_ENSURE_XFORM_OPS
   | Attribute n t \<Rightarrow> attribute_owner n | Relation n \<Rightarrow> K_SET_POINT_INSTANCER
   | Variant n \<Rightarrow> K_SET_VARIANT_SELECTIONS | Connection n \<Rightarrow> K_SET_CONNECTABLE_CONNECTION
   | StageMetadata n \<Rightarrow> K_SET_STAGE_METADATA | Loaded \<Rightarrow> K_LOAD_PAYLOAD | Whole kind purpose \<Rightarrow> kind)"

definition slot_time :: "slot \<Rightarrow> pyval" where
  "slot_time s = (case s of Attribute n t \<Rightarrow> t | _ \<Rightarrow> PNone)"

definition slot_purpose :: "slot \<Rightarrow> string" where
  "slot_purpose s = (case s of Whole kind purpose \<Rightarrow> purpose | _ \<Rightarrow> [])"

definition payload_kind :: "string \<Rightarrow> string" where
  "payload_kind kind = (if kind = K_UNLOAD_PAYLOAD then K_LOAD_PAYLOAD else kind)"

definition reach :: "merge_key \<Rightarrow> position set" where
  "reach key = {(l, p, s). l = mk_layer key \<and> p = mk_prim key \<and> slot_kind s = payload_kind (mk_kind key) \<and>
     slot_time s = mk_time key \<and> slot_purpose s = mk_purpose key}"

lemma record_key_sel [simp]:
  "mk_prim (record_key r) = ev_prim (re_event r)" "mk_kind (record_key r) = ev_kind (re_event r)"
  "mk_time (record_key r) = num_key (ev_time (re_event r))"
  by (simp_all add: record_key_def key_of_event_def Let_def)

definition typed :: "received_event \<Rightarrow> bool" where
  "typed r \<longleftrightarrow> typed_event (re_event r)"

lemma num_key_None [simp]: "num_key PNone = PNone" "num_key t = PNone \<longleftrightarrow> t = PNone"
  by (cases t; simp add: num_key_def)+

lemma instancer_attributes:
  "INSTANCER_ATTRIBUTES = [(''proto_indices'', ''protoIndices''), (''positions'', ''positions''),
     (''orientations'', ''orientationsf''), (''scales'', ''scales''), (''velocities'', ''velocities''),
     (''accelerations'', ''accelerations''), (''angular_velocities'', ''angularVelocities''), (''ids'', ''ids''),
     (''invisible_ids'', ''invisibleIds'')]"
  by (simp add: INSTANCER_ATTRIBUTES_def POINT_INSTANCER_USD_TO_WIRE_def dict_update_def)

lemmas attribute_tables = TRS_ATTRIBUTES_def instancer_attributes INSTANCER_FIELDS_def TRS_FIELDS_def

lemma trs_slot:
  assumes "n \<in> set TRS_FIELDS"
  shows "\<exists>a. field_slot t n = Attribute a t \<and> attribute_owner a = K_SET_XFORM_TRS"
proof -
  have "list_all (\<lambda>n. case map_of TRS_ATTRIBUTES n of None \<Rightarrow> False | Some a \<Rightarrow> attribute_owner a = K_SET_XFORM_TRS) TRS_FIELDS"
    by code_simp
  with assms show ?thesis by (auto simp: list_all_iff field_slot_def split: option.splits)
qed

lemma instancer_slot:
  assumes "n \<in> set INSTANCER_FIELDS"
  shows "\<exists>a. field_slot t n = Attribute a t \<and> attribute_owner a = K_SET_POINT_INSTANCER"
proof -
  have "list_all (\<lambda>n. map_of TRS_ATTRIBUTES n = None \<and> (case map_of INSTANCER_ATTRIBUTES n of
      None \<Rightarrow> False | Some a \<Rightarrow> attribute_owner a = K_SET_POINT_INSTANCER)) INSTANCER_FIELDS"
    by code_simp
  with assms show ?thesis by (auto simp: list_all_iff field_slot_def split: option.splits)
qed

lemma relation_slot: "n \<in> {''prototypes'', ''inactive_ids''} \<Longrightarrow> field_slot t n = Relation n"
proof -
  have "list_all (\<lambda>n. map_of TRS_ATTRIBUTES n = None \<and> map_of INSTANCER_ATTRIBUTES n = None) [''prototypes'', ''inactive_ids'']"
    by code_simp
  then show "n \<in> {''prototypes'', ''inactive_ids''} \<Longrightarrow> field_slot t n = Relation n" by (auto simp: field_slot_def)
qed

lemma input_owner: "attribute_owner (''inputs:'' @ n) = K_SET_CONNECTABLE_INPUT"
  by (simp add: attribute_owner_def attribute_tables)

lemma visibility_owner: "attribute_owner ''visibility'' = K_SET_VISIBILITY"
  by (simp add: attribute_owner_def attribute_tables)

definition slot_in :: "event \<Rightarrow> slot \<Rightarrow> bool" where
  "slot_in ev s \<longleftrightarrow> slot_kind s = payload_kind (ev_kind ev) \<and> slot_time s = num_key (ev_time ev) \<and>
     slot_purpose s = mk_purpose (key_of_event ev [])"

lemmas slot_in_defs = slot_in_def slot_kind_def slot_time_def slot_purpose_def payload_kind_def key_of_event_def

lemma field_slot_in:
  assumes "typed_event ev" "ev_kind ev \<in> {K_SET_XFORM_TRS, K_SET_POINT_INSTANCER}" "n \<in> set (ev_strings ''fields'' ev)"
  shows "slot_in ev (field_slot (num_key (ev_time ev)) n)"
proof (cases "n \<in> {''prototypes'', ''inactive_ids''}")
  case True
  with assms have "ev_kind ev = K_SET_POINT_INSTANCER" "ev_time ev = PNone"
    by (auto simp: typed_event_def fields_ok_def list_all_iff attribute_tables split: if_splits)
  with True show ?thesis by (simp add: slot_in_defs relation_slot)
next
  case False
  with assms have "n \<in> set (if ev_kind ev = K_SET_XFORM_TRS then TRS_FIELDS else INSTANCER_FIELDS)"
    by (auto simp: typed_event_def fields_ok_def list_all_iff split: if_splits)
  with assms(2) trs_slot [of n "num_key (ev_time ev)"] instancer_slot [of n "num_key (ev_time ev)"]
  show ?thesis by (auto simp: slot_in_defs)
qed

lemma slot_writes_in:
  assumes "typed_event ev" "(s, v) \<in> set (slot_writes ev)"
  shows "slot_in ev s"
proof (cases "ev_kind ev \<in> {K_SET_XFORM_TRS, K_SET_POINT_INSTANCER}")
  case True
  with assms(2) obtain n where "n \<in> set (ev_strings ''fields'' ev)" "s = field_slot (num_key (ev_time ev)) n"
    by (auto simp: slot_writes_def Let_def)
  with field_slot_in [OF assms(1) True] show ?thesis by simp
next
  case False
  with assms show ?thesis
    by (auto simp: slot_writes_def typed_event_def Let_def slot_in_defs SAMPLE_VALUE_KINDS_def input_owner [simplified]
        visibility_owner list_all_iff split: if_splits)
qed

lemma effect_reach:
  assumes "typed r" "\<not> destructive (record_key r)"
  shows "dom (effect r) \<subseteq> reach (record_key r)"
proof
  fix pos assume "pos \<in> dom (effect r)"
  then obtain l p s v where pos: "pos = (l, p, s)" "effect r (l, p, s) = Some v" by (cases pos) auto
  with assms(2) have eq: "l = mk_layer (record_key r)" "p = ev_prim (re_event r)"
    and w: "map_of (slot_writes (re_event r)) s \<noteq> None"
    by (auto simp: effect_def Let_def destructive_def split: if_splits)
  then obtain u where "(s, u) \<in> set (slot_writes (re_event r))" by (auto dest: map_of_SomeD)
  then have "slot_in (re_event r) s" using assms(1) by (intro slot_writes_in) (auto simp: typed_def)
  then show "pos \<in> reach (record_key r)"
    using eq by (simp add: pos reach_def slot_in_def) (simp add: record_key_def key_of_event_def Let_def)
qed

section \<open>Merged payloads\<close>

abbreviation slot_map :: "event \<Rightarrow> slot \<rightharpoonup> pyval" where
  "slot_map ev \<equiv> map_of (slot_writes ev)"

text \<open>A merged payload: the same identity, still a typed edit, and the opinions of both.\<close>

definition same_id :: "event \<Rightarrow> event \<Rightarrow> bool" where
  "same_id x y \<longleftrightarrow> (\<forall>layer. key_of_event x layer = key_of_event y layer)"

lemma same_idI:
  assumes "map_of x ''k'' = map_of y ''k''" "map_of x ''prim'' = map_of y ''prim''" "map_of x ''time'' = map_of y ''time''"
    and "map_of x ''spec_path'' = map_of y ''spec_path''" "map_of x ''material_purpose'' = map_of y ''material_purpose''"
  shows "same_id x y"
  using assms by (simp add: same_id_def key_of_event_def Let_def ev_kind_def ev_prim_def ev_time_def ev_str_def)

lemma same_idD:
  assumes "same_id x y"
  shows "ev_kind x = ev_kind y" "ev_prim x = ev_prim y" "num_key (ev_time x) = num_key (ev_time y)"
    "ev_time x = PNone \<longleftrightarrow> ev_time y = PNone" "mk_purpose (key_of_event x l) = mk_purpose (key_of_event y l)"
proof -
  from assms have eq: "key_of_event x l = key_of_event y l" for l by (simp add: same_id_def)
  show "ev_kind x = ev_kind y" "ev_prim x = ev_prim y" "num_key (ev_time x) = num_key (ev_time y)"
    using eq [of "[]"] by (simp_all add: key_of_event_def Let_def)
  then show "ev_time x = PNone \<longleftrightarrow> ev_time y = PNone" by (metis num_key_None(2))
  show "mk_purpose (key_of_event x l) = mk_purpose (key_of_event y l)" by (simp add: eq)
qed

definition merges :: "event \<Rightarrow> event \<Rightarrow> event \<Rightarrow> bool" where
  "merges p ev m \<longleftrightarrow> same_id m p \<and> typed_event m \<and> slot_map m = slot_map p ++ slot_map ev"

text \<open>Slots named by the keys of a dictionary, and by the entries of a list of fields.\<close>

lemma map_of_named:
  assumes "inj f"
  shows "map_of (map (\<lambda>(n, v). (f n, v)) d) (f n) = map_of d n"
    "s \<notin> range f \<Longrightarrow> map_of (map (\<lambda>(n, v). (f n, v)) d) s = None"
  using assms by (induction d) (auto simp: inj_eq)

lemma named_add:
  assumes "inj f" "map_of c = map_of a ++ map_of b"
  shows "map_of (map (\<lambda>(n, v). (f n, v)) c) = map_of (map (\<lambda>(n, v). (f n, v)) a) ++ map_of (map (\<lambda>(n, v). (f n, v)) b)"
proof
  fix s
  show "map_of (map (\<lambda>(n, v). (f n, v)) c) s =
      (map_of (map (\<lambda>(n, v). (f n, v)) a) ++ map_of (map (\<lambda>(n, v). (f n, v)) b)) s"
    by (cases "s \<in> range f") (auto simp: map_add_def map_of_named [OF assms(1)] assms(2) split: option.splits)
qed

lemma map_of_wf_rev: "wf_dict d \<Longrightarrow> map_of (rev d) = map_of d"
  by (simp add: wf_dict_def map_of_inject_set rev_map [symmetric])

lemma update_dict_simps:
  "k \<noteq> name \<Longrightarrow> map_of (update_dict name ev p) k = map_of p k"
  "map_of (update_dict name ev p) name = Some (PDict (dict_update (ev_dict name p) (ev_dict name ev)))"
  by (simp_all add: update_dict_def)

lemma dict_okD: "dict_ok name ev \<Longrightarrow> wf_dict (ev_dict name ev)"
  by (simp add: dict_ok_def ev_dict_def split: option.splits pyval.splits)

lemma update_dict_map:
  assumes "dict_ok name ev"
  shows "map_of (ev_dict name (update_dict name ev p)) = map_of (ev_dict name p) ++ map_of (ev_dict name ev)"
    "dict_ok name p \<Longrightarrow> dict_ok name (update_dict name ev p)"
  using dict_okD [OF assms] dict_okD [of name p]
  by (simp_all add: ev_dict_def [of _ "update_dict name ev p"] update_dict_simps map_of_dict_update map_of_wf_rev dict_ok_def)

lemma map_of_fields:
  assumes "inj_on f A" "set ns \<subseteq> A"
  shows "n \<in> A \<Longrightarrow> map_of (map (\<lambda>n. (f n, g n)) ns) (f n) = (if n \<in> set ns then Some (g n) else None)"
    "s \<notin> f ` A \<Longrightarrow> map_of (map (\<lambda>n. (f n, g n)) ns) s = None"
  using assms(2) by (induction ns) (use assms(1) in \<open>auto simp: inj_on_def\<close>)

lemma fields_add:
  assumes "inj_on f A" "set as \<subseteq> A" "set bs \<subseteq> A" "set cs = set as \<union> set bs"
    and "\<And>n. n \<in> set bs \<Longrightarrow> g n = h n" "\<And>n. n \<in> set as \<Longrightarrow> n \<notin> set bs \<Longrightarrow> g n = k n"
  shows "map_of (map (\<lambda>n. (f n, g n)) cs) = map_of (map (\<lambda>n. (f n, k n)) as) ++ map_of (map (\<lambda>n. (f n, h n)) bs)"
proof
  fix s
  have cs: "set cs \<subseteq> A" using assms by simp
  show "map_of (map (\<lambda>n. (f n, g n)) cs) s = (map_of (map (\<lambda>n. (f n, k n)) as) ++ map_of (map (\<lambda>n. (f n, h n)) bs)) s"
  proof (cases "s \<in> f ` A")
    case True
    then obtain n where n: "n \<in> A" "s = f n" by blast
    show ?thesis unfolding n(2) map_add_def
      map_of_fields(1) [OF assms(1) cs n(1)] map_of_fields(1) [OF assms(1,2) n(1)] map_of_fields(1) [OF assms(1,3) n(1)]
      using assms(4-6) by simp
  next
    case False
    then show ?thesis
      by (simp add: map_add_def map_of_fields(2) [OF assms(1) cs] map_of_fields(2) [OF assms(1,2)]
          map_of_fields(2) [OF assms(1,3)])
  qed
qed

lemma field_slots_inj:
  "inj_on (field_slot t) (set TRS_FIELDS)" "inj_on (field_slot t) (set (INSTANCER_FIELDS @ [''prototypes'', ''inactive_ids'']))"
proof -
  have "distinct (map (field_slot t) TRS_FIELDS)" by code_simp
  then show "inj_on (field_slot t) (set TRS_FIELDS)" by (simp add: distinct_map)
  have "distinct (map (field_slot t) (INSTANCER_FIELDS @ [''prototypes'', ''inactive_ids'']))" by code_simp
  then show "inj_on (field_slot t) (set (INSTANCER_FIELDS @ [''prototypes'', ''inactive_ids'']))" by (simp only: distinct_map)
qed

lemma merge_field_simps:
  "ev_strings ''fields'' (merge_field ev n p) = add_key n (ev_strings ''fields'' p)"
  "map_of (merge_field ev n p) ''fields'' = Some (PList (map PStr (add_key n (ev_strings ''fields'' p))))"
  "k \<noteq> ''fields'' \<Longrightarrow> map_of (merge_field ev n p) k = (if k = n \<and> map_of ev k \<noteq> None then map_of ev k else map_of p k)"
proof -
  show f: "map_of (merge_field ev n p) ''fields'' = Some (PList (map PStr (add_key n (ev_strings ''fields'' p))))"
    by (simp add: merge_field_def)
  show "ev_strings ''fields'' (merge_field ev n p) = add_key n (ev_strings ''fields'' p)" using f by (rule ev_strings_PStr)
  show "k \<noteq> ''fields'' \<Longrightarrow> map_of (merge_field ev n p) k = (if k = n \<and> map_of ev k \<noteq> None then map_of ev k else map_of p k)"
    by (auto simp: merge_field_def copy_value_def split: option.splits)
qed

lemma merge_field_loop:
  "ev_strings ''fields'' (fold (merge_field ev) ns p) = fold add_key ns (ev_strings ''fields'' p)"
  "k \<noteq> ''fields'' \<Longrightarrow> map_of (fold (merge_field ev) ns p) k = (if k \<in> set ns \<and> map_of ev k \<noteq> None then map_of ev k else map_of p k)"
  "map_of p ''fields'' = Some (PList (map PStr (ev_strings ''fields'' p))) \<Longrightarrow>
     map_of (fold (merge_field ev) ns p) ''fields'' = Some (PList (map PStr (fold add_key ns (ev_strings ''fields'' p))))"
  by (induction ns arbitrary: p) (auto simp: merge_field_simps)

lemma set_add_keys: "set (fold add_key ns xs) = set xs \<union> set ns"
  by (induction ns arbitrary: xs) (auto simp: add_key_def)

definition field_names :: "event \<Rightarrow> string list" where
  "field_names ev = (if ev_kind ev = K_SET_XFORM_TRS then TRS_FIELDS
     else INSTANCER_FIELDS @ [''prototypes'', ''inactive_ids''])"

lemma field_names_apart:
  "n \<in> set (field_names ev) \<Longrightarrow> n \<notin> {''k'', ''prim'', ''time'', ''fields'', ''spec_path'', ''material_purpose''}"
  by (auto simp: field_names_def attribute_tables split: if_splits)

lemma typed_fields:
  assumes "typed_event ev" "ev_kind ev \<in> {K_SET_XFORM_TRS, K_SET_POINT_INSTANCER}"
  shows "set (ev_strings ''fields'' ev) \<subseteq> set (field_names ev)" "n \<in> set (ev_strings ''fields'' ev) \<Longrightarrow> map_of ev n \<noteq> None"
    "map_of ev ''fields'' = Some (PList (map PStr (ev_strings ''fields'' ev)))"
    "inj_on (field_slot t) (set (field_names ev))"
  using assms field_slots_inj
  by (auto simp: typed_event_def fields_ok_def field_names_def list_all_iff split: if_splits)

definition allowed_fields :: "event \<Rightarrow> string list" where
  "allowed_fields ev = (if ev_kind ev = K_SET_XFORM_TRS then TRS_FIELDS
     else INSTANCER_FIELDS @ (if ev_time ev = PNone then [''prototypes'', ''inactive_ids''] else []))"

lemma allowed_fields_id: "same_id x y \<Longrightarrow> allowed_fields x = allowed_fields y"
  by (simp add: allowed_fields_def same_idD)

lemma typed_fields_iff:
  "ev_kind ev \<in> {K_SET_XFORM_TRS, K_SET_POINT_INSTANCER} \<Longrightarrow> typed_event ev \<longleftrightarrow> fields_ok (allowed_fields ev) ev"
  by (auto simp: typed_event_def allowed_fields_def SAMPLE_VALUE_KINDS_def)

lemma merge_fields_merges:
  assumes "typed_event p" "typed_event ev" "same_id p ev" "ev_kind ev \<in> {K_SET_XFORM_TRS, K_SET_POINT_INSTANCER}"
  shows "merges p ev (merge_fields p ev)"
proof -
  let ?f = "ev_strings ''fields''" and ?t = "num_key (ev_time ev)"
  note id = same_idD [OF assms(3)]
  have kp: "ev_kind p \<in> {K_SET_XFORM_TRS, K_SET_POINT_INSTANCER}" using assms(4) id by simp
  have names: "field_names p = field_names ev" by (simp add: field_names_def id)
  note p = typed_fields [OF assms(1) kp, unfolded names] and e = typed_fields [OF assms(2,4)]
  have w: "slot_map x = map_of (map (\<lambda>n. (field_slot ?t n, value_of n x)) (?f x))"
    if "ev_kind x = ev_kind ev" "num_key (ev_time x) = ?t" for x
    using that assms(4) by (auto simp: slot_writes_def)
  show ?thesis
  proof (cases "map_of p ''fields'' = map_of ev ''fields''")
    case True
    then have "?f p = ?f ev" by (simp add: ev_strings_def)
    then have "slot_map ev = slot_map p ++ slot_map ev"
      unfolding w [OF id(1,3)] w [OF refl refl] using e p by (intro fields_add [OF e(4)]) auto
    with True assms show ?thesis by (simp add: merges_def merge_fields_def same_id_def)
  next
    case False
    define m where "m = merge_fields p ev"
    have fm: "set (?f m) = set (?f p) \<union> set (?f ev)" "map_of m ''fields'' = Some (PList (map PStr (?f m)))"
      using False p(3) by (simp_all add: m_def merge_fields_def merge_field_loop set_add_keys Un_commute)
    have o: "k \<noteq> ''fields'' \<Longrightarrow> map_of m k = (if k \<in> set (?f ev) then map_of ev k else map_of p k)" for k
      using False e(2) by (auto simp: m_def merge_fields_def merge_field_loop)
    have keep: "k \<in> {''k'', ''prim'', ''time'', ''spec_path'', ''material_purpose''} \<Longrightarrow> map_of m k = map_of p k" for k
      using o e(1) field_names_apart [of k ev] by auto
    then have mp: "same_id m p" by (intro same_idI) simp_all
    note idm = same_idD [OF this]
    have "n \<noteq> ''fields'' \<and> n \<in> set (allowed_fields ev)" if "n \<in> set (?f m)" for n
      using that assms(1,2) p(1) e(1) field_names_apart [of n ev]
      unfolding fm(1) typed_fields_iff [OF kp] typed_fields_iff [OF assms(4)] allowed_fields_id [OF assms(3)]
      by (auto simp: fields_ok_def list_all_iff)
    then have "typed_event m"
      unfolding typed_fields_iff [of m, unfolded idm, OF kp] allowed_fields_id [OF mp] allowed_fields_id [OF assms(3)] fields_ok_def
      using fm o p(2) e(2) by (auto simp: list_all_iff)
    moreover have "slot_map m = slot_map p ++ slot_map ev"
      unfolding w [OF id(1,3)] w [OF refl refl] w [OF idm(1) [unfolded id(1)] idm(3) [unfolded id(3)]]
      using o e(1) p(1) field_names_apart
      by (intro fields_add [OF e(4)]) (auto simp: fm value_of_def)
    ultimately show ?thesis using mp by (simp add: merges_def m_def)
  qed
qed

lemma update_dict_merges:
  assumes "typed_event p" "typed_event ev" "same_id p ev" "dict_ok name ev" "dict_ok name p" "inj f"
    and "name \<notin> {''k'', ''prim'', ''time'', ''spec_path'', ''material_purpose''}"
    and "\<And>x. ev_kind x = ev_kind ev \<Longrightarrow> num_key (ev_time x) = num_key (ev_time ev) \<Longrightarrow>
      slot_writes x = map (\<lambda>(n, v). (f n, v)) (ev_dict name x)"
    and "\<And>k. k \<noteq> name \<Longrightarrow> k \<notin> others \<Longrightarrow> map_of m k = map_of p k" "ev_dict name m = ev_dict name (update_dict name ev p)"
    and "others \<inter> {''k'', ''prim'', ''time'', ''spec_path'', ''material_purpose'', name} = {}"
  shows "same_id m p" "slot_map m = slot_map p ++ slot_map ev"
proof -
  note id = same_idD [OF assms(3)]
  show mp: "same_id m p" using assms(7,11) by (intro same_idI) (rule assms(9); auto)+
  note idm = same_idD [OF mp]
  show "slot_map m = slot_map p ++ slot_map ev"
    unfolding assms(8) [OF id(1,3)] assms(8) [OF refl refl] assms(8) [OF idm(1) [unfolded id(1)] idm(3) [unfolded id(3)]]
    by (rule named_add [OF assms(6)]) (simp add: assms(10) update_dict_map [OF assms(4)])
qed

lemma truthy_dict: "dict_ok name ev \<Longrightarrow> \<not> truthy (map_of ev name) \<Longrightarrow> ev_dict name ev = []"
  by (auto simp: dict_ok_def truthy_def ev_dict_def split: option.splits pyval.splits)

lemma inj_slots [simp]: "inj (\<lambda>n. Attribute n t)" "inj (\<lambda>n. Attribute (''inputs:'' @ n) t)" "inj Variant"
  by (auto simp: inj_def)

lemma merge_gprim_merges:
  assumes "typed_event p" "typed_event ev" "same_id p ev" "ev_kind ev = K_SET_GPRIM_ATTRS"
  shows "merges p ev (merge_gprim p ev)"
proof -
  define m where "m = merge_gprim p ev"
  have kp: "ev_kind p = K_SET_GPRIM_ATTRS" using assms(3,4) same_idD(1) by metis
  have d: "dict_ok ''attrs'' ev" "dict_ok ''attrs'' p" using assms(1,2,4) kp by (simp_all add: typed_event_def Let_def)
  have o: "map_of m k = map_of p k" if "k \<noteq> ''attrs''" "k \<notin> {''primvar_meta'', ''attr_interp''}" for k
    using that by (simp add: m_def merge_gprim_def update_dict_simps)
  have "map_of m ''attrs'' = (if truthy (map_of ev ''attrs'') then map_of (update_dict ''attrs'' ev p) ''attrs'' else map_of p ''attrs'')"
    by (simp add: m_def merge_gprim_def update_dict_simps)
  then have attrs: "ev_dict ''attrs'' m = ev_dict ''attrs'' (update_dict ''attrs'' ev p)" and dm: "dict_ok ''attrs'' m"
    using truthy_dict [OF d(1)] d update_dict_map(2) [OF d]
    by (auto simp: ev_dict_def [of _ m] ev_dict_def [of _ p] ev_dict_def [of _ "update_dict n e q" for n e q]
        update_dict_simps dict_update_def dict_ok_def split: if_splits)
  note u = update_dict_merges [OF assms(1-3) d inj_slots(1) [of "num_key (ev_time ev)"] _ _ o attrs, where others = "{''primvar_meta'', ''attr_interp''}"]
  have mp: "same_id m p" and w: "slot_map m = slot_map p ++ slot_map ev"
    by (rule u; simp add: slot_writes_def Let_def assms(4))+
  have "set (dict_keys (ev_dict ''attrs'' m)) = set (dict_keys (ev_dict ''attrs'' p)) \<union> set (dict_keys (ev_dict ''attrs'' ev))"
    unfolding dict_keys_set attrs update_dict_map(1) [OF d(1)] by auto
  then have "typed_event m"
    using assms(1,2,4) kp dm same_idD(1,4) [OF mp] by (auto simp: typed_event_def Let_def list_all_iff SAMPLE_VALUE_KINDS_def)
  with mp w show ?thesis by (simp add: merges_def m_def)
qed

lemma merge_input_merges:
  assumes "typed_event p" "typed_event ev" "same_id p ev" "ev_kind ev = K_SET_CONNECTABLE_INPUT"
  shows "merges p ev (merge_input p ev)"
proof -
  define m where "m = merge_input p ev"
  have kp: "ev_kind p = K_SET_CONNECTABLE_INPUT" using assms(3,4) same_idD(1) by metis
  have d: "dict_ok ''inputs'' ev" "dict_ok ''inputs'' p" using assms(1,2,4) kp by (simp_all add: typed_event_def Let_def)
  have o: "map_of m k = map_of p k" if "k \<noteq> ''inputs''" "k \<notin> {''input_types'', ''info_id''}" for k
    using that by (auto simp: m_def merge_input_def Let_def copy_value_def update_dict_simps split: option.splits)
  have i: "map_of m ''inputs'' = map_of (update_dict ''inputs'' ev p) ''inputs''"
    by (auto simp: m_def merge_input_def Let_def copy_value_def update_dict_simps split: option.splits)
  then have inputs: "ev_dict ''inputs'' m = ev_dict ''inputs'' (update_dict ''inputs'' ev p)" by (simp add: ev_dict_def)
  note u = update_dict_merges [OF assms(1-3) d inj_slots(2) [of "num_key (ev_time ev)"] _ _ o inputs, where others = "{''input_types'', ''info_id''}"]
  have mp: "same_id m p" and w: "slot_map m = slot_map p ++ slot_map ev"
    by (rule u; simp add: slot_writes_def Let_def assms(4))+
  have "typed_event m"
    using i update_dict_map(2) [OF d] kp same_idD(1) [OF mp] by (simp add: typed_event_def Let_def SAMPLE_VALUE_KINDS_def dict_ok_def)
  with mp w show ?thesis by (simp add: merges_def m_def)
qed

lemma merge_variants_merges:
  assumes "typed_event p" "typed_event ev" "same_id p ev" "ev_kind ev = K_SET_VARIANT_SELECTIONS"
  shows "merges p ev (update_dict ''selections'' ev p)"
proof -
  have kp: "ev_kind p = K_SET_VARIANT_SELECTIONS" using assms(3,4) same_idD(1) by metis
  have d: "dict_ok ''selections'' ev" "dict_ok ''selections'' p" and t: "ev_time p = PNone"
    using assms(1,2,4) kp by (simp_all add: typed_event_def Let_def SAMPLE_VALUE_KINDS_def)
  note u = update_dict_merges [OF assms(1-3) d inj_slots(3) _ _ update_dict_simps(1) refl, where others = "{}"]
  have mp: "same_id (update_dict ''selections'' ev p) p" and w: "slot_map (update_dict ''selections'' ev p) = slot_map p ++ slot_map ev"
    by (rule u; simp add: slot_writes_def Let_def assms(4))+
  have "typed_event (update_dict ''selections'' ev p)"
    using update_dict_map(2) [OF d] kp t same_idD(1,4) [OF mp] by (simp add: typed_event_def Let_def SAMPLE_VALUE_KINDS_def)
  with mp w show ?thesis by (simp add: merges_def)
qed

lemma set_fromkeys [simp]: "set (fromkeys xs) = set xs"
  by (simp add: fromkeys_def)

definition disconnections_of :: "event \<Rightarrow> string list" where
  "disconnections_of ev = ev_strings ''disconnections'' ev"

lemma merge_connections_simps:
  assumes "dict_ok ''connections'' ev"
  shows "k \<notin> {''connections'', ''disconnections''} \<Longrightarrow> map_of (merge_connections (Some p) ev) k = map_of p k"
    "map_of (ev_dict ''connections'' (merge_connections (Some p) ev)) =
       map_of (ev_dict ''connections'' p) ++ map_of (ev_dict ''connections'' ev)"
    "dict_ok ''connections'' p \<Longrightarrow> dict_ok ''connections'' (merge_connections (Some p) ev)"
    "set (disconnections_of (merge_connections (Some p) ev)) =
       set (disconnections_of ev) \<union> (set (disconnections_of p) - dom (map_of (ev_dict ''connections'' ev)))"
proof -
  define m where "m = merge_connections (Some p) ev"
  define ds where "ds = fold add_key (ev_strings ''disconnections'' ev)
    (filter (\<lambda>name. name \<notin> set (dict_keys (ev_dict ''connections'' ev))) (fromkeys (ev_strings ''disconnections'' p)))"
  have k: "map_of m k = map_of p k" if "k \<notin> {''connections'', ''disconnections''}" for k
    using that by (simp add: m_def merge_connections_def Let_def)
  have c: "map_of m ''connections'' = Some (PDict (dict_update (ev_dict ''connections'' p) (ev_dict ''connections'' ev)))"
    by (simp add: m_def merge_connections_def Let_def)
  have "map_of m ''disconnections'' = (if ds = [] then None else Some (PList (map PStr ds)))"
    by (simp add: m_def merge_connections_def Let_def ds_def)
  then have "disconnections_of m = ds"
    by (cases "ds = []") (simp_all add: disconnections_of_def ev_strings_PStr, simp add: ev_strings_def)
  then show "set (disconnections_of m) =
       set (disconnections_of ev) \<union> (set (disconnections_of p) - dom (map_of (ev_dict ''connections'' ev)))"
    by (auto simp: ds_def set_add_keys disconnections_of_def dict_keys_set [symmetric])
  show "k \<notin> {''connections'', ''disconnections''} \<Longrightarrow> map_of m k = map_of p k" for k by (rule k)
  show "map_of (ev_dict ''connections'' m) = map_of (ev_dict ''connections'' p) ++ map_of (ev_dict ''connections'' ev)"
    using c dict_okD [OF assms] by (simp add: ev_dict_def [of _ m] map_of_dict_update map_of_wf_rev)
  show "dict_ok ''connections'' p \<Longrightarrow> dict_ok ''connections'' m"
    using c dict_okD [of "''connections''" p] by (simp add: dict_ok_def [of _ m])
qed

lemma connection_slot:
  assumes "ev_kind ev = K_SET_CONNECTABLE_CONNECTION"
  shows "slot_map ev (Connection n) =
      (if n \<in> set (disconnections_of ev) then Some PNone else map_of (ev_dict ''connections'' ev) n)"
    "s \<notin> range Connection \<Longrightarrow> slot_map ev s = None"
proof -
  have w: "slot_writes ev = map (\<lambda>n. (Connection n, PNone)) (disconnections_of ev) @
      map (\<lambda>(n, v). (Connection n, v)) (ev_dict ''connections'' ev)"
    using assms by (simp add: slot_writes_def Let_def disconnections_of_def)
  have inj: "inj Connection" by (simp add: inj_def)
  have d: "map_of (map (\<lambda>n. (Connection n, PNone)) ds) s =
      (if s \<in> Connection ` set ds then Some PNone else None)" for ds s
    by (induction ds) auto
  show "slot_map ev (Connection n) =
      (if n \<in> set (disconnections_of ev) then Some PNone else map_of (ev_dict ''connections'' ev) n)"
    by (auto simp: w map_add_def d map_of_named [OF inj] split: option.splits)
  show "s \<notin> range Connection \<Longrightarrow> slot_map ev s = None"
    by (auto simp: w map_add_def d map_of_named(2) [OF inj])
qed

lemma merge_connections_merges:
  assumes "typed_event p" "typed_event ev" "same_id p ev" "ev_kind ev = K_SET_CONNECTABLE_CONNECTION"
  shows "merges p ev (merge_connections (Some p) ev)"
proof -
  define m where "m = merge_connections (Some p) ev"
  have kp: "ev_kind p = K_SET_CONNECTABLE_CONNECTION" using assms(3,4) same_idD(1) by metis
  have d: "dict_ok ''connections'' ev" "dict_ok ''connections'' p" and t: "ev_time p = PNone"
    using assms(1,2,4) kp by (simp_all add: typed_event_def Let_def SAMPLE_VALUE_KINDS_def)
  note m = merge_connections_simps [OF d(1), where p = p, folded m_def]
  have mp: "same_id m p" by (rule same_idI) (simp_all add: m(1))
  have km: "ev_kind m = K_SET_CONNECTABLE_CONNECTION" using same_idD(1) [OF mp] kp by simp
  have "typed_event m" using km m(3) [OF d(2)] t same_idD(4) [OF mp] by (simp add: typed_event_def Let_def SAMPLE_VALUE_KINDS_def)
  moreover have "slot_map m = slot_map p ++ slot_map ev"
  proof
    fix s
    show "slot_map m s = (slot_map p ++ slot_map ev) s"
    proof (cases "s \<in> range Connection")
      case True
      then obtain n where "s = Connection n" by blast
      then show ?thesis
        by (auto simp: connection_slot(1) [OF km] connection_slot(1) [OF kp] connection_slot(1) [OF assms(4)] map_add_def m(2,4)
            split: option.splits)
    qed (simp add: connection_slot(2) [OF km] connection_slot(2) [OF kp] connection_slot(2) [OF assms(4)] map_add_def)
  qed
  ultimately show ?thesis using mp by (simp add: merges_def m_def)
qed

lemma copy_value_map: "map_of (copy_value n ev p) = (\<lambda>k. if k = n \<and> map_of ev k \<noteq> None then map_of ev k else map_of p k)"
  by (auto simp: copy_value_def fun_eq_iff split: option.splits)

lemma copy_values_map:
  "map_of (fold (\<lambda>n p. copy_value n ev p) ns p) = (\<lambda>k. if k \<in> set ns \<and> map_of ev k \<noteq> None then map_of ev k else map_of p k)"
  by (induction ns arbitrary: p) (auto simp: copy_value_map fun_eq_iff)

lemma merge_metadata_merges:
  assumes "typed_event p" "typed_event ev" "same_id p ev" "ev_kind ev = K_SET_STAGE_METADATA"
  shows "merges p ev (fold (\<lambda>n p. copy_value n ev p) STAGE_METADATA_KEYS p)"
proof -
  define m where "m = fold (\<lambda>n p. copy_value n ev p) STAGE_METADATA_KEYS p"
  have kp: "ev_kind p = K_SET_STAGE_METADATA" using assms(3,4) same_idD(1) by metis
  have m: "map_of m = (\<lambda>k. if k \<in> set STAGE_METADATA_KEYS \<and> map_of ev k \<noteq> None then map_of ev k else map_of p k)"
    by (simp add: m_def copy_values_map)
  have mp: "same_id m p" by (rule same_idI) (simp_all add: m STAGE_METADATA_KEYS_def)
  note idm = same_idD [OF mp]
  have "typed_event m" using assms(1) kp idm by (simp add: typed_event_def Let_def SAMPLE_VALUE_KINDS_def)
  moreover have "slot_map m = slot_map p ++ slot_map ev"
  proof -
    have w: "slot_writes x = map (\<lambda>n. (StageMetadata n, value_of n x)) (filter (\<lambda>n. map_of x n \<noteq> None) STAGE_METADATA_KEYS)"
      if "ev_kind x = K_SET_STAGE_METADATA" for x using that by (simp add: slot_writes_def Let_def)
    have km: "ev_kind m = K_SET_STAGE_METADATA" using kp idm by simp
    show ?thesis unfolding w [OF km] w [OF kp] w [OF assms(4)]
      by (rule fields_add [where A = "set STAGE_METADATA_KEYS"]) (auto simp: m value_of_def inj_on_def)
  qed
  ultimately show ?thesis using mp by (simp add: merges_def m_def)
qed

lemma ensure_slot:
  assumes "ev_kind ev = K_ENSURE_PRIM"
  shows "slot_map ev Definition = Some (value_of ''typeName'' ev)"
    "slot_map ev (Schema n) = (if n \<in> set (ev_strings ''api_schemas'' ev) then Some PNone else None)"
    "s \<notin> insert Definition (range Schema) \<Longrightarrow> slot_map ev s = None"
proof -
  have w: "slot_writes ev = (Definition, value_of ''typeName'' ev) # map (\<lambda>n. (Schema n, PNone)) (ev_strings ''api_schemas'' ev)"
    using assms by (simp add: slot_writes_def Let_def)
  have d: "map_of (map (\<lambda>n. (Schema n, PNone)) ns) s = (if s \<in> Schema ` set ns then Some PNone else None)" for ns s
    by (induction ns) auto
  show "slot_map ev Definition = Some (value_of ''typeName'' ev)"
    "slot_map ev (Schema n) = (if n \<in> set (ev_strings ''api_schemas'' ev) then Some PNone else None)"
    "s \<notin> insert Definition (range Schema) \<Longrightarrow> slot_map ev s = None"
    by (auto simp: w d)
qed

lemma merge_ensure_merges:
  assumes "typed_event p" "typed_event ev" "same_id p ev" "ev_kind ev = K_ENSURE_PRIM"
  shows "merges p ev (merge_ensure p ev)"
proof -
  define m where "m = merge_ensure p ev"
  let ?s = "ev_strings ''api_schemas''"
  have kp: "ev_kind p = K_ENSURE_PRIM" using assms(3,4) same_idD(1) by metis
  have t: "map_of ev ''typeName'' \<noteq> None" "ev_str ''typeName'' ev \<noteq> []" "ev_time p = PNone"
    using assms(1,2,4) kp by (auto simp: typed_event_def Let_def SAMPLE_VALUE_KINDS_def ev_str_def split: option.splits)
  have m: "map_of m k = (if k = ''typeName'' then map_of ev k else map_of p k)" if "k \<noteq> ''api_schemas''" for k
    using that t by (auto simp: m_def merge_ensure_def Let_def copy_value_map)
  have "?s m = (if set (?s p) \<union> set (?s ev) = {} then ?s p else sorted_list_of_set (set (?s p) \<union> set (?s ev)))"
    by (auto simp: m_def merge_ensure_def Let_def ev_strings_PStr) (simp add: ev_strings_def copy_value_map)
  then have sm: "set (?s m) = set (?s p) \<union> set (?s ev)" by simp
  have mp: "same_id m p" by (rule same_idI) (simp_all add: m)
  note idm = same_idD [OF mp]
  have km: "ev_kind m = K_ENSURE_PRIM" using kp idm by simp
  have "typed_event m" using km t idm m [of "''typeName''"] by (simp add: typed_event_def Let_def SAMPLE_VALUE_KINDS_def ev_str_def)
  moreover have "slot_map m s = (slot_map p ++ slot_map ev) s" for s
  proof -
    have "value_of ''typeName'' m = value_of ''typeName'' ev" by (simp add: value_of_def m)
    then show ?thesis
      by (cases "s \<in> insert Definition (range Schema)")
        (auto simp: ensure_slot(1,2) [OF km] ensure_slot(1,2) [OF kp] ensure_slot(1,2) [OF assms(4)] ensure_slot(3) [OF km]
          ensure_slot(3) [OF kp] ensure_slot(3) [OF assms(4)] map_add_def sm)
  qed
  ultimately show ?thesis using mp by (auto simp: merges_def m_def)
qed

lemma replaced_merges:
  assumes "typed_event ev" "same_id p ev" "ev_kind ev \<notin> {K_ENSURE_PRIM, K_SET_XFORM_TRS, K_SET_POINT_INSTANCER,
      K_SET_GPRIM_ATTRS, K_SET_CONNECTABLE_INPUT, K_SET_VARIANT_SELECTIONS, K_SET_STAGE_METADATA, K_SET_CONNECTABLE_CONNECTION}"
  shows "merges p ev ev"
proof -
  note id = same_idD [OF assms(2)]
  have "dom (slot_map p) \<subseteq> dom (slot_map ev)"
    using assms(3) id(1,3,5) by (auto simp: slot_writes_def Let_def split: if_splits)
  with assms show ?thesis by (simp add: merges_def map_add_absorb same_id_def)
qed

lemma merge_payload_merges:
  assumes "typed_event p" "typed_event ev" "same_id p ev"
  shows "merges p ev (merge_payload ms (Some p) ev)"
proof -
  have "ev_kind ev \<noteq> K_SET_SDF_SPEC_FIELDS" using assms(2) by (simp add: typed_event_def Let_def)
  then show ?thesis
    using merge_fields_merges [OF assms] merge_gprim_merges [OF assms] merge_input_merges [OF assms]
      merge_variants_merges [OF assms] merge_metadata_merges [OF assms] merge_connections_merges [OF assms]
      merge_ensure_merges [OF assms] replaced_merges [OF assms(2,3)]
    by (simp add: merge_payload_def Let_def)
qed

lemma merge_payload_first:
  assumes "typed_event ev"
  shows "merges ev ev (merge_payload ms None ev)"
proof -
  have refl: "same_id ev ev" by (simp add: same_id_def)
  have "merge_connections None ev = merge_connections (Some ev) ev" by (simp add: merge_connections_def)
  then show ?thesis
    using merge_connections_merges [OF assms assms refl] refl assms
    by (simp add: merge_payload_def Let_def merges_def map_add_absorb)
qed

text \<open>The same of records.\<close>

lemma record_key_id:
  assumes "same_id m (re_event r)"
  shows "record_key (r\<lparr>re_event := m\<rparr>) = record_key r"
  using assms by (simp add: record_key_def same_id_def)

lemma record_key_eq:
  assumes "record_key p = record_key r" "ev_kind (re_event r) \<notin> {K_ERASE_TIME_SAMPLES}" "typed r"
  shows "same_id (re_event p) (re_event r)"
proof -
  have "key_of_event (re_event p) l = key_of_event (re_event r) l" for l
    using assms by (simp add: record_key_def key_of_event_def Let_def typed_def typed_event_def split: if_splits)
  then show ?thesis by (simp add: same_id_def)
qed

lemma effect_slots:
  assumes "\<not> destructive (record_key r)"
  shows "effect r (l, p, s) = (if l = mk_layer (record_key r) \<and> p = ev_prim (re_event r)
    then map_option Some (slot_map (re_event r) s) else None)"
  using assms by (simp add: effect_def Let_def destructive_def)

lemma effect_add:
  assumes "record_key x = record_key r" "record_key y = record_key r" "record_key z = record_key r"
    and "\<not> destructive (record_key r)" "slot_map (re_event z) = slot_map (re_event x) ++ slot_map (re_event y)"
  shows "effect z = effect x ++ effect y"
proof
  fix pos :: position
  obtain l p s where pos: "pos = (l, p, s)" by (cases pos)
  have e: "effect u (l, p, s) = (if l = mk_layer (record_key r) \<and> p = ev_prim (re_event r)
      then map_option Some (slot_map (re_event u) s) else None)" if "record_key u = record_key r" for u
    using effect_slots [of u l p s] assms(4) that record_key_sel(1) [of u] record_key_sel(1) [of r] by simp
  show "effect z pos = (effect x ++ effect y) pos"
    unfolding pos map_add_def e [OF assms(1)] e [OF assms(2)] e [OF assms(3)] assms(5)
    by (auto simp: map_add_def split: option.splits)
qed

lemma effect_merged:
  assumes "typed p" "typed r" "record_key p = record_key r" "\<not> destructive (record_key r)"
    and "m = merge_payload ms (Some (re_event p)) (re_event r)"
  shows "effect (r\<lparr>re_event := m\<rparr>) = effect p ++ effect r" "typed (r\<lparr>re_event := m\<rparr>)" "record_key (r\<lparr>re_event := m\<rparr>) = record_key r"
proof -
  have id: "same_id (re_event p) (re_event r)" using assms(2-4) by (intro record_key_eq) (auto simp: destructive_def)
  have m: "merges (re_event p) (re_event r) m"
    unfolding assms(5) using assms(1,2) by (intro merge_payload_merges id) (simp_all add: typed_def)
  then show "typed (r\<lparr>re_event := m\<rparr>)" by (simp add: typed_def merges_def)
  from m id have "same_id m (re_event r)" by (simp add: merges_def same_id_def)
  then show k: "record_key (r\<lparr>re_event := m\<rparr>) = record_key r" by (rule record_key_id)
  show "effect (r\<lparr>re_event := m\<rparr>) = effect p ++ effect r"
    using m k assms(3,4) by (intro effect_add [where r = r]) (simp_all add: merges_def)
qed

lemma effect_first:
  assumes "typed r" "\<not> destructive (record_key r)" "m = merge_payload ms None (re_event r)"
  shows "effect (r\<lparr>re_event := m\<rparr>) = effect r" "typed (r\<lparr>re_event := m\<rparr>)" "record_key (r\<lparr>re_event := m\<rparr>) = record_key r"
proof -
  have m: "merges (re_event r) (re_event r) m"
    unfolding assms(3) using assms(1) by (intro merge_payload_first) (simp add: typed_def)
  then show "typed (r\<lparr>re_event := m\<rparr>)" by (simp add: typed_def merges_def)
  from m show k: "record_key (r\<lparr>re_event := m\<rparr>) = record_key r" by (intro record_key_id) (simp add: merges_def)
  have "effect (r\<lparr>re_event := m\<rparr>) = effect r ++ effect r"
    using m k assms(2) by (intro effect_add [where r = r]) (simp_all add: merges_def)
  then show "effect (r\<lparr>re_event := m\<rparr>) = effect r" by (simp add: map_add_absorb)
qed

lemma effect_seq [simp]: "effect (r\<lparr>re_seq := n\<rparr>) = effect r" "record_key (r\<lparr>re_seq := n\<rparr>) = record_key r"
    "typed (r\<lparr>re_seq := n\<rparr>) = typed r"
  by (simp_all add: effect_def record_key_def typed_def)

section \<open>Keys that do not meet\<close>

definition opposite :: "merge_key \<Rightarrow> merge_key \<Rightarrow> bool" where
  "opposite k k' \<longleftrightarrow> {mk_kind k, mk_kind k'} = {K_LOAD_PAYLOAD, K_UNLOAD_PAYLOAD}"

lemma typed_key:
  assumes "typed r" "\<not> destructive (record_key r)"
  shows "mk_spec_path (record_key r) = []"
  using assms by (simp add: record_key_def key_of_event_def Let_def destructive_def typed_def typed_event_def)

lemma reach_disjoint:
  assumes "typed r" "typed r'" "\<not> destructive (record_key r)" "\<not> destructive (record_key r')"
    and "record_key r \<noteq> record_key r'" "\<not> opposite (record_key r) (record_key r')"
  shows "reach (record_key r) \<inter> reach (record_key r') = {}"
proof (rule ccontr)
  assume "reach (record_key r) \<inter> reach (record_key r') \<noteq> {}"
  then have "mk_layer (record_key r) = mk_layer (record_key r')" "mk_prim (record_key r) = mk_prim (record_key r')"
    "payload_kind (mk_kind (record_key r)) = payload_kind (mk_kind (record_key r'))" "mk_time (record_key r) = mk_time (record_key r')"
    "mk_purpose (record_key r) = mk_purpose (record_key r')"
    by (auto simp: reach_def)
  moreover from this assms(6) have "mk_kind (record_key r) = mk_kind (record_key r')"
    by (auto simp: opposite_def payload_kind_def simp del: record_key_sel split: if_splits)
  ultimately have "record_key r = record_key r'"
    using typed_key [OF assms(1,3)] typed_key [OF assms(2,4)] by (intro merge_key.expand) simp
  with assms(5) show False by blast
qed

lemma reach_erase:
  assumes "ev_kind (re_event r) = K_ERASE_TIME_SAMPLES" "reach k \<inter> dom (effect r) \<noteq> {}" "\<not> destructive k"
    and "k = record_key x" "typed x"
  shows "mk_prim k = ev_prim (re_event r)" "mk_layer k = mk_layer (record_key r)" "mk_kind k \<in> set SAMPLE_VALUE_KINDS"
proof -
  from assms(2) obtain l p s where pos: "(l, p, s) \<in> reach k" "effect r (l, p, s) \<noteq> None" by auto
  then show "mk_prim k = ev_prim (re_event r)" "mk_layer k = mk_layer (record_key r)"
    using assms(1) by (auto simp: reach_def effect_def Let_def split: if_splits)
  from pos(2) assms(1) have "\<exists>n t. s = Attribute n t"
    by (auto simp: effect_def Let_def erases_def split: if_splits slot.splits)
  then obtain n t where "slot_kind s = attribute_owner n" by (auto simp: slot_kind_def)
  with pos(1) have "attribute_owner n = payload_kind (mk_kind k)" by (simp add: reach_def)
  then show "mk_kind k \<in> set SAMPLE_VALUE_KINDS"
    by (auto simp: attribute_owner_def SAMPLE_VALUE_KINDS_def payload_kind_def split: if_splits)
qed

lemma reach_delete:
  assumes "ev_kind (re_event r) = K_DELETE_PRIM" "reach k \<inter> dom (effect r) \<noteq> {}"
  shows "mk_layer k = mk_layer (record_key r)" "in_subtree (ev_prim (re_event r)) (mk_prim k)"
  using assms by (auto simp: reach_def effect_def Let_def split: if_splits)

section \<open>The compaction invariant\<close>

definition entries :: "compaction \<Rightarrow> entry list" where
  "entries c = lc_preserved c @ lc_pending c"

definition records :: "compaction \<Rightarrow> received_event list" where
  "records c = map snd (entries c)"

text \<open>
  Entries carry their key and stay typed, sequence numbers are distinct, and nothing after a
  pending entry touches what its key can write, so that it can still be moved to the end.
\<close>

definition movable :: "compaction \<Rightarrow> entry \<Rightarrow> bool" where
  "movable c e \<longleftrightarrow> mk_kind (fst e) \<noteq> K_ERASE_TIME_SAMPLES \<and>
     (\<not> destructive (fst e) \<longrightarrow> (\<forall>y \<in> set (records c). re_seq (snd e) < re_seq y \<longrightarrow> reach (fst e) \<inter> dom (effect y) = {}))"

definition comp_inv :: "compaction \<Rightarrow> bool" where
  "comp_inv c \<longleftrightarrow> wf_dict (lc_pending c) \<and> (\<forall>e \<in> set (entries c). fst e = record_key (snd e) \<and> typed (snd e)) \<and>
     distinct (map re_seq (records c)) \<and> (\<forall>e \<in> set (lc_pending c). movable c e)"

lemma replay_records_eq: "replay_records c = sort_key re_seq (records c)"
  by (simp add: replay_records_def records_def entries_def)

lemma comp_invD:
  assumes "comp_inv c"
  shows "wf_dict (lc_pending c)" "e \<in> set (entries c) \<Longrightarrow> fst e = record_key (snd e)" "e \<in> set (entries c) \<Longrightarrow> typed (snd e)"
    "distinct (map re_seq (records c))" "e \<in> set (lc_pending c) \<Longrightarrow> movable c e"
    "r \<in> set (records c) \<Longrightarrow> typed r"
  using assms by (auto simp: comp_inv_def records_def)

lemma records_mset: "mset (entries c) = mset (entries d) \<Longrightarrow> mset (records c) = mset (records d)"
  unfolding records_def by (metis mset_map)

lemma replay_sorted:
  assumes "distinct (map re_seq rs)" "mset rs = mset ys" "sorted (map re_seq ys)"
  shows "sort_key re_seq rs = ys"
  using assms by (intro sort_key_inj_key_eq) (simp_all add: distinct_map)

text \<open>Preserving an entry only takes it out of the pending ones.\<close>

definition repins :: "compaction \<Rightarrow> compaction \<Rightarrow> bool" where
  "repins c d \<longleftrightarrow> mset (entries d) = mset (entries c) \<and> set (lc_pending d) \<subseteq> set (lc_pending c) \<and>
     (wf_dict (lc_pending c) \<longrightarrow> wf_dict (lc_pending d))"

lemma repins_inv:
  assumes "comp_inv c" "repins c d"
  shows "comp_inv d" "replay_records d = replay_records c"
proof -
  from assms(2) have e: "mset (entries d) = mset (entries c)" by (simp add: repins_def)
  then have m: "mset (records d) = mset (records c)" by (rule records_mset)
  have se: "set (entries d) = set (entries c)" "set (records d) = set (records c)"
    using e m by (metis set_mset_mset)+
  have "mset (map re_seq (records d)) = mset (map re_seq (records c))" using m by simp
  then have dd: "distinct (map re_seq (records d))" using comp_invD(4) [OF assms(1)] by (metis mset_eq_imp_distinct_iff)
  have "movable d e = movable c e" for e by (simp add: movable_def se)
  then show "comp_inv d" using assms dd se by (auto simp: comp_inv_def repins_def)
  show "replay_records d = replay_records c"
    unfolding replay_records_eq using dd m by (intro replay_sorted) simp_all
qed

lemma repins_refl [simp]: "repins c c" by (simp add: repins_def)

lemma repins_trans: "repins a b \<Longrightarrow> repins b c \<Longrightarrow> repins a c"
  by (auto simp: repins_def)

lemma delete_mset: "wf_dict d \<Longrightarrow> map_of d k = Some v \<Longrightarrow> mset d = add_mset (k, v) (mset (AList.delete k d))"
proof (induction d)
  case (Cons x d)
  obtain k' v' where x: "x = (k', v')" by (cases x)
  from Cons.prems have wf: "wf_dict d" "map_of d k' = None" by (auto simp: wf_dict_def x map_of_eq_None_iff)
  then have "AList.delete k' d = d" by (intro delete_id) (auto simp: map_of_eq_None_iff)
  with Cons wf show ?case by (auto simp: x split: if_splits)
qed simp

lemma update_mset: "wf_dict d \<Longrightarrow> mset (AList.update k v d) = add_mset (k, v) (mset (AList.delete k d))"
proof (induction d)
  case (Cons x d)
  obtain k' v' where x: "x = (k', v')" by (cases x)
  from Cons.prems have wf: "wf_dict d" "map_of d k' = None" by (auto simp: wf_dict_def x map_of_eq_None_iff)
  then have "AList.delete k' d = d" by (intro delete_id) (auto simp: map_of_eq_None_iff)
  with Cons wf show ?case by (auto simp: x)
qed simp

lemma preserve_pending [simp]: "lc_pending (preserve k c) = AList.delete k (lc_pending c)"
  by (auto simp: preserve_def map_of_eq_None_iff delete_id split: option.splits)

lemma preserve_repins: "wf_dict (lc_pending c) \<Longrightarrow> repins c (preserve k c)"
proof (cases "map_of (lc_pending c) k")
  case (Some r)
  assume "wf_dict (lc_pending c)"
  from delete_mset [OF this Some] this show ?thesis
    by (auto simp: repins_def entries_def preserve_def Some AList.delete_eq)
qed (simp add: preserve_def)

lemma fold_preserve:
  assumes "wf_dict (lc_pending c)"
  shows "repins c (fold preserve ks c)" "e \<in> set (lc_pending (fold preserve ks c)) \<Longrightarrow> fst e \<notin> set ks"
  using assms
proof (induction ks arbitrary: c)
  case (Cons k ks)
  { case 1
    then show ?case using Cons.IH(1) [of "preserve k c"] preserve_repins [of c k] by (auto intro: repins_trans) }
  { case 2
    then have "set (lc_pending (fold preserve ks (preserve k c))) \<subseteq> set (lc_pending (preserve k c))"
      using Cons.IH(1) [of "preserve k c"] by (auto simp: repins_def)
    with 2 Cons.IH(2) [of "preserve k c"] show ?case by (auto simp: AList.delete_eq) }
qed simp_all

section \<open>Adding a record\<close>

text \<open>Dropping entries, and adding one that the pending entries do not touch.\<close>

lemma shrink_inv:
  assumes "comp_inv c" "entries d = filter P (entries c)" "lc_pending d = filter P (lc_pending c)"
    and "\<And>e. e \<in> set (entries c) \<Longrightarrow> P e = Q (snd e)"
  shows "comp_inv d" "replay_records d = filter Q (replay_records c)"
proof -
  have r: "records d = filter Q (records c)"
    using assms(2,4) by (simp add: records_def filter_map o_def cong: filter_cong)
  have "movable c e \<Longrightarrow> movable d e" for e using r by (auto simp: movable_def)
  then show "comp_inv d"
    using assms(1-3) by (auto simp: comp_inv_def r distinct_map_filter)
  show "replay_records d = filter Q (replay_records c)" by (simp add: replay_records_eq r filter_sort)
qed

lemma extend_inv:
  assumes "comp_inv c" "mset (entries d) = add_mset (k, r) (mset (entries c))" "wf_dict (lc_pending d)"
    and "set (lc_pending d) \<subseteq> insert (k, r) (set (lc_pending c))"
    and "k = record_key r" "typed r" "re_seq r \<notin> re_seq ` set (records c)"
    and "\<And>e. e \<in> set (lc_pending c) \<Longrightarrow> \<not> destructive (fst e) \<Longrightarrow> reach (fst e) \<inter> dom (effect r) = {}"
    and "(k, r) \<in> set (lc_pending d) \<Longrightarrow> movable c (k, r)"
  shows "comp_inv d" "mset (records d) = add_mset r (mset (records c))" "distinct (map re_seq (records d))"
proof -
  show m: "mset (records d) = add_mset r (mset (records c))"
    using arg_cong [OF assms(2), of "image_mset snd"] by (simp add: records_def)
  have se: "set (entries d) = insert (k, r) (set (entries c))" "set (records d) = insert r (set (records c))"
    using arg_cong [OF assms(2), of set_mset] arg_cong [OF m, of set_mset] by simp_all
  have "mset (map re_seq (records d)) = mset (map re_seq (r # records c))" using m by simp
  then have "distinct (map re_seq (records d)) = distinct (map re_seq (r # records c))" by (rule mset_eq_imp_distinct_iff)
  then show dd: "distinct (map re_seq (records d))" using comp_invD(4) [OF assms(1)] assms(7) by simp
  have "movable d e" if "e \<in> set (lc_pending d)" for e
  proof (cases "e = (k, r)")
    case True
    with that assms(9) show ?thesis by (auto simp: movable_def se)
  next
    case False
    with that assms(4) have "e \<in> set (lc_pending c)" by blast
    with comp_invD(5) [OF assms(1) this] assms(8) show ?thesis by (auto simp: movable_def se)
  qed
  moreover have "\<forall>e \<in> set (entries d). fst e = record_key (snd e) \<and> typed (snd e)"
    using assms(1,5,6) by (auto simp: se comp_inv_def)
  ultimately show "comp_inv d" using assms(3) dd by (simp add: comp_inv_def)
qed

lemma replay_snoc:
  assumes "mset (records d) = add_mset r (mset (records c))" "distinct (map re_seq (records d))"
    and "\<forall>y \<in> set (records c). re_seq y < re_seq r"
  shows "replay_records d = replay_records c @ [r]"
  unfolding replay_records_eq using assms
  by (intro replay_sorted) (auto simp: sorted_append intro: less_imp_le)

lemma remove_pending:
  assumes "comp_inv c" "map_of (lc_pending c) k = Some p" "d = c\<lparr>lc_pending := AList.delete k (lc_pending c)\<rparr>"
  obtains as bs where "replay_records c = as @ p # bs" "replay_records d = as @ bs" "comp_inv d"
    "\<not> destructive k \<longrightarrow> (\<forall>y \<in> set bs. reach k \<inter> dom (effect y) = {})"
    "mset (entries c) = add_mset (k, p) (mset (entries d))" "\<forall>y \<in> set bs. re_seq p < re_seq y" "\<forall>y \<in> set as. re_seq y < re_seq p"
proof -
  have kp: "(k, p) \<in> set (lc_pending c)" using assms(2) by (rule map_of_SomeD)
  then have mv: "movable c (k, p)" using assms(1) by (rule comp_invD(5) [rotated])
  have me: "mset (entries c) = add_mset (k, p) (mset (entries d))"
    using delete_mset [OF comp_invD(1) [OF assms(1)] assms(2)] by (simp add: entries_def assms(3))
  have "p \<in> set (replay_records c)" using kp by (force simp: replay_records_eq records_def entries_def)
  then obtain as bs where V: "replay_records c = as @ p # bs" by (meson split_list)
  have dist: "distinct (map re_seq (records c))" by (rule comp_invD(4) [OF assms(1)])
  have mm: "mset (replay_records c) = mset (records c)" by (simp add: replay_records_eq)
  have "distinct (map re_seq (replay_records c))" using dist mm by (metis mset_eq_imp_distinct_iff mset_map)
  moreover have "sorted (map re_seq (replay_records c))" by (simp add: replay_records_eq)
  ultimately have order: "\<forall>y \<in> set bs. re_seq p < re_seq y" "\<forall>y \<in> set as. re_seq y < re_seq p"
    by (auto simp: V sorted_append order.strict_iff_order) (metis imageI)
  have mr: "mset (records c) = add_mset p (mset (records d))"
    using arg_cong [OF me, of "image_mset snd"] by (simp add: records_def)
  then have sr: "set (records d) \<subseteq> set (records c)" and md: "mset (records d) = mset (as @ bs)"
    using mm by (auto simp: V dest: arg_cong [where f = set_mset])
  have "mset (map re_seq (records c)) = mset (map re_seq (p # records d))" using mr by simp
  then have dd: "distinct (map re_seq (records d))" using dist mset_eq_imp_distinct_iff by fastforce
  have "sorted (map re_seq (as @ bs))"
    using \<open>sorted (map re_seq (replay_records c))\<close> by (auto simp: V sorted_append)
  with dd md have Vd: "replay_records d = as @ bs" unfolding replay_records_eq by (rule replay_sorted)
  have pd: "set (lc_pending d) \<subseteq> set (lc_pending c)" by (auto simp: assms(3) AList.delete_eq)
  have "movable d e" if "e \<in> set (lc_pending d)" for e
    using comp_invD(5) [OF assms(1), of e] that pd sr unfolding movable_def by blast
  moreover have "set (entries d) \<subseteq> set (entries c)" using arg_cong [OF me, of set_mset] by auto
  moreover have "wf_dict (lc_pending d)" using comp_invD(1) [OF assms(1)] by (simp add: assms(3))
  ultimately have "comp_inv d" using assms(1) dd unfolding comp_inv_def by blast
  moreover have "\<not> destructive k \<Longrightarrow> \<forall>y \<in> set bs. reach k \<inter> dom (effect y) = {}"
  proof -
    have "set bs \<subseteq> set (records c)" using arg_cong [OF mm, of set_mset] by (auto simp: V)
    then show "\<not> destructive k \<Longrightarrow> \<forall>y \<in> set bs. reach k \<inter> dom (effect y) = {}"
      using mv order(1) unfolding movable_def fst_conv snd_conv by blast
  qed
  ultimately show thesis using that V Vd me order by blast
qed

lemma sample_order_typed:
  assumes "comp_inv c" "typed r" "d = preserve_sample_order (record_key r) (re_event r) c"
  shows "repins c d"
    "ev_kind (re_event r) = K_ERASE_TIME_SAMPLES \<Longrightarrow> e \<in> set (lc_pending d) \<Longrightarrow> mk_prim (fst e) = ev_prim (re_event r) \<Longrightarrow>
       mk_layer (fst e) = mk_layer (record_key r) \<Longrightarrow> mk_kind (fst e) \<notin> set SAMPLE_VALUE_KINDS"
proof -
  have none: "map_of (lc_pending c) k = None" if "mk_kind k = K_SET_SDF_SPEC_FIELDS" for k
  proof (rule ccontr)
    assume "map_of (lc_pending c) k \<noteq> None"
    then obtain p where "(k, p) \<in> set (entries c)" by (auto simp: entries_def dest: map_of_SomeD)
    from comp_invD(2,3) [OF assms(1) this] that show False by (simp add: typed_def typed_event_def Let_def)
  qed
  then have "fold (preserve_samples (record_key r)) ns c = c" for ns
    by (induction ns) (simp_all add: preserve_samples_def Let_def)
  moreover define ks where "ks = filter (\<lambda>k. mk_prim k = ev_prim (re_event r) \<and> mk_layer k = mk_layer (record_key r) \<and>
        mk_kind k \<in> set (SAMPLE_VALUE_KINDS @ (if is_exact_deletion (re_event r) then [K_SET_SDF_SPEC_FIELDS] else [])))
          (dict_keys (lc_pending c))"
  ultimately have d: "d = (if \<not> is_sample_history_barrier (re_event r) then c else fold preserve ks c)"
    by (simp add: assms(3) preserve_sample_order_def Let_def)
  then show rp: "repins c d" using fold_preserve(1) [OF comp_invD(1) [OF assms(1)]] by simp
  assume k: "ev_kind (re_event r) = K_ERASE_TIME_SAMPLES" and e: "e \<in> set (lc_pending d)"
    "mk_prim (fst e) = ev_prim (re_event r)" "mk_layer (fst e) = mk_layer (record_key r)"
  from e(1) rp have "fst e \<in> set (dict_keys (lc_pending c))" by (force simp: repins_def)
  moreover from k have "is_sample_history_barrier (re_event r)" by (simp add: is_sample_history_barrier_def)
  moreover from this e(1) have "fst e \<notin> set ks"
    using fold_preserve(2) [OF comp_invD(1) [OF assms(1)], of e ks] by (simp add: d)
  ultimately show "mk_kind (fst e) \<notin> set SAMPLE_VALUE_KINDS" using e(2,3) by (auto simp: ks_def)
qed

definition adds :: "compaction \<Rightarrow> received_event \<Rightarrow> compaction \<Rightarrow> bool" where
  "adds c r d \<longleftrightarrow> comp_inv d \<and> authored (replay_records d) = authored (replay_records c) ++ effect r \<and>
     (\<forall>y \<in> set (records d). re_seq y \<le> re_seq r)"

lemma add_erase:
  assumes "comp_inv c" "typed r" "\<forall>y \<in> set (records c). re_seq y < re_seq r" "ev_kind (re_event r) = K_ERASE_TIME_SAMPLES"
    and "c1 = preserve_sample_order (record_key r) (re_event r) c" "d = c1\<lparr>lc_preserved := lc_preserved c1 @ [(record_key r, r)]\<rparr>"
  shows "adds c r d"
proof -
  note so = sample_order_typed [OF assms(1,2,5)]
  note c1 = repins_inv [OF assms(1) so(1)]
  have rec: "set (records c1) = set (records c)"
    using so(1) records_mset [of c1 c] by (metis repins_def set_mset_mset)
  then have fresh: "re_seq r \<notin> re_seq ` set (records c1)" using assms(3) by force
  have notin: "(record_key r, r) \<notin> set (lc_pending d)" using fresh by (force simp: assms(6) records_def entries_def)
  have apart: "reach (fst e) \<inter> dom (effect r) = {}" if "e \<in> set (lc_pending c1)" "\<not> destructive (fst e)" for e
  proof (rule ccontr)
    have e: "fst e = record_key (snd e)" "typed (snd e)"
      using that(1) comp_invD(2,3) [OF c1(1), of e] by (simp_all add: entries_def)
    assume "reach (fst e) \<inter> dom (effect r) \<noteq> {}"
    from reach_erase [OF assms(4) this that(2) e] so(2) [OF assms(4) that(1)] show False by blast
  qed
  note ext = extend_inv [OF c1(1), of d "record_key r" r]
  have inv: "comp_inv d" and m: "mset (records d) = add_mset r (mset (records c1))" and dd: "distinct (map re_seq (records d))"
    using ext assms(2,6) fresh apart notin comp_invD(1) [OF c1(1)] by (simp_all add: entries_def) blast+
  have "replay_records d = replay_records c1 @ [r]" using m dd by (rule replay_snoc) (use rec assms(3) in auto)
  with inv c1(2) show ?thesis using arg_cong [OF m, of set_mset] rec assms(3) by (auto simp: adds_def intro: less_imp_le)
qed

lemma effect_within: "dom (effect x) \<subseteq> {(l, p, s). l = mk_layer (record_key x) \<and> in_subtree (ev_prim (re_event x)) p}"
  by (auto simp: effect_def Let_def in_subtree_def split: if_splits)

lemma in_subtree_trans: "in_subtree a b \<Longrightarrow> in_subtree b c \<Longrightarrow> in_subtree a c"
  by (auto simp: in_subtree_def prefix_def)

lemma fresh_update:
  assumes "map_of (lc_pending c) k = None" "d = c\<lparr>lc_pending := AList.update k r (lc_pending c)\<rparr>" "wf_dict (lc_pending c)"
  shows "mset (entries d) = add_mset (k, r) (mset (entries c))" "wf_dict (lc_pending d)"
    "set (lc_pending d) = insert (k, r) (set (lc_pending c))"
proof -
  have u: "mset (AList.update k r (lc_pending c)) = add_mset (k, r) (mset (lc_pending c))"
    using update_mset [OF assms(3), of k r] assms(1) by (simp add: delete_id map_of_eq_None_iff)
  then show "mset (entries d) = add_mset (k, r) (mset (entries c))" by (simp add: entries_def assms(2))
  show "wf_dict (lc_pending d)" using assms(2,3) by simp
  show "set (lc_pending d) = insert (k, r) (set (lc_pending c))"
    using arg_cong [OF u, of set_mset] by (simp add: assms(2))
qed

lemma discard_alt: "discard P c = c\<lparr>lc_pending := filter (\<lambda>e. \<not> P (fst e)) (lc_pending c),
    lc_preserved := filter (\<lambda>e. \<not> P (fst e)) (lc_preserved c)\<rparr>"
  by (simp add: discard_def case_prod_unfold)

lemma add_delete:
  assumes "comp_inv c" "typed r" "\<forall>y \<in> set (records c). re_seq y < re_seq r" "ev_kind (re_event r) = K_DELETE_PRIM"
    and "c2 = discard_replaced (record_key r) c" "d = c2\<lparr>lc_pending := AList.update (record_key r) r (lc_pending c2)\<rparr>"
  shows "adds c r d" "map_of (lc_pending c2) (record_key r) = None"
proof -
  let ?k = "record_key r"
  define gone where "gone k \<longleftrightarrow> mk_layer k = mk_layer ?k \<and> in_subtree (ev_prim (re_event r)) (mk_prim k)" for k
  have c2: "c2 = discard gone c"
    unfolding assms(5) discard_replaced_def gone_def in_subtree_def by (simp add: assms(4))
  have key: "fst e = record_key (snd e)" if "e \<in> set (entries c)" for e using comp_invD(2) [OF assms(1) that] .
  have sh: "comp_inv c2" "replay_records c2 = filter (\<lambda>x. \<not> gone (record_key x)) (replay_records c)"
    using shrink_inv [OF assms(1), of c2 "\<lambda>e. \<not> gone (fst e)" "\<lambda>x. \<not> gone (record_key x)"] key
    by (simp_all add: c2 discard_alt entries_def)
  have rec: "set (records c2) \<subseteq> set (records c)" using sh(2) by (metis filter_is_subset replay_records_eq set_sort)
  show none: "map_of (lc_pending c2) ?k = None"
    by (auto simp: c2 discard_alt map_of_eq_None_iff gone_def in_subtree_def)
  note up = fresh_update [OF none assms(6) comp_invD(1) [OF sh(1)]]
  have fresh: "re_seq r \<notin> re_seq ` set (records c2)" using rec assms(3) by force
  have apart: "reach (fst e) \<inter> dom (effect r) = {}" if "e \<in> set (lc_pending c2)" for e
    using that reach_delete [OF assms(4), of "fst e"] by (auto simp: c2 discard_alt gone_def simp del: disjoint_iff)
  have mv: "movable c2 (?k, r)" by (simp add: movable_def destructive_def assms(4))
  note ext = extend_inv [OF sh(1) up(1,2) _ refl assms(2) fresh apart mv]
  have inv: "comp_inv d" "mset (records d) = add_mset r (mset (records c2))" "distinct (map re_seq (records d))"
    by (rule ext; simp add: up(3))+
  have "replay_records d = replay_records c2 @ [r]" using inv(2,3) by (rule replay_snoc) (use rec assms(3) in auto)
  moreover have "authored (filter (\<lambda>x. \<not> gone (record_key x)) (replay_records c)) ++ effect r = authored (replay_records c) ++ effect r"
  proof (rule authored_drop)
    fix x assume "\<not> \<not> gone (record_key x)"
    then have "dom (effect x) \<subseteq> {(l, p, s). l = mk_layer ?k \<and> in_subtree (ev_prim (re_event r)) p}"
      using effect_within [of x] in_subtree_trans by (fastforce simp: gone_def)
    also have "\<dots> = dom (effect r)" by (auto simp: effect_def Let_def assms(4) dom_def split: if_splits)
    finally show "dom (effect x) \<subseteq> dom (effect r)" .
  qed
  ultimately show "adds c r d"
    using inv(1) sh(2) arg_cong [OF inv(2), of set_mset] rec assms(3) by (auto simp: adds_def intro: less_imp_le)
qed

text \<open>The key that a load or unload pops.\<close>

definition popped_key :: "merge_key \<Rightarrow> merge_key" where
  "popped_key key = MergeKey (mk_prim key)
     (if mk_kind key = K_LOAD_PAYLOAD then K_UNLOAD_PAYLOAD else K_LOAD_PAYLOAD) PNone (mk_layer key) [] []"

definition payload_event :: "string \<Rightarrow> bool" where
  "payload_event kind \<longleftrightarrow> kind = K_LOAD_PAYLOAD \<or> kind = K_UNLOAD_PAYLOAD"

lemma payload_key:
  assumes "typed r" "payload_event (ev_kind (re_event r))"
  shows "mk_time (record_key r) = PNone" "mk_spec_path (record_key r) = []" "mk_purpose (record_key r) = []"
    "mk_layer (record_key r) = []"
proof -
  from assms(2) consider "ev_kind (re_event r) = K_LOAD_PAYLOAD" | "ev_kind (re_event r) = K_UNLOAD_PAYLOAD"
    by (auto simp: payload_event_def)
  then have "ev_time (re_event r) = PNone \<and> ev_kind (re_event r) \<in> set NON_COLLABORATION_KINDS"
    using assms(1) by cases (simp_all add: typed_def typed_event_def Let_def SAMPLE_VALUE_KINDS_def non_collaboration_kinds)
  with assms(2) show "mk_time (record_key r) = PNone" "mk_spec_path (record_key r) = []" "mk_purpose (record_key r) = []"
    "mk_layer (record_key r) = []"
    by (auto simp: payload_event_def record_key_def key_of_event_def Let_def)
qed

lemma payload_effect:
  assumes "typed r" "payload_event (ev_kind (re_event r))"
  shows "dom (effect r) = {([], ev_prim (re_event r), Loaded)}"
proof -
  have "slot_writes (re_event r) = [(Loaded, PBool (ev_kind (re_event r) = K_LOAD_PAYLOAD))]"
    using assms(2) by (auto simp: payload_event_def slot_writes_def Let_def)
  moreover have "\<not> destructive (record_key r)" using assms(2) by (auto simp: payload_event_def destructive_def)
  ultimately show ?thesis using payload_key(4) [OF assms] by (auto simp: effect_slots split: if_splits)
qed

lemma reach_apart:
  assumes "typed r" "typed r'" "\<not> destructive (record_key r)" "\<not> destructive (record_key r')" "record_key r \<noteq> record_key r'"
    and "payload_event (ev_kind (re_event r)) \<Longrightarrow> record_key r' \<noteq> popped_key (record_key r)"
  shows "reach (record_key r') \<inter> reach (record_key r) = {}"
proof (cases "opposite (record_key r) (record_key r')")
  case True
  then have p: "payload_event (ev_kind (re_event r))" "payload_event (ev_kind (re_event r'))"
    "ev_kind (re_event r') = (if ev_kind (re_event r) = K_LOAD_PAYLOAD then K_UNLOAD_PAYLOAD else K_LOAD_PAYLOAD)"
    by (auto simp: opposite_def payload_event_def doubleton_eq_iff)
  from assms(6) [OF p(1)] have "mk_prim (record_key r') \<noteq> mk_prim (record_key r)"
    using payload_key [OF assms(1) p(1)] payload_key [OF assms(2) p(2)] p(3)
    by (auto simp: popped_key_def intro!: merge_key.expand)
  then show ?thesis by (auto simp: reach_def)
next
  case False
  from reach_disjoint [OF assms(1-5) False] show ?thesis by blast
qed

lemma pop_payload:
  assumes "comp_inv c" "typed r" "\<not> destructive (record_key r)" "c2 = discard_replaced (record_key r) c"
  shows "comp_inv c2" "authored (replay_records c2) ++ effect r = authored (replay_records c) ++ effect r"
    "set (records c2) \<subseteq> set (records c)"
    "payload_event (ev_kind (re_event r)) \<Longrightarrow> map_of (lc_pending c2) (popped_key (record_key r)) = None"
proof -
  let ?k = "popped_key (record_key r)"
  have kinds: "ev_kind (re_event r) \<notin> {K_DELETE_PRIM, K_RENAME_PRIM, K_REPLACE_SDF_LAYER_CONTENT}"
    using assms(2,3) by (auto simp: destructive_def typed_def typed_event_def Let_def)
  then have c2: "c2 = (if payload_event (ev_kind (re_event r)) then c\<lparr>lc_pending := AList.delete ?k (lc_pending c)\<rparr> else c)"
    by (simp add: assms(4) discard_replaced_def Let_def payload_event_def popped_key_def)
  then show "payload_event (ev_kind (re_event r)) \<Longrightarrow> map_of (lc_pending c2) ?k = None" by simp
  have "comp_inv c2 \<and> authored (replay_records c2) ++ effect r = authored (replay_records c) ++ effect r \<and>
      set (records c2) \<subseteq> set (records c)"
  proof (cases "payload_event (ev_kind (re_event r)) \<and> map_of (lc_pending c) ?k \<noteq> None")
    case False
    then have "c2 = c" by (auto simp: c2 delete_id map_of_eq_None_iff)
    then show ?thesis using assms(1) by simp
  next
    case True
    then obtain p where p: "map_of (lc_pending c) ?k = Some p" by blast
    from True have c2': "c2 = c\<lparr>lc_pending := AList.delete ?k (lc_pending c)\<rparr>" by (simp add: c2)
    obtain as bs where V: "replay_records c = as @ p # bs" "replay_records c2 = as @ bs" "comp_inv c2"
      by (rule remove_pending [OF assms(1) p c2'])
    have "(?k, p) \<in> set (entries c)" using p by (auto simp: entries_def dest: map_of_SomeD)
    from comp_invD(2,3) [OF assms(1) this] have kp: "record_key p = ?k" "typed p" by simp_all
    have "ev_prim (re_event p) = ev_prim (re_event r)" "payload_event (ev_kind (re_event p))"
      using kp(1) record_key_sel(1,2) [of p] by (auto simp: popped_key_def payload_event_def split: if_splits)
    then have "dom (effect p) \<subseteq> dom (effect r)"
      using True payload_effect [OF kp(2)] payload_effect [OF assms(2)] by simp
    then have "effect p ++ (authored bs ++ effect r) = authored bs ++ effect r" by (intro map_add_absorb) auto
    then have "authored as ++ (effect p ++ (authored bs ++ effect r)) = authored as ++ (authored bs ++ effect r)" by simp
    then have "authored (as @ bs) ++ effect r = authored (as @ p # bs) ++ effect r" by simp
    moreover have "set (records c2) \<subseteq> set (records c)"
      using arg_cong [OF V(1), of set] arg_cong [OF V(2), of set] by (auto simp: replay_records_eq)
    ultimately show ?thesis using V by simp
  qed
  then show "comp_inv c2" "authored (replay_records c2) ++ effect r = authored (replay_records c) ++ effect r"
    "set (records c2) \<subseteq> set (records c)" by blast+
qed

text \<open>Values: a first record of its key, or one merged into the pending entry of the key.\<close>

lemma pending_apart:
  assumes "comp_inv c" "typed r" "\<not> destructive (record_key r)"
    and "payload_event (ev_kind (re_event r)) \<Longrightarrow> map_of (lc_pending c) (popped_key (record_key r)) = None"
    and "e \<in> set (lc_pending c)" "\<not> destructive (fst e)" "fst e \<noteq> record_key r"
  shows "reach (fst e) \<inter> reach (record_key r) = {}"
proof -
  have e: "fst e = record_key (snd e)" "typed (snd e)" using assms(5) comp_invD(2,3) [OF assms(1), of e] by (simp_all add: entries_def)
  have "payload_event (ev_kind (re_event r)) \<Longrightarrow> fst e \<noteq> popped_key (record_key r)"
    using assms(4,5) by (force simp: map_of_eq_None_iff)
  then show ?thesis using reach_apart [OF assms(2) e(2) assms(3)] assms(6,7) e(1) by metis
qed

lemma add_first:
  assumes "comp_inv c" "typed r" "\<not> destructive (record_key r)" "\<forall>y \<in> set (records c). re_seq y < re_seq r"
    and "payload_event (ev_kind (re_event r)) \<Longrightarrow> map_of (lc_pending c) (popped_key (record_key r)) = None"
    and "map_of (lc_pending c) (record_key r) = None"
    and "r1 = r\<lparr>re_event := merge_payload ms None (re_event r)\<rparr>" "d = c\<lparr>lc_pending := AList.update (record_key r) r1 (lc_pending c)\<rparr>"
  shows "adds c r d"
proof -
  note f = effect_first [OF assms(2,3) refl, where ms = ms, folded assms(7)]
  note up = fresh_update [OF assms(6,8) comp_invD(1) [OF assms(1)]]
  have seq: "re_seq r1 = re_seq r" by (simp add: assms(7))
  have fresh: "re_seq r1 \<notin> re_seq ` set (records c)" using assms(4) seq by force
  have apart: "reach (fst e) \<inter> dom (effect r1) = {}" if "e \<in> set (lc_pending c)" "\<not> destructive (fst e)" for e
  proof -
    have "fst e \<noteq> record_key r" using assms(6) that(1) by (force simp: map_of_eq_None_iff)
    from pending_apart [OF assms(1-3,5) that this] effect_reach [OF assms(2,3)] show ?thesis unfolding f(1) by blast
  qed
  have mv: "movable c (record_key r, r1)" using assms(3,4) seq by (fastforce simp: movable_def destructive_def)
  note ext = extend_inv [OF assms(1) up(1,2) _ f(3) [symmetric] f(2) fresh apart mv]
  have inv: "comp_inv d" "mset (records d) = add_mset r1 (mset (records c))" "distinct (map re_seq (records d))"
    by (rule ext; simp add: up(3))+
  have "replay_records d = replay_records c @ [r1]" using inv(2,3) by (rule replay_snoc) (simp add: seq assms(4))
  then show ?thesis using inv(1) f(1) arg_cong [OF inv(2), of set_mset] assms(4) seq by (auto simp: adds_def intro: less_imp_le)
qed

lemma add_merge:
  assumes "comp_inv c" "typed r" "\<not> destructive (record_key r)" "\<forall>y \<in> set (records c). re_seq y < re_seq r"
    and "payload_event (ev_kind (re_event r)) \<Longrightarrow> map_of (lc_pending c) (popped_key (record_key r)) = None"
    and "map_of (lc_pending c) (record_key r) = Some p"
    and "r1 = r\<lparr>re_event := merge_payload ms (Some (re_event p)) (re_event r)\<rparr>" "r2 = r1 \<or> r2 = r1\<lparr>re_seq := re_seq p\<rparr>"
    and "d = c\<lparr>lc_pending := AList.update (record_key r) r2 (lc_pending c)\<rparr>"
  shows "adds c r d"
proof -
  let ?k = "record_key r"
  define c' where "c' = c\<lparr>lc_pending := AList.delete ?k (lc_pending c)\<rparr>"
  obtain as bs where V: "replay_records c = as @ p # bs" "replay_records c' = as @ bs" "comp_inv c'"
    "\<not> destructive ?k \<longrightarrow> (\<forall>y \<in> set bs. reach ?k \<inter> dom (effect y) = {})"
    "mset (entries c) = add_mset (?k, p) (mset (entries c'))" "\<forall>y \<in> set bs. re_seq p < re_seq y" "\<forall>y \<in> set as. re_seq y < re_seq p"
    by (rule remove_pending [OF assms(1,6) c'_def])
  have "(?k, p) \<in> set (entries c)" using assms(6) by (auto simp: entries_def dest: map_of_SomeD)
  from comp_invD(2,3) [OF assms(1) this] have p: "typed p" "record_key p = ?k" by simp_all
  note m = effect_merged [OF p(1) assms(2) p(2) assms(3) refl, where ms = ms, folded assms(7)]
  have r2: "effect r2 = effect p ++ effect r" "typed r2" "record_key r2 = ?k" using m assms(8) by auto
  have rc: "set (records c) = set (as @ p # bs)" "set (records c') = set (as @ bs)"
    using arg_cong [OF V(1), of set] arg_cong [OF V(2), of set] by (simp_all add: replay_records_eq)
  have pr: "re_seq p < re_seq r" using assms(4) rc by simp
  have seq: "re_seq r2 = re_seq r \<or> re_seq r2 = re_seq p" using assms(7,8) by auto
  have "re_seq y \<noteq> re_seq r2" if "y \<in> set (records c')" for y
  proof -
    have "re_seq y < re_seq r" using that rc assms(4) by auto
    moreover have "re_seq y \<noteq> re_seq p" using that V(6,7) unfolding rc by fastforce
    ultimately show ?thesis using seq by auto
  qed
  then have fresh: "re_seq r2 \<notin> re_seq ` set (records c')" by (metis imageE)
  have none: "map_of (lc_pending c') ?k = None" by (simp add: c'_def)
  have d: "d = c'\<lparr>lc_pending := AList.update ?k r2 (lc_pending c)\<rparr>" by (simp add: assms(9) c'_def)
  have wf: "wf_dict (lc_pending c)" by (rule comp_invD(1) [OF assms(1)])
  have um: "mset (lc_pending d) = add_mset (?k, r2) (mset (lc_pending c'))"
    using update_mset [OF wf, of ?k r2] by (simp add: assms(9) c'_def)
  have "set (lc_pending d) = insert (?k, r2) (set (lc_pending c'))" using arg_cong [OF um, of set_mset] by simp
  moreover have "mset (entries d) = add_mset (?k, r2) (mset (entries c'))" "wf_dict (lc_pending d)"
    using um wf by (simp_all add: entries_def assms(9) c'_def)
  ultimately have up: "mset (entries d) = add_mset (?k, r2) (mset (entries c'))" "wf_dict (lc_pending d)"
    "set (lc_pending d) = insert (?k, r2) (set (lc_pending c'))" by blast+
  have apart: "reach (fst e) \<inter> dom (effect r2) = {}" if "e \<in> set (lc_pending c')" "\<not> destructive (fst e)" for e
  proof -
    have "fst e \<noteq> ?k" using none that(1) by (force simp: map_of_eq_None_iff)
    moreover have "payload_event (ev_kind (re_event r)) \<Longrightarrow> map_of (lc_pending c') (popped_key ?k) = None"
      using assms(5) by (simp add: c'_def)
    ultimately show ?thesis
      using pending_apart [OF V(3) assms(2,3) _ that] effect_reach [OF r2(2)] assms(3) unfolding r2(3) by blast
  qed
  have mv: "movable c' (?k, r2)"
    using V(4) [rule_format, OF assms(3)] V(7) seq assms(3,4) rc unfolding movable_def by (fastforce simp: destructive_def)
  note ext = extend_inv [OF V(3) up(1,2) _ r2(3) [symmetric] r2(2) fresh apart mv]
  have inv: "comp_inv d" "mset (records d) = add_mset r2 (mset (records c'))" "distinct (map re_seq (records d))"
    by (rule ext; simp add: up(3))+
  have "dom (effect p) \<subseteq> reach ?k" "dom (effect r) \<subseteq> reach ?k" using effect_reach p assms(2,3) by metis+
  then have disj: "effect x ++ authored bs = authored bs ++ effect x" if "x \<in> {p, r}" for x
    using V(4) [rule_format, OF assms(3)] that by (intro authored_past) blast
  have goal: "authored (replay_records d) = authored (replay_records c) ++ effect r"
  proof (cases "re_seq r2 = re_seq r")
    case True
    then have "replay_records d = replay_records c' @ [r2]" using inv(2,3) assms(4) rc by (intro replay_snoc) auto
    then show ?thesis using V(1,2) r2(1) disj [of p] by (simp add: map_add_assoc [symmetric] del: map_add_assoc)
  next
    case False
    then have "re_seq r2 = re_seq p" using seq by simp
    moreover have "mset (records c') = mset (as @ bs)" using arg_cong [OF V(2), of mset] by (simp add: replay_records_eq)
    moreover have "sorted (map re_seq (as @ p # bs))" unfolding V(1) [symmetric] by (simp add: replay_records_eq)
    ultimately have "replay_records d = as @ r2 # bs"
      unfolding replay_records_eq using inv(2,3) by (intro replay_sorted) (simp_all add: sorted_append)
    then show ?thesis using V(1) r2(1) disj [of r] by (simp add: map_add_assoc [symmetric] del: map_add_assoc)
  qed
  have "\<forall>y \<in> set (records d). re_seq y \<le> re_seq r"
    using arg_cong [OF inv(2), of set_mset] rc assms(4) seq pr by (auto intro: less_imp_le)
  with inv(1) goal show ?thesis by (simp add: adds_def)
qed

lemma ops_effect:
  assumes "typed p" "typed r" "record_key p = record_key r" "ev_kind (re_event r) = K_ENSURE_XFORM_OPS"
  shows "effect p = effect r"
proof -
  have "\<not> destructive (record_key r)" using assms(4) by (simp add: destructive_def)
  moreover have "ev_kind (re_event p) = K_ENSURE_XFORM_OPS" using assms(3,4) record_key_sel(2) by metis
  moreover from calculation(2) assms(4) have "slot_writes (re_event p) = slot_writes (re_event r)" by (simp add: slot_writes_def Let_def)
  ultimately have "effect p = effect r ++ effect r" using assms(3) by (intro effect_add [where r = r]) (simp_all add: map_add_absorb)
  then show ?thesis by (simp add: map_add_absorb)
qed

lemma add_ops:
  assumes "comp_inv c" "typed r" "\<forall>y \<in> set (records c). re_seq y < re_seq r" "ev_kind (re_event r) = K_ENSURE_XFORM_OPS"
    and "map_of (lc_pending c) (record_key r) = Some p"
  shows "adds c r c"
proof -
  have nd: "\<not> destructive (record_key r)" using assms(4) by (simp add: destructive_def)
  obtain as bs where V: "replay_records c = as @ p # bs"
    "\<not> destructive (record_key r) \<longrightarrow> (\<forall>y \<in> set bs. reach (record_key r) \<inter> dom (effect y) = {})"
    by (rule remove_pending [OF assms(1,5) refl])
  have "(record_key r, p) \<in> set (entries c)" using assms(5) by (auto simp: entries_def dest: map_of_SomeD)
  from comp_invD(2,3) [OF assms(1) this] have p: "typed p" "record_key p = record_key r" by simp_all
  have e: "effect p = effect r" by (rule ops_effect [OF p(1) assms(2) p(2) assms(4)])
  have "dom (effect r) \<subseteq> reach (record_key r)" using effect_reach assms(2) nd by blast
  then have "effect r ++ authored bs = authored bs ++ effect r" using V(2) nd by (intro authored_past) blast
  then have "(effect r ++ authored bs) ++ effect r = effect r ++ authored bs"
    by (metis map_add_absorb map_add_assoc order_refl)
  then have "authored (replay_records c) ++ effect r = authored (replay_records c)"
    by (simp add: V(1) e map_add_assoc [symmetric] del: map_add_assoc)
  then show ?thesis using assms(1,3) by (auto simp: adds_def intro: less_imp_le)
qed

lemma discard_replaced_other:
  "mk_kind k \<notin> {K_DELETE_PRIM, K_RENAME_PRIM, K_REPLACE_SDF_LAYER_CONTENT, K_LOAD_PAYLOAD, K_UNLOAD_PAYLOAD} \<Longrightarrow> discard_replaced k c = c"
  by (simp add: discard_replaced_def Let_def)

lemma adds_shift: "adds c2 r d \<Longrightarrow> authored (replay_records c2) ++ effect r = authored (replay_records c) ++ effect r \<Longrightarrow> adds c r d"
  by (simp add: adds_def)

lemma add_source:
  assumes "ev_kind (re_event r) \<notin> {K_SET_SUBLAYERS, K_SET_SDF_SPEC_FIELDS}"
    and "c1 = preserve_sample_order (record_key r) (re_event r) c" "c2 = discard_replaced (record_key r) c1"
  shows "add_decoded_record ms r c =
     (if is_exact_deletion (re_event r) then c1\<lparr>lc_preserved := lc_preserved c1 @ [(record_key r, r)]\<rparr>
      else if map_of (lc_pending c2) (record_key r) \<noteq> None \<and> ev_kind (re_event r) = K_ENSURE_XFORM_OPS then c2
      else c2\<lparr>lc_pending := AList.update (record_key r)
          (let r1 = r\<lparr>re_event := merge_payload ms (map_option re_event (map_of (lc_pending c2) (record_key r))) (re_event r)\<rparr>
           in case map_of (lc_pending c2) (record_key r) of
                Some p \<Rightarrow> if ev_kind (re_event r) = K_ENSURE_PRIM then r1\<lparr>re_seq := re_seq p\<rparr> else r1
              | None \<Rightarrow> r1)
          (lc_pending c2)\<rparr>)"
  using assms by (simp add: add_decoded_record_def record_key_def [symmetric] Let_def)

lemma add_typed:
  assumes "comp_inv c" "typed r" "\<forall>y \<in> set (records c). re_seq y < re_seq r"
  shows "adds c r (add_decoded_record ms r c)"
proof -
  let ?k = "record_key r" and ?ev = "re_event r"
  define c1 where "c1 = preserve_sample_order ?k ?ev c"
  define c2 where "c2 = discard_replaced ?k c1"
  have kinds: "ev_kind ?ev \<notin> {K_SET_SUBLAYERS, K_SET_SDF_SPEC_FIELDS, K_RENAME_PRIM, K_REPLACE_SDF_LAYER_CONTENT}"
    using assms(2) by (simp add: typed_def typed_event_def Let_def)
  note so = sample_order_typed [OF assms(1,2) c1_def]
  note c1 = repins_inv [OF assms(1) so(1)]
  have rec: "set (records c1) = set (records c)"
    using so(1) records_mset [of c1 c] by (metis repins_def set_mset_mset)
  have later: "\<forall>y \<in> set (records c1). re_seq y < re_seq r" using assms(3) rec by simp
  have shift: "adds c1 r d \<Longrightarrow> adds c r d" for d using c1(2) by (simp add: adds_def)
  have "ev_kind ?ev \<notin> {K_SET_SUBLAYERS, K_SET_SDF_SPEC_FIELDS}" using kinds by blast
  note source = add_source [OF this c1_def c2_def, where ms = ms]
  consider (erase) "ev_kind ?ev = K_ERASE_TIME_SAMPLES" | (delete) "ev_kind ?ev = K_DELETE_PRIM" | (other) "\<not> destructive ?k"
    by (auto simp: destructive_def)
  then show ?thesis
  proof cases
    case erase
    then have "is_exact_deletion ?ev" by (simp add: is_exact_deletion_def)
    then show ?thesis using add_erase [OF assms erase c1_def refl] by (simp add: source)
  next
    case delete
    then have "\<not> is_exact_deletion ?ev" by (simp add: is_exact_deletion_def)
    moreover note del = add_delete [OF c1(1) assms(2) later delete c2_def refl]
    ultimately show ?thesis using shift [OF del(1)] by (simp add: source del(2) merge_payload_def delete)
  next
    case other
    then have ex: "\<not> is_exact_deletion ?ev" using kinds by (simp add: is_exact_deletion_def destructive_def)
    note pop = pop_payload [OF c1(1) assms(2) other c2_def]
    have later2: "\<forall>y \<in> set (records c2). re_seq y < re_seq r" using later pop(3) by blast
    have "adds c2 r (add_decoded_record ms r c)"
    proof (cases "map_of (lc_pending c2) ?k")
      case None
      then show ?thesis using ex add_first [OF pop(1) assms(2) other later2 pop(4) None refl refl, where ms = ms] by (simp add: source)
    next
      case (Some p)
      then show ?thesis
        using ex add_merge [OF pop(1) assms(2) other later2 pop(4) Some refl _ refl, where ms = ms]
          add_ops [OF pop(1) assms(2) later2 _ Some] by (auto simp: source Let_def)
    qed
    then show ?thesis by (intro shift adds_shift [OF _ pop(2)])
  qed
qed

section \<open>Compacting a log\<close>

lemma compact_typed:
  assumes "sorted_wrt (<) (map re_seq (front @ rs))" "list_all typed rs" "comp_inv c"
    and "\<forall>y \<in> set (records c). \<exists>x \<in> set front. re_seq y \<le> re_seq x"
  shows "authored (replay_records (fold (add_decoded_record ms) rs c)) = authored (replay_records c) ++ authored rs"
  using assms
proof (induction rs arbitrary: c front)
  case (Cons r rs)
  have "re_seq x < re_seq r" if "x \<in> set front" for x using Cons.prems(1) that by (auto simp: sorted_wrt_append)
  then have "\<forall>y \<in> set (records c). re_seq y < re_seq r" using Cons.prems(4) by (meson order_le_less_trans)
  with Cons.prems have "adds c r (add_decoded_record ms r c)" by (intro add_typed) simp_all
  then have a: "comp_inv (add_decoded_record ms r c)"
    "authored (replay_records (add_decoded_record ms r c)) = authored (replay_records c) ++ effect r"
    "\<forall>y \<in> set (records (add_decoded_record ms r c)). \<exists>x \<in> set (front @ [r]). re_seq y \<le> re_seq x"
    by (auto simp: adds_def)
  from Cons.IH [of "front @ [r]", OF _ _ a(1,3)] Cons.prems a(2) show ?case by simp
qed simp

lemma new_compaction_inv: "comp_inv new_compaction" "records new_compaction = []" "replay_records new_compaction = []"
  by (simp_all add: comp_inv_def new_compaction_def entries_def records_def replay_records_def)

text \<open>Every record adds at most one entry, whatever its kind.\<close>

lemma length_update: "length (AList.update k v d) \<le> Suc (length d)"
  by (induction d) auto

lemma length_preserve: "length (entries (preserve k c)) \<le> length (entries c)"
proof (cases "map_of (lc_pending c) k")
  case (Some r)
  then have "(k, r) \<in> set (lc_pending c)" by (rule map_of_SomeD)
  then have "length (AList.delete k (lc_pending c)) < length (lc_pending c)"
    unfolding AList.delete_eq by (rule length_filter_less) simp
  with Some show ?thesis by (simp add: preserve_def entries_def)
qed (simp add: preserve_def)

lemma length_fold_preserve: "length (entries (fold preserve ks c)) \<le> length (entries c)"
  by (induction ks arbitrary: c) (simp, metis fold_simps(2) length_preserve order_trans)

lemma length_preserve_samples: "length (entries (fold (preserve_samples key) ns c)) \<le> length (entries c)"
proof (induction ns arbitrary: c)
  case (Cons n ns)
  have "length (entries (preserve_samples key n c)) \<le> length (entries c)"
    using length_preserve by (simp add: preserve_samples_def Let_def split: option.splits)
  with Cons.IH [of "preserve_samples key n c"] show ?case by simp
qed simp

lemma length_sample_order: "length (entries (preserve_sample_order key ev c)) \<le> length (entries c)"
  unfolding preserve_sample_order_def Let_def
  using order_trans [OF length_fold_preserve length_preserve_samples] length_preserve_samples by simp

lemma length_discard: "length (entries (discard P c)) \<le> length (entries c)"
  by (simp add: discard_alt entries_def add_mono)

lemma length_discard_replaced: "length (entries (discard_replaced key c)) \<le> length (entries c)"
  using length_discard by (simp add: discard_replaced_def Let_def entries_def AList.delete_eq)

lemma length_add_record: "length (entries (add_decoded_record ms r c)) \<le> Suc (length (entries c))"
proof -
  define c1 where "c1 = preserve_sample_order (record_key r) (re_event r) c"
  have c1: "length (entries c1) \<le> length (entries c)" unfolding c1_def by (rule length_sample_order)
  have dis: "length (entries (discard P c1)) \<le> length (entries c)" for P using length_discard c1 order_trans by blast
  have rep: "length (entries (discard_replaced k c1)) \<le> length (entries c)" for k
    using length_discard_replaced c1 order_trans by blast
  have app: "length (entries (d\<lparr>lc_preserved := lc_preserved d @ [e]\<rparr>)) \<le> Suc n" if "length (entries d) \<le> n" for d e n
    using that by (simp add: entries_def)
  have up: "length (entries (d\<lparr>lc_pending := AList.update k v (lc_pending d)\<rparr>)) \<le> Suc n" if "length (entries d) \<le> n" for d k v n
    using that length_update [of k v "lc_pending d"] by (simp add: entries_def)
  show ?thesis
    unfolding add_decoded_record_def record_key_def [symmetric] Let_def c1_def [symmetric]
    using app [OF dis] app [OF c1] up [OF rep] le_SucI [OF rep] by simp
qed

lemma length_compaction: "length (replay_records (compact_records ms rs)) \<le> length rs"
proof -
  have "length (entries (fold (add_decoded_record ms) rs c)) \<le> length (entries c) + length rs" for c
  proof (induction rs arbitrary: c)
    case (Cons r rs)
    from Cons.IH [of "add_decoded_record ms r c"] length_add_record [of ms r c] show ?case by simp
  qed simp
  from this [of new_compaction] show ?thesis
    by (simp add: compact_records_def replay_records_eq records_def new_compaction_def entries_def)
qed

lemma compaction_effect:
  assumes "sorted_wrt (<) (map re_seq rs)" "list_all typed rs"
  shows "authored (replay_records (compact_records ms rs)) = authored rs \<and>
    sorted (map re_seq (replay_records (compact_records ms rs)))"
  using compact_typed [where front = "[]" and c = new_compaction] assms
  by (simp add: compact_records_def new_compaction_inv) (simp add: replay_records_eq)

section \<open>Properties\<close>

text \<open>C6. Compaction keeps what a log says. For a log of typed edits in sequence order, over any
  layers, with partial writes merged and moved to their latest position, creates kept at their
  first, samples erased in between, subtrees deleted and payloads loaded and unloaded, replaying the
  compacted records leaves exactly the opinions that replaying the log leaves; the compacted records
  are in sequence order and no more than the log has.\<close>

theorem compaction_keeps_opinions:
  assumes "sorted_wrt (<) (map re_seq rs)" "list_all typed rs"
  shows "authored (replay_records (compact_records ms rs)) = authored rs \<and>
    sorted (map re_seq (replay_records (compact_records ms rs))) \<and>
    length (replay_records (compact_records ms rs)) \<le> length rs"
  using compaction_effect [OF assms, of ms] length_compaction [of ms rs] by blast

definition demo_record :: "int \<Rightarrow> event \<Rightarrow> received_event" where
  "demo_record n ev = \<lparr>re_seq = n, re_event = ev, re_layer = Some ''default'', re_origin = None, re_client_id = None, re_client = None\<rparr>"

definition demo_log :: "received_event list" where
  "demo_log =
     [demo_record 1 [(''k'', PStr K_ENSURE_PRIM), (''prim'', PStr ''/A''), (''typeName'', PStr ''Xform'')],
      demo_record 2 [(''k'', PStr K_SET_XFORM_TRS), (''prim'', PStr ''/A''), (''fields'', PList [PStr ''t'']), (''t'', PInt 1), (''time'', PInt 5)],
      demo_record 3 [(''k'', PStr K_ERASE_TIME_SAMPLES), (''prim'', PStr ''/A''), (''spec_path'', PStr ''/A.xformOp:translate''), (''times'', PList [PInt 5])],
      demo_record 4 [(''k'', PStr K_SET_XFORM_TRS), (''prim'', PStr ''/A''), (''fields'', PList [PStr ''r'']), (''r'', PInt 2), (''time'', PInt 5)],
      demo_record 5 [(''k'', PStr K_SET_XFORM_TRS), (''prim'', PStr ''/A''), (''fields'', PList [PStr ''s'']), (''s'', PInt 3), (''time'', PInt 5)]]"

theorem compaction_keeps_opinions_witness:
  "authored (replay_records (compact_records (\<lambda>p ev. ev) demo_log)) = authored demo_log \<and>
   map re_seq (replay_records (compact_records (\<lambda>p ev. ev) demo_log)) = [1, 2, 3, 5]"
proof -
  have "sorted_wrt (<) (map re_seq demo_log)" by code_simp
  moreover have "list_all typed demo_log" by code_simp
  ultimately have "authored (replay_records (compact_records (\<lambda>p ev. ev) demo_log)) = authored demo_log"
    using compaction_keeps_opinions by blast
  moreover have "map re_seq (replay_records (compact_records (\<lambda>p ev. ev) demo_log)) = [1, 2, 3, 5]" by code_simp
  ultimately show ?thesis by blast
qed

section \<open>Edits the reduction does not keep\<close>

text \<open>
  A schema-only ensure (an empty type name, which leaves the prim's type alone when it is applied)
  overwrites the type of the ensure it is merged into.
\<close>

lemma compaction_loses_type:
  "map (\<lambda>r. (ev_str ''typeName'' (re_event r), ev_strings ''api_schemas'' (re_event r)))
     (replay_records (compact_records ms
       [demo_record 1 [(''k'', PStr K_ENSURE_PRIM), (''prim'', PStr ''/L''), (''typeName'', PStr ''SphereLight'')],
        demo_record 2 [(''k'', PStr K_ENSURE_PRIM), (''prim'', PStr ''/L''), (''typeName'', PStr []),
          (''api_schemas'', PList [PStr ''ShapingAPI''])]])) = [([], [''ShapingAPI''])]"
  by code_simp

text \<open>
  An exact default followed by a typed write of the same attribute and a later metadata edit: the
  merged exact edit replays the old default after the typed write.
\<close>

lemma compaction_revives_default:
  assumes "old = [(''k'', PStr K_SET_SDF_SPEC_FIELDS), (''prim'', PStr ''/A''), (''spec_path'', PStr ''/A.x''),
      (''spec_kind'', PStr ''attribute''), (''fields'', PList [PStr ''default''])]"
    and "new = [(''k'', PStr K_SET_SDF_SPEC_FIELDS), (''prim'', PStr ''/A''), (''spec_path'', PStr ''/A.x''),
      (''spec_kind'', PStr ''attribute''), (''fields'', PList [PStr ''documentation''])]"
    and "typed_write = [(''k'', PStr K_SET_GPRIM_ATTRS), (''prim'', PStr ''/A''), (''attrs'', PDict [(''x'', PInt 2)])]"
  shows "map re_event (replay_records (compact_records ms [demo_record 1 old, demo_record 2 typed_write, demo_record 3 new])) =
    [typed_write, ms old new]"
  unfolding assms by code_simp

definition demo_rename :: "received_event list" where
  "demo_rename =
     [demo_record 1 [(''k'', PStr K_ENSURE_PRIM), (''prim'', PStr ''/A''), (''typeName'', PStr ''Xform'')],
      demo_record 2 [(''k'', PStr K_ENSURE_PRIM), (''prim'', PStr ''/A/C''), (''typeName'', PStr ''Mesh'')],
      demo_record 3 [(''k'', PStr K_RENAME_PRIM), (''prim'', PStr ''/A''), (''new_name'', PStr ''B'')]]"


end
