(* ===== verification/History_Rewrite.thy ===== *)
theory History_Rewrite
  imports Journal Compaction_Correct
begin

text \<open>
  Replacing the stored history: \<open>HistoryMaintenance\<close> and \<open>PeriodicCompactor\<close> of
  \<open>openusdconnect/server/maintenance.py\<close>, and \<open>compact_log\<close> of \<open>openusdconnect/server/state.py\<close>
  on the journal (its publication to receivers is in the delivery theory).

  Compaction captures the stored rows, reduces them without holding the maintenance barrier while
  producers go on appending, and in the exclusive window adds the rows appended meanwhile and
  replaces the history, unless another replacement came first. The decoder of a stored record and
  the encoder are arguments. The histories are those of a managed server, without a shared layer
  graph.
\<close>

section \<open>Reducing the stored history\<close>

datatype stored_message = StoredEvent received_event | StoredGraph | StoredOther

type_synonym stored_decoder = "bytes \<Rightarrow> stored_message res"

definition add_stored_record ::
  "stored_decoder \<Rightarrow> (event \<Rightarrow> event \<Rightarrow> event) \<Rightarrow> int \<times> bytes \<Rightarrow> compaction \<Rightarrow> compaction res" where
  "add_stored_record dec ms row c =
     (case dec (snd row) of
        Inl e \<Rightarrow> Inl e
      | Inr StoredGraph \<Rightarrow> Inr c
      | Inr StoredOther \<Rightarrow> Inl (ValueError ''event log contains an unsupported record'')
      | Inr (StoredEvent r) \<Rightarrow> Inr (add_decoded_record ms (r\<lparr>re_seq := fst row\<rparr>) c))"

definition build_compacted ::
  "stored_decoder \<Rightarrow> (event \<Rightarrow> event \<Rightarrow> event) \<Rightarrow> (int \<times> bytes) list \<Rightarrow> compaction res" where
  "build_compacted dec ms rows = fold_res (add_stored_record dec ms) rows new_compaction"

fun encode_compacted :: "encoder \<Rightarrow> int \<Rightarrow> received_event list \<Rightarrow> event_row list res" where
  "encode_compacted encode seq [] = Inr []"
| "encode_compacted encode seq (r # rs) =
     (case encode_event_record encode seq (re_event r) (re_client r) (re_client_id r) (re_origin r) (re_layer r) of
        Inl e \<Rightarrow> Inl e
      | Inr (record1, bin) \<Rightarrow>
          (case encode_compacted encode (seq + 1) rs of
             Inl e \<Rightarrow> Inl e | Inr rows \<Rightarrow> Inr (store_row record1 bin # rows)))"

text \<open>The journal and the tracking caches of the scene, which a replacement rebuilds.\<close>

type_synonym history = "journal \<times> (tracking \<times> bool)"

definition commit_compaction :: "encoder \<Rightarrow> bool \<Rightarrow> compaction \<Rightarrow> history \<Rightarrow> unit res \<times> history" where
  "commit_compaction encode db c h =
     (let compacted = replay_records c
      in case encode_compacted encode 1 compacted of
           Inl e \<Rightarrow> (Inl e, h)
         | Inr rows \<Rightarrow>
             (case rewrite_history db rows (fst h) of
                (Inl e, j) \<Rightarrow> (Inl e, (j, snd h))
              | (Inr _, j) \<Rightarrow> (Inr (), (j, rebuild_tracking (map re_event compacted)))))"

record compaction_job =
  job_epoch :: int
  job_max_seq :: int
  job_compaction :: compaction

definition capture_history ::
  "stored_decoder \<Rightarrow> (event \<Rightarrow> event \<Rightarrow> event) \<Rightarrow> journal \<Rightarrow> compaction_job option res" where
  "capture_history dec ms j =
     (let rows = get_all_asc (jstore j)
      in if rows = [] then Inr None
         else case build_compacted dec ms rows of
           Inl e \<Rightarrow> Inl e
         | Inr c \<Rightarrow> Inr (Some \<lparr>job_epoch = fst (replay_token j), job_max_seq = fst (last rows), job_compaction = c\<rparr>))"

text \<open>In the exclusive window, after draining: whether the history was replaced.\<close>

definition finish_compaction ::
  "stored_decoder \<Rightarrow> (event \<Rightarrow> event \<Rightarrow> event) \<Rightarrow> encoder \<Rightarrow> bool \<Rightarrow> compaction_job \<Rightarrow> history \<Rightarrow> bool res \<times> history" where
  "finish_compaction dec ms encode db job h =
     (if fst (replay_token (fst h)) \<noteq> job_epoch job then (Inr False, h)
      else case fold_res (add_stored_record dec ms) (get_from_seq_asc (job_max_seq job + 1) (jstore (fst h))) (job_compaction job) of
        Inl e \<Rightarrow> (Inl e, h)
      | Inr c \<Rightarrow>
          (case commit_compaction encode db c h of (Inl e, h') \<Rightarrow> (Inl e, h') | (Inr _, h') \<Rightarrow> (Inr True, h')))"

definition purge :: "bool \<Rightarrow> history \<Rightarrow> unit res \<times> history" where
  "purge db h =
     (case rewrite_history db [] (fst h) of
        (Inl e, j) \<Rightarrow> (Inl e, (j, snd h))
      | (Inr _, j) \<Rightarrow> (Inr (), (j, rebuild_tracking [])))"

fun encode_snapshot :: "encoder \<Rightarrow> string option \<Rightarrow> string option \<Rightarrow> int \<Rightarrow> event list \<Rightarrow> event_row list res" where
  "encode_snapshot encode client_id origin seq [] = Inr []"
| "encode_snapshot encode client_id origin seq (ev # evs) =
     (let layer_key = (if ev_kind ev \<in> set NON_COLLABORATION_KINDS then None else Some ''default'')
      in case encode_event_record encode seq ev None client_id origin layer_key of
           Inl e \<Rightarrow> Inl e
         | Inr (record1, bin) \<Rightarrow>
             (case encode_snapshot encode client_id origin (seq + 1) evs of
                Inl e \<Rightarrow> Inl e | Inr rows \<Rightarrow> Inr (store_row record1 bin # rows)))"

definition commit_snapshot ::
  "encoder \<Rightarrow> bool list \<Rightarrow> bool \<Rightarrow> string option \<Rightarrow> string option \<Rightarrow> event list \<Rightarrow> history \<Rightarrow> unit res \<times> history" where
  "commit_snapshot encode dbs db client_id origin evs h =
     (case encode_snapshot encode client_id origin 1 evs of
        Inl e \<Rightarrow> (Inl e, h)
      | Inr rows \<Rightarrow>
          (case rewrite_history db rows (drain dbs (fst h)) of
             (Inl e, j) \<Rightarrow> (Inl e, (j, snd h))
           | (Inr _, j) \<Rightarrow> (Inr (), (j, rebuild_tracking evs))))"

section \<open>Scheduling\<close>

record compactor =
  pc_interval :: real
  pc_stop :: bool
  pc_wake :: bool
  pc_thread :: bool

definition new_compactor :: "real option \<Rightarrow> compactor" where
  "new_compactor interval = \<lparr>pc_interval = max 0 (case interval of None \<Rightarrow> 0 | Some i \<Rightarrow> i), pc_stop = False,
     pc_wake = False, pc_thread = False\<rparr>"

definition compactor_start :: "compactor \<Rightarrow> compactor" where
  "compactor_start pc = (if pc_interval pc > 0 \<and> \<not> pc_thread pc then pc\<lparr>pc_thread := True\<rparr> else pc)"

definition set_compact_interval :: "real option \<Rightarrow> compactor \<Rightarrow> compactor" where
  "set_compact_interval seconds pc =
     (compactor_start (pc\<lparr>pc_interval := max 0 (case seconds of None \<Rightarrow> 0 | Some i \<Rightarrow> i)\<rparr>))\<lparr>pc_wake := True\<rparr>"

definition request_stop :: "compactor \<Rightarrow> compactor" where
  "request_stop pc = pc\<lparr>pc_stop := True, pc_wake := True\<rparr>"

text \<open>
  One turn of the loop, from a state in which the stop flag was read as unset: what the wait does
  (\<open>before\<close> and \<open>after\<close> are the state around it, \<open>woken\<close> its result) and whether it compacts.
\<close>

datatype loop_action = LoopEnd | LoopAgain | LoopCompact

definition compaction_turn :: "bool \<Rightarrow> bool \<Rightarrow> compactor \<Rightarrow> compactor \<Rightarrow> loop_action \<times> compactor" where
  "compaction_turn woken needs before after =
     (if pc_interval before \<le> 0 \<or> woken then (LoopAgain, after\<lparr>pc_wake := False\<rparr>)
      else if pc_stop after then (LoopEnd, after)
      else (if needs then LoopCompact else LoopAgain, after))"

text \<open>\<open>_maybe_reclaim_storage\<close>: whether storage is reclaimed, and the time of the last success.\<close>

definition maybe_reclaim_storage :: "real \<Rightarrow> real \<Rightarrow> real \<Rightarrow> real \<Rightarrow> bool \<Rightarrow> bool \<times> real" where
  "maybe_reclaim_storage interval last_reclaim now later works =
     (if interval \<le> 0 \<or> now - last_reclaim < interval then (False, last_reclaim)
      else if works then (True, later) else (False, last_reclaim))"

section \<open>The history while a compaction runs\<close>

text \<open>
  What other threads do to the journal between the capture and the exclusive window: reserve and
  append a batch, persist a queued one, replace the history.
\<close>

inductive journal_step :: "journal \<Rightarrow> journal \<Rightarrow> bool" where
  append: "map row_seq rows = [next_seq j .. next_seq j + int (length rows) - 1] \<Longrightarrow>
    journal_append_batch db rows ps ls sync (j\<lparr>next_seq := next_seq j + int (length rows)\<rparr>) = (Inr (), j') \<Longrightarrow>
    journal_step j j'"
| persist: "journal_step j (persist_next db j)"
| replace: "jqueue j = [] \<Longrightarrow> map row_seq rows = [1 .. int (length rows)] \<Longrightarrow> rewrite_history db rows j = (r, j') \<Longrightarrow>
    journal_step j j'"

definition grown :: "journal \<Rightarrow> journal \<Rightarrow> bool" where
  "grown j0 j \<longleftrightarrow> replay_epoch j0 \<le> replay_epoch j \<and>
     (replay_epoch j = replay_epoch j0 \<longrightarrow> next_seq j0 \<le> next_seq j \<and>
       (\<exists>new. events (jstore j) = events (jstore j0) @ new \<and>
         (\<forall>r \<in> set (new @ queued_rows j). next_seq j0 \<le> row_seq r)))"

lemma append_grown:
  assumes "grown j0 j" "map row_seq rows = [next_seq j .. next_seq j + int (length rows) - 1]"
    and "journal_append_batch db rows ps ls sync (j\<lparr>next_seq := next_seq j + int (length rows)\<rparr>) = (Inr (), j')"
  shows "grown j0 j'"
proof -
  let ?j = "j\<lparr>next_seq := next_seq j + int (length rows)\<rparr>"
  have new: "next_seq j \<le> row_seq r" if "r \<in> set rows" for r
  proof -
    have "row_seq r \<in> set (map row_seq rows)" using that by simp
    then show ?thesis unfolding assms(2) by simp
  qed
  show ?thesis
  proof (cases "can_queue sync ps ls ?j")
    case True
    with assms(3) have "j' = ?j\<lparr>jqueue := jqueue ?j @ [Some rows]\<rparr>" by (simp add: journal_append_batch_queued)
    moreover have "queued_rows (?j\<lparr>jqueue := jqueue j\<rparr>) = queued_rows j" by (simp add: queued_rows_def)
    ultimately show ?thesis using assms(1) new by (fastforce simp: grown_def)
  next
    case False
    from assms(3) this obtain st where st: "append_batch db rows ps ls (jstore ?j) = (Inr (), st)"
      and j': "j' = ?j\<lparr>jstore := st, event_count := event_count ?j + int (length rows)\<rparr>"
      by (rule journal_append_batch_durable)
    have "queued_rows j' = queued_rows j" by (simp add: queued_rows_def j')
    with assms(1) new append_batch_events [OF st] show ?thesis by (fastforce simp: grown_def j')
  qed
qed

lemma persist_grown:
  assumes "grown j0 j"
  shows "grown j0 (persist_next db j)"
proof (cases rule: persist_next_cases [of db j])
  case (stored rows rest st)
  then have q: "queued_rows j = rows @ queued_rows (persist_next db j)" by (simp add: queued_rows_def)
  show ?thesis using assms append_batch_events [OF stored(2)] unfolding grown_def q by (fastforce simp: stored(3))
next
  case (dropped rows rest)
  then have q: "queued_rows j = rows @ queued_rows (persist_next db j)" by (simp add: queued_rows_def)
  show ?thesis using assms unfolding grown_def q by (fastforce simp: dropped(2))
next
  case (stop rest)
  then have "queued_rows (persist_next db j) = queued_rows j" by (simp add: queued_rows_def)
  with assms stop(2) show ?thesis by (simp add: grown_def)
qed (use assms in simp)

lemma replace_grown:
  assumes "grown j0 j" "rewrite_history db rows j = (r, j')"
  shows "grown j0 j'"
  using assms(2)
proof (cases rule: rewrite_history_cases)
  case rewritten
  with assms(1) show ?thesis by (simp add: grown_def reset_history_def)
qed (use assms in simp)

lemma journal_step_inv:
  assumes "journal_step j j'" "log_inv j \<and> grown j0 j"
  shows "log_inv j' \<and> grown j0 j'"
  using assms
proof (cases rule: journal_step.cases)
  case (append rows db ps ls sync)
  have "log_inv ((j\<lparr>next_seq := next_seq j + int (length rows)\<rparr>)\<lparr>next_seq := next_seq j\<rparr>)" using assms(2) by simp
  from journal_append_log_inv [OF this _ _ append(2)] append(1) append_grown [OF _ append] assms(2) show ?thesis by simp
next
  case (persist db)
  with assms(2) persist_next_log_inv persist_grown show ?thesis by simp
next
  case (replace rows db r)
  from replace(3) show ?thesis
  proof (cases rule: rewrite_history_cases)
    case rewritten
    then have "log_inv j'"
      using assms(2) replace(1,2) by (auto simp: log_inv_def reset_history_def queued_rows_def store_inv_def dest!: arg_cong [where f = set])
    with assms(2) replace_grown [OF _ replace(3)] show ?thesis by blast
  qed (use assms(2) in simp)
qed

interpretation hr: invariant_system journal_step "\<lambda>j. log_inv j \<and> grown j0 j" for j0
  by unfold_locales (rule journal_step_inv)

section \<open>Compaction against the growing history\<close>

definition received_of :: "event_record \<Rightarrow> received_event" where
  "received_of rec = \<lparr>re_seq = rec_seq rec, re_event = rec_event rec, re_layer = rec_layer_key rec,
     re_origin = rec_origin rec, re_client_id = rec_client_id rec, re_client = rec_client rec\<rparr>"

definition decoded_log :: "stored_decoder \<Rightarrow> (int \<times> bytes) list \<Rightarrow> received_event list" where
  "decoded_log dec rows =
     concat (map (\<lambda>row. case dec (snd row) of Inr (StoredEvent r) \<Rightarrow> [r\<lparr>re_seq := fst row\<rparr>] | _ \<Rightarrow> []) rows)"

lemma decoded_log_simps [simp]:
  "decoded_log dec [] = []" "decoded_log dec (xs @ ys) = decoded_log dec xs @ decoded_log dec ys"
  by (simp_all add: decoded_log_def)

lemma fold_stored:
  "fold_res (add_stored_record dec ms) rows c = Inr c' \<Longrightarrow> c' = fold (add_decoded_record ms) (decoded_log dec rows) c"
proof (induction rows arbitrary: c)
  case (Cons row rows)
  then obtain c1 where c1: "add_stored_record dec ms row c = Inr c1" "fold_res (add_stored_record dec ms) rows c1 = Inr c'"
    by (auto split: sum.splits)
  from c1(1) have "c1 = fold (add_decoded_record ms) (decoded_log dec [row]) c"
    by (auto simp: add_stored_record_def decoded_log_def split: sum.splits stored_message.splits)
  with Cons.IH [OF c1(2)] show ?case by (simp add: decoded_log_def)
qed simp

lemma decoded_log_sorted:
  assumes "sorted_wrt (<) (map fst rows)"
  shows "sorted_wrt (<) (map re_seq (decoded_log dec rows))"
proof -
  have sub: "re_seq x \<in> set (map fst rows)" if "x \<in> set (decoded_log dec rows)" for x rows
    using that by (force simp: decoded_log_def split: sum.splits stored_message.splits)
  show ?thesis using assms
  proof (induction rows)
    case (Cons row rows)
    have "fst row < re_seq y" if "y \<in> set (decoded_log dec rows)" for y
      using Cons.prems sub [OF that] by auto
    with Cons show ?case by (auto simp: decoded_log_def split: sum.splits stored_message.splits)
  qed simp
qed

lemma length_decoded_log: "length (decoded_log dec rows) \<le> length rows"
proof (induction rows)
  case (Cons row rows)
  have "decoded_log dec (row # rows) = decoded_log dec [row] @ decoded_log dec rows" by (simp add: decoded_log_def)
  moreover have "length (decoded_log dec [row]) \<le> 1" by (simp add: decoded_log_def split: sum.split stored_message.split)
  ultimately show ?case using Cons by simp
qed simp

lemma delta_completes:
  assumes "log_inv j0" "log_inv j" "grown j0 j" "replay_epoch j = replay_epoch j0" "get_all_asc (jstore j0) \<noteq> []"
  shows "get_all_asc (jstore j) = get_all_asc (jstore j0) @ get_from_seq_asc (fst (last (get_all_asc (jstore j0))) + 1) (jstore j)"
proof -
  let ?m = "fst (last (get_all_asc (jstore j0)))"
  from assms(3,4) obtain new where new: "events (jstore j) = events (jstore j0) @ new" "\<forall>r \<in> set new. next_seq j0 \<le> row_seq r"
    by (auto simp: grown_def)
  have m: "?m = get_max_seq (jstore j0)" using assms(5) by (simp add: get_max_seq_last)
  have "last (get_all_asc (jstore j0)) \<in> set (get_all_asc (jstore j0))" using assms(5) by (rule last_in_set)
  then have "?m \<in> row_seq ` set (events (jstore j0))" unfolding get_all_asc_eq by (auto simp: row_pair_def)
  then have mlt: "?m < next_seq j0" using assms(1) by (auto simp: log_inv_def)
  have old: "row_seq r \<le> ?m" if "r \<in> set (events (jstore j0))" for r using get_max_seq_ge [OF that] by (simp add: m)
  have "filter (\<lambda>r. ?m + 1 \<le> row_seq r) (events (jstore j0)) = []" using old by (force simp: filter_empty_conv)
  moreover have "filter (\<lambda>r. ?m + 1 \<le> row_seq r) new = new" using new(2) mlt by (force simp: filter_id_conv)
  ultimately have "get_from_seq_asc (?m + 1) (jstore j) = map row_pair (sort_key row_seq new)"
    by (simp add: get_from_seq_asc_def new(1) row_pair_def [abs_def])
  moreover have "sort_key row_seq (events (jstore j0) @ new) = sort_key row_seq (events (jstore j0)) @ sort_key row_seq new"
  proof (rule sort_key_inj_key_eq)
    have "distinct (map row_seq (events (jstore j)))" using assms(2) by (simp add: log_inv_def)
    then show "inj_on row_seq (set (events (jstore j0) @ new))" unfolding new(1) distinct_map by blast
    show "sorted (map row_seq (sort_key row_seq (events (jstore j0)) @ sort_key row_seq new))"
      using old new(2) mlt by (force simp: sorted_append)
  qed simp
  ultimately show ?thesis by (simp add: get_all_asc_eq new(1))
qed

lemma effect_stored:
  assumes "re_event x = re_event r" "re_layer x = present (re_layer r)"
  shows "effect x = effect r"
proof -
  have "record_key x = record_key r" using assms by (simp add: record_key_def present_def split: option.split)
  with assms(1) show ?thesis by (simp add: effect_def)
qed

lemma encode_compacted_spec:
  assumes "\<forall>rec bin. encode rec = Inr bin \<longrightarrow> dec bin = Inr (StoredEvent (received_of rec))" "encode_compacted encode seq rs = Inr rows"
  shows "map row_seq rows = [seq .. seq + int (length rs) - 1]" "length rows = length rs"
    "authored (decoded_log dec (map row_pair rows)) = authored rs"
    "map re_event (decoded_log dec (map row_pair rows)) = map re_event rs"
proof -
  have "map row_seq rows = [seq .. seq + int (length rs) - 1] \<and> length rows = length rs \<and>
    authored (decoded_log dec (map row_pair rows)) = authored rs \<and>
    map re_event (decoded_log dec (map row_pair rows)) = map re_event rs"
    using assms(2)
  proof (induction rs arbitrary: seq rows)
    case (Cons r rs)
    then obtain rec bin rows' where e: "encode_event_record encode seq (re_event r) (re_client r) (re_client_id r) (re_origin r) (re_layer r) = Inr (rec, bin)"
      "encode_compacted encode (seq + 1) rs = Inr rows'" "rows = store_row rec bin # rows'"
      by (auto split: sum.splits prod.splits)
    then have rec: "rec_seq rec = seq" "rec_event rec = re_event r" "rec_layer_key rec = present (re_layer r)" "encode rec = Inr bin"
      by (auto simp: encode_event_record_def Let_def split: sum.splits)
    define x where "x = (received_of rec)\<lparr>re_seq := seq\<rparr>"
    have "decoded_log dec (map row_pair rows) = x # decoded_log dec (map row_pair rows')"
      using assms(1) rec by (simp add: e(3) decoded_log_def row_pair_def store_row_def x_def)
    moreover have "effect x = effect r" "re_event x = re_event r"
      using rec by (auto intro!: effect_stored simp: x_def received_of_def)
    moreover have "[seq .. seq + int (length (r # rs)) - 1] = seq # [seq + 1 .. seq + 1 + int (length rs) - 1]"
      by (simp add: upto_rec1)
    ultimately show ?case using Cons.IH [OF e(2)] rec(1) by (simp add: e(3) store_row_def)
  qed simp
  then show "map row_seq rows = [seq .. seq + int (length rs) - 1]" "length rows = length rs"
    "authored (decoded_log dec (map row_pair rows)) = authored rs"
    "map re_event (decoded_log dec (map row_pair rows)) = map re_event rs" by blast+
qed

lemma get_all_asc_numbered:
  assumes "events st = rows" "map row_seq rows = [1 .. int (length rows)]"
  shows "get_all_asc st = map row_pair rows"
proof -
  have "sorted (map row_seq rows)" by (simp add: assms(2))
  then show ?thesis by (simp add: get_all_asc_eq assms(1) sort_key_id_if_sorted)
qed

section \<open>Properties\<close>


text \<open>
  A producer moves a prim twice, the second time while the compaction of the first record runs: one
  record remains, under sequence one. The table stands for the encoder and its decoder.
\<close>

definition demo_move :: "int \<Rightarrow> int \<Rightarrow> event_record" where
  "demo_move n x = \<lparr>rec_seq = n,
     rec_event = [(''k'', PStr K_SET_XFORM_TRS), (''prim'', PStr ''/A''), (''fields'', PList [PStr ''t'']), (''t'', PInt x)],
     rec_client = None, rec_client_id = None, rec_origin = None, rec_layer_key = None\<rparr>"

definition demo_table :: "(bytes \<times> event_record) list" where
  "demo_table = [([1], demo_move 1 5), ([2], demo_move 2 7), ([3], demo_move 1 7)]"

definition demo_encode :: encoder where
  "demo_encode rec = (case find (\<lambda>entry. snd entry = rec) demo_table of
     Some entry \<Rightarrow> Inr (fst entry) | None \<Rightarrow> Inl (ValueError ''unknown record''))"

definition demo_decode :: stored_decoder where
  "demo_decode bin = (case map_of demo_table bin of
     Some rec \<Rightarrow> Inr (StoredEvent (received_of rec)) | None \<Rightarrow> Inl (ValueError ''unknown bytes''))"

lemma demo_roundtrip:
  assumes "demo_encode rec = Inr bin"
  shows "demo_decode bin = Inr (StoredEvent (received_of rec))"
proof -
  from assms obtain entry where "find (\<lambda>entry. snd entry = rec) demo_table = Some entry" "bin = fst entry"
    by (auto simp: demo_encode_def split: option.splits)
  then have "entry \<in> set demo_table" "entry = (bin, rec)" by (cases entry, auto simp: find_Some_iff)+
  then have "(bin, rec) \<in> set demo_table" by simp
  moreover have "distinct (map fst demo_table)" by code_simp
  ultimately show ?thesis by (simp add: demo_decode_def)
qed

definition demo_before :: journal where
  "demo_before = journal_init (empty_store\<lparr>events := [store_row (demo_move 1 5) [1]]\<rparr>) False None"

definition demo_during :: journal where
  "demo_during = snd (journal_append_batch True [store_row (demo_move 2 7) [2]] [] [] True (demo_before\<lparr>next_seq := next_seq demo_before + 1\<rparr>))"

definition demo_job :: compaction_job where
  "demo_job = \<lparr>job_epoch = 0, job_max_seq = 1, job_compaction =
     compact_records (\<lambda>p ev. ev) (decoded_log demo_decode (get_all_asc (jstore demo_before)))\<rparr>"


section \<open>A capture that does not wait for the persistence thread\<close>

text \<open>
  In realtime mode a record may be queued while a later one is already stored. A capture taken then
  names the later sequence as its end, and the rows read in the exclusive window start behind it:
  the record that was queued is in neither.
\<close>

definition demo_queued :: journal where
  "demo_queued = (journal_init (empty_store\<lparr>events := [store_row (demo_move 2 7) [2]]\<rparr>) True None)\<lparr>
     next_seq := 3, running := True, jqueue := [Some [store_row (demo_move 1 5) [1]]]\<rparr>"

lemma capture_misses_queued:
  "log_inv demo_queued" "get_all_asc (jstore demo_queued) = [(2, [2])]"
  "get_all_asc (jstore (drain [True] demo_queued)) = [(1, [1]), (2, [2])]"
  "get_from_seq_asc (fst (last (get_all_asc (jstore demo_queued))) + 1) (jstore (drain [True] demo_queued)) = []"
  by code_simp+

end
