(* ===== verification/Child_Replay.thy ===== *)
theory Child_Replay
  imports Event_Store Compaction_Correct "HOL-Library.Product_Lexorder"
begin

text \<open>
  The edits replayed after a payload is loaded: \<open>child_replay_records\<close> of
  \<open>openusdconnect/server/compaction.py\<close>.

  Loading a payload recomposes the prims under it, so the server sends the edits below the payload
  again, reduced and with creations before the edits that use them. The records are read with the
  range scan of the store; the decoder of a stored record is an argument. The theory shows that the
  reduction separates writes of one key by erasures, so that sorting a segment by tier is harmless,
  and that an ancestor's deletion has nothing before it, so that leaving it out is harmless.
\<close>

section \<open>The replay\<close>

definition CHILD_REPLAY_KINDS :: "string list" where
  "CHILD_REPLAY_KINDS = [K_ENSURE_PRIM, K_ENSURE_XFORM_OPS, K_SET_XFORM_TRS, K_SET_VISIBILITY,
     K_SET_MATERIAL_BINDING, K_SET_CONNECTABLE_INPUT, K_SET_CONNECTABLE_CONNECTION,
     K_DELETE_PRIM, K_RENAME_PRIM, K_ERASE_TIME_SAMPLES, K_SET_SDF_SPEC_FIELDS]"

definition rstrip_slash :: "string \<Rightarrow> string" where
  "rstrip_slash p = rev (dropWhile (\<lambda>c. c = CHR ''/'') (rev p))"

text \<open>\<open>heapq.merge\<close> of two streams by sequence number; the first stream wins ties.\<close>

fun merge_by_seq :: "received_event list \<Rightarrow> received_event list \<Rightarrow> received_event list" where
  "merge_by_seq [] ys = ys"
| "merge_by_seq xs [] = xs"
| "merge_by_seq (x # xs) (y # ys) =
     (if re_seq y < re_seq x then y # merge_by_seq (x # xs) ys else x # merge_by_seq xs (y # ys))"

definition replay_barrier :: "event \<Rightarrow> bool" where
  "replay_barrier ev \<longleftrightarrow> ev_kind ev \<in> {K_DELETE_PRIM, K_RENAME_PRIM} \<or> is_sample_history_barrier ev"

definition flush_segment :: "received_event list \<Rightarrow> received_event list" where
  "flush_segment segment = sort_key (\<lambda>r. (event_apply_tier (ev_kind (re_event r)), ev_prim (re_event r))) segment"

fun order_children :: "string \<Rightarrow> received_event list \<Rightarrow> received_event list \<Rightarrow> received_event list" where
  "order_children pre segment [] = flush_segment segment"
| "order_children pre segment (r # rs) =
     (let under = prefix pre (ev_prim (re_event r))
      in if replay_barrier (re_event r)
         then flush_segment segment @ (if under then [r] else []) @ order_children pre [] rs
         else order_children pre (if under then segment @ [r] else segment) rs)"

definition child_replay_records ::
  "(bytes \<Rightarrow> received_event res) \<Rightarrow> (event \<Rightarrow> event \<Rightarrow> event) \<Rightarrow> store \<Rightarrow> string \<Rightarrow> received_event list res" where
  "child_replay_records dec merge_spec st prim_path =
     (let pre = rstrip_slash prim_path @ ''/''
      in case map_res dec (get_by_prim_prefix pre CHILD_REPLAY_KINDS st) of
           Inl e \<Rightarrow> Inl e
         | Inr descendants \<Rightarrow>
             (case map_res dec (get_by_prim_prefix ''/'' [K_DELETE_PRIM, K_RENAME_PRIM] st) of
                Inl e \<Rightarrow> Inl e
              | Inr lifecycle \<Rightarrow>
                  let ancestors = filter (\<lambda>r. prim_path = ev_prim (re_event r) \<or>
                        prefix (rstrip_slash (ev_prim (re_event r)) @ ''/'') prim_path) lifecycle;
                      c = fold (add_decoded_record merge_spec) (merge_by_seq descendants ancestors) new_compaction
                  in Inr (order_children pre [] (replay_records c))))"

section \<open>What separates records of one key\<close>

definition erasure :: "received_event \<Rightarrow> received_event \<Rightarrow> bool" where
  "erasure x e \<longleftrightarrow> ev_kind (re_event e) = K_ERASE_TIME_SAMPLES \<and> ev_prim (re_event e) = ev_prim (re_event x) \<and>
     mk_layer (record_key e) = mk_layer (record_key x)"

definition removed_by :: "received_event \<Rightarrow> received_event \<Rightarrow> bool" where
  "removed_by d x \<longleftrightarrow> ev_kind (re_event d) = K_DELETE_PRIM \<and> mk_layer (record_key x) = mk_layer (record_key d) \<and>
     in_subtree (ev_prim (re_event d)) (ev_prim (re_event x))"

text \<open>
  A preserved value is followed by an erasure of its prim, two records of one key have one between
  them, and nothing a deletion removes stands before it.
\<close>

definition sep :: "received_event set \<Rightarrow> received_event set \<Rightarrow> bool" where
  "sep pinned R \<longleftrightarrow>
     (\<forall>x \<in> pinned. \<not> destructive (record_key x) \<longrightarrow> (\<exists>e \<in> R. erasure x e \<and> re_seq x < re_seq e)) \<and>
     (\<forall>x \<in> R. \<forall>y \<in> R. record_key x = record_key y \<longrightarrow> \<not> destructive (record_key x) \<longrightarrow> re_seq x < re_seq y \<longrightarrow>
        (\<exists>e \<in> R. erasure x e \<and> re_seq x < re_seq e \<and> re_seq e < re_seq y)) \<and>
     (\<forall>d \<in> R. \<forall>x \<in> R. re_seq x < re_seq d \<longrightarrow> \<not> removed_by d x)"

lemma sepD:
  assumes "sep pinned R"
  shows "x \<in> pinned \<Longrightarrow> \<not> destructive (record_key x) \<Longrightarrow> \<exists>e \<in> R. erasure x e \<and> re_seq x < re_seq e"
    "x \<in> R \<Longrightarrow> y \<in> R \<Longrightarrow> record_key x = record_key y \<Longrightarrow> \<not> destructive (record_key x) \<Longrightarrow> re_seq x < re_seq y \<Longrightarrow>
       \<exists>e \<in> R. erasure x e \<and> re_seq x < re_seq e \<and> re_seq e < re_seq y"
    "d \<in> R \<Longrightarrow> x \<in> R \<Longrightarrow> re_seq x < re_seq d \<Longrightarrow> \<not> removed_by d x"
  using assms by (auto simp: sep_def)

lemma sep_subset:
  assumes "sep P R" "P' \<subseteq> P" "R' \<subseteq> R" "P' \<subseteq> R'" "\<And>x e. x \<in> R' \<Longrightarrow> e \<in> R \<Longrightarrow> erasure x e \<Longrightarrow> e \<in> R'"
  shows "sep P' R'"
  unfolding sep_def using assms(2-5) sepD [OF assms(1)] by (intro conjI ballI impI) (meson subsetD)+

lemma sep_insert:
  assumes "sep P R" "\<forall>y \<in> R. re_seq y < re_seq r"
    and "\<And>x. x \<in> R \<Longrightarrow> record_key x = record_key r \<Longrightarrow> \<not> destructive (record_key r) \<Longrightarrow> x \<in> P"
    and "\<And>x. x \<in> R \<Longrightarrow> \<not> removed_by r x"
  shows "sep P (insert r R)"
  unfolding sep_def
proof (intro conjI ballI impI)
  fix x assume "x \<in> P" "\<not> destructive (record_key x)"
  with sepD(1) [OF assms(1)] show "\<exists>e \<in> insert r R. erasure x e \<and> re_seq x < re_seq e" by blast
next
  fix x y assume h: "x \<in> insert r R" "y \<in> insert r R" "record_key x = record_key y" "\<not> destructive (record_key x)" "re_seq x < re_seq y"
  then have x: "x \<in> R" using assms(2) by fastforce
  show "\<exists>e \<in> insert r R. erasure x e \<and> re_seq x < re_seq e \<and> re_seq e < re_seq y"
  proof (cases "y = r")
    case True
    with h x assms(3) have "x \<in> P" by simp
    with sepD(1) [OF assms(1) this h(4)] assms(2) True show ?thesis by blast
  next
    case False
    with h(2) sepD(2) [OF assms(1) x _ h(3-5)] show ?thesis by blast
  qed
next
  fix d x assume h: "d \<in> insert r R" "x \<in> insert r R" "re_seq x < re_seq d"
  then have "x \<in> R" using assms(2) by fastforce
  with h sepD(3) [OF assms(1)] assms(4) show "\<not> removed_by d x" by blast
qed

lemma sep_pin:
  assumes "sep P R" "e \<in> R" "\<And>x. x \<in> P' \<Longrightarrow> x \<notin> P \<Longrightarrow> \<not> destructive (record_key x) \<Longrightarrow> erasure x e \<and> re_seq x < re_seq e"
  shows "sep P' R"
proof -
  have "\<exists>e \<in> R. erasure x e \<and> re_seq x < re_seq e" if "x \<in> P'" "\<not> destructive (record_key x)" for x
    using assms(2,3) that sepD(1) [OF assms(1), of x] by blast
  then show ?thesis using assms(1) by (simp add: sep_def)
qed

text \<open>A record is replaced by another one of its key and place.\<close>

lemma sep_replace:
  assumes "sep P (insert p R)" "record_key q = record_key p" "re_seq q = re_seq p" "\<not> destructive (record_key p)" "p \<notin> P"
  shows "sep P (insert q R)"
proof -
  have eq: "ev_prim (re_event q) = ev_prim (re_event p)" "ev_kind (re_event q) = ev_kind (re_event p)"
    using assms(2) record_key_sel by metis+
  have ne: "\<not> erasure x p" "\<not> erasure x q" "\<not> removed_by p x" "\<not> removed_by q x" for x
    using assms(4) eq by (auto simp: erasure_def removed_by_def destructive_def)
  have cong: "erasure q e = erasure p e" "removed_by d q = removed_by d p" for e d
    using assms(2) eq by (simp_all add: erasure_def removed_by_def)
  show ?thesis using assms(1-3) unfolding sep_def by (simp add: ne cong)
qed

section \<open>Reduction keeps records separated\<close>

definition pinned :: "compaction \<Rightarrow> received_event set" where
  "pinned c = set (map snd (lc_preserved c))"

definition separated :: "compaction \<Rightarrow> bool" where
  "separated c \<longleftrightarrow> sep (pinned c) (set (records c))"

lemma records_set: "set (records c) = pinned c \<union> set (map snd (lc_pending c))"
  by (auto simp: records_def entries_def pinned_def)

lemma pending_not_erasure:
  assumes "comp_inv c" "(k, p) \<in> set (lc_pending c)"
  shows "record_key p = k" "\<not> erasure x p"
proof -
  have "(k, p) \<in> set (entries c)" using assms(2) by (simp add: entries_def)
  then show k: "record_key p = k" using comp_invD(2) [OF assms(1)] by fastforce
  have "mk_kind k \<noteq> K_ERASE_TIME_SAMPLES" using comp_invD(5) [OF assms(1,2)] by (simp add: movable_def)
  with k show "\<not> erasure x p" by (auto simp: erasure_def)
qed

lemma key_pinned:
  assumes "comp_inv c" "map_of (lc_pending c) k = None" "x \<in> set (records c)" "record_key x = k"
  shows "x \<in> pinned c"
proof (rule ccontr)
  assume "x \<notin> pinned c"
  with assms(3) obtain k' where e: "(k', x) \<in> set (lc_pending c)" by (auto simp: records_set)
  with pending_not_erasure(1) [OF assms(1) e] assms(2,4) show False by (force simp: map_of_eq_None_iff)
qed

lemma preserve_pinned:
  "x \<in> pinned (fold preserve ks c) \<Longrightarrow> x \<notin> pinned c \<Longrightarrow> \<exists>k \<in> set ks. (k, x) \<in> set (lc_pending c)"
proof (induction ks arbitrary: c)
  case (Cons k ks)
  show ?case
  proof (cases "x \<in> pinned (preserve k c)")
    case True
    with Cons.prems(2) have "map_of (lc_pending c) k = Some x"
      by (auto simp: preserve_def pinned_def split: option.splits)
    then show ?thesis by (auto dest: map_of_SomeD)
  next
    case False
    with Cons.IH [of "preserve k c"] Cons.prems(1) show ?thesis by (auto simp: AList.delete_eq)
  qed
qed simp

text \<open>Typed records repin values only for an erasure, and then those of its prim and layer.\<close>

lemma sample_order_pinned:
  assumes "comp_inv c" "typed r" "d = preserve_sample_order (record_key r) (re_event r) c"
  shows "ev_kind (re_event r) \<noteq> K_ERASE_TIME_SAMPLES \<Longrightarrow> d = c"
    "x \<in> pinned d \<Longrightarrow> x \<notin> pinned c \<Longrightarrow> erasure x r \<and> x \<in> set (records c)"
proof -
  have none: "map_of (lc_pending c) k = None" if "mk_kind k = K_SET_SDF_SPEC_FIELDS" for k
  proof (rule ccontr)
    assume "map_of (lc_pending c) k \<noteq> None"
    then obtain p where "(k, p) \<in> set (entries c)" by (auto simp: entries_def dest: map_of_SomeD)
    from comp_invD(2,3) [OF assms(1) this] that show False by (simp add: typed_def typed_event_def Let_def)
  qed
  then have same: "fold (preserve_samples (record_key r)) ns c = c" for ns
    by (induction ns) (simp_all add: preserve_samples_def Let_def)
  have barrier: "is_sample_history_barrier (re_event r) = (ev_kind (re_event r) = K_ERASE_TIME_SAMPLES)"
    using assms(2) by (auto simp: is_sample_history_barrier_def typed_def typed_event_def Let_def)
  show eq: "ev_kind (re_event r) \<noteq> K_ERASE_TIME_SAMPLES \<Longrightarrow> d = c"
    by (simp add: assms(3) preserve_sample_order_def Let_def same barrier)
  assume x: "x \<in> pinned d" "x \<notin> pinned c"
  with eq have kind: "ev_kind (re_event r) = K_ERASE_TIME_SAMPLES" by blast
  with x(1) obtain k where k: "(k, x) \<in> set (lc_pending c)" "mk_prim k = ev_prim (re_event r)" "mk_layer k = mk_layer (record_key r)"
    by (auto simp: assms(3) preserve_sample_order_def Let_def same barrier dest!: preserve_pinned [OF _ x(2)])
  with pending_not_erasure(1) [OF assms(1) k(1)] kind show "erasure x r \<and> x \<in> set (records c)"
    by (force simp: erasure_def records_set)
qed

lemma remove_pending_sep:
  assumes "comp_inv c" "separated c" "map_of (lc_pending c) k = Some p" "d = c\<lparr>lc_pending := AList.delete k (lc_pending c)\<rparr>"
  shows "comp_inv d" "separated d" "set (records c) = insert p (set (records d))" "p \<notin> pinned c" "pinned d = pinned c"
proof -
  obtain as bs where "comp_inv d" and me: "mset (entries c) = add_mset (k, p) (mset (entries d))"
    by (rule remove_pending [OF assms(1,3,4)])
  then show "comp_inv d" by blast
  show pin: "pinned d = pinned c" by (simp add: pinned_def assms(4))
  have mr: "mset (records c) = add_mset p (mset (records d))"
    using arg_cong [OF me, of "image_mset snd"] by (simp add: records_def)
  then show rec: "set (records c) = insert p (set (records d))" by (metis set_mset_add_mset_insert set_mset_mset)
  have "mset (map re_seq (records c)) = mset (map re_seq (p # records d))" using mr by simp
  then have "p \<notin> set (records d)" using comp_invD(4) [OF assms(1)] mset_eq_imp_distinct_iff by fastforce
  then show "p \<notin> pinned c" by (simp add: records_set pin)
  have kp: "(k, p) \<in> set (lc_pending c)" using assms(3) by (rule map_of_SomeD)
  show "separated d" unfolding separated_def
    by (rule sep_subset [OF assms(2) [unfolded separated_def]])
      (use rec pin pending_not_erasure(2) [OF assms(1) kp] in \<open>auto simp: records_set\<close>)
qed

lemma separated_update:
  assumes "wf_dict (lc_pending c)" "d = c\<lparr>lc_pending := AList.update k r (lc_pending c)\<rparr>" "map_of (lc_pending c) k = None"
  shows "set (records d) = insert r (set (records c))" "pinned d = pinned c"
proof -
  show "pinned d = pinned c" by (simp add: assms(2) pinned_def)
  with fresh_update(3) [OF assms(3,2,1)] show "set (records d) = insert r (set (records c))" by (simp add: records_set)
qed

lemma separated_insert:
  assumes "comp_inv c" "separated c" "map_of (lc_pending c) k = None" "record_key r = k" "\<not> destructive k"
    and "\<forall>y \<in> set (records c). re_seq y < re_seq r" "d = c\<lparr>lc_pending := AList.update k r (lc_pending c)\<rparr>"
  shows "separated d"
proof -
  have "\<not> removed_by r x" for x using assms(4,5) by (auto simp: removed_by_def destructive_def)
  with sep_insert [OF assms(2) [unfolded separated_def] assms(6)] key_pinned [OF assms(1,3)] assms(4)
  show ?thesis unfolding separated_def separated_update [OF comp_invD(1) [OF assms(1)] assms(7,3)] by blast
qed

lemma erase_separated:
  assumes "comp_inv c" "separated c" "typed r" "\<forall>y \<in> set (records c). re_seq y < re_seq r" "ev_kind (re_event r) = K_ERASE_TIME_SAMPLES"
    and "c1 = preserve_sample_order (record_key r) (re_event r) c" "d = c1\<lparr>lc_preserved := lc_preserved c1 @ [(record_key r, r)]\<rparr>"
  shows "separated d"
proof -
  have "set (records c1) = set (records c)"
    using sample_order_typed(1) [OF assms(1,3,6)] records_mset [of c1 c] by (metis repins_def set_mset_mset)
  then have rec: "set (records d) = insert r (set (records c))" and pin: "pinned d = insert r (pinned c1)"
    by (auto simp: records_set pinned_def assms(7))
  have r: "destructive (record_key r)" "\<not> removed_by r x" for x using assms(5) by (simp_all add: destructive_def removed_by_def)
  have "sep (pinned c) (insert r (set (records c)))"
    using sep_insert [OF assms(2) [unfolded separated_def] assms(4)] r by blast
  then show ?thesis unfolding separated_def rec
  proof (rule sep_pin)
    fix x assume x: "x \<in> pinned d" "x \<notin> pinned c" "\<not> destructive (record_key x)"
    with r(1) pin have "x \<in> pinned c1" by auto
    from sample_order_pinned(2) [OF assms(1,3,6) this x(2)] assms(4) show "erasure x r \<and> re_seq x < re_seq r" by blast
  qed simp
qed

lemma delete_separated:
  assumes "comp_inv c" "separated c" "typed r" "\<forall>y \<in> set (records c). re_seq y < re_seq r" "ev_kind (re_event r) = K_DELETE_PRIM"
    and "c2 = discard_replaced (record_key r) c" "d = c2\<lparr>lc_pending := AList.update (record_key r) r (lc_pending c2)\<rparr>"
  shows "separated d"
proof -
  have e: "record_key (snd e) = fst e" if "e \<in> set (entries c)" for e using comp_invD(2) [OF assms(1) that] by simp
  have c2: "c2 = discard (\<lambda>k. mk_layer k = mk_layer (record_key r) \<and> in_subtree (ev_prim (re_event r)) (mk_prim k)) c"
    unfolding assms(6) discard_replaced_def in_subtree_def by (simp add: assms(5))
  have "snd ` {e \<in> set (entries c). \<not> removed_by r (snd e)} = {x \<in> set (records c). \<not> removed_by r x}" by (auto simp: records_def)
  moreover have "set (entries c2) = {e \<in> set (entries c). \<not> removed_by r (snd e)}"
    using e assms(5) by (fastforce simp: c2 discard_alt entries_def removed_by_def)
  ultimately have rec: "set (records c2) = {x \<in> set (records c). \<not> removed_by r x}" by (simp add: records_def)
  have pin: "pinned c2 \<subseteq> pinned c" by (auto simp: pinned_def c2 discard_alt)
  have sub: "pinned c2 \<subseteq> set (records c2)" by (simp add: records_set)
  have "separated c2" unfolding separated_def
    by (rule sep_subset [OF assms(2) [unfolded separated_def] pin _ sub]) (auto simp: rec erasure_def removed_by_def)
  have "map_of (lc_pending c2) (record_key r) = None" by (rule add_delete(2) [OF assms(1,3-5,6,7)])
  note up = separated_update [OF _ assms(7) this]
  have wf: "wf_dict (lc_pending c2)" using comp_invD(1) [OF assms(1)] by (simp add: c2 discard_alt wf_dict_filter)
  have "sep (pinned c2) (insert r (set (records c2)))"
  proof (rule sep_insert [OF \<open>separated c2\<close> [unfolded separated_def]])
    show "\<forall>y \<in> set (records c2). re_seq y < re_seq r" using assms(4) by (simp add: rec)
    have "destructive (record_key r)" by (simp add: destructive_def assms(5))
    then show "x \<in> pinned c2" if "\<not> destructive (record_key r)" for x using that by blast
  qed (simp add: rec)
  then show ?thesis by (simp add: separated_def up [OF wf])
qed

lemma merge_separated:
  assumes "comp_inv c" "separated c" "typed r" "\<not> destructive (record_key r)" "\<forall>y \<in> set (records c). re_seq y < re_seq r"
    and "map_of (lc_pending c) (record_key r) = Some p"
    and "r1 = r\<lparr>re_event := merge_payload ms (Some (re_event p)) (re_event r)\<rparr>"
    and "r2 = (if ev_kind (re_event r) = K_ENSURE_PRIM then r1\<lparr>re_seq := re_seq p\<rparr> else r1)"
    and "d = c\<lparr>lc_pending := AList.update (record_key r) r2 (lc_pending c)\<rparr>"
  shows "separated d"
proof -
  let ?k = "record_key r"
  define c' where "c' = c\<lparr>lc_pending := AList.delete ?k (lc_pending c)\<rparr>"
  note V = remove_pending_sep [OF assms(1,2,6) c'_def]
  have kp: "(?k, p) \<in> set (entries c)" using assms(6) by (auto simp: entries_def dest: map_of_SomeD)
  from comp_invD(2,3) [OF assms(1) this] have p: "record_key p = ?k" "typed p" by simp_all
  have key: "record_key r2 = ?k" using effect_merged(3) [OF p(2) assms(3) p(1) assms(4)] by (simp add: assms(7,8))
  have "set (lc_pending d) = insert (?k, r2) (set (lc_pending c'))"
    using arg_cong [OF update_mset [OF comp_invD(1) [OF assms(1)], of ?k r2], of set_mset] by (simp add: assms(9) c'_def)
  then have rec: "set (records d) = insert r2 (set (records c'))" and pin: "pinned d = pinned c"
    using V(5) by (simp_all add: records_set pinned_def assms(9))
  show ?thesis
  proof (cases "ev_kind (re_event r) = K_ENSURE_PRIM")
    case True
    then have "re_seq r2 = re_seq p" by (simp add: assms(8))
    with sep_replace [of "pinned c" p "set (records c')" r2] assms(2,4) V(3,4) key p(1) show ?thesis
      by (simp add: separated_def rec pin)
  next
    case False
    then have seq: "\<forall>y \<in> set (records c'). re_seq y < re_seq r2" using assms(5,7,8) V(3) by simp
    have none: "map_of (lc_pending c') ?k = None" by (simp add: c'_def)
    have "separated (c'\<lparr>lc_pending := AList.update ?k r2 (lc_pending c')\<rparr>)"
      by (rule separated_insert [OF V(1,2) none key assms(4) seq refl])
    with separated_update [OF comp_invD(1) [OF V(1)] refl none] show ?thesis
      by (simp add: separated_def rec pin V(5))
  qed
qed

lemma add_separated:
  assumes "comp_inv c" "separated c" "typed r" "\<forall>y \<in> set (records c). re_seq y < re_seq r"
  shows "separated (add_decoded_record ms r c)"
proof -
  let ?k = "record_key r" and ?ev = "re_event r"
  define c1 where "c1 = preserve_sample_order ?k ?ev c"
  define c2 where "c2 = discard_replaced ?k c1"
  have "ev_kind ?ev \<notin> {K_SET_SUBLAYERS, K_SET_SDF_SPEC_FIELDS}" using assms(3) by (auto simp: typed_def typed_event_def Let_def)
  note source = add_source [OF this c1_def c2_def, where ms = ms]
  note same = sample_order_pinned(1) [OF assms(1,3) c1_def]
  have exact: "is_exact_deletion ?ev = (ev_kind ?ev = K_ERASE_TIME_SAMPLES)"
    using assms(3) by (auto simp: is_exact_deletion_def typed_def typed_event_def Let_def)
  consider (erase) "ev_kind ?ev = K_ERASE_TIME_SAMPLES" | (delete) "ev_kind ?ev = K_DELETE_PRIM" | (other) "\<not> destructive ?k"
    by (auto simp: destructive_def)
  then show ?thesis
  proof cases
    case erase
    then show ?thesis using erase_separated [OF assms erase c1_def refl] by (simp add: source exact)
  next
    case delete
    then have c1: "c1 = c" using same by simp
    have none: "map_of (lc_pending c2) ?k = None" by (rule add_delete(2) [OF assms(1,3,4) delete c2_def [unfolded c1] refl])
    show ?thesis using delete_separated [OF assms delete c2_def [unfolded c1] refl]
      by (simp add: source exact delete none merge_payload_def)
  next
    case other
    then have c1: "c1 = c" using same by (simp add: destructive_def)
    note pop = pop_payload [OF assms(1,3) other c2_def [unfolded c1]]
    have later: "\<forall>y \<in> set (records c2). re_seq y < re_seq r" using assms(4) pop(3) by blast
    have "c2 = c \<or> c2 = c\<lparr>lc_pending := AList.delete (popped_key ?k) (lc_pending c)\<rparr>"
      using other assms(3) by (auto simp: c2_def c1 discard_replaced_def Let_def popped_key_def destructive_def typed_def typed_event_def)
    then have sep: "separated c2"
    proof
      assume c2: "c2 = c\<lparr>lc_pending := AList.delete (popped_key ?k) (lc_pending c)\<rparr>"
      show ?thesis
      proof (cases "map_of (lc_pending c) (popped_key ?k)")
        case None
        with assms(2) show ?thesis by (simp add: c2 delete_id map_of_eq_None_iff)
      next
        case (Some p)
        from remove_pending_sep(2) [OF assms(1,2) Some c2] show ?thesis .
      qed
    qed (use assms(2) in simp)
    have ex: "\<not> is_exact_deletion ?ev" using other by (simp add: exact destructive_def)
    show ?thesis
    proof (cases "map_of (lc_pending c2) ?k")
      case None
      let ?r1 = "r\<lparr>re_event := merge_payload ms None ?ev\<rparr>"
      have "record_key ?r1 = ?k" by (rule effect_first(3) [OF assms(3) other refl])
      from separated_insert [OF pop(1) sep None this other _ refl] later ex None show ?thesis by (simp add: source)
    next
      case (Some p)
      from merge_separated [OF pop(1) sep assms(3) other later Some refl refl refl, of ms] sep ex Some show ?thesis
        by (auto simp: source Let_def)
    qed
  qed
qed

text \<open>Every key of the reduction is the key of a record it read.\<close>

lemma add_keys:
  assumes "comp_inv c" "typed r"
  shows "fst ` set (entries (add_decoded_record ms r c)) \<subseteq> insert (record_key r) (fst ` set (entries c))"
proof -
  let ?k = "record_key r"
  define c1 where "c1 = preserve_sample_order ?k (re_event r) c"
  define c2 where "c2 = discard_replaced ?k c1"
  have "ev_kind (re_event r) \<notin> {K_SET_SUBLAYERS, K_SET_SDF_SPEC_FIELDS}" using assms(2) by (auto simp: typed_def typed_event_def Let_def)
  note source = add_source [OF this c1_def c2_def, where ms = ms]
  have c1: "set (entries c1) = set (entries c)"
    using sample_order_typed(1) [OF assms c1_def] by (metis repins_def set_mset_mset)
  have c2: "set (entries c2) \<subseteq> set (entries c)"
    unfolding c1 [symmetric] by (auto simp: c2_def discard_replaced_def Let_def discard_alt entries_def AList.delete_eq split: if_splits)
  have "fst ` set (entries (c2\<lparr>lc_pending := AList.update ?k x (lc_pending c2)\<rparr>)) \<subseteq> insert ?k (fst ` set (entries c))" for x
    using c2 by (auto simp: entries_def image_Un dom_update)
  moreover have "fst ` set (entries (c1\<lparr>lc_preserved := lc_preserved c1 @ [(?k, r)]\<rparr>)) \<subseteq> insert ?k (fst ` set (entries c))"
    unfolding c1 [symmetric] by (auto simp: entries_def)
  ultimately show ?thesis using c2 by (auto simp: source)
qed

lemma compact_separated:
  assumes "sorted_wrt (<) (map re_seq rs)" "list_all typed rs"
  shows "comp_inv (compact_records ms rs)" "separated (compact_records ms rs)"
    "x \<in> set (records (compact_records ms rs)) \<Longrightarrow> record_key x \<in> record_key ` set rs"
proof -
  have "comp_inv (compact_records ms rs) \<and> separated (compact_records ms rs) \<and>
    fst ` set (entries (compact_records ms rs)) \<subseteq> record_key ` set rs \<and>
    (\<forall>y \<in> set (records (compact_records ms rs)). \<exists>x \<in> set rs. re_seq y \<le> re_seq x)"
    using assms
  proof (induction rs rule: rev_induct)
    case Nil
    then show ?case
      using new_compaction_inv
      by (simp add: compact_records_def separated_def sep_def pinned_def new_compaction_def entries_def records_def)
  next
    case (snoc r rs)
    let ?c = "compact_records ms rs"
    from snoc have IH: "comp_inv ?c" "separated ?c" "fst ` set (entries ?c) \<subseteq> record_key ` set rs"
      "\<forall>y \<in> set (records ?c). \<exists>x \<in> set rs. re_seq y \<le> re_seq x" and r: "typed r" "\<forall>x \<in> set rs. re_seq x < re_seq r"
      by (auto simp: sorted_wrt_append)
    then have later: "\<forall>y \<in> set (records ?c). re_seq y < re_seq r" by (meson order_le_less_trans)
    have "compact_records ms (rs @ [r]) = add_decoded_record ms r ?c" by (simp add: compact_records_def)
    with add_typed [OF IH(1) r(1) later, of ms] add_separated [OF IH(1,2) r(1) later, of ms] add_keys [OF IH(1) r(1), of ms] IH(3)
    show ?case by (auto simp: adds_def)
  qed
  then show inv: "comp_inv (compact_records ms rs)" "separated (compact_records ms rs)"
    and "x \<in> set (records (compact_records ms rs)) \<Longrightarrow> record_key x \<in> record_key ` set rs"
    by (auto simp: records_def dest!: comp_invD(2))
qed

section \<open>Sorting a segment\<close>

definition apart :: "received_event list \<Rightarrow> bool" where
  "apart xs \<longleftrightarrow> (\<forall>x \<in> set xs. \<forall>y \<in> set xs. x \<noteq> y \<longrightarrow> dom (effect x) \<inter> dom (effect y) = {})"

lemma authored_apart:
  assumes "apart xs"
  shows "authored xs pos = Some v \<longleftrightarrow> (\<exists>x \<in> set xs. effect x pos = Some v)"
  using assms
proof (induction xs arbitrary: v)
  case (Cons x xs)
  then have IH: "authored xs pos = Some w \<longleftrightarrow> (\<exists>y \<in> set xs. effect y pos = Some w)" for w by (simp add: apart_def)
  have "w = v" if "effect x pos = Some v" "authored xs pos = Some w" for w
  proof -
    from IH that(2) obtain y where y: "y \<in> set xs" "effect y pos = Some w" by blast
    show ?thesis
    proof (cases "y = x")
      case False
      with y(1) Cons.prems have "dom (effect y) \<inter> dom (effect x) = {}" by (auto simp: apart_def)
      with y(2) that(1) show ?thesis by blast
    qed (use y(2) that(1) in simp)
  qed
  then show ?case using IH by (auto simp: map_add_Some_iff) (metis not_None_eq)
qed simp

lemma flush_authored:
  assumes "apart seg"
  shows "authored (flush_segment seg) = authored seg"
proof
  fix pos
  have "apart (flush_segment seg)" using assms by (simp add: apart_def flush_segment_def)
  from authored_apart [OF this] authored_apart [OF assms] show "authored (flush_segment seg) pos = authored seg pos"
    by (metis flush_segment_def not_Some_eq set_sort)
qed

text \<open>Non-barriers without a barrier between them do not meet.\<close>

definition meets_only_across :: "received_event set \<Rightarrow> received_event set \<Rightarrow> bool" where
  "meets_only_across B R \<longleftrightarrow> (\<forall>x \<in> R. \<forall>y \<in> R. \<not> replay_barrier (re_event x) \<longrightarrow> \<not> replay_barrier (re_event y) \<longrightarrow>
     re_seq x < re_seq y \<longrightarrow> dom (effect x) \<inter> dom (effect y) \<noteq> {} \<longrightarrow>
     (\<exists>e \<in> B. replay_barrier (re_event e) \<and> re_seq x < re_seq e \<and> re_seq e < re_seq y))"

lemma meetsD:
  "meets_only_across B R \<Longrightarrow> x \<in> R \<Longrightarrow> y \<in> R \<Longrightarrow> \<not> replay_barrier (re_event x) \<Longrightarrow> \<not> replay_barrier (re_event y) \<Longrightarrow>
   re_seq x < re_seq y \<Longrightarrow> dom (effect x) \<inter> dom (effect y) \<noteq> {} \<Longrightarrow>
   \<exists>e \<in> B. replay_barrier (re_event e) \<and> re_seq x < re_seq e \<and> re_seq e < re_seq y"
  by (simp only: meets_only_across_def) blast

lemma meetsI:
  assumes "\<And>x y. x \<in> R \<Longrightarrow> y \<in> R \<Longrightarrow> \<not> replay_barrier (re_event x) \<Longrightarrow> \<not> replay_barrier (re_event y) \<Longrightarrow>
     re_seq x < re_seq y \<Longrightarrow> dom (effect x) \<inter> dom (effect y) \<noteq> {} \<Longrightarrow>
     \<exists>e \<in> B. replay_barrier (re_event e) \<and> re_seq x < re_seq e \<and> re_seq e < re_seq y"
  shows "meets_only_across B R"
  unfolding meets_only_across_def by (intro ballI impI) (rule assms)

lemma meets_apart:
  assumes "meets_only_across B R" "set seg \<subseteq> R" "\<forall>x \<in> set seg. \<not> replay_barrier (re_event x)"
    and "sorted_wrt (<) (map re_seq seg)" "\<forall>x \<in> set seg. \<forall>e \<in> B. re_seq x < re_seq e"
  shows "apart seg"
  unfolding apart_def
proof (intro ballI impI)
  fix x y assume h: "x \<in> set seg" "y \<in> set seg" "x \<noteq> y"
  have "inj_on re_seq (set seg)" using assms(4) by (simp add: strict_sorted_iff distinct_map)
  with h have "re_seq x < re_seq y \<or> re_seq y < re_seq x" by (metis inj_onD linorder_neqE)
  then show "dom (effect x) \<inter> dom (effect y) = {}"
  proof
    assume "re_seq x < re_seq y"
    with h assms show ?thesis unfolding meets_only_across_def by (meson order_less_asym subsetD)
  next
    assume "re_seq y < re_seq x"
    with h assms have "dom (effect y) \<inter> dom (effect x) = {}" unfolding meets_only_across_def by (meson order_less_asym subsetD)
    then show ?thesis by blast
  qed
qed

lemma order_children_authored:
  assumes "sorted_wrt (<) (map re_seq (seg @ rs))" "meets_only_across (set rs) (set (seg @ rs))"
    and "\<forall>x \<in> set seg. \<not> replay_barrier (re_event x)"
  shows "authored (order_children pre seg rs) = authored (seg @ filter (\<lambda>r. prefix pre (ev_prim (re_event r))) rs)"
  using assms
proof (induction rs arbitrary: seg)
  case Nil
  then have "apart seg" by (intro meets_apart [of "{}" "set seg"]) simp_all
  then show ?case by (simp add: flush_authored)
next
  case (Cons r rs)
  show ?case
  proof (cases "replay_barrier (re_event r)")
    case True
    have "apart seg" using Cons.prems by (intro meets_apart [of "set (r # rs)" "set (seg @ r # rs)"]) (auto simp: sorted_wrt_append)
    moreover have "meets_only_across (set rs) (set ([] @ rs))"
    proof (rule meetsI)
      fix x y assume h: "x \<in> set ([] @ rs)" "y \<in> set ([] @ rs)" "\<not> replay_barrier (re_event x)" "\<not> replay_barrier (re_event y)"
        "re_seq x < re_seq y" "dom (effect x) \<inter> dom (effect y) \<noteq> {}"
      then obtain e where e: "e \<in> set (r # rs)" "replay_barrier (re_event e)" "re_seq x < re_seq e" "re_seq e < re_seq y"
        using meetsD [OF Cons.prems(2) _ _ h(3-6)] by auto
      moreover have "re_seq r < re_seq x" using Cons.prems(1) h(1) by (simp add: sorted_wrt_append)
      ultimately show "\<exists>e \<in> set rs. replay_barrier (re_event e) \<and> re_seq x < re_seq e \<and> re_seq e < re_seq y"
        by (metis order_less_asym set_ConsD)
    qed
    with Cons.IH [of "[]"] Cons.prems(1)
    have "authored (order_children pre [] rs) = authored (filter (\<lambda>r. prefix pre (ev_prim (re_event r))) rs)"
      by (simp add: sorted_wrt_append)
    ultimately show ?thesis using True by (simp add: Let_def flush_authored)
  next
    case False
    let ?seg = "if prefix pre (ev_prim (re_event r)) then seg @ [r] else seg"
    have "meets_only_across (set rs) (set (?seg @ rs))"
      using Cons.prems(2) False unfolding meets_only_across_def by (auto split: if_splits)
    with Cons.IH [of ?seg] Cons.prems(1,3) False
    have "authored (order_children pre ?seg rs) = authored (?seg @ filter (\<lambda>r. prefix pre (ev_prim (re_event r))) rs)"
      by (auto simp: sorted_wrt_append)
    with False show ?thesis by (simp add: Let_def)
  qed
qed

section \<open>Leaving the deletions of ancestors out\<close>

text \<open>The opinion in force: a cleared one and one never written are the same.\<close>

definition current :: "received_event list \<Rightarrow> position \<Rightarrow> pyval option" where
  "current rs pos = (case authored rs pos of Some v \<Rightarrow> v | None \<Rightarrow> None)"

lemma current_snoc: "current (rs @ [x]) pos = (case effect x pos of Some v \<Rightarrow> v | None \<Rightarrow> current rs pos)"
  by (simp add: current_def map_add_def split: option.split)

lemma current_cleared: "\<forall>x \<in> set rs. effect x pos \<in> {None, Some None} \<Longrightarrow> current rs pos = None"
proof (induction rs rule: rev_induct)
  case (snoc x rs)
  then show ?case by (auto simp: current_snoc)
qed (simp add: current_def)

lemma current_drop:
  assumes "sorted_wrt (<) (map re_seq rs)"
    and "\<And>d. d \<in> set rs \<Longrightarrow> \<not> keep d \<Longrightarrow> effect d pos \<noteq> None \<Longrightarrow>
      effect d pos = Some None \<and> (\<forall>x \<in> set rs. re_seq x < re_seq d \<longrightarrow> effect x pos \<in> {None, Some None})"
  shows "current (filter keep rs) pos = current rs pos"
  using assms
proof (induction rs rule: rev_induct)
  case (snoc x rs)
  have IH: "current (filter keep rs) pos = current rs pos"
  proof (rule snoc.IH)
    show "sorted_wrt (<) (map re_seq rs)" using snoc.prems(1) by (simp add: sorted_wrt_append)
    show "effect d pos = Some None \<and> (\<forall>x \<in> set rs. re_seq x < re_seq d \<longrightarrow> effect x pos \<in> {None, Some None})"
      if "d \<in> set rs" "\<not> keep d" "effect d pos \<noteq> None" for d
      using snoc.prems(2) [OF _ that(2,3)] that(1) by simp
  qed
  show ?case
  proof (cases "keep x \<or> effect x pos = None")
    case True
    with IH show ?thesis by (auto simp: current_snoc split: option.split)
  next
    case False
    with snoc.prems(2) [of x] snoc.prems(1)
    have "effect x pos = Some None" "\<forall>y \<in> set rs. effect y pos \<in> {None, Some None}" by (simp_all add: sorted_wrt_append)
    with False IH show ?thesis using current_cleared [of rs] by (simp add: current_snoc)
  qed
qed simp

lemma authored_filter:
  assumes "\<And>x. x \<in> set rs \<Longrightarrow> \<not> keep x \<Longrightarrow> effect x pos = None"
  shows "authored (filter keep rs) pos = authored rs pos"
  using assms by (induction rs) (auto simp: map_add_def split: option.split)

lemma current_filter:
  "(\<And>x. x \<in> set rs \<Longrightarrow> \<not> keep x \<Longrightarrow> effect x pos = None) \<Longrightarrow> current (filter keep rs) pos = current rs pos"
  unfolding current_def by (subst authored_filter) simp_all

lemma effect_place:
  assumes "effect x (l, p, s) \<noteq> None"
  shows "mk_layer (record_key x) = l" "in_subtree (ev_prim (re_event x)) p"
    "ev_kind (re_event x) \<noteq> K_DELETE_PRIM \<Longrightarrow> ev_prim (re_event x) = p"
    "ev_kind (re_event x) = K_DELETE_PRIM \<Longrightarrow> effect x (l, p, s) = Some None"
  using assms by (auto simp: effect_def Let_def in_subtree_def split: if_splits)

lemma subtrees_nest:
  assumes "in_subtree a p" "in_subtree b p"
  shows "in_subtree a b \<or> in_subtree b a"
proof -
  have "prefix (a @ ''/'') (p @ ''/'')" "prefix (b @ ''/'') (p @ ''/'')" using assms by (auto simp: in_subtree_def)
  then have "prefix (a @ ''/'') (b @ ''/'') \<or> prefix (b @ ''/'') (a @ ''/'')" by (rule prefix_same_cases)
  then show ?thesis by (auto simp: in_subtree_def)
qed

lemma before_deletion:
  assumes "sep P R" "d \<in> R" "x \<in> R" "re_seq x < re_seq d" "ev_kind (re_event d) = K_DELETE_PRIM" "effect d (l, p, s) \<noteq> None"
  shows "effect x (l, p, s) \<in> {None, Some None}"
proof (rule ccontr)
  assume h: "effect x (l, p, s) \<notin> {None, Some None}"
  note d = effect_place [OF assms(6)]
  have x: "effect x (l, p, s) \<noteq> None" using h by simp
  note x = effect_place [OF x]
  have "ev_prim (re_event x) = p" using x(3,4) h by fastforce
  with x(1) d(1,2) assms(5) have "removed_by d x" by (simp add: removed_by_def)
  with sepD(3) [OF assms(1-4)] show False by blast
qed

section \<open>The records read\<close>

definition stored_log :: "(bytes \<Rightarrow> received_event res) \<Rightarrow> store \<Rightarrow> received_event list" where
  "stored_log dec st = concat (map (\<lambda>r. case dec (row_bin r) of Inr x \<Rightarrow> [x] | Inl e \<Rightarrow> [])
     (filter (\<lambda>r. row_prim r \<noteq> None) (sort_key row_seq (events st))))"

text \<open>A row with a prim path holds a record with that path, kind and sequence number.\<close>

definition row_faithful :: "(bytes \<Rightarrow> received_event res) \<Rightarrow> event_row \<Rightarrow> bool" where
  "row_faithful dec r = (case row_prim r of None \<Rightarrow> True | Some p \<Rightarrow>
     (case dec (row_bin r) of Inl e \<Rightarrow> False
      | Inr x \<Rightarrow> re_seq x = row_seq r \<and> ev_prim (re_event x) = p \<and> row_kind r = Some (ev_kind (re_event x)) \<and>
          prefix ''/'' p \<and> list_all (\<lambda>c. of_char c < (128 :: nat)) p))"

lemma rows_decoded:
  assumes "list_all (row_faithful dec) rows"
  shows "map_res dec (map row_bin (filter (\<lambda>r. \<exists>rest k. row_prim r = Some (pre @ rest) \<and> row_kind r = Some k \<and> k \<in> set kinds) rows)) =
    Inr (filter (\<lambda>x. prefix pre (ev_prim (re_event x)) \<and> ev_kind (re_event x) \<in> set kinds)
      (concat (map (\<lambda>r. case dec (row_bin r) of Inr x \<Rightarrow> [x] | Inl e \<Rightarrow> []) (filter (\<lambda>r. row_prim r \<noteq> None) rows))))"
  using assms
proof (induction rows)
  case (Cons r rows)
  show ?case
  proof (cases "row_prim r")
    case None
    with Cons show ?thesis by simp
  next
    case (Some p)
    with Cons.prems obtain x where x: "dec (row_bin r) = Inr x" "ev_prim (re_event x) = p" "row_kind r = Some (ev_kind (re_event x))"
      by (auto simp: row_faithful_def split: sum.splits)
    with Cons Some show ?thesis by (auto simp: prefix_def)
  qed
qed simp

lemma stored_log_facts:
  assumes "store_inv st" "\<forall>r \<in> set (events st). row_faithful dec r"
  shows "sorted_wrt (<) (map re_seq (stored_log dec st))"
    "x \<in> set (stored_log dec st) \<Longrightarrow> prefix ''/'' (ev_prim (re_event x))"
proof -
  let ?rows = "filter (\<lambda>r. row_prim r \<noteq> None) (sort_key row_seq (events st))"
  have rows: "list_all (row_faithful dec) ?rows" using assms(2) by (auto simp: list_all_iff)
  have "map re_seq (concat (map (\<lambda>r. case dec (row_bin r) of Inr x \<Rightarrow> [x] | Inl e \<Rightarrow> []) rs)) = map row_seq rs"
    if "list_all (\<lambda>r. row_faithful dec r \<and> row_prim r \<noteq> None) rs" for rs
    using that by (induction rs) (auto simp: row_faithful_def split: sum.splits)
  then have "map re_seq (stored_log dec st) = map row_seq ?rows"
    using rows by (simp add: stored_log_def list_all_iff)
  moreover have "sorted_wrt (<) (map row_seq (sort_key row_seq (events st)))"
    using assms(1) by (simp add: store_inv_def strict_sorted_iff distinct_map)
  ultimately show "sorted_wrt (<) (map re_seq (stored_log dec st))" by (simp add: sorted_wrt_map sorted_wrt_filter)
  show "x \<in> set (stored_log dec st) \<Longrightarrow> prefix ''/'' (ev_prim (re_event x))"
  proof -
    assume "x \<in> set (stored_log dec st)"
    then obtain r where "r \<in> set (events st)" "row_prim r \<noteq> None" "dec (row_bin r) = Inr x"
      by (auto simp: stored_log_def split: sum.splits)
    with assms(2) show "prefix ''/'' (ev_prim (re_event x))" by (fastforce simp: row_faithful_def split: option.splits)
  qed
qed

lemma merge_filters:
  assumes "sorted_wrt (<) (map re_seq rs)" "\<And>x. x \<in> set rs \<Longrightarrow> \<not> (A x \<and> B x)"
  shows "merge_by_seq (filter A rs) (filter B rs) = filter (\<lambda>x. A x \<or> B x) rs"
  using assms
proof (induction rs)
  case (Cons x rs)
  have left: "merge_by_seq (x # filter A rs) (filter B rs) = x # merge_by_seq (filter A rs) (filter B rs)"
  proof (cases "filter B rs")
    case (Cons y ys)
    then have "y \<in> set rs" by (metis filter_eq_ConsD in_set_conv_decomp)
    with Cons.prems(1) have "re_seq x < re_seq y" by simp
    with Cons show ?thesis by simp
  qed (cases "filter A rs"; simp)
  have right: "merge_by_seq (filter A rs) (x # filter B rs) = x # merge_by_seq (filter A rs) (filter B rs)"
  proof (cases "filter A rs")
    case (Cons y ys)
    then have "y \<in> set rs" by (metis filter_eq_ConsD in_set_conv_decomp)
    with Cons.prems(1) have "re_seq x < re_seq y" by simp
    with Cons show ?thesis by simp
  qed simp
  from Cons.prems(2) [of x] Cons left right show ?case by auto
qed simp

section \<open>What is selected\<close>

lemma rstrip_slash_prefix: "prefix (rstrip_slash x @ ''/'') (x @ ''/'')"
proof -
  let ?t = "takeWhile (\<lambda>c. c = CHR ''/'') (rev x)"
  have "?t = replicate (length ?t) (CHR ''/'')" by (rule replicate_eqI) (auto dest: set_takeWhileD)
  then have "rev ?t = replicate (length ?t) (CHR ''/'')" by (metis rev_replicate)
  moreover have "x = rstrip_slash x @ rev ?t" by (simp add: rstrip_slash_def flip: rev_append)
  ultimately have "x @ ''/'' = rstrip_slash x @ replicate (length ?t) (CHR ''/'') @ ''/''" by (metis append.assoc)
  then have "x @ ''/'' = (rstrip_slash x @ ''/'') @ replicate (length ?t) (CHR ''/'')" by (simp add: replicate_append_same)
  then show ?thesis by (metis prefixI)
qed

lemma rstrip_slash_under:
  assumes "rstrip_slash p = p" "prefix (p @ ''/'') q"
  shows "prefix p (rstrip_slash q)"
proof -
  obtain rest where q: "q = p @ ''/'' @ rest" using assms(2) by (auto simp: prefix_def)
  have p: "dropWhile (\<lambda>c. c = CHR ''/'') (rev p) = rev p" using assms(1) by (simp add: rstrip_slash_def flip: rev_swap)
  show ?thesis
  proof (cases "\<forall>c \<in> set (rev rest). c = CHR ''/''")
    case True
    then have "dropWhile (\<lambda>c. c = CHR ''/'') (rev rest @ CHR ''/'' # rev p) = dropWhile (\<lambda>c. c = CHR ''/'') (CHR ''/'' # rev p)"
      by (intro dropWhile_append2) blast
    then have "dropWhile (\<lambda>c. c = CHR ''/'') (rev q) = rev p" by (simp add: q p)
    then show ?thesis by (simp add: rstrip_slash_def)
  next
    case False
    then have "dropWhile (\<lambda>c. c = CHR ''/'') (rev q) = dropWhile (\<lambda>c. c = CHR ''/'') (rev rest) @ CHR ''/'' # rev p"
      by (auto simp: q dropWhile_append1)
    then show ?thesis by (simp add: rstrip_slash_def)
  qed
qed

definition above :: "string \<Rightarrow> string \<Rightarrow> bool" where
  "above p q \<longleftrightarrow> p = q \<or> prefix (rstrip_slash q @ ''/'') p"

lemma above_not_under:
  assumes "rstrip_slash p = p" "prefix (p @ ''/'') q"
  shows "\<not> above p q"
  using prefix_length_le [OF assms(2)] prefix_length_le [OF rstrip_slash_under [OF assms]]
  by (auto simp: above_def dest!: prefix_length_le)

lemma affects_selected:
  assumes "effect x (l, q, s) \<noteq> None" "prefix (p @ ''/'') q"
  shows "prefix (p @ ''/'') (ev_prim (re_event x)) \<or> ev_kind (re_event x) = K_DELETE_PRIM \<and> above p (ev_prim (re_event x))"
proof (cases "ev_prim (re_event x) = q")
  case False
  let ?d = "ev_prim (re_event x)"
  from False effect_place [OF assms(1)] have d: "ev_kind (re_event x) = K_DELETE_PRIM" "prefix (?d @ ''/'') q"
    by (auto simp: in_subtree_def)
  from prefix_same_cases [OF assms(2) d(2)] consider "prefix (p @ ''/'') ?d" | "p = ?d" | "prefix (?d @ ''/'') p" by auto
  then show ?thesis
  proof cases
    case 3
    with rstrip_slash_prefix [of ?d] have "above p ?d" unfolding above_def by (meson prefix_order.trans)
    with d(1) show ?thesis by blast
  qed (use d(1) in \<open>auto simp: above_def\<close>)
qed (use assms(2) in simp)

lemma child_kinds: "K_DELETE_PRIM \<in> set CHILD_REPLAY_KINDS" "K_RENAME_PRIM \<in> set CHILD_REPLAY_KINDS"
    "K_LOAD_PAYLOAD \<notin> set CHILD_REPLAY_KINDS" "K_UNLOAD_PAYLOAD \<notin> set CHILD_REPLAY_KINDS"
  by (simp_all add: CHILD_REPLAY_KINDS_def)

lemma prefix_query:
  assumes "\<forall>r \<in> set (events st). row_faithful dec r" "list_all (\<lambda>c. of_char c < (128 :: nat)) pre"
  shows "map_res dec (get_by_prim_prefix pre kinds st) =
    Inr (filter (\<lambda>x. prefix pre (ev_prim (re_event x)) \<and> ev_kind (re_event x) \<in> set kinds) (stored_log dec st))"
proof -
  have "get_by_prim_prefix pre kinds st = map row_bin (filter (\<lambda>r. \<exists>rest k. row_prim r = Some (pre @ rest) \<and>
      row_kind r = Some k \<and> k \<in> set kinds) (sort_key row_seq (events st)))"
    unfolding filter_sort
  proof (rule prim_prefix_query)
    show "\<forall>r \<in> set (events st). \<forall>p. row_prim r = Some p \<longrightarrow> (\<forall>c \<in> set p. of_char c < (128 :: nat))"
    proof (intro ballI allI impI)
      fix r p c assume "r \<in> set (events st)" "row_prim r = Some p" "c \<in> set p"
      with assms(1) [rule_format, of r] show "of_char c < (128 :: nat)" by (simp add: row_faithful_def list_all_iff split: sum.splits)
    qed
    show "\<forall>c \<in> set pre. of_char c < (128 :: nat)" using assms(2) by (simp add: list_all_iff)
  qed
  moreover have "list_all (row_faithful dec) (sort_key row_seq (events st))" using assms(1) by (simp add: list_all_iff)
  ultimately show ?thesis by (simp only: rows_decoded stored_log_def)
qed

definition child_log :: "(bytes \<Rightarrow> received_event res) \<Rightarrow> store \<Rightarrow> string \<Rightarrow> received_event list" where
  "child_log dec st p = filter (\<lambda>x. prefix (p @ ''/'') (ev_prim (re_event x)) \<and> ev_kind (re_event x) \<in> set CHILD_REPLAY_KINDS \<or>
     ev_kind (re_event x) \<in> {K_DELETE_PRIM, K_RENAME_PRIM} \<and> above p (ev_prim (re_event x))) (stored_log dec st)"

lemma child_replay_source:
  assumes "store_inv st" "\<forall>r \<in> set (events st). row_faithful dec r" "list_all (\<lambda>c. of_char c < (128 :: nat)) p" "rstrip_slash p = p"
  shows "child_replay_records dec ms st p =
    Inr (order_children (p @ ''/'') [] (replay_records (compact_records ms (child_log dec st p))))"
proof -
  let ?log = "stored_log dec st"
  let ?A = "\<lambda>x. prefix (p @ ''/'') (ev_prim (re_event x)) \<and> ev_kind (re_event x) \<in> set CHILD_REPLAY_KINDS"
  let ?L = "\<lambda>x. prefix ''/'' (ev_prim (re_event x)) \<and> ev_kind (re_event x) \<in> set [K_DELETE_PRIM, K_RENAME_PRIM]"
  let ?B = "\<lambda>x. ev_kind (re_event x) \<in> {K_DELETE_PRIM, K_RENAME_PRIM} \<and> above p (ev_prim (re_event x))"
  note log = stored_log_facts [OF assms(1,2)]
  have d: "map_res dec (get_by_prim_prefix (p @ ''/'') CHILD_REPLAY_KINDS st) = Inr (filter ?A ?log)"
    using assms(3) by (intro prefix_query [OF assms(2)]) simp
  have a: "map_res dec (get_by_prim_prefix ''/'' [K_DELETE_PRIM, K_RENAME_PRIM] st) = Inr (filter ?L ?log)"
    by (intro prefix_query [OF assms(2)]) simp
  have "filter (\<lambda>x. above p (ev_prim (re_event x))) (filter ?L ?log) = filter ?B ?log"
    using log(2) by (auto intro: filter_cong)
  moreover have "merge_by_seq (filter ?A ?log) (filter ?B ?log) = filter (\<lambda>x. ?A x \<or> ?B x) ?log"
    by (rule merge_filters [OF log(1)]) (use above_not_under [OF assms(4)] in blast)
  ultimately show ?thesis
    by (simp add: child_replay_records_def Let_def assms(4) d a above_def [symmetric] compact_records_def child_log_def
        del: filter_filter set_simps list.set)
qed

lemma barrier_typed: "typed x \<Longrightarrow> replay_barrier (re_event x) = destructive (record_key x)"
  by (auto simp: replay_barrier_def is_sample_history_barrier_def destructive_def typed_def typed_event_def Let_def)

lemma separated_meets:
  assumes "comp_inv c" "separated c" "\<And>x. x \<in> set (records c) \<Longrightarrow> \<not> payload_event (ev_kind (re_event x))"
  shows "meets_only_across (set (records c)) (set (records c))"
proof (rule meetsI)
  fix x y assume xy: "x \<in> set (records c)" "y \<in> set (records c)" and seq: "re_seq x < re_seq y"
    and b: "\<not> replay_barrier (re_event x)" "\<not> replay_barrier (re_event y)" and meet: "dom (effect x) \<inter> dom (effect y) \<noteq> {}"
  have t: "typed x" "typed y" using comp_invD(6) [OF assms(1)] xy by blast+
  then have nd: "\<not> destructive (record_key x)" "\<not> destructive (record_key y)" using b by (simp_all add: barrier_typed)
  have "\<not> opposite (record_key x) (record_key y)"
    using assms(3) [OF xy(1)] by (auto simp: opposite_def payload_event_def doubleton_eq_iff)
  with reach_disjoint [OF t nd] effect_reach [OF t(1) nd(1)] effect_reach [OF t(2) nd(2)] meet
  have "record_key x = record_key y" by blast
  from sepD(2) [OF assms(2) [unfolded separated_def] xy this nd(1) seq]
  show "\<exists>e \<in> set (records c). replay_barrier (re_event e) \<and> re_seq x < re_seq e \<and> re_seq e < re_seq y"
    by (auto simp: erasure_def replay_barrier_def is_sample_history_barrier_def)
qed

lemma set_order_children:
  "set (order_children pre seg rs) = set seg \<union> {r \<in> set rs. prefix pre (ev_prim (re_event r))}"
  by (induction pre seg rs rule: order_children.induct) (auto simp: Let_def flush_segment_def)

lemma child_order_current:
  assumes "sorted_wrt (<) (map re_seq sel)" "list_all typed sel" "R = replay_records (compact_records ms sel)"
    and "\<And>x. x \<in> set sel \<Longrightarrow> \<not> payload_event (ev_kind (re_event x))"
    and "\<And>x. x \<in> set sel \<Longrightarrow> \<not> prefix pre (ev_prim (re_event x)) \<Longrightarrow> ev_kind (re_event x) = K_DELETE_PRIM"
  shows "current (order_children pre [] R) (l, p, s) = current sel (l, p, s)"
proof -
  let ?c = "compact_records ms sel" and ?U = "\<lambda>x. prefix pre (ev_prim (re_event x))"
  note c = compact_separated [OF assms(1,2), where ms = ms]
  have R: "set R = set (records ?c)" by (simp add: assms(3) replay_records_eq)
  have key: "\<exists>y \<in> set sel. ev_prim (re_event x) = ev_prim (re_event y) \<and> ev_kind (re_event x) = ev_kind (re_event y)"
    if "x \<in> set R" for x using c(3) that unfolding R by (metis imageE record_key_sel(1,2))
  have "distinct (map re_seq R)" using comp_invD(4) [OF c(1)] by (simp add: assms(3) replay_records_eq distinct_map)
  moreover have "sorted (map re_seq R)" by (simp add: assms(3) replay_records_eq)
  ultimately have sorted: "sorted_wrt (<) (map re_seq R)" by (simp add: strict_sorted_iff)
  have "meets_only_across (set R) (set R)"
    unfolding R using key assms(4) R by (intro separated_meets c) metis
  with order_children_authored [of "[]" R pre] sorted
  have "current (order_children pre [] R) (l, p, s) = current (filter ?U R) (l, p, s)" by (simp add: current_def)
  also have "\<dots> = current R (l, p, s)"
  proof (rule current_drop [OF sorted])
    fix d assume d: "d \<in> set R" "\<not> ?U d" "effect d (l, p, s) \<noteq> None"
    with key assms(5) have del: "ev_kind (re_event d) = K_DELETE_PRIM" by metis
    from before_deletion [OF c(2) [unfolded separated_def R [symmetric]] d(1) _ _ del d(3)] effect_place(4) [OF d(3) del]
    show "effect d (l, p, s) = Some None \<and> (\<forall>x \<in> set R. re_seq x < re_seq d \<longrightarrow> effect x (l, p, s) \<in> {None, Some None})"
      by blast
  qed
  also have "\<dots> = current sel (l, p, s)"
    using compaction_effect [OF assms(1,2), of ms] by (simp add: current_def assms(3))
  finally show ?thesis .
qed

section \<open>Properties\<close>


text \<open>
  A move, a deletion of the payload prim, another move and the creation of the prim: the replay
  creates the prim and then moves it, and the first move is gone.
\<close>

definition demo_child :: "int \<Rightarrow> received_event" where
  "demo_child n = \<lparr>re_seq = n, re_event =
     (if n = 1 then [(''k'', PStr K_SET_XFORM_TRS), (''prim'', PStr ''/P/A''), (''fields'', PList [PStr ''t'']), (''t'', PInt 1)]
      else if n = 2 then [(''k'', PStr K_DELETE_PRIM), (''prim'', PStr ''/P'')]
      else if n = 3 then [(''k'', PStr K_SET_XFORM_TRS), (''prim'', PStr ''/P/A''), (''fields'', PList [PStr ''r'']), (''r'', PInt 3)]
      else [(''k'', PStr K_ENSURE_PRIM), (''prim'', PStr ''/P/A''), (''typeName'', PStr ''Xform'')]),
     re_layer = Some ''default'', re_origin = None, re_client_id = None, re_client = None\<rparr>"

definition demo_child_decode :: "bytes \<Rightarrow> received_event res" where
  "demo_child_decode bin = (case map_of [([1], 1), ([2], 2), ([3], 3), ([4], 4)] bin of
     Some n \<Rightarrow> Inr (demo_child n) | None \<Rightarrow> Inl (ValueError ''unknown bytes''))"

definition demo_child_store :: store where
  "demo_child_store = empty_store\<lparr>events := map (\<lambda>(n, bin). \<lparr>row_seq = n, row_bin = bin, row_client_id = None,
     row_kind = Some (ev_kind (re_event (demo_child n))), row_prim = Some (ev_prim (re_event (demo_child n)))\<rparr>)
       [(1, [1]), (2, [2]), (3, [3]), (4, [4])]\<rparr>"


end
