(* ===== verification/Layer_Graph.thy ===== *)
theory Layer_Graph
  imports Validation "HOL-Library.Product_Lexorder" "HOL-Library.List_Lexorder" "HOL-Library.Char_ord"
begin

text \<open>
  The layer graph of a shared stage (\<open>openusdconnect/shared_layer_graph.py\<close> on top of
  \<open>layer_key_router.py\<close>): portable keys for the layers of a root layer stack, the sublayers each of
  them declares, and the revisions that order topology edits.

  The server's graph is authoritative: it assigns keys and publishes a baseline and then one event
  per changed parent. A client's graph follows, and so does the server's own graph when it restarts
  from the log. A local \<open>Sdf.Layer\<close> is its identifier; what a layer has authored, the resolver and
  the uuid supply belong to the environment. Events and baselines have passed validation and are
  records of their fields; a sublayer entry is a dictionary. An operation that raises returns only
  the exception: its callers restore the graph, as \<open>graph_transaction\<close> does.
\<close>

section \<open>State\<close>

record 'l graph_env =
  ge_lib :: "'l sdf_lib"
  ge_resolve :: "string \<Rightarrow> string \<Rightarrow> string option"
  ge_uuid :: "nat \<Rightarrow> string"

record shared_graph =
  gr_authoritative :: bool
  gr_generation :: string
  gr_revision :: int
  gr_ready :: bool
  gr_root_key :: string
  gr_layers :: "(string \<times> string) list"
  gr_keys :: "(string \<times> string) list"
  gr_states :: "(string \<times> event list) list"
  gr_parent_revisions :: "(string \<times> int) list"
  gr_identity_keys :: "(string \<times> string) list"
  gr_identity_ids :: "(string \<times> string) list"
  gr_stage_root :: string
  gr_authored :: "string \<Rightarrow> event list"
  gr_uuids :: nat

record topology_event =
  te_generation :: string
  te_revision :: int
  te_sublayers :: "event list"

record prepared_sublayers =
  ps_parent_key :: string
  ps_event :: topology_event
  ps_mappings :: "(string \<times> string) list"

record layer_state =
  lst_key :: string
  lst_revision :: int
  lst_sublayers :: "event list"

record graph_state =
  gs_generation :: string
  gs_revision :: int
  gs_root_key :: string
  gs_layers :: "layer_state list"

abbreviation entry_path :: "event \<Rightarrow> string" where
  "entry_path \<equiv> ev_str ''authored_path''"

text \<open>\<open>entry.get("layer_key")\<close>: an absent key and an empty one are both false.\<close>

definition entry_key :: "event \<Rightarrow> string option" where
  "entry_key entry = (if ev_str ''layer_key'' entry = [] then None else Some (ev_str ''layer_key'' entry))"

definition keyed :: "event list \<Rightarrow> string list" where
  "keyed entries = List.map_filter entry_key entries"

definition normalized :: "'l graph_env \<Rightarrow> event list \<Rightarrow> event list res" where
  "normalized env entries = normalize_sublayer_entries (ge_lib env) (map PDict entries)"

section \<open>Keys\<close>

definition new_uuid :: "'l graph_env \<Rightarrow> shared_graph \<Rightarrow> string \<times> shared_graph" where
  "new_uuid env g = (ge_uuid env (gr_uuids g), g\<lparr>gr_uuids := gr_uuids g + 1\<rparr>)"

definition new_layer_key :: "'l graph_env \<Rightarrow> shared_graph \<Rightarrow> string \<times> shared_graph" where
  "new_layer_key env g = (let (u, g) = new_uuid env g in (''layer:'' @ u, g))"

definition layer_for :: "shared_graph \<Rightarrow> string \<Rightarrow> string option" where
  "layer_for g layer_key = map_of (gr_layers g) layer_key"

definition key_for :: "shared_graph \<Rightarrow> string \<Rightarrow> string option" where
  "key_for g layer = map_of (gr_keys g) layer"

definition router_bind_key :: "string \<Rightarrow> string \<Rightarrow> shared_graph \<Rightarrow> shared_graph res" where
  "router_bind_key layer_key layer g =
     (case (layer_for g layer_key, key_for g layer) of (existing_layer, existing_key) \<Rightarrow>
        if existing_layer \<noteq> None \<and> existing_layer \<noteq> Some layer then Inl (ValueError ''layer key maps to more than one local layer'')
        else if existing_key \<noteq> None \<and> existing_key \<noteq> Some layer_key then Inl (ValueError ''local layer maps to both keys'')
        else Inr (g\<lparr>gr_layers := AList.update layer_key layer (gr_layers g),
                    gr_keys := AList.update layer layer_key (gr_keys g)\<rparr>))"

definition bind_key :: "string \<Rightarrow> string \<Rightarrow> shared_graph \<Rightarrow> shared_graph res" where
  "bind_key layer_key layer g =
     (case (map_of (gr_identity_keys g) layer, map_of (gr_identity_ids g) layer_key) of (registered_key, registered_id) \<Rightarrow>
        if registered_key \<noteq> None \<and> registered_key \<noteq> Some layer_key then Inl (ValueError ''local layer has durable keys'')
        else if registered_id \<noteq> None \<and> registered_id \<noteq> Some layer then Inl (ValueError ''layer key has durable identifiers'')
        else case router_bind_key layer_key layer g of
          Inl e \<Rightarrow> Inl e
        | Inr g' \<Rightarrow> Inr (g'\<lparr>gr_identity_keys := AList.update layer layer_key (gr_identity_keys g'),
                           gr_identity_ids := AList.update layer_key layer (gr_identity_ids g')\<rparr>))"

definition bind_keys :: "(string \<times> string) list \<Rightarrow> shared_graph \<Rightarrow> shared_graph res" where
  "bind_keys mappings g = fold_res (\<lambda>(layer, layer_key). bind_key layer_key layer) mappings g"

definition parent_revision :: "shared_graph \<Rightarrow> string \<Rightarrow> int" where
  "parent_revision g layer_key = dict_get (gr_parent_revisions g) layer_key 0"

definition identity_records :: "shared_graph \<Rightarrow> (string \<times> string) list" where
  "identity_records g = sort (gr_identity_keys g)"

definition restore_identity :: "string \<times> string \<Rightarrow> shared_graph \<Rightarrow> shared_graph res" where
  "restore_identity record1 g =
     (case record1 of (identifier, layer_key) \<Rightarrow>
        if identifier = [] then Inl (ValueError ''shared layer identifiers must be non-empty strings'')
        else if layer_key = [] then Inl (ValueError ''shared layer keys must be non-empty strings'')
        else if map_of (gr_identity_keys g) identifier \<notin> {None, Some layer_key} \<or>
                map_of (gr_identity_ids g) layer_key \<notin> {None, Some identifier}
             then Inl (ValueError ''durable shared layer identities conflict with graph replay'')
        else Inr (g\<lparr>gr_identity_keys := AList.update identifier layer_key (gr_identity_keys g),
                    gr_identity_ids := AList.update layer_key identifier (gr_identity_ids g)\<rparr>))"

definition restore_identity_records :: "(string \<times> string) list \<Rightarrow> shared_graph \<Rightarrow> shared_graph res" where
  "restore_identity_records records g = fold_res restore_identity records g"

section \<open>Reachable layers\<close>

definition child_keys :: "(string \<times> event list) list \<Rightarrow> string \<Rightarrow> string list" where
  "child_keys states layer_key = keyed (dict_get states layer_key [])"

definition all_child_keys :: "(string \<times> event list) list \<Rightarrow> string set" where
  "all_child_keys states = (\<Union>(k, entries) \<in> set states. set (keyed entries))"

lemma child_keys_subset: "set (child_keys states k) \<subseteq> all_child_keys states"
  by (auto simp: child_keys_def all_child_keys_def dict_get_def keyed_def split: option.splits dest: map_of_SomeD)

lemma finite_all_child_keys [simp]: "finite (all_child_keys states)"
  by (auto simp: all_child_keys_def)

function reach_loop :: "(string \<times> event list) list \<Rightarrow> string list \<Rightarrow> string list \<Rightarrow> string list" where
  "reach_loop states [] seen = seen"
| "reach_loop states (k # queue) seen =
     (if k \<in> set seen then reach_loop states queue seen
      else reach_loop states (queue @ child_keys states k) (seen @ [k]))"
  by pat_completeness auto

termination
proof (relation "measures [\<lambda>(states, queue, seen). card ((all_child_keys states \<union> set queue) - set seen),
    \<lambda>(states, queue, seen). length queue]", simp)
  fix states :: "(string \<times> event list) list" and k queue seen
  let ?U = "\<lambda>q. all_child_keys states \<union> set q"
  show "((states, queue, seen), states, k # queue, seen) \<in> measures [\<lambda>(states, queue, seen). card ((all_child_keys states \<union> set queue) - set seen),
      \<lambda>(states, queue, seen). length queue]" if "k \<in> set seen"
  proof -
    have "?U queue - set seen = ?U (k # queue) - set seen" using that by auto
    then show ?thesis by simp
  qed
  show "((states, queue @ child_keys states k, seen @ [k]), states, k # queue, seen) \<in> measures
      [\<lambda>(states, queue, seen). card ((all_child_keys states \<union> set queue) - set seen), \<lambda>(states, queue, seen). length queue]"
    if "k \<notin> set seen"
  proof -
    have "?U (queue @ child_keys states k) - set (seen @ [k]) \<subset> ?U (k # queue) - set seen"
      using that child_keys_subset [of states k] by auto
    then have "card (?U (queue @ child_keys states k) - set (seen @ [k])) < card (?U (k # queue) - set seen)"
      by (intro psubset_card_mono) simp_all
    then show ?thesis by simp
  qed
qed

definition reachable_layer_keys :: "shared_graph \<Rightarrow> string list" where
  "reachable_layer_keys g = (if \<not> gr_ready g then [] else reach_loop (gr_states g) [gr_root_key g] [])"

definition reachable_layers :: "shared_graph \<Rightarrow> string list" where
  "reachable_layers g = List.map_filter (layer_for g) (reachable_layer_keys g)"

definition start_new_generation :: "'l graph_env \<Rightarrow> shared_graph \<Rightarrow> shared_graph res" where
  "start_new_generation env g =
     (if \<not> gr_ready g then Inl (RuntimeError ''shared layer graph has not received a baseline'')
      else let (generation, g1) = new_uuid env g
           in Inr (g1\<lparr>gr_generation := generation, gr_revision := 1,
                gr_parent_revisions := map (\<lambda>k. (k, 1)) (reachable_layer_keys g1)\<rparr>))"

definition sublayers_for :: "shared_graph \<Rightarrow> string \<Rightarrow> event list option" where
  "sublayers_for g layer_key = map_of (gr_states g) layer_key"

definition prune_unreachable_states :: "shared_graph \<Rightarrow> shared_graph" where
  "prune_unreachable_states g =
     (let reachable = set (reachable_layer_keys g)
      in g\<lparr>gr_states := filter (\<lambda>(k, entries). k \<in> reachable) (gr_states g),
           gr_parent_revisions := filter (\<lambda>(k, revision). k \<in> reachable) (gr_parent_revisions g)\<rparr>)"

text \<open>\<open>transaction()\<close> restores the graph when the body raises.\<close>

definition graph_transaction :: "(shared_graph \<Rightarrow> ('a \<times> shared_graph) res) \<Rightarrow> shared_graph \<Rightarrow> 'a res \<times> shared_graph" where
  "graph_transaction body g = (case body g of Inl e \<Rightarrow> (Inl e, g) | Inr (x, g') \<Rightarrow> (Inr x, g'))"

section \<open>Authored sublayers\<close>

definition read_sublayer_entries :: "shared_graph \<Rightarrow> string \<Rightarrow> event list" where
  "read_sublayer_entries g layer = gr_authored g layer"

text \<open>A layer stores the path, offset and scale of an entry, not its key.\<close>

definition authored_fields :: "event \<Rightarrow> event" where
  "authored_fields entry = filter (\<lambda>(k, v). k \<noteq> ''layer_key'') entry"

definition apply_sublayer_entries :: "'l graph_env \<Rightarrow> string \<Rightarrow> event list \<Rightarrow> shared_graph \<Rightarrow> shared_graph res" where
  "apply_sublayer_entries env layer entries g =
     (case normalized env entries of
        Inl e \<Rightarrow> Inl e
      | Inr es \<Rightarrow> Inr (g\<lparr>gr_authored := (gr_authored g)(layer := map authored_fields es)\<rparr>))"

fun entries_loop :: "'l graph_env \<Rightarrow> bool \<Rightarrow> string \<Rightarrow> event list \<Rightarrow> shared_graph \<Rightarrow> (event list \<times> string list \<times> shared_graph) res" where
  "entries_loop env assign_keys layer [] g = Inr ([], [], g)"
| "entries_loop env assign_keys layer (entry # rest) g =
     (case ge_resolve env layer (entry_path entry) of
        None \<Rightarrow>
          (case entries_loop env assign_keys layer rest g of
             Inl e \<Rightarrow> Inl e | Inr (entries, children, g') \<Rightarrow> Inr (entry # entries, children, g'))
      | Some child \<Rightarrow>
          (case (case key_for g child of
                   Some k \<Rightarrow> Inr (Some k, g)
                 | None \<Rightarrow> if assign_keys
                     then let (k, g1) = new_layer_key env g
                          in case bind_key k child g1 of Inl e \<Rightarrow> Inl e | Inr g2 \<Rightarrow> Inr (Some k, g2)
                     else Inr (None, g)) of
             Inl e \<Rightarrow> Inl e
           | Inr (key, g1) \<Rightarrow>
               let entry1 = (case key of Some k \<Rightarrow> if k = [] then entry else AList.update ''layer_key'' (PStr k) entry | None \<Rightarrow> entry)
               in case entries_loop env assign_keys layer rest g1 of
                    Inl e \<Rightarrow> Inl e
                  | Inr (entries, children, g') \<Rightarrow> Inr (entry1 # entries, child # children, g')))"

definition entries_for_layer :: "'l graph_env \<Rightarrow> bool \<Rightarrow> string \<Rightarrow> shared_graph \<Rightarrow> (event list \<times> string list \<times> shared_graph) res" where
  "entries_for_layer env assign_keys layer g =
     (case normalized env (read_sublayer_entries g layer) of
        Inl e \<Rightarrow> Inl e | Inr entries \<Rightarrow> entries_loop env assign_keys layer entries g)"

text \<open>The walk over the local layers; \<open>None\<close> is a walk that does not end.\<close>

partial_function (option) capture_loop ::
  "'l graph_env \<Rightarrow> string list \<Rightarrow> string list \<Rightarrow> (string \<times> event list) list \<Rightarrow> shared_graph
     \<Rightarrow> ((string \<times> event list) list \<times> shared_graph) res option" where
  "capture_loop env queue visited states g =
     (case queue of
        [] \<Rightarrow> Some (Inr (states, g))
      | layer # rest \<Rightarrow>
          if layer \<in> set visited then capture_loop env rest visited states g
          else case (case key_for g layer of
                       Some k \<Rightarrow> Inr (k, g)
                     | None \<Rightarrow> let (k, g1) = new_layer_key env g
                         in case bind_key k layer g1 of Inl e \<Rightarrow> Inl e | Inr g2 \<Rightarrow> Inr (k, g2)) of
            Inl e \<Rightarrow> Some (Inl e)
          | Inr (layer_key, g1) \<Rightarrow>
              (case entries_for_layer env True layer g1 of
                 Inl e \<Rightarrow> Some (Inl e)
               | Inr (entries, children, g2) \<Rightarrow>
                   capture_loop env (rest @ children) (layer # visited) (AList.update layer_key entries states) g2))"

declare capture_loop.simps [code]

definition capture_reachable :: "'l graph_env \<Rightarrow> shared_graph \<Rightarrow> shared_graph res option" where
  "capture_reachable env g =
     (case layer_for g (gr_root_key g) of
        None \<Rightarrow> Some (Inl (RuntimeError ''shared layer graph has no local root layer''))
      | Some top_layer \<Rightarrow>
          map_option (map_sum id (\<lambda>(states, g'). g'\<lparr>gr_states := states,
              gr_parent_revisions := map (\<lambda>(k, entries). (k, dict_get (gr_parent_revisions g') k 1)) states\<rparr>))
            (capture_loop env [top_layer] [] [] g))"

definition empty_graph :: "string \<Rightarrow> (string \<Rightarrow> event list) \<Rightarrow> shared_graph" where
  "empty_graph root_layer authored1 = \<lparr>gr_authoritative = False, gr_generation = [], gr_revision = -1, gr_ready = False,
     gr_root_key = [], gr_layers = [], gr_keys = [], gr_states = [], gr_parent_revisions = [], gr_identity_keys = [],
     gr_identity_ids = [], gr_stage_root = root_layer, gr_authored = authored1, gr_uuids = 0\<rparr>"

definition new_authoritative_graph :: "'l graph_env \<Rightarrow> string \<Rightarrow> (string \<Rightarrow> event list) \<Rightarrow> shared_graph res option" where
  "new_authoritative_graph env root_layer authored1 =
     (let (generation, g1) = new_uuid env ((empty_graph root_layer authored1)\<lparr>gr_authoritative := True\<rparr>);
          (root_key, g2) = new_layer_key env (g1\<lparr>gr_generation := generation, gr_revision := 1, gr_ready := True\<rparr>)
      in case bind_key root_key root_layer (g2\<lparr>gr_root_key := root_key\<rparr>) of
           Inl e \<Rightarrow> Some (Inl e)
         | Inr g3 \<Rightarrow> capture_reachable env g3)"

section \<open>Baselines\<close>

definition state_message :: "shared_graph \<Rightarrow> graph_state res" where
  "state_message g =
     (if \<not> gr_ready g then Inl (RuntimeError ''shared layer graph has not received a baseline'')
      else let layer_keys = reachable_layer_keys g
        in if list_ex (\<lambda>k. map_of (gr_states g) k = None) layer_keys
           then Inl (RuntimeError ''shared layer graph has incomplete state'')
           else if list_ex (\<lambda>k. map_of (gr_parent_revisions g) k = None) layer_keys then Inl (KeyError ''layer_key'')
           else Inr \<lparr>gs_generation = gr_generation g, gs_revision = gr_revision g, gs_root_key = gr_root_key g,
             gs_layers = map (\<lambda>k. \<lparr>lst_key = k, lst_revision = dict_get (gr_parent_revisions g) k 0,
               lst_sublayers = dict_get (gr_states g) k []\<rparr>) layer_keys\<rparr>)"

fun validate_layers ::
  "'l graph_env \<Rightarrow> layer_state list \<Rightarrow> (string \<times> event list) list \<Rightarrow> (string \<times> int) list
     \<Rightarrow> ((string \<times> event list) list \<times> (string \<times> int) list) res" where
  "validate_layers env [] states revisions = Inr (states, revisions)"
| "validate_layers env (state # rest) states revisions =
     (if lst_key state = [] \<or> map_of states (lst_key state) \<noteq> None
      then Inl (ValueError ''layer graph keys must be unique non-empty strings'')
      else case normalized env (lst_sublayers state) of
        Inl e \<Rightarrow> Inl e
      | Inr entries \<Rightarrow>
          if lst_revision state < 1 then Inl (ValueError ''layer graph baseline requires positive per-parent revisions'')
          else validate_layers env rest (states @ [(lst_key state, entries)]) (revisions @ [(lst_key state, lst_revision state)]))"

definition validate_topology ::
  "'l graph_env \<Rightarrow> graph_state \<Rightarrow> ((string \<times> event list) list \<times> (string \<times> int) list) res" where
  "validate_topology env m =
     (if gs_generation m = [] then Inl (ValueError ''layer graph generation must be a non-empty string'')
      else if gs_root_key m = [] then Inl (ValueError ''layer graph root key must be a non-empty string'')
      else if gs_revision m < 1 then Inl (ValueError ''layer graph revision must be a positive integer'')
      else case validate_layers env (gs_layers m) [] [] of
        Inl e \<Rightarrow> Inl e
      | Inr (states, revisions) \<Rightarrow>
          if map_of states (gs_root_key m) = None then Inl (ValueError ''layer graph baseline does not contain its root layer'')
          else if list_ex (\<lambda>(k, entries). list_ex (\<lambda>c. map_of states c = None) (keyed entries)) states
          then Inl (ValueError ''sublayer references undeclared layer key'')
          else Inr (states, revisions))"

fun materialize_entries ::
  "'l graph_env \<Rightarrow> string \<Rightarrow> event list \<Rightarrow> shared_graph \<Rightarrow> (string list \<times> string list \<times> shared_graph) res" where
  "materialize_entries env parent [] g = Inr ([], [], g)"
| "materialize_entries env parent (entry # rest) g =
     (case entry_key entry of
        None \<Rightarrow> materialize_entries env parent rest g
      | Some child_key \<Rightarrow>
          (case ge_resolve env parent (entry_path entry) of
             None \<Rightarrow> materialize_entries env parent rest g
           | Some child \<Rightarrow>
               (case bind_key child_key child g of
                  Inl e \<Rightarrow> Inl e
                | Inr g1 \<Rightarrow>
                    (case materialize_entries env parent rest g1 of
                       Inl e \<Rightarrow> Inl e
                     | Inr (newly, queue, g2) \<Rightarrow>
                         Inr ((if layer_for g child_key = None then child_key # newly else newly), child_key # queue, g2)))))"

text \<open>What binding keys leaves alone.\<close>

definition topology where
  "topology g = (gr_states g, gr_parent_revisions g, gr_root_key g, gr_generation g, gr_revision g, gr_ready g, gr_stage_root g)"

lemma topologyD:
  assumes "topology g' = topology g"
  shows "gr_states g' = gr_states g" "gr_parent_revisions g' = gr_parent_revisions g" "gr_root_key g' = gr_root_key g"
    "gr_generation g' = gr_generation g" "gr_revision g' = gr_revision g" "gr_ready g' = gr_ready g"
    "gr_stage_root g' = gr_stage_root g"
  using assms by (simp_all add: topology_def)

lemma bind_key_topology: "bind_key k layer g = Inr g' \<Longrightarrow> topology g' = topology g"
  by (auto simp: topology_def bind_key_def router_bind_key_def split: if_splits sum.splits)

lemma materialize_entries_topology:
  assumes "materialize_entries env parent entries g = Inr (newly, queue, g')"
  shows "topology g' = topology g" "set queue \<subseteq> set (keyed entries)"
proof -
  have "topology g' = topology g \<and> set queue \<subseteq> set (keyed entries)" using assms
  proof (induction entries arbitrary: g newly queue g')
    case (Cons entry rest)
    then show ?case
      by (fastforce simp: keyed_def List.map_filter_simps dest: bind_key_topology split: option.splits sum.splits)
  qed (simp add: keyed_def List.map_filter_simps)
  then show "topology g' = topology g" "set queue \<subseteq> set (keyed entries)" by blast+
qed

lemma apply_entries_topology: "apply_sublayer_entries env layer entries g = Inr g' \<Longrightarrow> topology g' = topology g"
  by (auto simp: apply_sublayer_entries_def topology_def split: sum.splits)

function materialize_loop ::
  "'l graph_env \<Rightarrow> string list \<Rightarrow> string list \<Rightarrow> string list \<Rightarrow> shared_graph \<Rightarrow> (string list \<times> shared_graph) res" where
  "materialize_loop env [] visited newly g = Inr (newly, g)"
| "materialize_loop env (parent_key # queue) visited newly g =
     (if parent_key \<in> set visited then materialize_loop env queue visited newly g
      else case layer_for g parent_key of
        None \<Rightarrow> materialize_loop env queue (parent_key # visited) newly g
      | Some parent \<Rightarrow>
          (case map_of (gr_states g) parent_key of
             None \<Rightarrow> Inl (ValueError ''layer graph has no state for key'')
           | Some entries \<Rightarrow>
               (case apply_sublayer_entries env parent entries g of
                  Inl e \<Rightarrow> Inl e
                | Inr g1 \<Rightarrow>
                    (case materialize_entries env parent entries g1 of
                       Inl e \<Rightarrow> Inl e
                     | Inr (newly1, queue1, g2) \<Rightarrow>
                         materialize_loop env (queue @ queue1) (parent_key # visited) (newly @ newly1) g2))))"
  by pat_completeness auto

termination
proof (relation "measures [\<lambda>(env, queue, visited, newly, g). card ((all_child_keys (gr_states g) \<union> set queue) - set visited),
    \<lambda>(env, queue, visited, newly, g). length queue]"; (simp; fail)?)
  fix env :: "'l graph_env" and k and queue visited newly :: "string list" and g :: shared_graph
  let ?U = "\<lambda>q. all_child_keys (gr_states g) \<union> set q"
  have card: "card (?U (queue @ queue1) - set (k # visited)) < card (?U (k # queue) - set visited)"
    if "k \<notin> set visited" "set queue1 \<subseteq> all_child_keys (gr_states g)" for queue1
    by (rule psubset_card_mono) (use that in auto)
  let ?R = "measures [\<lambda>(env, queue, visited, newly, g). card ((all_child_keys (gr_states g) \<union> set queue) - set visited),
    \<lambda>(env, queue, visited, newly, g). length queue]"
  show "((env, queue, k # visited, newly, g), env, k # queue, visited, newly, g) \<in> ?R" if "k \<notin> set visited"
    using card [OF that, of "[]"] by simp
  fix parent entries g1 x newly1 y queue1 g2
  assume h: "k \<notin> set visited" "map_of (gr_states g) k = Some entries" "apply_sublayer_entries env parent entries g = Inr g1"
    "materialize_entries env parent entries g1 = Inr x" "(newly1, y) = x" "(queue1, g2) = y"
  then have m: "materialize_entries env parent entries g1 = Inr (newly1, queue1, g2)" by simp
  have "set (keyed entries) \<subseteq> all_child_keys (gr_states g)"
    using child_keys_subset [of "gr_states g" k] h(2) by (simp add: child_keys_def dict_get_def)
  with materialize_entries_topology(2) [OF m] have "set queue1 \<subseteq> all_child_keys (gr_states g)" by blast
  moreover have "gr_states g2 = gr_states g"
    using topologyD(1) [OF materialize_entries_topology(1) [OF m]] topologyD(1) [OF apply_entries_topology [OF h(3)]] by simp
  ultimately show "((env, queue @ queue1, k # visited, newly @ newly1, g2), env, k # queue, visited, newly, g) \<in> ?R"
    using card [OF h(1), of queue1] by simp
qed

definition materialize_states :: "'l graph_env \<Rightarrow> shared_graph \<Rightarrow> (string list \<times> shared_graph) res" where
  "materialize_states env g = materialize_loop env [gr_root_key g] [] [] g"

definition refresh_dependencies :: "'l graph_env \<Rightarrow> shared_graph \<Rightarrow> (string list \<times> shared_graph) res" where
  "refresh_dependencies env g = materialize_states env g"

definition apply_state_inner :: "'l graph_env \<Rightarrow> graph_state \<Rightarrow> shared_graph \<Rightarrow> shared_graph res" where
  "apply_state_inner env m g =
     (case validate_topology env m of
        Inl e \<Rightarrow> Inl e
      | Inr (states, revisions) \<Rightarrow>
          (case bind_key (gs_root_key m) (gr_stage_root g) (g\<lparr>gr_generation := gs_generation m, gr_revision := gs_revision m,
              gr_root_key := gs_root_key m, gr_layers := [], gr_keys := [], gr_identity_keys := [], gr_identity_ids := [],
              gr_states := states, gr_parent_revisions := revisions\<rparr>) of
             Inl e \<Rightarrow> Inl e
           | Inr g1 \<Rightarrow> (case materialize_states env g1 of Inl e \<Rightarrow> Inl e | Inr (newly, g2) \<Rightarrow> Inr g2)))"

text \<open>\<open>apply_state\<close> of the router: whether the baseline was newer than the state.\<close>

definition apply_state :: "'l graph_env \<Rightarrow> graph_state \<Rightarrow> shared_graph \<Rightarrow> (bool \<times> shared_graph) res" where
  "apply_state env m g =
     (if gs_revision m < 0 then Inl (ValueError ''layer state revision must be non-negative'')
      else if gs_generation m = gr_generation g \<and> gs_revision m \<le> gr_revision g then Inr (False, g)
      else case apply_state_inner env m g of
        Inl e \<Rightarrow> Inl e
      | Inr g' \<Rightarrow> Inr (True, g'\<lparr>gr_generation := gs_generation m, gr_revision := gs_revision m, gr_ready := True\<rparr>))"

section \<open>Topology edits\<close>

definition describe_sublayers :: "'l graph_env \<Rightarrow> string \<Rightarrow> shared_graph \<Rightarrow> topology_event res" where
  "describe_sublayers env layer g =
     (case key_for g layer of
        None \<Rightarrow> Inl (ValueError ''layer is not mapped by the authoritative graph'')
      | Some layer_key \<Rightarrow>
          if layer_key = [] \<or> \<not> gr_ready g then Inl (ValueError ''layer is not mapped by the authoritative graph'')
          else case entries_for_layer env False layer g of
            Inl e \<Rightarrow> Inl e
          | Inr (entries, children, g') \<Rightarrow>
              Inr \<lparr>te_generation = gr_generation g, te_revision = parent_revision g layer_key, te_sublayers = entries\<rparr>)"

text \<open>The loop of \<open>canonicalize_sublayers\<close> over the normalized entries.\<close>

fun canonicalize_loop ::
  "'l graph_env \<Rightarrow> string \<Rightarrow> event list \<Rightarrow> (string \<times> string) list \<Rightarrow> shared_graph
     \<Rightarrow> (event list \<times> (string \<times> string) list \<times> shared_graph) res" where
  "canonicalize_loop env parent [] pending g = Inr ([], [], g)"
| "canonicalize_loop env parent (entry # rest) pending g =
     (case ge_resolve env parent (entry_path entry) of
        None \<Rightarrow>
          (case canonicalize_loop env parent rest pending g of
             Inl e \<Rightarrow> Inl e
           | Inr (canonical, mappings, g') \<Rightarrow> Inr (AList.delete ''layer_key'' entry # canonical, mappings, g'))
      | Some child \<Rightarrow>
          let known = (case key_for g child of Some k \<Rightarrow> Some k | None \<Rightarrow>
                (case map_of pending child of Some k \<Rightarrow> Some k | None \<Rightarrow> map_of (gr_identity_keys g) child))
          in if known \<noteq> None \<and> entry_key entry \<noteq> None \<and> entry_key entry \<noteq> known
             then Inl (StaleLayerGraphError ''sublayer has stale layer key'')
             else
               let (layer_key, pending1, g1) = (case known of
                     Some k \<Rightarrow> (k, pending, g)
                   | None \<Rightarrow> let (k, g1) = new_layer_key env g in (k, AList.update child k pending, g1))
               in case canonicalize_loop env parent rest pending1 g1 of
                    Inl e \<Rightarrow> Inl e
                  | Inr (canonical, mappings, g') \<Rightarrow>
                      Inr (AList.update ''layer_key'' (PStr layer_key) entry # canonical, (child, layer_key) # mappings, g'))"

definition canonicalize_sublayers ::
  "'l graph_env \<Rightarrow> string \<Rightarrow> topology_event \<Rightarrow> shared_graph \<Rightarrow> (prepared_sublayers \<times> shared_graph) res" where
  "canonicalize_sublayers env parent_key ev g =
     (if \<not> gr_authoritative g then Inl (RuntimeError ''only the authoritative graph can assign layer keys'')
      else if te_generation ev \<noteq> gr_generation g
      then Inl (StaleLayerGraphError ''sublayer event belongs to a different graph generation'')
      else case layer_for g parent_key of
        None \<Rightarrow> Inl (StaleLayerGraphError ''unknown shared layer key'')
      | Some parent \<Rightarrow>
          if parent_key \<notin> set (reachable_layer_keys g) then Inl (StaleLayerGraphError ''unknown shared layer key'')
          else if te_revision ev \<noteq> parent_revision g parent_key
          then Inl (StaleLayerGraphError ''expected base parent topology revision'')
          else case normalized env (te_sublayers ev) of
            Inl e \<Rightarrow> Inl e
          | Inr entries \<Rightarrow>
              (case canonicalize_loop env parent entries [] g of
                 Inl e \<Rightarrow> Inl e
               | Inr (canonical, mappings, g') \<Rightarrow>
                   Inr (\<lparr>ps_parent_key = parent_key,
                         ps_event = \<lparr>te_generation = gr_generation g, te_revision = parent_revision g parent_key + 1,
                           te_sublayers = canonical\<rparr>,
                         ps_mappings = mappings\<rparr>, g')))"

definition accept_sublayers :: "'l graph_env \<Rightarrow> prepared_sublayers \<Rightarrow> shared_graph \<Rightarrow> shared_graph res" where
  "accept_sublayers env prepared g =
     (let ev = ps_event prepared; expected = parent_revision g (ps_parent_key prepared) + 1
      in if te_generation ev \<noteq> gr_generation g
         then Inl (StaleLayerGraphError ''sublayer event belongs to a different graph generation'')
         else if te_revision ev \<noteq> expected then Inl (StaleLayerGraphError ''expected parent topology revision'')
         else case bind_keys (ps_mappings prepared) g of
           Inl e \<Rightarrow> Inl e
         | Inr g1 \<Rightarrow>
             (case normalized env (te_sublayers ev) of
                Inl e \<Rightarrow> Inl e
              | Inr entries \<Rightarrow> Inr (g1\<lparr>gr_states := AList.update (ps_parent_key prepared) entries (gr_states g1),
                  gr_parent_revisions := AList.update (ps_parent_key prepared) expected (gr_parent_revisions g1),
                  gr_revision := gr_revision g1 + 1\<rparr>)))"

partial_function (option) discover_loop ::
  "'l graph_env \<Rightarrow> (string \<times> string) list \<Rightarrow> string list \<Rightarrow> (string \<times> topology_event) list \<Rightarrow> shared_graph
     \<Rightarrow> ((string \<times> topology_event) list \<times> shared_graph) res option" where
  "discover_loop env queue visited records g =
     (case queue of
        [] \<Rightarrow> Some (Inr (records, g))
      | mapping # rest \<Rightarrow>
          if snd mapping \<in> set visited \<or> map_of (gr_states g) (snd mapping) \<noteq> None
          then discover_loop env rest visited records g
          else case describe_sublayers env (fst mapping) g of
            Inl e \<Rightarrow> Some (Inl e)
          | Inr ev \<Rightarrow>
              (case canonicalize_sublayers env (snd mapping) ev g of
                 Inl e \<Rightarrow> Some (Inl e)
               | Inr (prepared, g1) \<Rightarrow>
                   (case accept_sublayers env prepared g1 of
                      Inl e \<Rightarrow> Some (Inl e)
                    | Inr g2 \<Rightarrow>
                        discover_loop env (rest @ ps_mappings prepared) (snd mapping # visited)
                          (records @ [(snd mapping, ps_event prepared)]) g2)))"

declare discover_loop.simps [code]

definition discover_sublayer_states ::
  "'l graph_env \<Rightarrow> (string \<times> string) list \<Rightarrow> shared_graph \<Rightarrow> ((string \<times> topology_event) list \<times> shared_graph) res option" where
  "discover_sublayer_states env mappings g =
     (if \<not> gr_authoritative g then Some (Inl (RuntimeError ''only the authoritative graph can discover layer state''))
      else map_option (map_sum id (map_prod id prune_unreachable_states)) (discover_loop env mappings [] [] g))"

text \<open>One parent of \<open>refresh_resolved_sublayers\<close>: the records it adds.\<close>

definition refresh_parent ::
  "'l graph_env \<Rightarrow> string \<Rightarrow> shared_graph \<Rightarrow> ((string \<times> topology_event) list \<times> shared_graph) res option" where
  "refresh_parent env parent_key g =
     (case layer_for g parent_key of
        None \<Rightarrow> Some (Inr ([], g))
      | Some parent \<Rightarrow>
          let current = dict_get (gr_states g) parent_key []
          in if \<not> list_ex (\<lambda>entry. entry_key entry = None) current then Some (Inr ([], g))
             else case describe_sublayers env parent g of
               Inl e \<Rightarrow> Some (Inl e)
             | Inr ev \<Rightarrow>
                 (case canonicalize_sublayers env parent_key ev g of
                    Inl e \<Rightarrow> Some (Inl e)
                  | Inr (prepared, g1) \<Rightarrow>
                      if te_sublayers (ps_event prepared) = current then Some (Inr ([], g1))
                      else case accept_sublayers env prepared g1 of
                        Inl e \<Rightarrow> Some (Inl e)
                      | Inr g2 \<Rightarrow>
                          map_option (map_sum id (map_prod (Cons (parent_key, ps_event prepared)) id))
                            (discover_sublayer_states env (ps_mappings prepared) g2)))"

fun refresh_loop ::
  "'l graph_env \<Rightarrow> string list \<Rightarrow> (string \<times> topology_event) list \<Rightarrow> shared_graph
     \<Rightarrow> ((string \<times> topology_event) list \<times> shared_graph) res option" where
  "refresh_loop env [] records g = Some (Inr (records, g))"
| "refresh_loop env (parent_key # rest) records g =
     (case refresh_parent env parent_key g of
        None \<Rightarrow> None
      | Some r \<Rightarrow> (case r of Inl e \<Rightarrow> Some (Inl e) | Inr p \<Rightarrow> refresh_loop env rest (records @ fst p) (snd p)))"

definition refresh_resolved_sublayers :: "'l graph_env \<Rightarrow> shared_graph \<Rightarrow> ((string \<times> topology_event) list \<times> shared_graph) res option" where
  "refresh_resolved_sublayers env g =
     (if \<not> gr_authoritative g then Some (Inl (RuntimeError ''only the authoritative graph can assign layer keys''))
      else map_option (map_sum id (map_prod id prune_unreachable_states)) (refresh_loop env (reachable_layer_keys g) [] g))"

text \<open>The children of an applied event that this process resolves.\<close>

definition local_mappings :: "'l graph_env \<Rightarrow> string option \<Rightarrow> event list \<Rightarrow> (string \<times> string) list" where
  "local_mappings env parent entries =
     (case parent of
        None \<Rightarrow> []
      | Some p \<Rightarrow> List.map_filter (\<lambda>entry. case (entry_key entry, ge_resolve env p (entry_path entry)) of
            (Some k, Some child) \<Rightarrow> Some (child, k) | _ \<Rightarrow> None) entries)"

definition apply_sublayers :: "'l graph_env \<Rightarrow> string \<Rightarrow> topology_event \<Rightarrow> shared_graph \<Rightarrow> shared_graph res" where
  "apply_sublayers env parent_key ev g =
     (if te_generation ev \<noteq> gr_generation g
      then Inl (StaleLayerGraphError ''sublayer event belongs to a different graph generation'')
      else if parent_key \<notin> set (reachable_layer_keys g) then Inl (StaleLayerGraphError ''unknown shared layer key'')
      else if te_revision ev \<noteq> parent_revision g parent_key + 1
      then Inl (StaleLayerGraphError ''expected parent topology revision'')
      else case normalized env (te_sublayers ev) of
        Inl e \<Rightarrow> Inl e
      | Inr entries \<Rightarrow>
          (case (case layer_for g parent_key of None \<Rightarrow> Inr g | Some p \<Rightarrow> apply_sublayer_entries env p entries g) of
             Inl e \<Rightarrow> Inl e
           | Inr g1 \<Rightarrow>
               (case accept_sublayers env \<lparr>ps_parent_key = parent_key, ps_event = ev,
                    ps_mappings = local_mappings env (layer_for g parent_key) entries\<rparr> g1 of
                  Inl e \<Rightarrow> Inl e | Inr g2 \<Rightarrow> Inr (prune_unreachable_states g2))))"

text \<open>
  The topology part of \<open>_commit_shared\<close> of \<open>server/commit.py\<close>: the edit is made canonical and
  applied to the target layer, the routing state follows, and the records are the edit and the
  layers it makes reachable. A transaction has at most one topology edit.
\<close>

definition commit_topology ::
  "'l graph_env \<Rightarrow> string \<Rightarrow> topology_event \<Rightarrow> shared_graph \<Rightarrow> ((string \<times> topology_event) list \<times> shared_graph) res option" where
  "commit_topology env layer_key ev g =
     (case layer_for g layer_key of
        None \<Rightarrow> Some (Inl (StaleLayerGraphError ''unknown or unresolved shared layer key''))
      | Some layer \<Rightarrow>
          if layer_key \<notin> set (reachable_layer_keys g)
          then Some (Inl (StaleLayerGraphError ''unknown or unresolved shared layer key''))
          else case canonicalize_sublayers env layer_key ev g of
            Inl e \<Rightarrow> Some (Inl e)
          | Inr (prepared, g1) \<Rightarrow>
              (case apply_sublayer_entries env layer (te_sublayers (ps_event prepared)) g1 of
                 Inl e \<Rightarrow> Some (Inl e)
               | Inr g2 \<Rightarrow>
                   (case accept_sublayers env prepared g2 of
                      Inl e \<Rightarrow> Some (Inl e)
                    | Inr g3 \<Rightarrow>
                        map_option (map_sum id (map_prod (Cons (layer_key, ps_event prepared)) id))
                          (discover_sublayer_states env (ps_mappings prepared) g3))))"

text \<open>What a client or a restarting server does with the records.\<close>

definition apply_topology_records :: "'l graph_env \<Rightarrow> (string \<times> topology_event) list \<Rightarrow> shared_graph \<Rightarrow> shared_graph res" where
  "apply_topology_records env records g = fold_res (\<lambda>(layer_key, ev). apply_sublayers env layer_key ev) records g"

end
