(* ===== verification/Layer_Graph_Correct.thy ===== *)
theory Layer_Graph_Correct
  imports Layer_Graph
begin

text \<open>
  Correctness of the shared layer graph: the walk over the declared sublayers, the identity of
  layers, and the copies that clients and a restarting server keep.

  The abstract state of a graph is its topology: declared sublayers and revisions as maps, and the
  graph's revision. An accepted edit is one step of that state; the server forgets layers that are
  no longer reachable once, after discovering the layers an edit attaches, a follower after every
  record. The step relation \<open>mirror_step\<close> runs a server and a follower; the properties are that they
  agree, that the walks over the layers on disk end, and the edit that sets the two apart.
\<close>

section \<open>Reachability\<close>

type_synonym sublayer_map = "string \<rightharpoonup> event list"

definition edge :: "sublayer_map \<Rightarrow> string \<Rightarrow> string \<Rightarrow> bool" where
  "edge S k c \<longleftrightarrow> (\<exists>E. S k = Some E \<and> c \<in> set (keyed E))"

definition reach :: "sublayer_map \<Rightarrow> string \<Rightarrow> string set" where
  "reach S r = {k. (edge S)\<^sup>*\<^sup>* r k}"

lemma child_keys_edge: "c \<in> set (child_keys states k) \<longleftrightarrow> edge (map_of states) k c"
  by (auto simp: child_keys_def edge_def dict_get_def keyed_def List.map_filter_simps split: option.splits)

lemma reach_loop_contains: "set queue \<union> set seen \<subseteq> set (reach_loop states queue seen)"
  by (induction states queue seen rule: reach_loop.induct) auto

lemma reach_loop_distinct: "distinct seen \<Longrightarrow> distinct (reach_loop states queue seen)"
  by (induction states queue seen rule: reach_loop.induct) auto

lemma reach_loop_closed:
  "(\<forall>k \<in> set seen. \<forall>c. edge (map_of states) k c \<longrightarrow> c \<in> set seen \<union> set queue) \<Longrightarrow>
   (\<forall>k \<in> set (reach_loop states queue seen). \<forall>c. edge (map_of states) k c \<longrightarrow> c \<in> set (reach_loop states queue seen))"
proof (induction states queue seen rule: reach_loop.induct)
  case (2 states x queue seen)
  show ?case
  proof (cases "x \<in> set seen")
    case True
    with "2.prems" have "\<forall>k \<in> set seen. \<forall>c. edge (map_of states) k c \<longrightarrow> c \<in> set seen \<union> set queue" by auto
    from "2.IH"(1) [OF True this] True show ?thesis by simp
  next
    case False
    have "\<forall>k \<in> set (seen @ [x]). \<forall>c. edge (map_of states) k c \<longrightarrow> c \<in> set (seen @ [x]) \<union> set (queue @ child_keys states x)"
      using "2.prems" by (auto simp: child_keys_edge)
    from "2.IH"(2) [OF False this] False show ?thesis by simp
  qed
qed simp

lemma reach_loop_sound:
  "k \<in> set (reach_loop states queue seen) \<Longrightarrow> k \<in> set seen \<or> (\<exists>x \<in> set queue. (edge (map_of states))\<^sup>*\<^sup>* x k)"
proof (induction states queue seen rule: reach_loop.induct)
  case (2 states x queue seen)
  show ?case
  proof (cases "x \<in> set seen")
    case True
    with 2 show ?thesis by auto
  next
    case False
    with "2.IH"(2) "2.prems" consider "k \<in> set seen" | "k = x" | y where "y \<in> set queue" "(edge (map_of states))\<^sup>*\<^sup>* y k"
      | y where "y \<in> set (child_keys states x)" "(edge (map_of states))\<^sup>*\<^sup>* y k" by auto
    then show ?thesis by cases (auto simp: child_keys_edge intro: converse_rtranclp_into_rtranclp)
  qed
qed simp

lemma reachable_layer_keys_set:
  "gr_ready g \<Longrightarrow> set (reachable_layer_keys g) = reach (map_of (gr_states g)) (gr_root_key g)"
proof -
  assume ready: "gr_ready g"
  let ?S = "map_of (gr_states g)" and ?r = "gr_root_key g" and ?ks = "set (reach_loop (gr_states g) [gr_root_key g] [])"
  have "?r \<in> ?ks" using reach_loop_contains [of "[?r]" "[]" "gr_states g"] by simp
  moreover have closed: "\<forall>k \<in> ?ks. \<forall>c. edge ?S k c \<longrightarrow> c \<in> ?ks" by (rule reach_loop_closed) simp
  ultimately have "k \<in> ?ks" if "(edge ?S)\<^sup>*\<^sup>* ?r k" for k
  proof -
    from that show ?thesis by (induction rule: rtranclp_induct) (use \<open>?r \<in> ?ks\<close> closed in blast)+
  qed
  then have "reach ?S ?r \<subseteq> ?ks" by (auto simp: reach_def)
  moreover have "?ks \<subseteq> reach ?S ?r" using reach_loop_sound [of _ "gr_states g" "[?r]" "[]"] by (auto simp: reach_def)
  ultimately show ?thesis using ready by (simp add: reachable_layer_keys_def)
qed

lemma reach_root [simp]: "r \<in> reach S r"
  by (simp add: reach_def)

lemma reach_edge: "k \<in> reach S r \<Longrightarrow> edge S k c \<Longrightarrow> c \<in> reach S r"
  by (auto simp: reach_def)

lemma reach_induct [consumes 1, case_names root step]:
  assumes "k \<in> reach S r" "P r" "\<And>k c. k \<in> reach S r \<Longrightarrow> P k \<Longrightarrow> edge S k c \<Longrightarrow> P c"
  shows "P k"
proof -
  have "(edge S)\<^sup>*\<^sup>* r k" using assms(1) by (simp add: reach_def)
  then show ?thesis
  proof (induction rule: rtranclp_induct)
    case (step k c)
    then have "k \<in> reach S r" by (simp add: reach_def)
    from assms(3) [OF this step.IH step.hyps(2)] show ?case .
  qed (rule assms(2))
qed

text \<open>The reachable part of a map is all that counts.\<close>

lemma reach_cong:
  assumes "\<And>k. k \<in> reach S r \<Longrightarrow> S' k = S k"
  shows "reach S' r = reach S r"
proof (intro equalityI subsetI)
  fix k assume "k \<in> reach S r"
  then show "k \<in> reach S' r"
  proof (induction rule: reach_induct)
    case (step k c)
    with assms have "edge S' k c" by (auto simp: edge_def)
    with step show ?case by (auto intro: reach_edge)
  qed simp
next
  fix k assume "k \<in> reach S' r"
  then show "k \<in> reach S r"
  proof (induction rule: reach_induct)
    case (step k c)
    with assms have "edge S k c" by (auto simp: edge_def)
    with step show ?case by (auto intro: reach_edge)
  qed simp
qed

lemma reach_restrict [simp]: "reach (S |` reach S r) r = reach S r"
  by (rule reach_cong) simp

lemma reach_subset:
  assumes "S \<subseteq>\<^sub>m S'"
  shows "reach S r \<subseteq> reach S' r"
proof
  fix k assume "k \<in> reach S r"
  then show "k \<in> reach S' r"
  proof (induction rule: reach_induct)
    case (step k c)
    with assms have "edge S' k c" by (force simp: edge_def map_le_def dom_def)
    with step show ?case by (auto intro: reach_edge)
  qed simp
qed

section \<open>Topologies\<close>

type_synonym topo = "sublayer_map \<times> (string \<rightharpoonup> int) \<times> int"

definition topo_of :: "shared_graph \<Rightarrow> topo" where
  "topo_of g = (map_of (gr_states g), map_of (gr_parent_revisions g), gr_revision g)"

definition prune_topo :: "string \<Rightarrow> topo \<Rightarrow> topo" where
  "prune_topo r T = (case T of (S, R, n) \<Rightarrow> (S |` reach S r, R |` reach S r, n))"

text \<open>One accepted edit of the layer \<open>k\<close>.\<close>

definition accepts :: "'l graph_env \<Rightarrow> string \<Rightarrow> string \<Rightarrow> string \<Rightarrow> topology_event \<Rightarrow> topo \<Rightarrow> topo \<Rightarrow> bool" where
  "accepts env gen r k ev T T' \<longleftrightarrow> (case (T, T') of ((S, R, n), (S', R', n')) \<Rightarrow>
     k \<in> reach S r \<and> te_generation ev = gen \<and> te_revision ev = (case R k of None \<Rightarrow> 0 | Some v \<Rightarrow> v) + 1 \<and>
     (\<exists>E. normalized env (te_sublayers ev) = Inr E \<and> S' = S(k \<mapsto> E)) \<and> R' = R(k \<mapsto> te_revision ev) \<and> n' = n + 1)"

fun discovers :: "'l graph_env \<Rightarrow> string \<Rightarrow> string \<Rightarrow> (string \<times> topology_event) list \<Rightarrow> topo \<Rightarrow> topo \<Rightarrow> bool" where
  "discovers env gen r [] T T' = (T' = T)"
| "discovers env gen r ((k, ev) # rs) T T' = (k \<notin> dom (fst T) \<and> (\<exists>T1. accepts env gen r k ev T T1 \<and> discovers env gen r rs T1 T'))"

text \<open>
  A follower that prunes after every edit keeps up with one that prunes at the end, when no layer
  that has a state becomes reachable again on the way.
\<close>

lemma prune_accepts:
  assumes "accepts env gen r k ev T T1" "dom (fst T1) \<inter> reach (fst T1) r \<subseteq> insert k (reach (fst T) r)"
    and "dom (fst (snd T1)) \<subseteq> dom (fst T1)"
  shows "\<exists>U. accepts env gen r k ev (prune_topo r T) U \<and> prune_topo r U = prune_topo r T1"
proof -
  obtain S R n S1 R1 n1 where T: "T = (S, R, n)" "T1 = (S1, R1, n1)" by (metis prod_cases3)
  from assms(1) obtain E where a: "k \<in> reach S r" "te_generation ev = gen" "normalized env (te_sublayers ev) = Inr E"
    "te_revision ev = (case R k of None \<Rightarrow> 0 | Some v \<Rightarrow> v) + 1" "S1 = S(k \<mapsto> E)" "R1 = R(k \<mapsto> te_revision ev)" "n1 = n + 1"
    by (auto simp: accepts_def T)
  define A where "A = (S |` reach S r)(k \<mapsto> E)"
  define B where "B = (R |` reach S r)(k \<mapsto> te_revision ev)"
  have same: "A x = S1 x" if "x \<in> reach S1 r" for x
  proof (cases "x \<in> dom S1")
    case True
    with assms(2) that have "x \<in> insert k (reach S r)" by (auto simp: T)
    then show ?thesis by (auto simp: A_def a(5))
  next
    case False
    then show ?thesis by (auto simp: A_def a(5) restrict_map_def)
  qed
  then have rA: "reach A r = reach S1 r" by (rule reach_cong)
  have "B x = R1 x" if "x \<in> reach S1 r" for x
  proof (cases "x \<in> dom S1")
    case True
    with assms(2) that have "x \<in> insert k (reach S r)" by (auto simp: T)
    then show ?thesis by (auto simp: B_def a(6))
  next
    case False
    with assms(3) have "x \<notin> dom R1" by (auto simp: T)
    then have "R1 x = None" by auto
    then show ?thesis by (auto simp: B_def a(6) restrict_map_def split: if_splits)
  qed
  then have "B |` reach S1 r = R1 |` reach S1 r" by (auto simp: restrict_map_def)
  moreover have "A |` reach S1 r = S1 |` reach S1 r" using same by (auto simp: restrict_map_def)
  ultimately have "prune_topo r (A, B, n + 1) = prune_topo r T1" by (simp add: prune_topo_def T rA a(7))
  moreover have "accepts env gen r k ev (prune_topo r T) (A, B, n + 1)"
    using a by (simp add: accepts_def prune_topo_def T A_def B_def)
  ultimately show ?thesis by blast
qed

lemma accepts_facts:
  assumes "accepts env gen r k ev T T1"
  shows "dom (fst T1) = insert k (dom (fst T))" "dom (fst (snd T1)) = insert k (dom (fst (snd T)))" "k \<in> reach (fst T) r"
    "k \<notin> dom (fst T) \<Longrightarrow> fst T \<subseteq>\<^sub>m fst T1"
proof -
  obtain S R n S1 R1 n1 where T: "T = (S, R, n)" "T1 = (S1, R1, n1)" by (metis prod_cases3)
  from assms obtain E where "k \<in> reach S r" "S1 = S(k \<mapsto> E)" "R1 = R(k \<mapsto> te_revision ev)" by (auto simp: accepts_def T)
  then show "dom (fst T1) = insert k (dom (fst T))" "dom (fst (snd T1)) = insert k (dom (fst (snd T)))" "k \<in> reach (fst T) r"
    "k \<notin> dom (fst T) \<Longrightarrow> fst T \<subseteq>\<^sub>m fst T1" by (auto simp: T map_le_def)
qed

lemma discovers_facts:
  assumes "discovers env gen r rs T T'"
  shows "fst T \<subseteq>\<^sub>m fst T'" "dom (fst (snd T)) \<subseteq> dom (fst T) \<Longrightarrow> dom (fst (snd T')) \<subseteq> dom (fst T')"
    "reach (fst T) r \<subseteq> reach (fst T') r" "dom (fst T') \<subseteq> dom (fst T) \<union> reach (fst T') r"
proof -
  have "fst T \<subseteq>\<^sub>m fst T' \<and> (dom (fst (snd T)) \<subseteq> dom (fst T) \<longrightarrow> dom (fst (snd T')) \<subseteq> dom (fst T')) \<and>
      dom (fst T') \<subseteq> dom (fst T) \<union> reach (fst T') r"
    using assms
  proof (induction rs arbitrary: T)
    case (Cons x rs)
    obtain k ev where x: "x = (k, ev)" by (cases x)
    with Cons.prems obtain T1 where T1: "k \<notin> dom (fst T)" "accepts env gen r k ev T T1" "discovers env gen r rs T1 T'" by auto
    note st = accepts_facts [OF T1(2)] accepts_facts(4) [OF T1(2,1)]
    note IH = Cons.IH [OF T1(3)]
    have le: "fst T \<subseteq>\<^sub>m fst T'" using st(5) IH by (blast intro: map_le_trans)
    have k: "k \<in> reach (fst T') r" using reach_subset [OF le] st(3) by (rule subsetD)
    have "dom (fst (snd T')) \<subseteq> dom (fst T')" if "dom (fst (snd T)) \<subseteq> dom (fst T)"
      using IH insert_mono [OF that, of k] unfolding st(1,2) by (elim conjE impE)
    moreover have "dom (fst T') \<subseteq> insert k (dom (fst T)) \<union> reach (fst T') r" using IH unfolding st(1) by (elim conjE)
    then have "dom (fst T') \<subseteq> dom (fst T) \<union> reach (fst T') r" using k by (simp add: insert_absorb)
    ultimately show ?case using le by (intro conjI impI)
  qed simp
  then show "fst T \<subseteq>\<^sub>m fst T'" "dom (fst (snd T)) \<subseteq> dom (fst T) \<Longrightarrow> dom (fst (snd T')) \<subseteq> dom (fst T')"
    "reach (fst T) r \<subseteq> reach (fst T') r" "dom (fst T') \<subseteq> dom (fst T) \<union> reach (fst T') r"
    using reach_subset by blast+
qed

text \<open>What a follower does with one record, on topologies.\<close>

definition follows :: "'l graph_env \<Rightarrow> string \<Rightarrow> string \<Rightarrow> string \<times> topology_event \<Rightarrow> topo \<Rightarrow> topo \<Rightarrow> bool" where
  "follows env gen r record1 T T' \<longleftrightarrow> (\<exists>U. accepts env gen r (fst record1) (snd record1) T U \<and> T' = prune_topo r U)"

fun follows_all :: "'l graph_env \<Rightarrow> string \<Rightarrow> string \<Rightarrow> (string \<times> topology_event) list \<Rightarrow> topo \<Rightarrow> topo \<Rightarrow> bool" where
  "follows_all env gen r [] T T' = (T' = T)"
| "follows_all env gen r (x # xs) T T' = (\<exists>T1. follows env gen r x T T1 \<and> follows_all env gen r xs T1 T')"

lemma discovers_followed:
  assumes "discovers env gen r rs T T'" "dom (fst (snd T)) \<subseteq> dom (fst T)"
    and "dom (fst T) \<inter> reach (fst T') r \<subseteq> reach (fst T) r"
  shows "follows_all env gen r rs (prune_topo r T) (prune_topo r T')"
  using assms
proof (induction rs arbitrary: T)
  case (Cons x rs)
  obtain k ev where x: "x = (k, ev)" by (cases x)
  with Cons.prems(1) obtain T1 where T1: "k \<notin> dom (fst T)" "accepts env gen r k ev T T1" "discovers env gen r rs T1 T'" by auto
  have d: "dom (fst T1) = insert k (dom (fst T))" "dom (fst (snd T1)) = insert k (dom (fst (snd T)))" "k \<in> reach (fst T) r"
    "fst T \<subseteq>\<^sub>m fst T1" using accepts_facts [OF T1(2)] accepts_facts(4) [OF T1(2,1)] by blast+
  note f = discovers_facts [OF T1(3)]
  have up: "reach (fst T) r \<subseteq> reach (fst T1) r" by (rule reach_subset [OF d(4)])
  have "dom (fst T1) \<inter> reach (fst T1) r \<subseteq> insert k (reach (fst T) r)"
    unfolding d(1) using Cons.prems(3) f(3) by (auto simp del: domIff)
  moreover have dr: "dom (fst (snd T1)) \<subseteq> dom (fst T1)" unfolding d(1,2) using Cons.prems(2) by (rule insert_mono)
  ultimately obtain U where U: "accepts env gen r k ev (prune_topo r T) U" "prune_topo r U = prune_topo r T1"
    using prune_accepts [OF T1(2)] by blast
  have "dom (fst T1) \<inter> reach (fst T') r \<subseteq> reach (fst T1) r"
    unfolding d(1) using Cons.prems(3) d(3) up by (auto simp del: domIff)
  from Cons.IH [OF T1(3) dr this] have "follows_all env gen r rs (prune_topo r T1) (prune_topo r T')" .
  moreover have "follows env gen r x (prune_topo r T) (prune_topo r T1)" unfolding follows_def x using U by (metis fst_conv snd_conv)
  ultimately show ?case by (simp only: follows_all.simps) blast
qed simp

section \<open>The server's graph\<close>

lemma topo_of_topology: "topology g' = topology g \<Longrightarrow> topo_of g' = topo_of g"
  by (simp add: topology_def topo_of_def)

lemma new_layer_key_frame: "new_layer_key env g = (k, g') \<Longrightarrow> topology g' = topology g \<and> gr_authoritative g' = gr_authoritative g \<and>
    gr_identity_keys g' = gr_identity_keys g \<and> gr_identity_ids g' = gr_identity_ids g"
  by (auto simp: new_layer_key_def new_uuid_def topology_def)

text \<open>What an operation on keys and layers keeps: the topology, the role, and every known identity.\<close>

definition keeps :: "shared_graph \<Rightarrow> shared_graph \<Rightarrow> bool" where
  "keeps g g' \<longleftrightarrow> topology g' = topology g \<and> gr_authoritative g' = gr_authoritative g \<and>
     map_of (gr_identity_keys g) \<subseteq>\<^sub>m map_of (gr_identity_keys g') \<and> map_of (gr_identity_ids g) \<subseteq>\<^sub>m map_of (gr_identity_ids g')"

lemma keeps_refl [simp]: "keeps g g"
  by (simp add: keeps_def)

lemma keeps_trans: "keeps a b \<Longrightarrow> keeps b c \<Longrightarrow> keeps a c"
  by (auto simp: keeps_def intro: map_le_trans)

lemma new_layer_key_keeps: "new_layer_key env g = (k, g') \<Longrightarrow> keeps g g'"
  using new_layer_key_frame [of env g k g'] by (simp add: keeps_def)

lemma bind_key_keeps:
  assumes "bind_key k layer g = Inr g'"
  shows "keeps g g'"
proof -
  have "gr_authoritative g' = gr_authoritative g" "map_of (gr_identity_keys g) \<subseteq>\<^sub>m map_of (gr_identity_keys g')"
    "map_of (gr_identity_ids g) \<subseteq>\<^sub>m map_of (gr_identity_ids g')"
    using assms by (auto simp: bind_key_def router_bind_key_def map_le_def split: if_splits sum.splits)
  with bind_key_topology [OF assms] show ?thesis by (simp add: keeps_def)
qed

lemma bind_keys_keeps: "bind_keys mappings g = Inr g' \<Longrightarrow> keeps g g'"
  unfolding bind_keys_def
proof (induction mappings arbitrary: g)
  case (Cons m ms)
  then show ?case by (auto split: prod.splits sum.splits dest!: bind_key_keeps intro: keeps_trans)
qed simp

lemma apply_entries_keeps: "apply_sublayer_entries env layer entries g = Inr g' \<Longrightarrow> keeps g g'"
  by (auto simp: keeps_def topology_def apply_sublayer_entries_def split: sum.splits)

lemma entry_key_update [simp]: "k \<noteq> [] \<Longrightarrow> entry_key (AList.update ''layer_key'' (PStr k) entry) = Some k"
  by (simp add: entry_key_def ev_str_def)

lemma entry_key_delete [simp]: "entry_key (AList.delete ''layer_key'' entry) = None"
  by (simp add: entry_key_def ev_str_def)

lemma canonicalize_loop_spec:
  assumes "canonicalize_loop env parent entries pending g = Inr (canonical, mappings, g')"
  shows "keeps g g' \<and> set (keyed canonical) \<subseteq> snd ` set mappings"
  using assms
proof (induction entries arbitrary: pending g canonical mappings)
  case (Cons entry rest)
  show ?case
  proof (cases "ge_resolve env parent (entry_path entry)")
    case None
    with Cons.prems obtain c where c: "canonicalize_loop env parent rest pending g = Inr (c, mappings, g')"
      "canonical = AList.delete ''layer_key'' entry # c" by (auto split: sum.splits)
    from Cons.IH [OF c(1)] show ?thesis by (simp add: c(2) keyed_def List.map_filter_simps)
  next
    case (Some child)
    with Cons.prems obtain k pending1 g1 c ms where c: "canonicalize_loop env parent rest pending1 g1 = Inr (c, ms, g')"
      "canonical = AList.update ''layer_key'' (PStr k) entry # c" "mappings = (child, k) # ms" "keeps g g1"
      by (auto simp: Let_def split: sum.splits if_splits option.splits prod.splits dest: new_layer_key_keeps)
    from Cons.IH [OF c(1)] c(4) have "keeps g g'" "set (keyed c) \<subseteq> snd ` set ms" by (auto intro: keeps_trans)
    moreover have "set (keyed canonical) \<subseteq> insert k (set (keyed c))"
      by (cases "k = []") (auto simp: c(2) keyed_def List.map_filter_simps entry_key_def ev_str_def split: if_splits)
    ultimately show ?thesis by (auto simp: c(3))
  qed
qed (simp add: keyed_def List.map_filter_simps)

text \<open>An accepted edit, before the unreachable layers are forgotten.\<close>

definition closes :: "'l graph_env \<Rightarrow> topology_event \<Rightarrow> (string \<times> string) list \<Rightarrow> bool" where
  "closes env ev mappings \<longleftrightarrow> (\<forall>E. normalized env (te_sublayers ev) = Inr E \<longrightarrow> set (keyed E) \<subseteq> snd ` set mappings)"

definition same_graph :: "shared_graph \<Rightarrow> shared_graph \<Rightarrow> bool" where
  "same_graph g g' \<longleftrightarrow> gr_generation g' = gr_generation g \<and> gr_root_key g' = gr_root_key g \<and> gr_ready g' = gr_ready g \<and>
     gr_authoritative g' = gr_authoritative g \<and> gr_stage_root g' = gr_stage_root g \<and>
     map_of (gr_identity_keys g) \<subseteq>\<^sub>m map_of (gr_identity_keys g') \<and> map_of (gr_identity_ids g) \<subseteq>\<^sub>m map_of (gr_identity_ids g')"

lemma same_graph_refl [simp]: "same_graph g g"
  by (simp add: same_graph_def)

lemma same_graph_trans: "same_graph a b \<Longrightarrow> same_graph b c \<Longrightarrow> same_graph a c"
  by (auto simp: same_graph_def intro: map_le_trans)

lemma keeps_same: "keeps g g' \<Longrightarrow> same_graph g g'"
  by (auto simp: keeps_def same_graph_def topology_def)

lemma normalized_keys:
  assumes "normalized env entries = Inr E"
  shows "set (keyed E) \<subseteq> set (keyed entries)"
proof -
  have "set (keyed items) \<subseteq> set (keyed es)" if "normalize_loop lib seen (map PDict es) = Inr items" for lib :: "'a sdf_lib" and seen es items
    using that
  proof (induction es arbitrary: seen items)
    case (Cons e es)
    then obtain item rest where it: "normalize_entry lib seen (PDict e) = Inr item"
      "normalize_loop lib (entry_path item # seen) (map PDict es) = Inr rest" "items = item # rest"
      by (auto split: sum.splits)
    have "entry_key item = None \<or> entry_key item = entry_key e"
      using it(1) by (auto simp: normalize_entry_def Let_def entry_key_def ev_str_def py_get_default_def split: sum.splits if_splits option.splits pyval.splits)
    with Cons.IH [OF it(2)] show ?case by (auto simp: it(3) keyed_def List.map_filter_simps split: option.splits)
  qed (simp add: keyed_def List.map_filter_simps)
  with assms show ?thesis by (auto simp: normalized_def normalize_sublayer_entries_def)
qed

lemma accept_sublayers_spec:
  assumes "accept_sublayers env prepared g = Inr g'" "k = ps_parent_key prepared" "gr_ready g" "k \<in> set (reachable_layer_keys g)"
  shows "same_graph g g'" "accepts env (gr_generation g) (gr_root_key g) k (ps_event prepared) (topo_of g) (topo_of g')"
proof -
  let ?ev = "ps_event prepared"
  from assms(1,2) obtain g1 E where b: "bind_keys (ps_mappings prepared) g = Inr g1" "normalized env (te_sublayers ?ev) = Inr E"
    and ok: "te_generation ?ev = gr_generation g" "te_revision ?ev = parent_revision g k + 1"
    and g': "g' = g1\<lparr>gr_states := AList.update k E (gr_states g1),
      gr_parent_revisions := AList.update k (parent_revision g k + 1) (gr_parent_revisions g1), gr_revision := gr_revision g1 + 1\<rparr>"
    by (auto simp: accept_sublayers_def Let_def split: if_splits sum.splits)
  note kp = bind_keys_keeps [OF b(1)]
  have t: "topology g1 = topology g" using kp by (simp add: keeps_def)
  show "same_graph g g'" using keeps_same [OF kp] by (simp add: g' same_graph_def)
  have "k \<in> reach (map_of (gr_states g)) (gr_root_key g)" using assms(3,4) by (simp add: reachable_layer_keys_set)
  then show "accepts env (gr_generation g) (gr_root_key g) k ?ev (topo_of g) (topo_of g')"
    using b(2) ok topologyD [OF t] by (simp add: accepts_def topo_of_def g' parent_revision_def dict_get_def)
qed

lemma canonicalize_spec:
  assumes "canonicalize_sublayers env k ev g = Inr (prepared, g')"
  shows "keeps g g'" "ps_parent_key prepared = k" "k \<in> set (reachable_layer_keys g)" "closes env (ps_event prepared) (ps_mappings prepared)"
proof -
  from assms obtain parent entries canonical mappings where c: "canonicalize_loop env parent entries [] g = Inr (canonical, mappings, g')"
    and p: "prepared = \<lparr>ps_parent_key = k, ps_event = \<lparr>te_generation = gr_generation g, te_revision = parent_revision g k + 1,
      te_sublayers = canonical\<rparr>, ps_mappings = mappings\<rparr>" "k \<in> set (reachable_layer_keys g)"
    by (auto simp: canonicalize_sublayers_def split: if_splits option.splits sum.splits prod.splits)
  from canonicalize_loop_spec [OF c] normalized_keys [of env canonical] p
  show "keeps g g'" "ps_parent_key prepared = k" "k \<in> set (reachable_layer_keys g)" "closes env (ps_event prepared) (ps_mappings prepared)"
    by (auto simp: closes_def)
qed

text \<open>An edit as the server commits it, from the canonical event to the new state.\<close>

lemma edit_spec:
  assumes "canonicalize_sublayers env k ev g = Inr (prepared, g1)" "keeps g1 g2" "accept_sublayers env prepared g2 = Inr g3" "gr_ready g"
  shows "same_graph g g3" "accepts env (gr_generation g) (gr_root_key g) k (ps_event prepared) (topo_of g) (topo_of g3)"
    "closes env (ps_event prepared) (ps_mappings prepared)"
proof -
  note c = canonicalize_spec [OF assms(1)]
  have k: "keeps g g2" using c(1) assms(2) by (rule keeps_trans)
  then have t: "topology g2 = topology g" by (simp add: keeps_def)
  note tD = topologyD [OF t]
  have "set (reachable_layer_keys g2) = set (reachable_layer_keys g)" using tD by (simp add: reachable_layer_keys_def)
  with accept_sublayers_spec [OF assms(3) c(2) [symmetric]] c(3) assms(4) tD
  have a: "same_graph g2 g3" "accepts env (gr_generation g2) (gr_root_key g2) k (ps_event prepared) (topo_of g2) (topo_of g3)" by simp_all
  show "same_graph g g3" using keeps_same [OF k] a(1) by (rule same_graph_trans)
  show "accepts env (gr_generation g) (gr_root_key g) k (ps_event prepared) (topo_of g) (topo_of g3)"
    using a(2) tD topo_of_topology [OF t] by simp
  show "closes env (ps_event prepared) (ps_mappings prepared)" by (rule c(4))
qed

section \<open>Discovery\<close>

text \<open>Every declared child of a layer has a state.\<close>

definition child_complete :: "sublayer_map \<Rightarrow> string set \<Rightarrow> bool" where
  "child_complete S K \<longleftrightarrow> (\<forall>k E. S k = Some E \<longrightarrow> set (keyed E) \<subseteq> dom S \<union> K)"

lemma complete_accepts:
  assumes "child_complete (fst T) K" "accepts env gen r k ev T T1" "closes env ev mappings"
  shows "child_complete (fst T1) (K \<union> snd ` set mappings)"
proof -
  obtain S R n S1 R1 n1 where T: "T = (S, R, n)" "T1 = (S1, R1, n1)" by (metis prod_cases3)
  from assms(2) obtain E where E: "normalized env (te_sublayers ev) = Inr E" "S1 = S(k \<mapsto> E)" by (auto simp: accepts_def T)
  with assms(3) have "set (keyed E) \<subseteq> snd ` set mappings" by (simp add: closes_def)
  with assms(1) E(2) show ?thesis by (fastforce simp: child_complete_def T split: if_splits)
qed

lemma complete_drop: "child_complete S (insert k K) \<Longrightarrow> k \<in> dom S \<Longrightarrow> child_complete S K"
  by (auto simp: child_complete_def)

text \<open>What the loop has done when it returns.\<close>

definition discovered ::
  "'l graph_env \<Rightarrow> (string \<times> string) list \<Rightarrow> string list \<Rightarrow> (string \<times> topology_event) list \<Rightarrow> shared_graph
     \<Rightarrow> ((string \<times> topology_event) list \<times> shared_graph) res \<Rightarrow> bool" where
  "discovered env queue visited records g y \<longleftrightarrow> (\<forall>records' g'. y = Inr (records', g') \<longrightarrow> gr_ready g \<longrightarrow>
     set visited \<subseteq> dom (map_of (gr_states g)) \<longrightarrow> child_complete (map_of (gr_states g)) (snd ` set queue) \<longrightarrow>
     (\<exists>new. records' = records @ new \<and> same_graph g g' \<and>
        discovers env (gr_generation g) (gr_root_key g) new (topo_of g) (topo_of g') \<and> child_complete (map_of (gr_states g')) {}))"

lemma discovered_skip:
  assumes "discovered env rest visited records g y" "snd m \<in> set visited \<or> map_of (gr_states g) (snd m) \<noteq> None"
  shows "discovered env (m # rest) visited records g y"
proof -
  have "child_complete (map_of (gr_states g)) (snd ` set rest)"
    if "set visited \<subseteq> dom (map_of (gr_states g))" "child_complete (map_of (gr_states g)) (snd ` set (m # rest))"
  proof -
    have "snd m \<in> dom (map_of (gr_states g))" using assms(2) that(1) by blast
    with that(2) show ?thesis by (auto intro: complete_drop)
  qed
  with assms(1) show ?thesis by (simp add: discovered_def)
qed

lemma discovered_edit:
  assumes "canonicalize_sublayers env k ev g = Inr (prepared, g1)" "accept_sublayers env prepared g1 = Inr g2"
    and "map_of (gr_states g) k = None" "snd m = k"
    and "discovered env (rest @ ps_mappings prepared) (k # visited) (records @ [(k, ps_event prepared)]) g2 y"
  shows "discovered env (m # rest) visited records g y"
  unfolding discovered_def
proof (intro allI impI)
  fix records' g' assume h: "y = Inr (records', g')" "gr_ready g" "set visited \<subseteq> dom (map_of (gr_states g))"
    "child_complete (map_of (gr_states g)) (snd ` set (m # rest))"
  note ed = edit_spec [OF assms(1) keeps_refl assms(2) h(2)]
  have S: "dom (map_of (gr_states g2)) = insert k (dom (map_of (gr_states g)))"
    using accepts_facts(1) [OF ed(2)] by (simp add: topo_of_def)
  have "child_complete (map_of (gr_states g2)) (snd ` set (m # rest) \<union> snd ` set (ps_mappings prepared))"
    using complete_accepts [OF _ ed(2,3), of "snd ` set (m # rest)"] h(4) by (simp add: topo_of_def)
  then have c: "child_complete (map_of (gr_states g2)) (snd ` set (rest @ ps_mappings prepared))"
    unfolding list.set image_insert set_append image_Un Un_insert_left assms(4)
  proof (rule complete_drop)
    show "k \<in> dom (map_of (gr_states g2))" unfolding S by simp
  qed
  have v: "set (k # visited) \<subseteq> dom (map_of (gr_states g2))" using h(3) S by auto
  have sg: "gr_ready g2" "gr_generation g2 = gr_generation g" "gr_root_key g2 = gr_root_key g"
    using ed(1) h(2) by (simp_all add: same_graph_def)
  from assms(5) [unfolded discovered_def, rule_format, OF h(1) sg(1) v c] obtain new
    where new: "records' = (records @ [(k, ps_event prepared)]) @ new" "same_graph g2 g'"
      "discovers env (gr_generation g) (gr_root_key g) new (topo_of g2) (topo_of g')" "child_complete (map_of (gr_states g')) {}"
    unfolding sg(2,3) by blast
  have "k \<notin> dom (fst (topo_of g))" using assms(3) by (simp add: topo_of_def domIff)
  with ed(2) new(3) have "discovers env (gr_generation g) (gr_root_key g) ((k, ps_event prepared) # new) (topo_of g) (topo_of g')"
    by (simp only: discovers.simps) blast
  moreover have "same_graph g g'" using ed(1) new(2) by (rule same_graph_trans)
  ultimately show "\<exists>new. records' = records @ new \<and> same_graph g g' \<and>
      discovers env (gr_generation g) (gr_root_key g) new (topo_of g) (topo_of g') \<and> child_complete (map_of (gr_states g')) {}"
    using new(1,4) by (intro exI [of _ "(k, ps_event prepared) # new"]) simp
qed

lemma discover_loop_spec: "discover_loop env queue visited records g = Some y \<Longrightarrow> discovered env queue visited records g y"
proof (erule discover_loop.raw_induct [rotated], goal_cases)
  case (1 loop env queue visited records g y)
  show ?case
  proof (cases queue)
    case Nil
    with 1(2) show ?thesis by (auto simp: discovered_def)
  next
    case (Cons m rest)
    show ?thesis
    proof (cases "snd m \<in> set visited \<or> map_of (gr_states g) (snd m) \<noteq> None")
      case True
      with 1(2) Cons have "loop env rest visited records g = Some y" by simp
      from discovered_skip [OF 1(1) [OF this] True] show ?thesis by (simp add: Cons)
    next
      case False
      show ?thesis
      proof (cases y)
        case (Inr p)
        with 1(2) Cons False obtain ev prepared g1 g2 where e: "canonicalize_sublayers env (snd m) ev g = Inr (prepared, g1)"
          "accept_sublayers env prepared g1 = Inr g2"
          and l: "loop env (rest @ ps_mappings prepared) (snd m # visited) (records @ [(snd m, ps_event prepared)]) g2 = Some y"
          by (auto split: sum.splits prod.splits)
        from discovered_edit [OF e _ refl 1(1) [OF l]] False show ?thesis by (simp add: Cons)
      qed (simp add: discovered_def)
    qed
  qed
qed

section \<open>Committed edits\<close>

definition topo_ok :: "'l graph_env \<Rightarrow> topo \<Rightarrow> bool" where
  "topo_ok env T \<longleftrightarrow> (case T of (S, R, n) \<Rightarrow> dom R = dom S \<and> (\<forall>k v. R k = Some v \<longrightarrow> 1 \<le> v) \<and>
     (\<forall>k E. S k = Some E \<longrightarrow> normalized env E = Inr E) \<and> 1 \<le> n)"

lemma normalized_fixed:
  assumes "normalized env entries = Inr E"
  shows "normalized env E = Inr E"
  using normalize_loop_fixed [OF assms [unfolded normalized_def normalize_sublayer_entries_def]]
  by (simp add: normalized_def normalize_sublayer_entries_def)

lemma accepts_ok:
  assumes "accepts env gen r k ev T T1" "topo_ok env T"
  shows "topo_ok env T1"
proof -
  obtain S R n S1 R1 n1 where T: "T = (S, R, n)" "T1 = (S1, R1, n1)" by (metis prod_cases3)
  from assms(1) obtain E where a: "normalized env (te_sublayers ev) = Inr E" "te_revision ev = (case R k of None \<Rightarrow> 0 | Some v \<Rightarrow> v) + 1"
    "S1 = S(k \<mapsto> E)" "R1 = R(k \<mapsto> te_revision ev)" "n1 = n + 1" by (auto simp: accepts_def T)
  have "1 \<le> te_revision ev" using assms(2) a(2) by (force simp: topo_ok_def T split: option.splits)
  with assms(2) normalized_fixed [OF a(1)] show ?thesis by (auto simp: topo_ok_def T a)
qed

lemma discovers_ok: "discovers env gen r rs T T' \<Longrightarrow> topo_ok env T \<Longrightarrow> topo_ok env T'"
proof (induction rs arbitrary: T)
  case (Cons x rs)
  then show ?case by (cases x) (metis accepts_ok discovers.simps(2))
qed simp

lemma prune_ok: "topo_ok env T \<Longrightarrow> topo_ok env (prune_topo r T)"
proof (cases T)
  case (fields S R n)
  assume "topo_ok env T"
  with fields show ?thesis
    by (simp add: topo_ok_def prune_topo_def dom_restrict) (auto simp: restrict_map_def split: if_splits)
qed

text \<open>The server's graph between edits: it holds the state of exactly the reachable layers.\<close>

definition server_inv :: "'l graph_env \<Rightarrow> shared_graph \<Rightarrow> bool" where
  "server_inv env g \<longleftrightarrow> gr_ready g \<and> gr_root_key g \<noteq> [] \<and> gr_generation g \<noteq> [] \<and> topo_ok env (topo_of g) \<and>
     dom (map_of (gr_states g)) = reach (map_of (gr_states g)) (gr_root_key g)"

lemma topo_of_prune: "gr_ready g \<Longrightarrow> topo_of (prune_unreachable_states g) = prune_topo (gr_root_key g) (topo_of g)"
  by (simp add: topo_of_def prune_topo_def prune_unreachable_states_def Let_def reachable_layer_keys_set map_of_filter_key
      restrict_map_def fun_eq_iff)

lemma prune_frame:
  "gr_ready (prune_unreachable_states g) = gr_ready g" "gr_generation (prune_unreachable_states g) = gr_generation g"
  "gr_root_key (prune_unreachable_states g) = gr_root_key g" "same_graph g (prune_unreachable_states g)"
  by (simp_all add: prune_unreachable_states_def Let_def same_graph_def)

lemma complete_reach:
  assumes "child_complete S {}" "r \<in> dom S"
  shows "reach S r \<subseteq> dom S"
proof
  fix k assume "k \<in> reach S r"
  then show "k \<in> dom S"
    by (induction rule: reach_induct) (use assms in \<open>auto simp: child_complete_def edge_def subset_iff\<close>)
qed

lemma reach_complete:
  assumes "dom S = reach S r"
  shows "child_complete S {}"
proof -
  have "c \<in> dom S" if "S k = Some E" "c \<in> set (keyed E)" for k E c
  proof -
    have "k \<in> reach S r" using that(1) assms by blast
    moreover have "edge S k c" using that by (auto simp: edge_def)
    ultimately show ?thesis unfolding assms by (rule reach_edge)
  qed
  then show ?thesis by (auto simp: child_complete_def)
qed

lemma commit_topology_cases:
  assumes "commit_topology env k ev g = Some (Inr (records, g'))"
  obtains layer prepared g1 g2 g3 new g4 where "canonicalize_sublayers env k ev g = Inr (prepared, g1)"
    "apply_sublayer_entries env layer (te_sublayers (ps_event prepared)) g1 = Inr g2" "accept_sublayers env prepared g2 = Inr g3"
    "discover_loop env (ps_mappings prepared) [] [] g3 = Some (Inr (new, g4))"
    "records = (k, ps_event prepared) # new" "g' = prune_unreachable_states g4"
proof -
  from assms obtain layer prepared g1 g2 g3 where c: "canonicalize_sublayers env k ev g = Inr (prepared, g1)"
    "apply_sublayer_entries env layer (te_sublayers (ps_event prepared)) g1 = Inr g2" "accept_sublayers env prepared g2 = Inr g3"
    and d: "map_option (map_sum id (map_prod (Cons (k, ps_event prepared)) id)) (discover_sublayer_states env (ps_mappings prepared) g3) =
      Some (Inr (records, g'))"
    by (auto simp: commit_topology_def split: option.splits if_splits sum.splits prod.splits)
  from d obtain y where y: "discover_sublayer_states env (ps_mappings prepared) g3 = Some y"
    "map_sum id (map_prod (Cons (k, ps_event prepared)) id) y = Inr (records, g')" by auto
  then obtain new where n: "y = Inr (new, g')" "records = (k, ps_event prepared) # new" by (cases y) auto
  from y(1) n(1) obtain z where z: "discover_loop env (ps_mappings prepared) [] [] g3 = Some z"
    "map_sum id (map_prod id prune_unreachable_states) z = Inr (new, g')"
    by (auto simp: discover_sublayer_states_def split: if_splits)
  then obtain g4 where "z = Inr (new, g4)" "g' = prune_unreachable_states g4" by (cases z) auto
  with c z(1) n(2) show thesis by (intro that) simp_all
qed

lemma commit_topology_spec:
  assumes "commit_topology env k ev g = Some (Inr (records, g'))" "server_inv env g"
  shows "\<exists>ev' new T1 T2. records = (k, ev') # new \<and> accepts env (gr_generation g) (gr_root_key g) k ev' (topo_of g) T1 \<and>
    discovers env (gr_generation g) (gr_root_key g) new T1 T2 \<and> topo_of g' = prune_topo (gr_root_key g) T2 \<and> same_graph g g' \<and> server_inv env g'"
proof -
  have ready: "gr_ready g" using assms(2) by (simp add: server_inv_def)
  from assms(1) obtain layer prepared g1 g2 g3 new g4 where c: "canonicalize_sublayers env k ev g = Inr (prepared, g1)"
    "apply_sublayer_entries env layer (te_sublayers (ps_event prepared)) g1 = Inr g2" "accept_sublayers env prepared g2 = Inr g3"
    and d: "discover_loop env (ps_mappings prepared) [] [] g3 = Some (Inr (new, g4))"
    and r: "records = (k, ps_event prepared) # new" "g' = prune_unreachable_states g4"
    by (rule commit_topology_cases)
  note ed = edit_spec [OF c(1) apply_entries_keeps [OF c(2)] c(3) ready]
  have sg: "gr_ready g3" "gr_generation g3 = gr_generation g" "gr_root_key g3 = gr_root_key g"
    using ed(1) ready by (simp_all add: same_graph_def)
  have "child_complete (map_of (gr_states g)) {}" using assms(2) by (intro reach_complete) (simp add: server_inv_def)
  then have "child_complete (map_of (gr_states g3)) (snd ` set (ps_mappings prepared))"
    using complete_accepts [OF _ ed(2,3), of "{}"] by (simp add: topo_of_def)
  with discover_loop_spec [OF d] sg have di: "same_graph g3 g4"
    "discovers env (gr_generation g) (gr_root_key g) new (topo_of g3) (topo_of g4)" "child_complete (map_of (gr_states g4)) {}"
    by (auto simp: discovered_def)
  have sg4: "gr_ready g4" "gr_root_key g4 = gr_root_key g" using di(1) sg by (simp_all add: same_graph_def)
  have t': "topo_of g' = prune_topo (gr_root_key g) (topo_of g4)" using topo_of_prune [OF sg4(1)] sg4(2) by (simp add: r(2))
  have same: "same_graph g g'" unfolding r(2) using ed(1) di(1) prune_frame(4) by (metis same_graph_trans)
  have ok: "topo_ok env (topo_of g')" unfolding t'
    using assms(2) ed(2) di(2) by (intro prune_ok discovers_ok [OF di(2)] accepts_ok [OF ed(2)]) (simp add: server_inv_def)
  have "gr_root_key g \<in> dom (map_of (gr_states g))" using assms(2) by (simp add: server_inv_def)
  then have "gr_root_key g \<in> dom (map_of (gr_states g4))"
    using accepts_facts(1) [OF ed(2)] map_le_implies_dom_le [OF discovers_facts(1) [OF di(2)]] by (auto simp: topo_of_def)
  from complete_reach [OF di(3) this] t'
  have "dom (map_of (gr_states g')) = reach (map_of (gr_states g')) (gr_root_key g')"
    using same by (auto simp: topo_of_def prune_topo_def same_graph_def)
  with assms(2) same ok have "server_inv env g'" by (simp add: server_inv_def same_graph_def)
  then show ?thesis using r(1) ed(2) di(2) t' same by blast
qed

section \<open>Followers\<close>

text \<open>
  A process finds each layer at one place: \<open>loc\<close> names the local layer of a key, different layers
  are different, and whatever it resolves an entry to is the layer of the entry's key.
\<close>

definition local_maps :: "(string \<Rightarrow> string) \<Rightarrow> shared_graph \<Rightarrow> bool" where
  "local_maps loc g \<longleftrightarrow> (\<forall>k l. (map_of (gr_layers g) k = Some l \<longrightarrow> l = loc k) \<and> (map_of (gr_keys g) l = Some k \<longrightarrow> l = loc k) \<and>
     (map_of (gr_identity_keys g) l = Some k \<longrightarrow> l = loc k) \<and> (map_of (gr_identity_ids g) k = Some l \<longrightarrow> l = loc k))"

definition routes :: "'l graph_env \<Rightarrow> (string \<Rightarrow> string) \<Rightarrow> string \<Rightarrow> event list \<Rightarrow> bool" where
  "routes env loc k entries \<longleftrightarrow> (\<forall>entry \<in> set entries. \<forall>c l. entry_key entry = Some c \<longrightarrow>
     ge_resolve env (loc k) (entry_path entry) = Some l \<longrightarrow> l = loc c)"

lemma bind_key_local:
  assumes "local_maps loc g" "inj loc"
  shows "\<exists>g'. bind_key c (loc c) g = Inr g' \<and> local_maps loc g' \<and> keeps g g'"
proof -
  have key: "k = c" if "loc c = loc k" for k using assms(2) that by (simp add: inj_eq)
  have maps: "map_of (gr_layers g) c \<in> {None, Some (loc c)}" "map_of (gr_keys g) (loc c) \<in> {None, Some c}"
    "map_of (gr_identity_keys g) (loc c) \<in> {None, Some c}" "map_of (gr_identity_ids g) c \<in> {None, Some (loc c)}"
    using assms(1) key unfolding local_maps_def by fastforce+
  define g' where "g' = g\<lparr>gr_layers := AList.update c (loc c) (gr_layers g), gr_keys := AList.update (loc c) c (gr_keys g),
    gr_identity_keys := AList.update (loc c) c (gr_identity_keys g), gr_identity_ids := AList.update c (loc c) (gr_identity_ids g)\<rparr>"
  have b: "bind_key c (loc c) g = Inr g'" using maps by (auto simp: bind_key_def router_bind_key_def layer_for_def key_for_def g'_def)
  moreover have "local_maps loc g'" using assms(1) by (auto simp: local_maps_def g'_def)
  ultimately show ?thesis using bind_key_keeps by blast
qed

lemma bind_keys_local:
  assumes "local_maps loc g" "inj loc" "\<forall>(l, c) \<in> set mappings. l = loc c"
  shows "\<exists>g'. bind_keys mappings g = Inr g' \<and> local_maps loc g' \<and> keeps g g'"
  using assms
proof (induction mappings arbitrary: g)
  case (Cons m ms)
  obtain c where m: "m = (loc c, c)" using Cons.prems(3) by auto
  from bind_key_local [OF Cons.prems(1,2), of c] obtain g1 where g1: "bind_key c (loc c) g = Inr g1" "local_maps loc g1" "keeps g g1" by blast
  from Cons.IH [OF g1(2) Cons.prems(2)] Cons.prems(3) obtain g' where "bind_keys ms g1 = Inr g'" "local_maps loc g'" "keeps g1 g'" by auto
  with g1 show ?case by (auto simp: bind_keys_def m intro: keeps_trans)
qed (simp add: bind_keys_def)

lemma apply_sublayers_follows:
  assumes "gr_ready g" "local_maps loc g" "inj loc" "accepts env (gr_generation g) (gr_root_key g) k ev (topo_of g) U"
    and "\<And>E. normalized env (te_sublayers ev) = Inr E \<Longrightarrow> routes env loc k E"
  shows "\<exists>g'. apply_sublayers env k ev g = Inr g' \<and> topo_of g' = prune_topo (gr_root_key g) U \<and> local_maps loc g' \<and> same_graph g g'"
proof -
  let ?S = "map_of (gr_states g)" and ?R = "map_of (gr_parent_revisions g)"
  obtain S1 R1 n1 where U: "U = (S1, R1, n1)" by (metis prod_cases3)
  from assms(4) obtain E where a: "k \<in> reach ?S (gr_root_key g)" "te_generation ev = gr_generation g"
    "te_revision ev = parent_revision g k + 1" "normalized env (te_sublayers ev) = Inr E"
    "S1 = ?S(k \<mapsto> E)" "R1 = ?R(k \<mapsto> te_revision ev)" "n1 = gr_revision g + 1"
    by (auto simp: accepts_def topo_of_def U parent_revision_def dict_get_def)
  have k: "k \<in> set (reachable_layer_keys g)" using a(1) assms(1) by (simp add: reachable_layer_keys_set)
  obtain g1 where g1: "(case layer_for g k of None \<Rightarrow> Inr g | Some p \<Rightarrow> apply_sublayer_entries env p E g) = Inr g1" "keeps g g1"
    "local_maps loc g1"
    using assms(2) normalized_fixed [OF a(4)]
    by (cases "layer_for g k") (auto simp: apply_sublayer_entries_def local_maps_def keeps_def topology_def)
  have t: "topology g1 = topology g" using g1(2) by (simp add: keeps_def)
  have "\<forall>(l, c) \<in> set (local_mappings env (layer_for g k) E). l = loc c"
  proof (cases "layer_for g k")
    case (Some p)
    then have "p = loc k" using assms(2) by (simp add: local_maps_def layer_for_def)
    with assms(5) [OF a(4)] Some show ?thesis by (auto simp: local_mappings_def routes_def map_filter_def split: option.splits)
  qed (simp add: local_mappings_def)
  from bind_keys_local [OF g1(3) assms(3) this] obtain g2 where
    g2: "bind_keys (local_mappings env (layer_for g k) E) g1 = Inr g2" "local_maps loc g2" "keeps g1 g2" by blast
  have t2: "topology g2 = topology g" using g2(3) t by (simp add: keeps_def)
  define g3 where "g3 = g2\<lparr>gr_states := AList.update k E (gr_states g2),
      gr_parent_revisions := AList.update k (te_revision ev) (gr_parent_revisions g2), gr_revision := gr_revision g2 + 1\<rparr>"
  have pr: "parent_revision g1 k = parent_revision g k" using topologyD(2) [OF t] by (simp add: parent_revision_def)
  have acc: "accept_sublayers env \<lparr>ps_parent_key = k, ps_event = ev, ps_mappings = local_mappings env (layer_for g k) E\<rparr> g1 = Inr g3"
    using a(2-4) g2(1) topologyD(4) [OF t] by (simp add: accept_sublayers_def Let_def pr g3_def)
  have run: "apply_sublayers env k ev g = Inr (prune_unreachable_states g3)"
    using a(2-4) k g1(1) acc by (simp add: apply_sublayers_def)
  have g3: "gr_ready g3" "gr_root_key g3 = gr_root_key g" using topologyD [OF t2] assms(1) by (simp_all add: g3_def)
  have "topo_of g3 = U" using topologyD [OF t2] by (simp add: topo_of_def g3_def U a(5-7))
  then have "topo_of (prune_unreachable_states g3) = prune_topo (gr_root_key g) U" using topo_of_prune [OF g3(1)] g3(2) by simp
  moreover have "same_graph g g3" using keeps_same [OF keeps_trans [OF g1(2) g2(3)]] by (simp add: g3_def same_graph_def)
  then have "same_graph g (prune_unreachable_states g3)" using prune_frame(4) by (rule same_graph_trans)
  moreover have "local_maps loc (prune_unreachable_states g3)"
    using g2(2) by (simp add: local_maps_def prune_unreachable_states_def Let_def g3_def)
  ultimately show ?thesis using run by blast
qed

lemma records_followed:
  assumes "gr_ready c" "local_maps loc c" "inj loc" "follows_all env (gr_generation c) (gr_root_key c) records (topo_of c) T'"
    and "\<And>k ev E. (k, ev) \<in> set records \<Longrightarrow> normalized env (te_sublayers ev) = Inr E \<Longrightarrow> routes env loc k E"
  shows "\<exists>c'. apply_topology_records env records c = Inr c' \<and> topo_of c' = T' \<and> local_maps loc c' \<and> same_graph c c'"
  using assms
proof (induction records arbitrary: c)
  case (Cons x xs)
  obtain k ev where x: "x = (k, ev)" by (cases x)
  from Cons.prems(4) obtain U where U: "accepts env (gr_generation c) (gr_root_key c) k ev (topo_of c) U"
    "follows_all env (gr_generation c) (gr_root_key c) xs (prune_topo (gr_root_key c) U) T'"
    unfolding follows_all.simps follows_def x fst_conv snd_conv by blast
  have "routes env loc k E" if "normalized env (te_sublayers ev) = Inr E" for E using Cons.prems(5) [of k ev E] that by (simp add: x)
  from apply_sublayers_follows [OF Cons.prems(1-3) U(1) this] obtain c1 where c1: "apply_sublayers env k ev c = Inr c1"
    "topo_of c1 = prune_topo (gr_root_key c) U" "local_maps loc c1" "same_graph c c1" by blast
  then have sg: "gr_ready c1" "gr_generation c1 = gr_generation c" "gr_root_key c1 = gr_root_key c"
    using Cons.prems(1) by (simp_all add: same_graph_def)
  have "\<exists>c'. apply_topology_records env xs c1 = Inr c' \<and> topo_of c' = T' \<and> local_maps loc c' \<and> same_graph c1 c'"
  proof (rule Cons.IH [OF sg(1) c1(3) Cons.prems(3)])
    show "follows_all env (gr_generation c1) (gr_root_key c1) xs (topo_of c1) T'" using U(2) c1(2) sg by simp
    show "routes env loc k E" if "(k, ev) \<in> set xs" "normalized env (te_sublayers ev) = Inr E" for k ev E
      using Cons.prems(5) [OF _ that(2)] that(1) by simp
  qed
  with c1 show ?case by (auto simp: apply_topology_records_def x intro: same_graph_trans)
qed (simp add: apply_topology_records_def)

definition mirrors :: "shared_graph \<Rightarrow> shared_graph \<Rightarrow> bool" where
  "mirrors c g \<longleftrightarrow> gr_ready c \<and> gr_generation c = gr_generation g \<and> gr_root_key c = gr_root_key g \<and> topo_of c = topo_of g"

lemma accepts_lib: "ge_lib env' = ge_lib env \<Longrightarrow> accepts env' = accepts env"
  by (simp add: accepts_def normalized_def fun_eq_iff)

lemma follows_lib:
  assumes "ge_lib env' = ge_lib env"
  shows "follows_all env' gen r records T T' = follows_all env gen r records T T'"
  using accepts_lib [OF assms] by (induction records arbitrary: T) (simp_all add: follows_def)

text \<open>The sublayers of the server's graph right after the edited layer got its new list.\<close>

definition after_edit :: "'l graph_env \<Rightarrow> shared_graph \<Rightarrow> string \<times> topology_event \<Rightarrow> sublayer_map" where
  "after_edit env g record1 =
     (case normalized env (te_sublayers (snd record1)) of
        Inl e \<Rightarrow> map_of (gr_states g) | Inr E \<Rightarrow> (map_of (gr_states g))(fst record1 \<mapsto> E))"

text \<open>No layer that the edit detaches is attached again below a layer that it makes reachable.\<close>

definition no_reattachment :: "'l graph_env \<Rightarrow> shared_graph \<Rightarrow> (string \<times> topology_event) list \<Rightarrow> shared_graph \<Rightarrow> bool" where
  "no_reattachment env g records g' \<longleftrightarrow>
     (\<forall>k \<in> set (reachable_layer_keys g) \<inter> set (reachable_layer_keys g'). k \<in> reach (after_edit env g (hd records)) (gr_root_key g))"

lemma commit_followed:
  assumes "server_inv env g" "commit_topology env k ev g = Some (Inr (records, g'))" "mirrors c g" "ge_lib env' = ge_lib env"
    and "inj loc" "local_maps loc c" "\<And>k ev E. (k, ev) \<in> set records \<Longrightarrow> normalized env (te_sublayers ev) = Inr E \<Longrightarrow> routes env' loc k E"
    and "no_reattachment env g records g'"
  shows "\<exists>c'. apply_topology_records env' records c = Inr c' \<and> mirrors c' g' \<and> local_maps loc c' \<and> same_graph c c'"
proof -
  let ?gen = "gr_generation g" and ?r = "gr_root_key g"
  from commit_topology_spec [OF assms(2,1)] obtain ev' new T1 T2 where c: "records = (k, ev') # new"
    "accepts env ?gen ?r k ev' (topo_of g) T1" "discovers env ?gen ?r new T1 T2" "topo_of g' = prune_topo ?r T2" "same_graph g g'" "server_inv env g'"
    by blast
  have S: "dom (fst (topo_of g)) = reach (fst (topo_of g)) ?r" and ok: "topo_ok env (topo_of g)"
    using assms(1) by (simp_all add: server_inv_def topo_of_def)
  then have dr: "dom (fst (snd (topo_of g))) \<subseteq> dom (fst (topo_of g))" by (auto simp: topo_ok_def topo_of_def)
  note f = accepts_facts [OF c(2)]
  have T1: "dom (fst T1) = reach (fst (topo_of g)) ?r" using f(1,3) S by (simp add: insert_absorb)
  have dr1: "dom (fst (snd T1)) \<subseteq> dom (fst T1)" unfolding f(1,2) by (rule insert_mono [OF dr])
  have edit: "fst T1 = after_edit env g (hd records)"
    using c(2) by (auto simp: accepts_def topo_of_def after_edit_def c(1))
  have g: "gr_ready g" "gr_ready g'" "gr_root_key g' = ?r" using assms(1) c(5) by (simp_all add: server_inv_def same_graph_def)
  have "reach (map_of (gr_states g')) ?r = reach (fst T2) ?r"
    using c(4) by (cases T2) (simp add: topo_of_def prune_topo_def)
  with assms(8) g T1 have "dom (fst T1) \<inter> reach (fst T2) ?r \<subseteq> reach (fst T1) ?r"
    unfolding edit by (auto simp: no_reattachment_def reachable_layer_keys_set topo_of_def)
  from discovers_followed [OF c(3) dr1 this]
  have tail: "follows_all env ?gen ?r new (prune_topo ?r T1) (prune_topo ?r T2)" .
  have "follows env ?gen ?r (k, ev') (topo_of g) (prune_topo ?r T1)"
    unfolding follows_def fst_conv snd_conv using c(2) by blast
  with tail have "follows_all env ?gen ?r records (topo_of g) (topo_of g')" unfolding c(1,4) follows_all.simps by blast
  then have "follows_all env' (gr_generation c) (gr_root_key c) records (topo_of c) (topo_of g')"
    using assms(3) unfolding follows_lib [OF assms(4)] by (simp add: mirrors_def)
  note follow = this
  have norm: "normalized env' = normalized env" using assms(4) by (simp add: normalized_def fun_eq_iff)
  have "gr_ready c" using assms(3) by (simp add: mirrors_def)
  have "\<exists>c'. apply_topology_records env' records c = Inr c' \<and> topo_of c' = topo_of g' \<and> local_maps loc c' \<and> same_graph c c'"
    by (rule records_followed [OF \<open>gr_ready c\<close> assms(6,5) follow]) (use assms(7) norm in metis)
  then obtain c' where "apply_topology_records env' records c = Inr c'" "topo_of c' = topo_of g'" "local_maps loc c'" "same_graph c c'"
    by blast
  moreover from this have "mirrors c' g'" using assms(3) c(5) by (simp add: mirrors_def same_graph_def)
  ultimately show ?thesis by blast
qed

section \<open>Baselines\<close>

lemma apply_entries_local:
  assumes "normalized env entries = Inr entries" "local_maps loc g"
  shows "\<exists>g'. apply_sublayer_entries env l entries g = Inr g' \<and> local_maps loc g' \<and> keeps g g'"
  using assms by (auto simp: apply_sublayer_entries_def local_maps_def keeps_def topology_def)

lemma materialize_entries_local:
  assumes "local_maps loc g" "inj loc" "routes env loc k entries"
  shows "\<exists>newly queue g'. materialize_entries env (loc k) entries g = Inr (newly, queue, g') \<and> local_maps loc g' \<and> keeps g g'"
  using assms
proof (induction entries arbitrary: g)
  case (Cons entry rest)
  have r: "routes env loc k rest" using Cons.prems(3) by (simp add: routes_def)
  show ?case
  proof (cases "entry_key entry = None \<or> ge_resolve env (loc k) (entry_path entry) = None")
    case True
    with Cons.IH [OF Cons.prems(1,2) r] show ?thesis by (auto split: option.splits)
  next
    case False
    then obtain c l where cl: "entry_key entry = Some c" "ge_resolve env (loc k) (entry_path entry) = Some l" by auto
    with Cons.prems(3) have "l = loc c" by (simp add: routes_def)
    with bind_key_local [OF Cons.prems(1,2)] obtain g1 where g1: "bind_key c l g = Inr g1" "local_maps loc g1" "keeps g g1" by blast
    from Cons.IH [OF g1(2) Cons.prems(2) r] g1 cl show ?thesis by (auto intro: keeps_trans)
  qed
qed simp

lemma materialize_loop_local:
  assumes "local_maps loc g" "inj loc" "child_complete (map_of (gr_states g)) {}" "set queue \<subseteq> dom (map_of (gr_states g))"
    and "\<forall>k E. map_of (gr_states g) k = Some E \<longrightarrow> normalized env E = Inr E \<and> routes env loc k E"
  shows "\<exists>newly' g'. materialize_loop env queue visited newly g = Inr (newly', g') \<and> local_maps loc g' \<and> keeps g g'"
  using assms
proof (induction env queue visited newly g rule: materialize_loop.induct)
  case (2 env k queue visited newly g)
  show ?case
  proof (cases "k \<in> set visited \<or> layer_for g k = None")
    case True
    with 2 show ?thesis by (cases "k \<in> set visited") auto
  next
    case False
    then obtain p where p: "layer_for g k = Some p" "k \<notin> set visited" by auto
    then have "p = loc k" using "2.prems"(1) by (simp add: local_maps_def layer_for_def)
    obtain E where E: "map_of (gr_states g) k = Some E" using "2.prems"(4) by auto
    then have n: "normalized env E = Inr E" "routes env loc k E" using "2.prems"(5) by blast+
    from apply_entries_local [OF n(1) "2.prems"(1)] obtain g1 where g1: "apply_sublayer_entries env p E g = Inr g1" "local_maps loc g1" "keeps g g1" by blast
    from materialize_entries_local [OF g1(2) "2.prems"(2) n(2)] \<open>p = loc k\<close> obtain newly1 queue1 g2
      where g2: "materialize_entries env p E g1 = Inr (newly1, queue1, g2)" "local_maps loc g2" "keeps g1 g2" by blast
    have keeps: "keeps g g2" using g1(3) g2(3) by (rule keeps_trans)
    then have S: "gr_states g2 = gr_states g" using topologyD(1) by (auto simp: keeps_def)
    have "set queue1 \<subseteq> dom (map_of (gr_states g))"
      using materialize_entries_topology(2) [OF g2(1)] "2.prems"(3) E by (fastforce simp: child_complete_def)
    then have "\<exists>newly' g'. materialize_loop env (queue @ queue1) (k # visited) (newly @ newly1) g2 = Inr (newly', g') \<and> local_maps loc g' \<and> keeps g2 g'"
      using "2.IH"(3) [OF p(2,1) E g1(1) g2(1) refl refl g2(2) "2.prems"(2)] "2.prems"(3-5) by (simp add: S)
    with p E g1(1) g2(1) keeps show ?thesis by (auto intro: keeps_trans)
  qed
qed simp

lemma validate_layers_states:
  assumes "distinct (map fst states @ ks)" "\<forall>k \<in> set ks. k \<noteq> [] \<and> normalized env (S k) = Inr (S k) \<and> 1 \<le> R k"
  shows "validate_layers env (map (\<lambda>k. \<lparr>lst_key = k, lst_revision = R k, lst_sublayers = S k\<rparr>) ks) states revisions =
    Inr (states @ map (\<lambda>k. (k, S k)) ks, revisions @ map (\<lambda>k. (k, R k)) ks)"
  using assms
proof (induction ks arbitrary: states revisions)
  case (Cons k ks)
  then have "map_of states k = None" by (auto simp: map_of_eq_None_iff)
  with Cons show ?case by simp
qed simp

lemma map_of_tabulate: "map_of (map (\<lambda>k. (k, f k)) ks) = (\<lambda>k. if k \<in> set ks then Some (f k) else None)"
  by (induction ks) auto

lemma state_message_valid:
  assumes "server_inv env g" "state_message g = Inr m" "ge_lib env' = ge_lib env"
  shows "\<exists>states revisions. validate_topology env' m = Inr (states, revisions) \<and> map_of states = map_of (gr_states g) \<and>
    map_of revisions = map_of (gr_parent_revisions g) \<and> gs_generation m = gr_generation g \<and> gs_revision m = gr_revision g \<and>
    gs_root_key m = gr_root_key g"
proof -
  let ?ks = "reachable_layer_keys g" and ?S = "map_of (gr_states g)" and ?R = "map_of (gr_parent_revisions g)"
  let ?s = "\<lambda>k. dict_get (gr_states g) k []" and ?v = "\<lambda>k. dict_get (gr_parent_revisions g) k 0"
  have inv: "gr_ready g" "gr_root_key g \<noteq> []" "gr_generation g \<noteq> []" "1 \<le> gr_revision g" "dom ?S = reach ?S (gr_root_key g)"
    "dom ?R = dom ?S" "\<And>k v. ?R k = Some v \<Longrightarrow> 1 \<le> v" "\<And>k E. ?S k = Some E \<Longrightarrow> normalized env E = Inr E"
    using assms(1) by (auto simp: server_inv_def topo_ok_def topo_of_def)
  have ks: "set ?ks = dom ?S" using inv(1,5) reachable_layer_keys_set [of g] by simp
  have kd: "distinct ?ks"
    unfolding reachable_layer_keys_def using reach_loop_distinct [of "[]" "gr_states g" "[gr_root_key g]"] by (simp del: reach_loop.simps)
  have m: "m = \<lparr>gs_generation = gr_generation g, gs_revision = gr_revision g, gs_root_key = gr_root_key g,
      gs_layers = map (\<lambda>k. \<lparr>lst_key = k, lst_revision = ?v k, lst_sublayers = ?s k\<rparr>) ?ks\<rparr>"
    using assms(2) by (auto simp: state_message_def Let_def split: if_splits)
  have nonempty: "k \<noteq> []" if "k \<in> reach ?S (gr_root_key g)" for k
    using that by (induction rule: reach_induct) (use inv(2) in \<open>auto simp: edge_def keyed_def map_filter_def entry_key_def split: if_splits\<close>)
  have sv: "?S k = Some (?s k)" "?R k = Some (?v k)" if "k \<in> set ?ks" for k
    using that inv(6) unfolding ks dict_get_def by (metis domD option.simps(5))+
  have norm: "normalized env' = normalized env" using assms(3) by (simp add: normalized_def fun_eq_iff)
  have "validate_layers env' (gs_layers m) [] [] = Inr (map (\<lambda>k. (k, ?s k)) ?ks, map (\<lambda>k. (k, ?v k)) ?ks)"
  proof -
    have "\<forall>k \<in> set ?ks. k \<noteq> [] \<and> normalized env' (?s k) = Inr (?s k) \<and> 1 \<le> ?v k"
      using nonempty sv inv(5,7,8) unfolding norm ks by blast
    from validate_layers_states [of "[]" ?ks env' ?s ?v "[]", OF _ this] kd show ?thesis by (simp add: m)
  qed
  moreover have S: "map_of (map (\<lambda>k. (k, ?s k)) ?ks) = ?S" and R: "map_of (map (\<lambda>k. (k, ?v k)) ?ks) = ?R"
  proof -
    have none: "?S k = None" "?R k = None" if "k \<notin> set ?ks" for k using that inv(6) unfolding ks by (metis domIff)+
    show "map_of (map (\<lambda>k. (k, ?s k)) ?ks) = ?S" "map_of (map (\<lambda>k. (k, ?v k)) ?ks) = ?R"
      unfolding map_of_tabulate fun_eq_iff using sv none by (metis (no_types, lifting))+
  qed
  moreover have "\<not> list_ex (\<lambda>(k, entries). list_ex (\<lambda>c. ?S c = None) (keyed entries)) (map (\<lambda>k. (k, ?s k)) ?ks)"
    using reach_complete [OF inv(5)] sv(1) by (fastforce simp: list_ex_iff child_complete_def)
  moreover have "?S (gr_root_key g) \<noteq> None" using inv(5) reach_root by (metis domIff)
  ultimately have "validate_topology env' m = Inr (map (\<lambda>k. (k, ?s k)) ?ks, map (\<lambda>k. (k, ?v k)) ?ks)"
    using inv(2-4) by (simp add: validate_topology_def m)
  then show ?thesis using S R by (simp add: m)
qed

lemma baseline_followed:
  assumes "server_inv env g" "state_message g = Inr m" "ge_lib env' = ge_lib env" "inj loc" "loc (gr_root_key g) = gr_stage_root c"
    and "\<forall>k E. map_of (gr_states g) k = Some E \<longrightarrow> routes env' loc k E" "gr_generation g \<noteq> gr_generation c \<or> gr_revision c < gr_revision g"
  shows "\<exists>c'. apply_state env' m c = Inr (True, c') \<and> mirrors c' g \<and> local_maps loc c'"
proof -
  from state_message_valid [OF assms(1-3)] obtain states revisions where v: "validate_topology env' m = Inr (states, revisions)"
    "map_of states = map_of (gr_states g)" "map_of revisions = map_of (gr_parent_revisions g)" "gs_generation m = gr_generation g"
    "gs_revision m = gr_revision g" "gs_root_key m = gr_root_key g" by blast
  define c0 where "c0 = c\<lparr>gr_generation := gs_generation m, gr_revision := gs_revision m,
      gr_root_key := gs_root_key m, gr_layers := [], gr_keys := [], gr_identity_keys := [], gr_identity_ids := [],
      gr_states := states, gr_parent_revisions := revisions\<rparr>"
  have "local_maps loc c0" by (simp add: local_maps_def c0_def)
  from bind_key_local [OF this assms(4), of "gr_root_key g"] assms(5) obtain c1
    where c1: "bind_key (gr_root_key g) (gr_stage_root c) c0 = Inr c1" "local_maps loc c1" "keeps c0 c1" by auto
  have t1: "topology c1 = topology c0" using c1(3) by (simp add: keeps_def)
  have S: "map_of (gr_states c1) = map_of (gr_states g)" "gr_root_key c1 = gr_root_key g"
    using topologyD(1,3) [OF t1] v(2,6) by (simp_all add: c0_def)
  have inv: "dom (map_of (gr_states g)) = reach (map_of (gr_states g)) (gr_root_key g)" "1 \<le> gr_revision g"
    "\<forall>k E. map_of (gr_states g) k = Some E \<longrightarrow> normalized env E = Inr E" using assms(1) by (auto simp: server_inv_def topo_ok_def topo_of_def)
  have norm: "normalized env' = normalized env" using assms(3) by (simp add: normalized_def fun_eq_iff)
  have "\<exists>newly c2. materialize_loop env' [gr_root_key c1] [] [] c1 = Inr (newly, c2) \<and> local_maps loc c2 \<and> keeps c1 c2"
    using reach_complete [OF inv(1)] inv(3) assms(6) reach_root [of "gr_root_key g" "map_of (gr_states g)"]
    by (intro materialize_loop_local [OF c1(2) assms(4)]) (simp_all add: S inv(1) norm)
  then obtain newly c2 where c2: "materialize_states env' c1 = Inr (newly, c2)" "local_maps loc c2" "keeps c1 c2"
    unfolding materialize_states_def by blast
  define c' where "c' = c2\<lparr>gr_generation := gs_generation m, gr_revision := gs_revision m, gr_ready := True\<rparr>"
  have "apply_state env' m c = Inr (True, c')"
  proof -
    have "apply_state_inner env' m c = Inr c2"
      using v(1,6) c1(1) c2(1) by (simp add: apply_state_inner_def c0_def [unfolded v(6), symmetric])
    then show ?thesis using assms(7) inv(2) v(4,5) by (auto simp: apply_state_def c'_def)
  qed
  moreover have "topology c2 = topology c0" using c2(3) t1 by (simp add: keeps_def)
  then have "mirrors c' g" using topologyD(1-3) [of c2 c0] v by (simp add: mirrors_def topo_of_def c'_def c0_def)
  moreover have "local_maps loc c'" using c2(2) by (simp add: local_maps_def c'_def)
  ultimately show ?thesis by blast
qed

section \<open>A server and a follower\<close>

definition follow :: "('a \<times> shared_graph) res \<Rightarrow> shared_graph \<Rightarrow> shared_graph" where
  "follow r c = (case r of Inl e \<Rightarrow> c | Inr (x, c') \<Rightarrow> c')"

definition routes_graph :: "'l graph_env \<Rightarrow> (string \<Rightarrow> string) \<Rightarrow> shared_graph \<Rightarrow> bool" where
  "routes_graph env loc g \<longleftrightarrow> (\<forall>k E. map_of (gr_states g) k = Some E \<longrightarrow> routes env loc k E)"

text \<open>
  The server commits or rejects topology edits, and starts a new generation when it rewrites its
  history; the follower applies what it is sent, and another one may join.
\<close>

inductive mirror_step ::
  "'l graph_env \<Rightarrow> 'l graph_env \<Rightarrow> (string \<Rightarrow> string) \<Rightarrow> shared_graph \<times> shared_graph \<Rightarrow> shared_graph \<times> shared_graph \<Rightarrow> bool"
  for env env' loc where
  edit: "commit_topology env k ev g = Some (Inr (records, g')) \<Longrightarrow> no_reattachment env g records g' \<Longrightarrow>
    (\<forall>(k, ev) \<in> set records. \<forall>E. normalized env (te_sublayers ev) = Inr E \<longrightarrow> routes env' loc k E) \<Longrightarrow>
    c' = follow (map_sum id (Pair ()) (apply_topology_records env' records c)) c \<Longrightarrow> mirror_step env env' loc (g, c) (g', c')"
| reject: "commit_topology env k ev g = Some (Inl e) \<Longrightarrow> mirror_step env env' loc (g, c) (g, c)"
| new_generation: "start_new_generation env g = Inr g' \<Longrightarrow> gr_generation g' \<notin> {[], gr_generation g} \<Longrightarrow> routes_graph env' loc g \<Longrightarrow>
    state_message g' = Inr m \<Longrightarrow> c' = follow (apply_state env' m c) c \<Longrightarrow> mirror_step env env' loc (g, c) (g', c')"
| join: "routes_graph env' loc g \<Longrightarrow> state_message g = Inr m \<Longrightarrow>
    c' = follow (apply_state env' m (empty_graph (loc (gr_root_key g)) authored1)) c \<Longrightarrow> mirror_step env env' loc (g, c) (g, c')"

definition in_step :: "'l graph_env \<Rightarrow> (string \<Rightarrow> string) \<Rightarrow> shared_graph \<times> shared_graph \<Rightarrow> bool" where
  "in_step env loc gc \<longleftrightarrow> (case gc of (g, c) \<Rightarrow> server_inv env g \<and> mirrors c g \<and> local_maps loc c \<and> gr_stage_root c = loc (gr_root_key g))"

lemma apply_state_stage_root:
  assumes "apply_state env m c = Inr (True, c')"
  shows "gr_stage_root c' = gr_stage_root c"
proof -
  have loop: "gr_stage_root g' = gr_stage_root g" if "materialize_loop env queue visited newly g = Inr (newly', g')" for queue visited newly g newly' g'
    using that
  proof (induction env queue visited newly g rule: materialize_loop.induct)
    case (2 env k queue visited newly g)
    then show ?case
      by (auto split: if_splits option.splits sum.splits prod.splits
          dest!: materialize_entries_topology(1) apply_entries_topology topologyD(7))
  qed simp
  show ?thesis
    using assms by (auto simp: apply_state_def apply_state_inner_def materialize_states_def simp del: materialize_loop.simps
        split: if_splits sum.splits prod.splits dest!: loop bind_key_topology topologyD(7))
qed

lemma new_generation_inv:
  assumes "server_inv env g" "start_new_generation env g = Inr g'" "gr_generation g' \<noteq> []"
  shows "server_inv env g'" "gr_states g' = gr_states g" "gr_root_key g' = gr_root_key g"
proof -
  let ?ks = "reachable_layer_keys g"
  from assms(2) have g': "g' = g\<lparr>gr_uuids := gr_uuids g + 1, gr_generation := ge_uuid env (gr_uuids g), gr_revision := 1,
      gr_parent_revisions := map (\<lambda>k. (k, 1)) ?ks\<rparr>"
    by (auto simp: start_new_generation_def new_uuid_def Let_def reachable_layer_keys_def split: if_splits)
  show S: "gr_states g' = gr_states g" "gr_root_key g' = gr_root_key g" by (simp_all add: g')
  have "set ?ks = dom (map_of (gr_states g))" using assms(1) by (simp add: server_inv_def reachable_layer_keys_set)
  then show "server_inv env g'"
    using assms(1,3) by (auto simp: server_inv_def topo_ok_def topo_of_def g' map_of_tabulate dom_def split: if_splits)
qed

lemma mirror_step_inv:
  assumes "mirror_step env env' loc gc gc'" "in_step env loc gc" "inj loc" "ge_lib env' = ge_lib env"
  shows "in_step env loc gc'"
  using assms(1)
proof cases
  case (edit k ev g records g' c' c)
  have inv: "server_inv env g" "mirrors c g" "local_maps loc c" "gr_stage_root c = loc (gr_root_key g)" using assms(2) edit(1) by (simp_all add: in_step_def)
  have "\<exists>c'. apply_topology_records env' records c = Inr c' \<and> mirrors c' g' \<and> local_maps loc c' \<and> same_graph c c'"
    using commit_followed [OF inv(1) edit(3) inv(2) assms(4,3) inv(3) _ edit(4)] edit(5) by fastforce
  with edit(6) commit_topology_spec [OF edit(3) inv(1)] inv(4) show ?thesis
    by (auto simp: edit(2) in_step_def follow_def same_graph_def)
next
  case (reject k ev g e c)
  with assms(2) show ?thesis by simp
next
  case (new_generation g g' m c' c)
  have inv: "server_inv env g" "mirrors c g" "local_maps loc c" "gr_stage_root c = loc (gr_root_key g)" using assms(2) new_generation(1) by (simp_all add: in_step_def)
  note ng = new_generation_inv [OF inv(1) new_generation(3)]
  have g': "server_inv env g'" "gr_states g' = gr_states g" "gr_root_key g' = gr_root_key g" using ng new_generation(4) by simp_all
  have "gr_generation g' \<noteq> gr_generation c" using new_generation(4) inv(2) by (simp add: mirrors_def)
  with baseline_followed [OF g'(1) new_generation(6) assms(4,3), of c] inv(4) g'(2,3) new_generation(5)
  obtain c1 where c1: "apply_state env' m c = Inr (True, c1)" "mirrors c1 g'" "local_maps loc c1" by (auto simp: routes_graph_def)
  with apply_state_stage_root [OF c1(1)] new_generation(7) g' inv(4) show ?thesis by (simp add: new_generation(2) in_step_def follow_def)
next
  case (join g m c' authored1 c)
  have inv: "server_inv env g" using assms(2) join(1) by (simp add: in_step_def)
  then have "gr_generation g \<noteq> []" by (simp add: server_inv_def)
  with baseline_followed [OF inv join(4) assms(4,3), of "empty_graph (loc (gr_root_key g)) authored1"] join(3)
  obtain c1 where c1: "apply_state env' m (empty_graph (loc (gr_root_key g)) authored1) = Inr (True, c1)" "mirrors c1 g" "local_maps loc c1"
    by (auto simp: routes_graph_def empty_graph_def)
  with apply_state_stage_root [OF c1(1)] inv join(5) show ?thesis by (simp add: join(2) in_step_def follow_def empty_graph_def)
qed

interpretation mirror: invariant_system "mirror_step env env' loc" "\<lambda>gc. in_step env loc gc \<and> inj loc \<and> ge_lib env' = ge_lib env" for env env' loc
  by unfold_locales (blast intro: mirror_step_inv)
section \<open>Walks over the layers on disk\<close>

text \<open>The layers that a process can open: finitely many.\<close>

definition openable :: "'l graph_env \<Rightarrow> string set" where
  "openable env = {layer. \<exists>parent path. ge_resolve env parent path = Some layer}"

definition keys_of :: "shared_graph \<Rightarrow> string \<rightharpoonup> string" where
  "keys_of g = map_of (gr_keys g)"

lemma bind_key_keys_of: "bind_key k layer g = Inr g' \<Longrightarrow> keys_of g' = (keys_of g)(layer \<mapsto> k) \<and> keys_of g \<subseteq>\<^sub>m keys_of g'"
  by (auto simp: bind_key_def router_bind_key_def keys_of_def key_for_def map_le_def split: if_splits sum.splits)

lemma bind_keys_keys_of:
  "bind_keys mappings g = Inr g' \<Longrightarrow> keys_of g \<subseteq>\<^sub>m keys_of g' \<and> (\<forall>(layer, k) \<in> set mappings. keys_of g' layer = Some k) \<and> gr_states g' = gr_states g"
  unfolding bind_keys_def
proof (induction mappings arbitrary: g)
  case (Cons m ms)
  obtain layer k where m: "m = (layer, k)" by (cases m)
  with Cons.prems obtain g1 where g1: "bind_key k layer g = Inr g1"
    "fold_res (\<lambda>(layer, k). bind_key k layer) ms g1 = Inr g'" by (auto split: sum.splits)
  note b = bind_key_keys_of [OF g1(1)] and ih = Cons.IH [OF g1(2)]
  have "keys_of g' layer = Some k" using b ih by (auto simp: map_le_def dom_def)
  moreover have "keys_of g \<subseteq>\<^sub>m keys_of g'" using b ih map_le_trans by blast
  ultimately show ?case using ih topologyD(1) [OF bind_key_topology [OF g1(1)]] by (simp add: m)
qed simp

lemma canonicalize_loop_opens:
  "canonicalize_loop env parent entries pending g = Inr (canonical, mappings, g') \<Longrightarrow>
     (\<forall>x \<in> set mappings. fst x \<in> openable env) \<and> gr_keys g' = gr_keys g \<and> gr_states g' = gr_states g"
proof (induction entries arbitrary: pending g canonical mappings)
  case (Cons entry rest)
  show ?case
  proof (cases "ge_resolve env parent (entry_path entry)")
    case None
    with Cons.prems obtain c where "canonicalize_loop env parent rest pending g = Inr (c, mappings, g')" by (auto split: sum.splits)
    then show ?thesis by (rule Cons.IH)
  next
    case (Some child)
    with Cons.prems obtain k pending1 g1 c ms where c: "canonicalize_loop env parent rest pending1 g1 = Inr (c, ms, g')"
      "mappings = (child, k) # ms" "gr_keys g1 = gr_keys g" "gr_states g1 = gr_states g"
      by (auto simp: Let_def new_layer_key_def new_uuid_def split: sum.splits if_splits option.splits prod.splits)
    with Cons.IH [OF c(1)] Some show ?thesis by (auto simp: openable_def)
  qed
qed simp

lemma canonicalize_opens:
  "canonicalize_sublayers env k ev g = Inr (prepared, g') \<Longrightarrow>
     (\<forall>x \<in> set (ps_mappings prepared). fst x \<in> openable env) \<and> ps_parent_key prepared = k \<and> gr_keys g' = gr_keys g \<and> gr_states g' = gr_states g"
  by (auto simp: canonicalize_sublayers_def split: if_splits option.splits sum.splits prod.splits dest!: canonicalize_loop_opens)

lemma accept_binds:
  assumes "accept_sublayers env prepared g = Inr g'"
  shows "keys_of g \<subseteq>\<^sub>m keys_of g'" "\<forall>(layer, k) \<in> set (ps_mappings prepared). keys_of g' layer = Some k"
    "dom (map_of (gr_states g')) = insert (ps_parent_key prepared) (dom (map_of (gr_states g)))"
proof -
  from assms obtain g1 E R n where b: "bind_keys (ps_mappings prepared) g = Inr g1"
    and g': "g' = g1\<lparr>gr_states := AList.update (ps_parent_key prepared) E (gr_states g1), gr_parent_revisions := R, gr_revision := n\<rparr>"
    by (auto simp: accept_sublayers_def Let_def split: if_splits sum.splits)
  have "gr_states g1 = gr_states g"
    using bind_keys_keys_of [OF b] by simp
  then show "dom (map_of (gr_states g')) = insert (ps_parent_key prepared) (dom (map_of (gr_states g)))"
    by (auto simp: g' update_conv' split: if_splits)
  show "keys_of g \<subseteq>\<^sub>m keys_of g'" "\<forall>(layer, k) \<in> set (ps_mappings prepared). keys_of g' layer = Some k"
    using bind_keys_keys_of [OF b] by (simp_all add: g' keys_of_def)
qed

text \<open>Layers without a state: every turn of the discovery takes one of them.\<close>

definition undescribed :: "'l graph_env \<Rightarrow> shared_graph \<Rightarrow> string set" where
  "undescribed env g = {layer \<in> openable env. \<forall>k. keys_of g layer = Some k \<longrightarrow> k \<notin> dom (map_of (gr_states g))}"

definition found :: "'l graph_env \<Rightarrow> shared_graph \<Rightarrow> (string \<times> string) list \<Rightarrow> bool" where
  "found env g queue \<longleftrightarrow> (\<forall>(layer, k) \<in> set queue. layer \<in> openable env \<and> keys_of g layer = Some k)"

lemma describe_shrinks:
  assumes "canonicalize_sublayers env k ev g = Inr (prepared, g1)" "gr_keys g2 = gr_keys g1" "gr_states g2 = gr_states g1"
    and "accept_sublayers env prepared g2 = Inr g3"
  shows "undescribed env g3 \<subseteq> undescribed env g" "found env g3 (ps_mappings prepared)" "found env g queue \<Longrightarrow> found env g3 queue"
    "found env g [(layer, k)] \<Longrightarrow> layer \<notin> undescribed env g3"
proof -
  note c = canonicalize_opens [OF assms(1)] and a = accept_binds [OF assms(4)]
  have le: "keys_of g \<subseteq>\<^sub>m keys_of g3" using a(1) c assms(2) by (simp add: keys_of_def)
  then have up: "keys_of g3 l = Some x" if "keys_of g l = Some x" for l x using that by (metis domI map_le_def)
  have dom: "dom (map_of (gr_states g3)) = insert k (dom (map_of (gr_states g)))" using a(3) c assms(3) by simp
  show "undescribed env g3 \<subseteq> undescribed env g" unfolding undescribed_def dom using up by blast
  show "found env g3 (ps_mappings prepared)" using a(2) c by (fastforce simp: found_def)
  show "found env g queue \<Longrightarrow> found env g3 queue" using up by (auto simp: found_def)
  show "found env g [(layer, k)] \<Longrightarrow> layer \<notin> undescribed env g3" unfolding undescribed_def dom using up by (auto simp: found_def)
qed

lemma discover_loop_returns:
  assumes "finite (openable env)" "found env g queue"
  shows "\<exists>y. discover_loop env queue visited records g = Some y"
  using assms(2)
proof (induction "(g, queue)" arbitrary: g queue visited records
    rule: wf_induct_rule [OF wf_measures [of "[\<lambda>(g, queue). card (undescribed env g), \<lambda>(g, queue). length queue]"]])
  case (1 g queue)
  show ?case
  proof (cases queue)
    case Nil
    then show ?thesis by (simp add: discover_loop.simps)
  next
    case (Cons m rest)
    obtain layer k where m: "m = (layer, k)" by (cases m)
    have q: "found env g rest" "found env g [(layer, k)]" using 1(2) by (auto simp: Cons m found_def)
    show ?thesis
    proof (cases "k \<in> set visited \<or> map_of (gr_states g) k \<noteq> None")
      case True
      with 1(1) [OF _ q(1)] show ?thesis by (simp add: discover_loop.simps [of env "(layer, k) # rest"] Cons m)
    next
      case False
      have next1: "\<exists>y. discover_loop env (rest @ ps_mappings prepared) visited1 records1 g2 = Some y"
        if c: "canonicalize_sublayers env k ev g = Inr (prepared, g1)" "accept_sublayers env prepared g1 = Inr g2"
        for ev prepared g1 g2 visited1 records1
      proof -
        note d = describe_shrinks [OF c(1) refl refl c(2)]
        have "layer \<in> undescribed env g" using False q(2) by (auto simp: undescribed_def found_def)
        with d(1) d(4) [OF q(2)] have "undescribed env g2 \<subset> undescribed env g" by blast
        then have "card (undescribed env g2) < card (undescribed env g)"
          by (rule psubset_card_mono [rotated]) (use assms(1) in \<open>simp add: undescribed_def\<close>)
        moreover have "found env g2 (rest @ ps_mappings prepared)" using d(2) d(3) [OF q(1)] by (auto simp: found_def)
        ultimately show ?thesis by (intro 1(1)) simp_all
      qed
      from False show ?thesis
        by (auto simp: discover_loop.simps [of env "(layer, k) # rest"] Cons m split: sum.splits prod.splits dest: next1)
    qed
  qed
qed

lemma discover_returns:
  assumes "finite (openable env)" "found env g mappings"
  shows "\<exists>y. discover_sublayer_states env mappings g = Some y"
  using discover_loop_returns [OF assms, of "[]" "[]"] by (auto simp: discover_sublayer_states_def)

lemma commit_topology_returns:
  assumes "finite (openable env)"
  shows "\<exists>y. commit_topology env k ev g = Some y"
proof -
  have "\<exists>y. discover_sublayer_states env (ps_mappings prepared) g3 = Some y"
    if "canonicalize_sublayers env k ev g = Inr (prepared, g1)" "apply_sublayer_entries env layer entries g1 = Inr g2"
      "accept_sublayers env prepared g2 = Inr g3" for prepared g1 layer entries g2 g3
    using that(2) by (intro discover_returns [OF assms] describe_shrinks(2) [OF that(1) _ _ that(3)])
      (auto simp: apply_sublayer_entries_def split: sum.splits)
  then show ?thesis by (fastforce simp: commit_topology_def split: option.splits sum.splits prod.splits)
qed

lemma refresh_returns:
  assumes "finite (openable env)"
  shows "\<exists>y. refresh_resolved_sublayers env g = Some y"
proof -
  have one: "\<exists>y. refresh_parent env k g = Some y" for k g
  proof -
    have "\<exists>y. discover_sublayer_states env (ps_mappings prepared) g2 = Some y"
      if "canonicalize_sublayers env k ev g = Inr (prepared, g1)" "accept_sublayers env prepared g1 = Inr g2" for ev prepared g1 g2
      by (rule discover_returns [OF assms describe_shrinks(2) [OF that(1) refl refl that(2)]])
    then show ?thesis by (fastforce simp: refresh_parent_def Let_def split: option.splits sum.splits prod.splits)
  qed
  have "\<exists>y. refresh_loop env ks records g = Some y" for ks records g
  proof (induction ks arbitrary: records g)
    case (Cons k ks)
    from one [of k g] Cons show ?case by (auto split: sum.splits)
  qed simp
  then show ?thesis by (auto simp: refresh_resolved_sublayers_def)
qed

lemma entries_loop_opens: "entries_loop env assign_keys layer entries g = Inr (items, children, g') \<Longrightarrow> set children \<subseteq> openable env"
proof (induction entries arbitrary: g items children)
  case (Cons entry rest)
  show ?case
  proof (cases "ge_resolve env layer (entry_path entry)")
    case None
    with Cons.prems obtain es where "entries_loop env assign_keys layer rest g = Inr (es, children, g')" by (auto split: sum.splits)
    then show ?thesis by (rule Cons.IH)
  next
    case (Some child)
    with Cons.prems obtain g1 es cs where c: "entries_loop env assign_keys layer rest g1 = Inr (es, cs, g')" "children = child # cs"
      by (auto simp: Let_def split: sum.splits if_splits option.splits prod.splits)
    from Cons.IH [OF c(1)] Some show ?thesis by (auto simp: c(2) openable_def)
  qed
qed simp

lemma capture_loop_returns:
  assumes "finite A" "openable env \<subseteq> A" "set queue \<subseteq> A"
  shows "\<exists>y. capture_loop env queue visited states g = Some y"
  using assms(3)
proof (induction "(visited, queue)" arbitrary: queue visited states g
    rule: wf_induct_rule [OF wf_measures [of "[\<lambda>(visited, queue). card (A - set visited), \<lambda>(visited, queue). length queue]"]])
  case (1 queue visited)
  show ?case
  proof (cases queue)
    case Nil
    then show ?thesis by (simp add: capture_loop.simps)
  next
    case (Cons layer rest)
    have q: "layer \<in> A" "set rest \<subseteq> A" using 1(2) by (simp_all add: Cons)
    show ?thesis
    proof (cases "layer \<in> set visited")
      case True
      with 1(1) [OF _ q(2)] show ?thesis by (simp add: capture_loop.simps [of env "layer # rest"] Cons)
    next
      case False
      have next1: "\<exists>y. capture_loop env (rest @ children) (layer # visited) states1 g2 = Some y"
        if "entries_for_layer env True layer g1 = Inr (entries, children, g2)" for g1 entries children g2 states1
      proof -
        have "set children \<subseteq> openable env" using that by (auto simp: entries_for_layer_def split: sum.splits dest: entries_loop_opens)
        with q(2) assms(2) have "set (rest @ children) \<subseteq> A" by auto
        moreover have "card (A - set (layer # visited)) < card (A - set visited)"
          by (rule psubset_card_mono) (use assms(1) q(1) False in auto)
        ultimately show ?thesis by (intro 1(1)) simp_all
      qed
      from False show ?thesis
        by (auto simp: capture_loop.simps [of env "layer # rest"] Cons Let_def split: sum.splits prod.splits option.splits dest: next1)
    qed
  qed
qed

lemma new_graph_returns:
  assumes "finite (openable env)"
  shows "\<exists>y. new_authoritative_graph env root_layer authored1 = Some y"
proof -
  have "\<exists>y. capture_reachable env g = Some y" for g
    using capture_loop_returns [of "insert l (openable env)" env "[l]" for l, OF _ subset_insertI] assms
    by (auto simp: capture_reachable_def split: option.splits)
  then show ?thesis by (auto simp: new_authoritative_graph_def Let_def split: sum.splits prod.splits)
qed

section \<open>An example\<close>

text \<open>
  The root layer has the sublayer \<open>a.usd\<close>; on disk \<open>b.usd\<close> has the sublayer \<open>a.usd\<close>, too. The
  follower keeps its layers elsewhere.
\<close>

definition demo_entry :: "string \<Rightarrow> event" where
  "demo_entry p = [(''authored_path'', PStr p), (''offset'', PReal 0), (''scale'', PReal 1)]"

definition demo_keyed :: "string \<Rightarrow> string \<Rightarrow> event" where
  "demo_keyed p k = demo_entry p @ [(''layer_key'', PStr k)]"

definition demo_env :: "unit graph_env" where
  "demo_env = \<lparr>ge_lib = empty_lib, ge_resolve = (\<lambda>parent path. if path \<in> {''a.usd'', ''b.usd'', ''c.usd''} then Some path else None),
     ge_uuid = (\<lambda>n. replicate (n + 1) CHR ''u'')\<rparr>"

definition demo_client :: "unit graph_env" where
  "demo_client = demo_env\<lparr>ge_resolve := (\<lambda>parent path. map_of [(''a.usd'', ''local:a''), (''c.usd'', ''local:layer:u'')] path)\<rparr>"

definition demo_loc :: "string \<Rightarrow> string" where
  "demo_loc k = ''local:'' @ k"

definition demo_graph :: shared_graph where
  "demo_graph = \<lparr>gr_authoritative = True, gr_generation = ''g'', gr_revision = 1, gr_ready = True, gr_root_key = ''r'',
     gr_layers = [(''r'', ''root.usd''), (''a'', ''a.usd'')], gr_keys = [(''root.usd'', ''r''), (''a.usd'', ''a'')],
     gr_states = [(''r'', [demo_keyed ''a.usd'' ''a'']), (''a'', [])], gr_parent_revisions = [(''r'', 1), (''a'', 1)],
     gr_identity_keys = [(''root.usd'', ''r''), (''a.usd'', ''a'')], gr_identity_ids = [(''r'', ''root.usd''), (''a'', ''a.usd'')],
     gr_stage_root = ''root.usd'',
     gr_authored = (\<lambda>l. if l = ''root.usd'' \<or> l = ''b.usd'' then [demo_entry ''a.usd''] else []), gr_uuids = 0\<rparr>"

definition demo_edit :: "string list \<Rightarrow> topology_event" where
  "demo_edit paths = \<lparr>te_generation = ''g'', te_revision = 1, te_sublayers = map demo_entry paths\<rparr>"

lemma demo_commit:
  "case commit_topology demo_env ''r'' (demo_edit [''a.usd'', ''c.usd'']) demo_graph of
     Some (Inr (records, g)) \<Rightarrow>
       records = [(''r'', \<lparr>te_generation = ''g'', te_revision = 2, te_sublayers = [demo_keyed ''a.usd'' ''a'', demo_keyed ''c.usd'' ''layer:u'']\<rparr>),
         (''layer:u'', \<lparr>te_generation = ''g'', te_revision = 1, te_sublayers = []\<rparr>)] \<and>
       reachable_layer_keys g = [''r'', ''a'', ''layer:u'']
   | _ \<Rightarrow> False"
  by code_simp

lemma demo_normalized:
  "normalized demo_env [] = Inr []" "normalized demo_env [demo_keyed ''a.usd'' ''a''] = Inr [demo_keyed ''a.usd'' ''a'']"
  "normalized demo_env [demo_keyed ''a.usd'' ''a'', demo_keyed ''c.usd'' ''layer:u''] = Inr [demo_keyed ''a.usd'' ''a'', demo_keyed ''c.usd'' ''layer:u'']"
  by code_simp+

lemma demo_keys [simp]:
  "entry_key (demo_keyed p (c # k)) = Some (c # k)" "entry_path (demo_keyed p k) = p"
  by (simp_all add: entry_key_def demo_keyed_def demo_entry_def ev_str_def)

lemma demo_inv: "server_inv demo_env demo_graph"
proof -
  have "reachable_layer_keys demo_graph = [''r'', ''a'']" by code_simp
  with reachable_layer_keys_set [of demo_graph] have "reach (map_of (gr_states demo_graph)) (gr_root_key demo_graph) = {''r'', ''a''}"
    by (simp add: demo_graph_def)
  then show ?thesis
    using demo_normalized(1,2) by (auto simp: server_inv_def topo_ok_def topo_of_def demo_graph_def dom_def split: if_splits)
qed

lemma demo_routes: "routes_graph demo_client demo_loc demo_graph"
  by (auto simp: routes_graph_def routes_def demo_graph_def demo_client_def demo_loc_def split: if_splits)

lemma demo_loc_inj: "inj demo_loc"
  by (simp add: inj_def demo_loc_def)

text \<open>A follower that has the baseline of the example, and the edit that adds \<open>c.usd\<close>.\<close>

lemma demo_follower: "\<exists>c. in_step demo_env demo_loc (demo_graph, c)"
proof -
  have "case state_message demo_graph of Inl e \<Rightarrow> False | Inr m \<Rightarrow> True" by code_simp
  then obtain m where m: "state_message demo_graph = Inr m" by (auto split: sum.splits)
  let ?c = "empty_graph (demo_loc ''r'') (\<lambda>l. [])"
  obtain c where "apply_state demo_client m ?c = Inr (True, c)" "mirrors c demo_graph" "local_maps demo_loc c"
    using baseline_followed [OF demo_inv m _ demo_loc_inj, of demo_client ?c] demo_routes
    by (auto simp: routes_graph_def demo_client_def demo_graph_def empty_graph_def)
  with apply_state_stage_root demo_inv show ?thesis
    by (fastforce simp: in_step_def empty_graph_def demo_graph_def)
qed

lemma demo_adds_sublayer: "\<exists>g c'. mirror_step demo_env demo_client demo_loc (demo_graph, c) (g, c') \<and> reachable_layer_keys g = [''r'', ''a'', ''layer:u'']"
proof -
  let ?E = "[demo_keyed ''a.usd'' ''a'', demo_keyed ''c.usd'' ''layer:u'']"
  from demo_commit obtain records g where g: "commit_topology demo_env ''r'' (demo_edit [''a.usd'', ''c.usd'']) demo_graph = Some (Inr (records, g))"
    "records = [(''r'', \<lparr>te_generation = ''g'', te_revision = 2, te_sublayers = ?E\<rparr>), (''layer:u'', \<lparr>te_generation = ''g'', te_revision = 1, te_sublayers = []\<rparr>)]"
    "reachable_layer_keys g = [''r'', ''a'', ''layer:u'']" by (auto split: option.splits sum.splits)
  let ?S = "after_edit demo_env demo_graph (hd records)"
  have "?S ''r'' = Some ?E" using demo_normalized(3) by (simp add: after_edit_def g(2))
  then have "edge ?S ''r'' ''a''" by (simp add: edge_def keyed_def List.map_filter_simps)
  then have "''a'' \<in> reach ?S ''r''" by (rule reach_edge [OF reach_root])
  moreover have "reachable_layer_keys demo_graph = [''r'', ''a'']" "gr_root_key demo_graph = ''r''" by code_simp+
  ultimately have "no_reattachment demo_env demo_graph records g" by (simp add: no_reattachment_def g(3))
  moreover have "routes demo_client demo_loc ''r'' ?E" "routes demo_client demo_loc ''layer:u'' []"
    by (auto simp: routes_def demo_client_def demo_loc_def)
  ultimately show ?thesis using mirror_step.edit [OF g(1) _ _ refl] g(3) demo_normalized by (fastforce simp: g(2))
qed

section \<open>Properties\<close>



text \<open>C39. The walks over the layers on disk end: when a process can open finitely many layers, the capture of
  a stage, every topology edit and every refresh return, with a result or an exception.\<close>

lemma topology_walks_return:
  assumes "finite (openable env)"
  shows "(\<exists>y. new_authoritative_graph env root_layer authored1 = Some y) \<and> (\<exists>y. commit_topology env k ev g = Some y) \<and>
    (\<exists>y. refresh_resolved_sublayers env g = Some y)"
  using new_graph_returns [OF assms] commit_topology_returns [OF assms] refresh_returns [OF assms] by blast

lemma topology_walks_return_witness:
  "(\<exists>y. new_authoritative_graph demo_env ''b.usd'' (gr_authored demo_graph) = Some y) \<and>
   (\<exists>y. commit_topology demo_env ''r'' (demo_edit [''b.usd'']) demo_graph = Some y) \<and>
   (\<exists>y. refresh_resolved_sublayers demo_env demo_graph = Some y)"
proof -
  have "openable demo_env \<subseteq> {''a.usd'', ''b.usd'', ''c.usd''}" by (auto simp: openable_def demo_env_def split: if_splits)
  then have "finite (openable demo_env)" by (rule finite_subset) simp
  then show ?thesis by (rule topology_walks_return)
qed

text \<open>A case analysis with one possible outcome.\<close>

lemma outcome_iff:
  "(case x of Inl e \<Rightarrow> False | Inr y \<Rightarrow> P y) \<longleftrightarrow> (\<exists>y. x = Inr y \<and> P y)"
  "(case x of Inl e \<Rightarrow> Q e | Inr y \<Rightarrow> False) \<longleftrightarrow> (\<exists>e. x = Inl e \<and> Q e)"
  "(case u of None \<Rightarrow> False | Some v \<Rightarrow> R v) \<longleftrightarrow> (\<exists>v. u = Some v \<and> R v)"
  "(case p of (a, b) \<Rightarrow> S a b) \<longleftrightarrow> (\<exists>a b. p = (a, b) \<and> S a b)"
  by (auto split: sum.splits option.splits)

lemma demo_reattach:
  "case state_message demo_graph of Inl e \<Rightarrow> False | Inr m \<Rightarrow>
   (case apply_state demo_env m (empty_graph ''root.usd'' (gr_authored demo_graph)) of Inl e \<Rightarrow> False | Inr (newer, c) \<Rightarrow>
    (case commit_topology demo_env ''r'' (demo_edit [''b.usd'']) demo_graph of
       Some (Inr (records, g)) \<Rightarrow>
         (case apply_topology_records demo_env records c of Inl e \<Rightarrow> False | Inr c' \<Rightarrow>
           newer \<and> gr_states c = gr_states demo_graph \<and> gr_parent_revisions c = gr_parent_revisions demo_graph \<and>
           reachable_layer_keys c' = reachable_layer_keys g \<and> sublayers_for g ''a'' = Some [] \<and> sublayers_for c' ''a'' = None \<and>
           (case commit_topology demo_env ''a'' (demo_edit [''c.usd'']) g of
              Some (Inr (records', g')) \<Rightarrow>
                (case apply_topology_records demo_env records' c' of
                   Inl e \<Rightarrow> e = StaleLayerGraphError ''expected parent topology revision'' | Inr c2 \<Rightarrow> False)
            | _ \<Rightarrow> False))
     | _ \<Rightarrow> False))"
  by code_simp


end
