(* ===== verification/Spec2Isabelle.thy ===== *)
theory Spec2Isabelle
  imports Connection Producer_Protocol Sender Delivery Coalescing Collaboration Wire_Metrics Framing Receiver_Protocol History_Rewrite Child_Replay Layer_Graph_Correct
begin

text \<open>
  OpenUSDConnect synchronizes a USD scene between applications. An application (Blender, Unreal,
  usdview, a script) runs a client: an emitter turns local edits into event dictionaries, a sender
  submits them to the server as numbered transactions, and a receiver reads the server's broadcast
  and applies it to the local stage. The server validates transactions, applies them to its own
  stage, stores the resulting records in SQLite, answers the producer and publishes the records to
  every receiver; it compacts or replaces the stored history now and then.

  This library models the logic of that pipeline, from the bytes of a frame to the scene a
  receiver ends up with, and proves what each part promises and what they give together. The file
  names below are those of \<open>src/openusdconnect\<close> unless they start with \<open>native\<close>.

  \<^bold>\<open>Vocabulary\<close> (Prelude, Protocol). Exceptions are values: an operation that raises returns
  \<open>Inl\<close>. A Python dictionary is an association list in insertion order. An event is such a
  dictionary over \<open>pyval\<close>. Protocol has the kind table of \<open>protocol_constants.py\<close> and the sets the
  module derives from it. The locale \<open>invariant_system\<close> of the prelude (and \<open>monotone_system\<close>, which
  extends it) is the interface between a step relation and its invariant; every step relation of the
  library interprets it on its own definitions: barrier, coordinator, store, layer stack,
  collaboration policy, reservations, sender, producer link, delivery hub and receiver world.

  \<^bold>\<open>Transport\<close>. Framing (\<open>framing.py\<close>): length-prefixed frames over a socket that returns any
  number of bytes; the reader gets back the batch however the stream is cut. Wire_Metrics
  (\<open>server/metrics.py\<close>): the counters and the exactness of their totals.

  \<^bold>\<open>History\<close>. Event_Store (\<open>event_store.py\<close>): the SQLite tables as lists of rows, with the
  triggers and constraints as error branches; the locale \<open>event_store\<close> is the contract a store
  offers, interpreted by the SQLite model and used by the journal. Journal (\<open>server/journal.py\<close>):
  sequence numbers, encoding, the realtime queue, replay epochs. Txn_Barrier
  (\<open>server/_txn_barrier.py\<close>) separates transactions from maintenance. Compaction and
  Compaction_Correct (\<open>server/compaction.py\<close>, \<open>time_sample_delta.py\<close>): reduction of a log, its
  meaning as authored opinions, and that the reduction keeps them. History_Rewrite
  (\<open>server/maintenance.py\<close>, \<open>compact_log\<close> of \<open>server/state.py\<close>): the rewrite of the stored history
  under the exclusive barrier while producers append. Child_Replay (\<open>child_replay_records\<close>): the
  edits sent again below a loaded payload.

  \<^bold>\<open>The server's scene\<close>. Layer_Stack (\<open>server/layer_stack.py\<close>) and Collaboration
  (\<open>server/collaboration.py\<close>): managed department layers, their order on the session layer, and the
  admission of flat receivers. Scene_Tracking and Scene (\<open>server/scene.py\<close>): the bisected prim index
  with its abstract meaning, and the application of a transaction to the edit layers. Atomic_Apply
  (rollback classes of \<open>event_apply.py\<close>): restoring the layers when an edit raises. Validation
  (\<open>protocol_validation.py\<close>, \<open>sdf_spec_delta.py\<close>, \<open>shared_layer_graph.py\<close> entries): event admission.
  Layer_Graph (\<open>shared_layer_graph.py\<close>, \<open>layer_key_router.py\<close>, the topology part of
  \<open>_commit_shared\<close>): the layers of a shared stage, their keys, identities and sublayers, the edits of
  that topology on the server and their replay by clients and by a restarting server.
  Layer_Graph_Correct: its walk as reachability, its edits as steps of an abstract topology, and a
  server with a follower as a step relation, with the invariant by the locale \<open>invariant_system\<close>.

  \<^bold>\<open>Commits\<close>. Transactions (\<open>server/transactions.py\<close>): the coordinator's queue, batches and
  shutdown. Commit (\<open>server/commit.py\<close>): admission by producer mark, group commits with their
  individual fallback, rollback. Connection (\<open>server/connection.py\<close>): the hello checks, the read
  loop and the result worker. Rate_Limit, Playback, Authentication (\<open>server/rate_limit.py\<close>,
  \<open>server/playback.py\<close>, \<open>token_store.py\<close>).

  \<^bold>\<open>Producers\<close>. Producer_Session (\<open>native/client_core\<close>: the ordered outbox and the session state
  machine) and Sender (\<open>sender.py\<close>, \<open>recovery.py\<close>): submission, reconnection, recovery from
  rejections. Producer_Protocol runs a producer and the server's commits over a connection that
  breaks anywhere. Coalescing (\<open>coalescing.py\<close>): merging transforms; the locale \<open>keyed_writes\<close> states
  when writes may be merged past others and is interpreted by the transform applier.

  \<^bold>\<open>Receivers\<close>. Delivery (\<open>server/state.py\<close>, \<open>server/connection.py\<close>): publication, admission of
  receivers, resync and snapshots on the server side. Receiver_Inbox (\<open>native/client_core\<close>), Receiver
  (\<open>receiver.py\<close>, the batch decoder of \<open>codec.py\<close>, the cursor of \<open>dispatcher.py\<close>) and
  Receiver_Protocol: one receiver over breaking connections against a server that commits, rewrites
  and restarts.

  \<^bold>\<open>What is shown\<close>. A producer's transactions are committed once and in order; a group commit is
  sequential service; a failed commit leaves scene and history alone; every admitted request is
  answered; a receiver whose sends succeed gets every record once and in order, and a receiver that
  reports it is synchronized holds the replay of the history it names; compaction keeps the opinions
  of a log of typed edits, also when the log grows meanwhile; the replay below a payload leaves the
  opinions in force; a follower of a shared stage holds the topology of the server; invariants of the barrier, the layer stack, the policy, reservations, the
  sender and the receiver hold in every reachable state; loops end. The library also proves where the
  code departs from what it says: an oversized integer escapes validation as \<open>OverflowError\<close>, the
  managed rollback misses connection sources, compaction drops a renamed subtree and the type of a
  prim that a later schema-only ensure names, and an edit that replaces a sublayer by one that
  contains it leaves followers without the state of that layer.

  \<^bold>\<open>Bounds and choices\<close>. Counters that are 32 or 64 bits wide in the native code are \<open>int\<close> or
  \<open>nat\<close>; the wire's own limits are explicit (frame lengths below \<open>2 ^ 32\<close>). Floats are reals plus a
  non-finite value. Clocks and timeouts are arguments. Loops that poll are
  \<open>partial_function (option)\<close> with a proof that they return; so are the walks over layers on disk,
  which end when those are finite in number. Each function under a lock is one step;
  interleavings are sequences of steps. Code outside the repository is an argument with named laws:
  USD layers (\<open>sdf_law\<close>, \<open>usd\<close> records), FlatBuffers encoders and decoders, the application of an
  event to a stage.

  \<^bold>\<open>Not modelled\<close>. The FlatBuffers tables and their generated accessors (\<open>generated\<close>, most of
  \<open>codec.py\<close>): their content is the schema compiler's. Code whose state is a USD stage and whose
  behaviour is USD's composition (\<open>emitter.py\<close>, \<open>composed_projection.py\<close>, \<open>sdf_layer_tracker.py\<close>,
  \<open>sdf_delegate_bridge.py\<close>, most appliers of \<open>event_apply.py\<close>, \<open>shared_stage_client.py\<close>,
  \<open>server/snapshots.py\<close>): a model would have to make up USD. Application adapters and tools
  (\<open>integrations\<close>, \<open>scripts\<close>, \<open>server/vfs\<close>, \<open>vfs_mount.py\<close>, command lines, dashboards), which are
  glue around other programs. The manifest lists each with its reason.
\<close>

text \<open>C1. Framing round trip: whatever way the network cuts the byte stream of a batch into
  non-empty segments, the reader returns exactly the payloads of the batch, in order.\<close>

theorem framing_roundtrip:
  assumes "frame_batch ps = Inr stream" "segmented sock" "concat sock = stream"
    and "\<forall>p \<in> set ps. length p \<le> max_size" "max_size < 2 ^ 32"
  shows "recv_n (length ps) max_size sock = Inr ps"
proof -
  from assms(4,5) have small: "\<forall>p \<in> set ps. length p \<le> max_size \<and> length p < 2 ^ 32"
    by (meson order_le_less_trans)
  then have "stream = concat (map frame ps)"
    using assms(1) by (simp add: frame_batch_eq)
  with assms(2,3) small show ?thesis
    by (intro recv_n_frames [where rest = "[]"]) simp_all
qed

theorem framing_roundtrip_witness:
  "recv_n (Suc (Suc 0)) 10 [[0, 0], [0, 2, 7], [8, 0, 0, 0, 0]] = Inr [[7, 8], []]"
  using framing_roundtrip [of "[[7, 8], []]" "[0, 0, 0, 2, 7, 8, 0, 0, 0, 0]"
      "[[0, 0], [0, 2, 7], [8, 0, 0, 0, 0]]" 10]
  by (simp add: frame_batch_def Let_def HEADER_SIZE_def header_pack_def be32_def splice_def
      segmented_def del: recv_n.simps)

end
